(* ===== verification/Prelude.thy ===== *)
theory Prelude
  imports Main "HOL-Library.Word" "HOL-Library.Monad_Syntax"
begin

text \<open>
  What every component of the development shares: the machine integer types of the C code, reading
  of byte buffers and of C strings, the result codes of SQLite, and the generic lemmas on words,
  lists and options that the component proofs use.

  Conventions. A byte buffer is a \<open>u8 list\<close>, and a read past its end is \<open>None\<close> (\<open>rd\<close>). A
  zero-terminated string is the \<open>u8 list\<close> of its bytes without the terminator; reading the position
  just past the last byte gives 0 (\<open>chr_at\<close>), as the C code finds the terminator there.
\<close>

unbundle bit_operations_syntax

type_synonym u8 = "8 word"
type_synonym u16 = "16 word"
type_synonym u32 = "32 word"
type_synonym u64 = "64 word"
type_synonym i32 = "32 word"
type_synonym i64 = "64 word"
type_synonym cstring = "8 word list"

section \<open>Named collections\<close>

text \<open>\<open>mask_simps\<close>: constant masks and tests as \<open>take_bit\<close>, \<open>mask\<close> and \<open>bit\<close>.
  \<open>inv_intros\<close>: the facts that an operation keeps its component's invariant.\<close>

named_theorems mask_simps
named_theorems inv_intros

section \<open>Result codes\<close>

definition SQLITE_OK :: int where "SQLITE_OK = 0"
definition SQLITE_NOMEM :: int where "SQLITE_NOMEM = 7"
definition SQLITE_IOERR_SHORT_READ :: int where "SQLITE_IOERR_SHORT_READ = 522"
definition SQLITE_IOERR_NOMEM :: int where "SQLITE_IOERR_NOMEM = 3082"

lemmas rc_defs = SQLITE_OK_def SQLITE_NOMEM_def SQLITE_IOERR_SHORT_READ_def SQLITE_IOERR_NOMEM_def

section \<open>Buffers and strings\<close>

definition rd :: "'a list \<Rightarrow> nat \<Rightarrow> 'a option" where
  "rd p i = (if i < length p then Some (p ! i) else None)"

definition chr_at :: "cstring \<Rightarrow> nat \<Rightarrow> u8" where
  "chr_at z i = (if i < length z then z ! i else 0)"

text \<open>The bytes of an ASCII literal.\<close>

definition asc :: "string \<Rightarrow> cstring" where
  "asc s = map of_char s"

text \<open>What \<open>%d\<close> and \<open>%lu\<close> print.\<close>

fun dec_nat :: "nat \<Rightarrow> cstring" where
  "dec_nat n = (if n < 10 then [of_nat (48 + n)] else dec_nat (n div 10) @ [of_nat (48 + n mod 10)])"

declare dec_nat.simps [simp del]

definition fmt_d :: "int \<Rightarrow> cstring" where
  "fmt_d v = (if v < 0 then 0x2d # dec_nat (nat (- v)) else dec_nat (nat v))"

lemma rd_Cons_0 [simp]: "rd (x # xs) 0 = Some x"
  by (simp add: rd_def)

lemma rd_Cons_Suc [simp]: "rd (x # xs) (Suc i) = rd xs i"
  by (simp add: rd_def)

lemma rd_Nil [simp]: "rd [] i = None"
  by (simp add: rd_def)

lemma rd_Cons_numeral [simp]: "rd (x # xs) (numeral k) = rd xs (pred_numeral k)"
  by (simp add: numeral_eq_Suc)

lemma rd_Some_iff: "rd p i = Some x \<longleftrightarrow> i < length p \<and> p ! i = x"
  by (auto simp: rd_def)

lemma chr_at_Cons_0 [simp]: "chr_at (c # z) 0 = c"
  by (simp add: chr_at_def)

lemma chr_at_Cons_Suc [simp]: "chr_at (c # z) (Suc i) = chr_at z i"
  by (simp add: chr_at_def)

lemma chr_at_Nil [simp]: "chr_at [] i = 0"
  by (simp add: chr_at_def)

lemma chr_at_Cons_numeral [simp]: "chr_at (c # z) (numeral k) = chr_at z (pred_numeral k)"
  by (simp add: numeral_eq_Suc)

lemma asc_simps [simp]: "asc [] = []" "asc (c # cs) = of_char c # asc cs"
  by (simp_all add: asc_def)

lemma length_asc [simp]: "length (asc s) = length s"
  by (simp add: asc_def)

section \<open>Words\<close>

text \<open>The positions below 64 as an explicit set, for equations proved bit by bit.\<close>

lemma bit_positions_64:
  assumes "n < (64::nat)"
  shows "n \<in> {0,1,2,3,4,5,6,7,8,9,10,11,12,13,14,15,16,17,18,19,20,21,22,23,24,25,26,27,28,29,30,31,
    32,33,34,35,36,37,38,39,40,41,42,43,44,45,46,47,48,49,50,51,52,53,54,55,56,57,58,59,60,61,62,63}"
proof -
  have "list_all (\<lambda>n::nat. n \<in> {0,1,2,3,4,5,6,7,8,9,10,11,12,13,14,15,16,17,18,19,20,21,22,23,24,25,26,27,
    28,29,30,31,32,33,34,35,36,37,38,39,40,41,42,43,44,45,46,47,48,49,50,51,52,53,54,55,56,57,58,59,
    60,61,62,63}) [0..<64]"
    by code_simp
  with assms show ?thesis by (simp only: list_all_iff set_upt) simp
qed

lemma bit_positions_32:
  assumes "n < (32::nat)"
  shows "n \<in> {0,1,2,3,4,5,6,7,8,9,10,11,12,13,14,15,16,17,18,19,20,21,22,23,24,25,26,27,28,29,30,31}"
proof -
  have "list_all (\<lambda>n::nat. n \<in> {0,1,2,3,4,5,6,7,8,9,10,11,12,13,14,15,16,17,18,19,20,21,22,23,24,25,26,27,
    28,29,30,31}) [0..<32]"
    by code_simp
  with assms show ?thesis by (simp only: list_all_iff set_upt) simp
qed

text \<open>Two words are equal if they agree on every position: the form the bit-by-bit proofs use.\<close>

lemma u64_eqI:
  assumes "\<And>n. n \<in> {0,1,2,3,4,5,6,7,8,9,10,11,12,13,14,15,16,17,18,19,20,21,22,23,24,25,26,27,28,29,
    30,31,32,33,34,35,36,37,38,39,40,41,42,43,44,45,46,47,48,49,50,51,52,53,54,55,56,57,58,59,60,61,62,
    63} \<Longrightarrow> bit (x::u64) n \<longleftrightarrow> bit y n"
  shows "x = y"
  by (rule bit_word_eqI, rule assms, rule bit_positions_64) simp

lemma u32_eqI:
  assumes "\<And>n. n \<in> {0,1,2,3,4,5,6,7,8,9,10,11,12,13,14,15,16,17,18,19,20,21,22,23,24,25,26,27,28,29,
    30,31} \<Longrightarrow> bit (x::u32) n \<longleftrightarrow> bit y n"
  shows "x = y"
  by (rule bit_word_eqI, rule assms, rule bit_positions_32) simp

lemma bit_positions_8:
  assumes "n < (8::nat)"
  shows "n \<in> {0,1,2,3,4,5,6,7}"
proof -
  have "list_all (\<lambda>n::nat. n \<in> {0,1,2,3,4,5,6,7}) [0..<8]"
    by code_simp
  with assms show ?thesis by (simp only: list_all_iff set_upt) simp
qed

lemma not_bit_u8 [simp]: "8 \<le> n \<Longrightarrow> \<not> bit (w::u8) n"
  using bit_imp_le_length[of w n] by auto

lemma not_bit_u32 [simp]: "32 \<le> n \<Longrightarrow> \<not> bit (w::u32) n"
  using bit_imp_le_length[of w n] by auto

lemma and_7f [mask_simps]: "(x::'a::len word) AND 0x7f = take_bit 7 x"
  by (simp add: take_bit_eq_mask mask_eq_exp_minus_1)

lemma and_3f [mask_simps]: "(x::'a::len word) AND 0x3f = take_bit 6 x"
  by (simp add: take_bit_eq_mask mask_eq_exp_minus_1)

lemma and_ff [mask_simps]: "(x::'a::len word) AND 0xff = take_bit 8 x"
  by (simp add: take_bit_eq_mask mask_eq_exp_minus_1)

lemma and_80 [mask_simps]: "(x::'a::len word) AND 0x80 = 0 \<longleftrightarrow> \<not> bit x 7"
proof -
  have "(0x80::'a word) = push_bit 7 1" by simp
  then show ?thesis by (simp only: bit_iff_and_push_bit_not_eq_0) simp
qed

lemma bit_80_int [mask_simps]: "bit (0x80::int) n \<longleftrightarrow> n = 7"
proof -
  have "(0x80::int) = push_bit 7 1" by simp
  then show ?thesis by (simp only: bit_simps) auto
qed

lemma bit_80 [mask_simps]: "bit (0x80::'a::len word) n \<longleftrightarrow> n = 7 \<and> 7 < LENGTH('a)"
  by (auto simp: bit_simps bit_80_int)

text \<open>The sign test of a byte read through a \<open>signed char\<close> pointer.\<close>

lemma sint_u8_nonneg [mask_simps]: "0 \<le> sint (x::u8) \<longleftrightarrow> \<not> bit x 7"
  by (simp add: bit_last_iff [symmetric] not_less [symmetric])

lemma unat_drop_bit_less: "drop_bit k (v::'a::len word) \<noteq> 0 \<Longrightarrow> 0 < k \<Longrightarrow> unat (drop_bit k v) < unat v"
proof -
  assume nz: "drop_bit k v \<noteq> 0" and k: "0 < k"
  have "unat (drop_bit k v) = unat v div 2 ^ k"
    by (simp only: unat_drop_bit_eq) (simp add: drop_bit_eq_div)
  moreover have "unat v \<noteq> 0"
    using nz by (metis drop_bit_of_0 unat_eq_zero)
  ultimately show ?thesis
    using k one_less_power[of "2::nat" k] by (simp only:) (rule div_less_dividend, auto)
qed

lemma take_bit_word_small: "unat v < 2 ^ k \<Longrightarrow> take_bit k (v::'a::len word) = v"
  by (simp add: word_unat_eq_iff unsigned_take_bit_eq take_bit_nat_eq_self)

lemma unat_u8_less [simp]: "unat (c::u8) < 256"
  using unsigned_less[of c] by simp

lemma unat_u8_le: "unat (c::u8) \<le> 255"
  using unat_u8_less[of c] by linarith

section \<open>Allocations\<close>

text \<open>What the allocator will answer, as a list: each attempt takes the next answer, and once the list
  is used up every attempt succeeds. The empty list is unlimited memory.\<close>

type_synonym allocs = "bool list"

definition next_alloc :: "allocs \<Rightarrow> bool \<times> allocs" where
  "next_alloc al = (case al of [] \<Rightarrow> (True, []) | b # bs \<Rightarrow> (b, bs))"

lemma next_alloc_Nil [simp]: "next_alloc [] = (True, [])"
  by (simp add: next_alloc_def)

lemma next_alloc_Cons [simp]: "next_alloc (b # bs) = (b, bs)"
  by (simp add: next_alloc_def)

end
