(* ===== verification/Codec.thy ===== *)
theory Codec
  imports Prelude
begin

text \<open>
  The contract of a self-delimiting byte encoding: an encoder \<open>enc\<close> and a decoder \<open>dec\<close> that
  returns the value and the number of bytes it consumed. \<open>ok\<close> is the set of values the encoding is
  for and \<open>follow\<close> says what may come after an encoded value (anything for a varint; anything but a
  continuation byte for UTF-8). The client lemmas say that a run of encoded values decodes to these
  values, and that no encoding is a prefix of another.
\<close>

fun dec_many :: "(u8 list \<Rightarrow> ('a \<times> nat) option) \<Rightarrow> nat \<Rightarrow> u8 list \<Rightarrow> ('a list \<times> nat) option" where
  "dec_many dec 0 bs = Some ([], 0)"
| "dec_many dec (Suc n) bs =
     (case dec bs of
        None \<Rightarrow> None
      | Some (x, k) \<Rightarrow>
          (case dec_many dec n (drop k bs) of
             None \<Rightarrow> None
           | Some (xs, m) \<Rightarrow> Some (x # xs, k + m)))"

locale byte_code =
  fixes enc :: "'a \<Rightarrow> u8 list"
    and dec :: "u8 list \<Rightarrow> ('a \<times> nat) option"
    and ok :: "'a \<Rightarrow> bool"
    and follow :: "u8 list \<Rightarrow> bool"
  assumes dec_enc: "ok x \<Longrightarrow> follow rest \<Longrightarrow> dec (enc x @ rest) = Some (x, length (enc x))"
    and follow_enc: "ok x \<Longrightarrow> follow (enc x @ rest)"
begin

lemma dec_many_enc:
  "\<forall>x \<in> set xs. ok x \<Longrightarrow> follow rest \<Longrightarrow>
   dec_many dec (length xs) (concat (map enc xs) @ rest)
     = Some (xs, length (concat (map enc xs)))"
proof (induction xs)
  case Nil
  then show ?case by simp
next
  case (Cons x xs)
  let ?tail = "concat (map enc xs) @ rest"
  have "follow ?tail"
    using Cons.prems by (cases xs) (auto intro: follow_enc)
  then have "dec (enc x @ ?tail) = Some (x, length (enc x))"
    using Cons.prems by (intro dec_enc) auto
  moreover have "dec_many dec (length xs) ?tail = Some (xs, length (concat (map enc xs)))"
    using Cons by simp
  ultimately show ?case by simp
qed

lemma enc_prefix_free:
  assumes "ok x" "ok y" "follow r" "follow s" "enc x @ r = enc y @ s"
  shows "x = y \<and> r = s"
proof -
  have "Some (x, length (enc x)) = Some (y, length (enc y))"
    using dec_enc[of x r] dec_enc[of y s] assms by simp
  with assms show ?thesis by auto
qed

lemma enc_inj: "ok x \<Longrightarrow> ok y \<Longrightarrow> follow [] \<Longrightarrow> enc x = enc y \<Longrightarrow> x = y"
  using enc_prefix_free[of x y "[]" "[]"] by simp

end

end
