(* ===== verification/Varint.thy ===== *)
theory Varint
  imports Codec
begin

text \<open>
  The variable-length integers of SQLite's record and cell formats (\<open>util.c\<close> in
  \<open>kvtest/sqlite3.c\<close>): every rowid, payload size and record header of the \<open>kv\<close> table goes through
  these routines. The reader \<open>sqlite3GetVarint\<close> is an unrolled loop on three 32-bit accumulators;
  \<open>varint_spec\<close> is the plain loop over the format described in the source's comment, and the two
  are equal on every buffer.
\<close>

section \<open>Writing\<close>

text \<open>The loop of \<open>putVarint64\<close> for nine bytes fills \<open>p[7]\<close> down to \<open>p[0]\<close>; here the bytes are
  put in front of those already written.\<close>

fun put9_loop :: "nat \<Rightarrow> u64 \<Rightarrow> u8 list \<Rightarrow> u8 list" where
  "put9_loop 0 v p = p"
| "put9_loop (Suc i) v p = put9_loop i (drop_bit 7 v) (ucast ((v AND 0x7f) OR 0x80) # p)"

function put_buf :: "u64 \<Rightarrow> u8 list" where
  "put_buf v =
     (let b = ucast ((v AND 0x7f) OR 0x80); v' = drop_bit 7 v
      in if v' \<noteq> 0 then b # put_buf v' else [b])"
  by pat_completeness auto
termination
  by (relation "measure unat") (auto intro: unat_drop_bit_less)

declare put_buf.simps [simp del]

definition putVarint64 :: "u64 \<Rightarrow> u8 list \<times> nat" where
  "putVarint64 v =
     (if v AND push_bit 32 0xff000000 \<noteq> 0
      then (put9_loop 8 (drop_bit 8 v) [ucast v], 9)
      else let buf = put_buf v; buf' = buf[0 := buf ! 0 AND 0x7f]
           in (rev buf', length buf'))"

definition sqlite3PutVarint :: "u64 \<Rightarrow> u8 list \<times> nat" where
  "sqlite3PutVarint v =
     (if v \<le> 0x7f then ([ucast (v AND 0x7f)], 1)
      else if v \<le> 0x3fff
      then ([ucast ((drop_bit 7 v AND 0x7f) OR 0x80), ucast (v AND 0x7f)], 2)
      else putVarint64 v)"

section \<open>Reading\<close>

definition SLOT_2_0 :: u32 where "SLOT_2_0 = 0x001fc07f"
definition SLOT_4_2_0 :: u32 where "SLOT_4_2_0 = 0xf01fc07f"

definition sqlite3GetVarint :: "u8 list \<Rightarrow> (u64 \<times> nat) option" where
  "sqlite3GetVarint p = do {
     p0 \<leftarrow> rd p 0;
     if 0 \<le> sint p0 then Some (ucast p0, 1) else do {
     p1 \<leftarrow> rd p 1;
     if 0 \<le> sint p1
     then Some (ucast (push_bit 7 (ucast (p0 AND 0x7f) :: u32) OR ucast p1), 2) else do {
     let a = push_bit 14 (ucast p0 :: u32);
     let b = (ucast p1 :: u32);
     p2 \<leftarrow> rd p 2;
     let a = a OR ucast p2;
     if a AND 0x80 = 0
     then (let a = a AND SLOT_2_0; b = b AND 0x7f; b = push_bit 7 b; a = a OR b
           in Some (ucast a, 3)) else do {
     let a = a AND SLOT_2_0;
     p3 \<leftarrow> rd p 3;
     let b = push_bit 14 b OR ucast p3;
     if b AND 0x80 = 0
     then (let b = b AND SLOT_2_0; a = push_bit 7 a; a = a OR b
           in Some (ucast a, 4)) else do {
     let b = b AND SLOT_2_0;
     let s = a;
     p4 \<leftarrow> rd p 4;
     let a = push_bit 14 a OR ucast p4;
     if a AND 0x80 = 0
     then (let b = push_bit 7 b; a = a OR b; s = drop_bit 18 s
           in Some (push_bit 32 (ucast s) OR ucast a, 5)) else do {
     let s = push_bit 7 s OR b;
     p5 \<leftarrow> rd p 5;
     let b = push_bit 14 b OR ucast p5;
     if b AND 0x80 = 0
     then (let a = a AND SLOT_2_0; a = push_bit 7 a; a = a OR b; s = drop_bit 18 s
           in Some (push_bit 32 (ucast s) OR ucast a, 6)) else do {
     p6 \<leftarrow> rd p 6;
     let a = push_bit 14 a OR ucast p6;
     if a AND 0x80 = 0
     then (let a = a AND SLOT_4_2_0; b = b AND SLOT_2_0; b = push_bit 7 b; a = a OR b;
               s = drop_bit 11 s
           in Some (push_bit 32 (ucast s) OR ucast a, 7)) else do {
     let a = a AND SLOT_2_0;
     p7 \<leftarrow> rd p 7;
     let b = push_bit 14 b OR ucast p7;
     if b AND 0x80 = 0
     then (let b = b AND SLOT_4_2_0; a = push_bit 7 a; a = a OR b; s = drop_bit 4 s
           in Some (push_bit 32 (ucast s) OR ucast a, 8)) else do {
     p8 \<leftarrow> rd p 8;
     let a = push_bit 15 a OR ucast p8;
     let b = push_bit 8 (b AND SLOT_2_0);
     let a = a OR b;
     let s = push_bit 4 s;
     let b = drop_bit 3 (ucast p4 AND 0x7f);
     let s = s OR b;
     Some (push_bit 32 (ucast s) OR ucast a, 9) }}}}}}}}}"

definition sqlite3GetVarint32 :: "u8 list \<Rightarrow> (u32 \<times> nat) option" where
  "sqlite3GetVarint32 p = do {
     p0 \<leftarrow> rd p 0;
     p1 \<leftarrow> rd p 1;
     if p1 AND 0x80 = 0 then Some (push_bit 7 (ucast (p0 AND 0x7f)) OR ucast p1, 2) else do {
     p2 \<leftarrow> rd p 2;
     if p2 AND 0x80 = 0
     then Some (push_bit 14 (ucast (p0 AND 0x7f)) OR push_bit 7 (ucast (p1 AND 0x7f)) OR ucast p2, 3)
     else do {
     (v64, n) \<leftarrow> sqlite3GetVarint p;
     Some (if v64 AND 0xffffffff \<noteq> v64 then 0xffffffff else ucast v64, n) }}}"

text \<open>\<open>sqlite3VarintLen\<close>: the loop counts how often the value can be shifted right by 7.\<close>

function varint_len_loop :: "u64 \<Rightarrow> nat \<Rightarrow> nat" where
  "varint_len_loop v i =
     (let v' = drop_bit 7 v in if v' \<noteq> 0 then varint_len_loop v' (i + 1) else i)"
  by pat_completeness auto
termination
  by (relation "measure (\<lambda>(v, i). unat v)") (auto intro: unat_drop_bit_less)

declare varint_len_loop.simps [simp del]

definition sqlite3VarintLen :: "u64 \<Rightarrow> nat" where
  "sqlite3VarintLen v = varint_len_loop v 1"

section \<open>The format as a plain loop\<close>

text \<open>Bytes are read in turn: the low seven bits of each byte with the high bit set, then all of the
  last byte; the ninth byte is always the last and gives eight bits.\<close>

fun varint_spec_loop :: "nat \<Rightarrow> u64 \<Rightarrow> u8 list \<Rightarrow> (u64 \<times> nat) option" where
  "varint_spec_loop i acc [] = None"
| "varint_spec_loop i acc (c # cs) =
     (if i = 8 then Some (push_bit 8 acc OR ucast c, 9)
      else if bit c 7 then varint_spec_loop (Suc i) (push_bit 7 acc OR take_bit 7 (ucast c)) cs
      else Some (push_bit 7 acc OR ucast c, Suc i))"

definition varint_spec :: "u8 list \<Rightarrow> (u64 \<times> nat) option" where
  "varint_spec = varint_spec_loop 0 0"

section \<open>The reader is the plain loop\<close>

lemma SLOT_2_0_eq [mask_simps]: "SLOT_2_0 = push_bit 14 (mask 7) OR mask 7"
  by (simp add: SLOT_2_0_def mask_eq_exp_minus_1)

lemma SLOT_4_2_0_eq [mask_simps]: "SLOT_4_2_0 = push_bit 28 (mask 4) OR push_bit 14 (mask 7) OR mask 7"
  by (simp add: SLOT_4_2_0_def mask_eq_exp_minus_1)

lemmas get_unfold = sqlite3GetVarint_def varint_spec_def Let_def mask_simps bit_simps

text \<open>One lemma per length of the encoding; the masks, shifts and saved accumulators of each branch
  amount to the same 64 bits as the loop.\<close>

lemma get_1: "\<not> bit p0 7 \<Longrightarrow> sqlite3GetVarint (p0 # ps) = varint_spec (p0 # ps)"
  by (simp add: get_unfold)

lemma get_2:
  assumes "bit p0 7" "\<not> bit p1 7"
  shows "sqlite3GetVarint (p0 # p1 # ps) = varint_spec (p0 # p1 # ps)"
  using assms
  by (simp add: get_unfold, intro u64_eqI) (elim insertE emptyE; simp add: bit_simps mask_simps)

lemma get_3:
  assumes "bit p0 7" "bit p1 7" "\<not> bit p2 7"
  shows "sqlite3GetVarint (p0 # p1 # p2 # ps) = varint_spec (p0 # p1 # p2 # ps)"
  using assms
  by (simp add: get_unfold, intro u64_eqI) (elim insertE emptyE; simp add: bit_simps mask_simps)

lemma get_4:
  assumes "bit p0 7" "bit p1 7" "bit p2 7" "\<not> bit p3 7"
  shows "sqlite3GetVarint (p0 # p1 # p2 # p3 # ps) = varint_spec (p0 # p1 # p2 # p3 # ps)"
  using assms
  by (simp add: get_unfold, intro u64_eqI) (elim insertE emptyE; simp add: bit_simps mask_simps)

lemma get_5:
  assumes "bit p0 7" "bit p1 7" "bit p2 7" "bit p3 7" "\<not> bit p4 7"
  shows "sqlite3GetVarint (p0 # p1 # p2 # p3 # p4 # ps) = varint_spec (p0 # p1 # p2 # p3 # p4 # ps)"
  using assms
  by (simp add: get_unfold, intro u64_eqI) (elim insertE emptyE; simp add: bit_simps mask_simps)

lemma get_6:
  assumes "bit p0 7" "bit p1 7" "bit p2 7" "bit p3 7" "bit p4 7" "\<not> bit p5 7"
  shows "sqlite3GetVarint (p0 # p1 # p2 # p3 # p4 # p5 # ps) = varint_spec (p0 # p1 # p2 # p3 # p4 # p5 # ps)"
  using assms
  by (simp add: get_unfold, intro u64_eqI) (elim insertE emptyE; simp add: bit_simps mask_simps)

lemma get_7:
  assumes "bit p0 7" "bit p1 7" "bit p2 7" "bit p3 7" "bit p4 7" "bit p5 7" "\<not> bit p6 7"
  shows "sqlite3GetVarint (p0 # p1 # p2 # p3 # p4 # p5 # p6 # ps) = varint_spec (p0 # p1 # p2 # p3 # p4 # p5 # p6 # ps)"
  using assms
  by (simp add: get_unfold, intro u64_eqI) (elim insertE emptyE; simp add: bit_simps mask_simps)

lemma get_8:
  assumes "bit p0 7" "bit p1 7" "bit p2 7" "bit p3 7" "bit p4 7" "bit p5 7" "bit p6 7" "\<not> bit p7 7"
  shows "sqlite3GetVarint (p0 # p1 # p2 # p3 # p4 # p5 # p6 # p7 # ps) = varint_spec (p0 # p1 # p2 # p3 # p4 # p5 # p6 # p7 # ps)"
  using assms
  by (simp add: get_unfold, intro u64_eqI) (elim insertE emptyE; simp add: bit_simps mask_simps)

lemma get_9:
  assumes "bit p0 7" "bit p1 7" "bit p2 7" "bit p3 7" "bit p4 7" "bit p5 7" "bit p6 7" "bit p7 7"
  shows "sqlite3GetVarint (p0 # p1 # p2 # p3 # p4 # p5 # p6 # p7 # p8 # ps) = varint_spec (p0 # p1 # p2 # p3 # p4 # p5 # p6 # p7 # p8 # ps)"
  using assms
  by (simp add: get_unfold, intro u64_eqI) (elim insertE emptyE; simp add: bit_simps mask_simps)

text \<open>A buffer that ends inside an encoding: both sides read past the end.\<close>

lemma get_short:
  assumes "length p < 9" "\<forall>c \<in> set p. bit c 7"
  shows "sqlite3GetVarint p = varint_spec p"
proof -
  have "length p \<in> {0,1,2,3,4,5,6,7,8}" using assms(1) by (simp only: insert_iff empty_iff) presburger
  then show ?thesis
    using assms(2)
    by (elim insertE emptyE)
      (auto simp: sqlite3GetVarint_def varint_spec_def mask_simps bit_simps length_Suc_conv
        numeral_eq_Suc)
qed


lemma split_at_low:
  assumes "9 \<le> length p \<or> (\<exists>c \<in> set p. \<not> bit c 7)"
  shows "\<exists>k < 9. k < length p \<and> (\<forall>i < k. bit (p ! i :: u8) 7) \<and> (k = 8 \<or> \<not> bit (p ! k) 7)"
proof (cases "\<exists>c \<in> set (take 9 p). \<not> bit c 7")
  case True
  then obtain i where "i < length (take 9 p)" "\<not> bit (take 9 p ! i) 7"
    by (auto simp only: in_set_conv_nth)
  then have ex: "\<exists>k. k < length (take 9 p) \<and> \<not> bit (p ! k) 7"
    by (intro exI[of _ i]) simp
  define k where "k = (LEAST k. k < length (take 9 p) \<and> \<not> bit (p ! k) 7)"
  have k: "k < length (take 9 p)" "\<not> bit (p ! k) 7"
    using LeastI_ex[OF ex] by (simp_all add: k_def)
  moreover have "\<forall>i<k. bit (p ! i) 7"
    using not_less_Least[of _ "\<lambda>k. k < length (take 9 p) \<and> \<not> bit (p ! k) 7"] k(1)
    unfolding k_def by (metis (no_types, lifting) order_less_trans)
  ultimately show ?thesis by auto
next
  case False
  then have "\<forall>c \<in> set (take 9 p). bit c 7"
    by blast
  then have all: "\<forall>i < length (take 9 p). bit (take 9 p ! i) 7"
    by (simp only: all_set_conv_all_nth)
  have "9 \<le> length p"
    using False assms by (metis take_all nat_le_linear)
  then show ?thesis using all by (intro exI[of _ 8]) auto
qed

lemma get_varint_at:
  assumes "k < length p" "\<forall>i < k. bit (p ! i) 7" "k = 8 \<or> \<not> bit (p ! k) 7" "k < 9"
  shows "sqlite3GetVarint p = varint_spec p"
proof -
  have "\<exists>q r. p = q @ r \<and> length q = Suc k"
    using assms(1) by (intro exI[of _ "take (Suc k) p"] exI[of _ "drop (Suc k) p"]) auto
  then obtain q ps where p: "p = q @ ps" and q: "length q = Suc k" by blast
  from assms have b: "\<forall>i < k. bit (q ! i) 7" "k = 8 \<or> \<not> bit (q ! k) 7"
    by (auto simp: p q nth_append)
  define Q where "Q c = bit c 7" for c :: u8
  note get_Q = get_1 get_2 get_3 get_4 get_5 get_6 get_7 get_8 get_9
  have "k \<in> {0,1,2,3,4,5,6,7,8}"
    using assms(4) by (simp only: insert_iff empty_iff) presburger
  then show ?thesis
    using q b unfolding p Q_def [symmetric]
    by (elim insertE emptyE)
      (auto simp: numeral_eq_Suc length_Suc_conv All_less_Suc intro: get_Q [folded Q_def])
qed

lemma get_varint_loop: "sqlite3GetVarint p = varint_spec p"
proof (cases "9 \<le> length p \<or> (\<exists>c \<in> set p. \<not> bit c 7)")
  case True
  from split_at_low[OF True] show ?thesis by (blast intro: get_varint_at)
next
  case False
  then show ?thesis by (intro get_short) auto
qed


section \<open>Round trip\<close>

lemma bit_cont_byte [simp]: "bit (ucast ((v AND 0x7f) OR 0x80 :: u64) :: u8) 7"
  by (simp add: bit_simps mask_simps)

lemma take_cont_byte [simp]:
  "take_bit 7 (ucast (ucast ((v AND 0x7f) OR 0x80 :: u64) :: u8)) = take_bit 7 (v :: u64)"
  by (rule bit_word_eqI) (auto simp: bit_simps mask_simps)

lemma drop_take_7: "push_bit 7 (drop_bit 7 v) OR take_bit 7 v = (v :: u64)"
  by (rule bit_word_eqI) (auto simp: bit_simps)

lemma put_buf_ne [simp]: "put_buf v \<noteq> []"
  by (subst put_buf.simps) (simp add: Let_def)

text \<open>The groups, read back in the order they are written, rebuild the value.\<close>

lemma spec_put_buf:
  "i + length (put_buf v) \<le> 8 \<Longrightarrow>
   varint_spec_loop i 0 (rev (put_buf v) @ rest) = varint_spec_loop (i + length (put_buf v)) v rest"
proof (induction v arbitrary: rest rule: put_buf.induct)
  case (1 v)
  let ?b = "ucast ((v AND 0x7f) OR 0x80) :: u8"
  show ?case
  proof (cases "drop_bit 7 v = 0")
    case True
    with drop_take_7[of v] have "take_bit 7 v = v" by simp
    with True "1.prems" show ?thesis by (simp add: put_buf.simps[of v])
  next
    case False
    then have eq: "put_buf v = ?b # put_buf (drop_bit 7 v)"
      by (simp add: put_buf.simps[of v] Let_def)
    have "varint_spec_loop i 0 (rev (put_buf (drop_bit 7 v)) @ ?b # rest)
        = varint_spec_loop (i + length (put_buf (drop_bit 7 v))) (drop_bit 7 v) (?b # rest)"
      using False "1.prems" by (intro "1.IH") (simp_all add: eq)
    with "1.prems" show ?thesis by (simp add: eq drop_take_7)
  qed
qed

lemma length_put_buf: "0 < k \<Longrightarrow> unat v < 2 ^ (7 * k) \<Longrightarrow> length (put_buf v) \<le> k"
proof (induction v arbitrary: k rule: put_buf.induct)
  case (1 v)
  show ?case
  proof (cases "drop_bit 7 v = 0")
    case True
    with "1.prems" show ?thesis by (simp add: put_buf.simps[of v])
  next
    case False
    have d: "unat (drop_bit 7 v) = unat v div 128"
      by (simp only: unat_drop_bit_eq) (simp add: drop_bit_eq_div)
    with False have ge: "128 \<le> unat v"
      by (metis div_less not_less unat_eq_zero)
    with "1.prems" obtain j where j: "k = Suc j" "0 < j"
      by (cases k; cases "k - 1") auto
    have "unat (drop_bit 7 v) < 2 ^ (7 * j)"
      using "1.prems"(2) unfolding d j(1) by (simp add: power_add less_mult_imp_div_less mult.commute)
    with False j have "length (put_buf (drop_bit 7 v)) \<le> j"
      by (intro "1.IH") simp_all
    with False j show ?thesis by (simp add: put_buf.simps[of v] Let_def)
  qed
qed

lemma length_put_buf_ge: "unat v \<ge> 2 ^ (7 * k) \<Longrightarrow> k < length (put_buf v)"
proof (induction v arbitrary: k rule: put_buf.induct)
  case (1 v)
  show ?case
  proof (cases k)
    case 0
    then show ?thesis by simp
  next
    case (Suc j)
    have d: "unat (drop_bit 7 v) = unat v div 128"
      by (simp only: unat_drop_bit_eq) (simp add: drop_bit_eq_div)
    have "(2::nat) ^ (7 * j) * 128 \<le> unat v"
      using "1.prems" Suc by (simp add: power_add mult.commute)
    then have ge: "2 ^ (7 * j) \<le> unat (drop_bit 7 v)"
      unfolding d by (simp add: less_eq_div_iff_mult_less_eq)
    then have "drop_bit 7 v \<noteq> 0"
      by (metis le_zero_eq power_not_zero unat_0 zero_neq_numeral)
    with ge show ?thesis
      using "1.IH"[OF refl refl _ ge] by (simp add: put_buf.simps[of v] Let_def Suc)
  qed
qed

lemma varint_len_loop_buf: "varint_len_loop v i = i + length (put_buf v) - 1"
proof (induction v i rule: varint_len_loop.induct)
  case (1 v i)
  show ?case
    using 1 by (subst varint_len_loop.simps, subst put_buf.simps) (simp add: Let_def)
qed

lemma high_byte_zero: "v AND push_bit 32 0xff000000 = 0 \<longleftrightarrow> unat (v::u64) < 2 ^ 56"
proof -
  have m: "push_bit 32 0xff000000 = (push_bit 56 (mask 8) :: u64)"
    by (simp add: mask_eq_exp_minus_1)
  have "v AND push_bit 32 0xff000000 = push_bit 56 (drop_bit 56 v)"
    unfolding m by (rule bit_word_eqI) (auto simp: bit_simps dest: bit_imp_le_length)
  moreover have "push_bit 56 (drop_bit 56 v) = 0 \<longleftrightarrow> drop_bit 56 v = 0"
  proof
    assume "push_bit 56 (drop_bit 56 v) = 0"
    then have "drop_bit 56 (push_bit 56 (drop_bit 56 v)) = 0" by simp
    moreover have "drop_bit 56 (push_bit 56 (drop_bit 56 v)) = drop_bit 56 v"
      by (rule bit_word_eqI) (auto simp: bit_simps dest: bit_imp_le_length)
    ultimately show "drop_bit 56 v = 0" by simp
  qed simp
  moreover have "drop_bit 56 v = 0 \<longleftrightarrow> unat v div 2 ^ 56 = 0"
    by (simp only: unat_eq_zero [symmetric] unat_drop_bit_eq) (simp add: drop_bit_eq_div)
  ultimately show ?thesis by (simp add: div_eq_0_iff)
qed

lemma put9_loop_numeral:
  "put9_loop (numeral k) v p
     = put9_loop (pred_numeral k) (drop_bit 7 v) (ucast ((v AND 0x7f) OR 0x80) # p)"
  by (simp add: numeral_eq_Suc)

lemma putVarint64_big:
  "2 ^ 56 \<le> unat v \<Longrightarrow> putVarint64 v = (put9_loop 8 (drop_bit 8 v) [ucast v], 9)"
  unfolding putVarint64_def high_byte_zero by simp

lemma putVarint64_small:
  "unat v < 2 ^ 56 \<Longrightarrow> putVarint64 v =
     (let buf = put_buf v; buf' = buf[0 := buf ! 0 AND 0x7f] in (rev buf', length buf'))"
  unfolding putVarint64_def high_byte_zero by simp

lemma put_nine:
  "2 ^ 56 \<le> unat v \<Longrightarrow> varint_spec (fst (putVarint64 v) @ rest) = Some (v, 9)"
  by (simp add: putVarint64_big varint_spec_def put9_loop_numeral, intro u64_eqI)
    (elim insertE emptyE; simp add: bit_simps mask_simps)

lemma low_byte [simp]:
  "ucast (ucast ((v AND 0x7f) OR 0x80 :: u64) AND 0x7f :: u8) = take_bit 7 (v::u64)"
  by (rule bit_word_eqI) (auto simp: bit_simps mask_simps)

lemma put_small:
  assumes "unat v < 2 ^ 56"
  shows "varint_spec (fst (putVarint64 v) @ rest) = Some (v, length (fst (putVarint64 v)))"
proof -
  have len: "length (put_buf v) \<le> 8"
    using length_put_buf[of 8 v] assms by simp
  let ?b = "ucast ((v AND 0x7f) OR 0x80) :: u8"
  have b: "\<not> bit (?b AND 0x7f) 7" 
    by (simp add: bit_simps mask_simps)
  show ?thesis
  proof (cases "drop_bit 7 v = 0")
    case True
    have "ucast (?b AND 0x7f) = v"
      using drop_take_7[of v] True by simp
    with True b show ?thesis
      by (simp add: putVarint64_small [OF assms] put_buf.simps[of v] varint_spec_def)
  next
    case False
    let ?r = "put_buf (drop_bit 7 v)"
    have eq: "put_buf v = ?b # ?r"
      using False by (simp add: put_buf.simps[of v] Let_def)
    have "varint_spec_loop 0 0 (rev ?r @ (?b AND 0x7f) # rest)
        = varint_spec_loop (length ?r) (drop_bit 7 v) ((?b AND 0x7f) # rest)"
      using spec_put_buf[of 0 "drop_bit 7 v"] len by (simp add: eq)
    moreover have "push_bit 7 (drop_bit 7 v) OR ucast (?b AND 0x7f) = v"
      using drop_take_7[of v] by simp
    ultimately show ?thesis
      using b len by (simp add: putVarint64_small [OF assms] eq varint_spec_def)
  qed
qed

lemma put_spec:
  "varint_spec (fst (sqlite3PutVarint v) @ rest) = Some (v, snd (sqlite3PutVarint v))"
proof -
  consider "v \<le> 0x7f" | "\<not> v \<le> 0x7f" "v \<le> 0x3fff" | "\<not> v \<le> 0x3fff" "\<not> v \<le> 0x7f"
    by blast
  then show ?thesis
  proof cases
    case 1
    then have "take_bit 7 v = v"
      by (intro take_bit_word_small) (simp add: word_le_nat_alt)
    moreover have "\<not> bit (ucast (v AND 0x7f) :: u8) 7" "ucast (ucast (v AND 0x7f) :: u8) = take_bit 7 v"
      by (simp_all add: bit_simps mask_simps) (rule bit_word_eqI, auto simp: bit_simps)
    ultimately show ?thesis
      using 1 by (simp add: sqlite3PutVarint_def varint_spec_def)
  next
    case 2
    then have "take_bit 14 v = v"
      by (intro take_bit_word_small) (simp add: word_le_nat_alt)
    moreover have "\<not> bit (ucast (v AND 0x7f) :: u8) 7"
      by (simp add: bit_simps mask_simps)
    moreover have "push_bit 7 (take_bit 7 (drop_bit 7 v)) OR ucast (ucast (v AND 0x7f) :: u8)
        = take_bit 14 v"
      by (rule bit_word_eqI) (auto simp: bit_simps mask_simps)
    ultimately show ?thesis
      using 2 by (simp add: sqlite3PutVarint_def varint_spec_def)
  next
    case 3
    then show ?thesis
    proof (cases "unat v < 2 ^ 56")
      case True
      with 3 put_small [OF True, of rest] show ?thesis
        by (simp add: sqlite3PutVarint_def putVarint64_small [OF True] Let_def)
    next
      case False
      then have big: "2 ^ 56 \<le> unat v" by simp
      with 3 put_nine [OF big, of rest] show ?thesis
        by (simp add: sqlite3PutVarint_def putVarint64_big [OF big])
    qed
  qed
qed


lemma snd_put: "snd (sqlite3PutVarint v) = length (fst (sqlite3PutVarint v))"
proof (cases "unat v < 2 ^ 56")
  case True
  then show ?thesis
    by (simp add: sqlite3PutVarint_def putVarint64_small Let_def)
next
  case False
  then have "length (fst (putVarint64 v)) = 9"
    by (simp add: putVarint64_big put9_loop_numeral)
  with False show ?thesis
    by (simp add: sqlite3PutVarint_def putVarint64_big)
qed

interpretation varint: byte_code
  "\<lambda>v. fst (sqlite3PutVarint v)" sqlite3GetVarint "\<lambda>_. True" "\<lambda>_. True"
  by unfold_locales (simp_all add: get_varint_loop put_spec snd_put)

lemma put_len_buf: "unat v < 2 ^ 56 \<Longrightarrow> snd (sqlite3PutVarint v) = length (put_buf v)"
proof -
  assume small: "unat v < 2 ^ 56"
  have le: "v \<le> 0x7f \<Longrightarrow> length (put_buf v) = 1"
    using length_put_buf[of 1 v] put_buf_ne[of v] by (cases "put_buf v") (simp_all add: word_le_nat_alt)
  have "\<not> v \<le> 0x7f \<Longrightarrow> v \<le> 0x3fff \<Longrightarrow> length (put_buf v) = 2"
    using length_put_buf[of 2 v] length_put_buf_ge[of 1 v] by (simp add: word_le_nat_alt)
  with le show ?thesis
    using small by (simp add: sqlite3PutVarint_def putVarint64_small Let_def)
qed

text \<open>C37. The unrolled reader \<open>sqlite3GetVarint\<close> returns on every buffer exactly what the plain
  loop over the varint format returns: the same 64-bit value, the same byte count, and a read past
  the end in the same cases.\<close>

theorem sqlite3GetVarint_is_loop: "sqlite3GetVarint p = varint_spec p"
  by (rule get_varint_loop)

text \<open>C38. Every 64-bit value written by \<open>sqlite3PutVarint\<close> is read back by \<open>sqlite3GetVarint\<close>,
  whatever bytes follow it, and the reader consumes exactly the bytes the writer reported.\<close>

theorem varint_roundtrip:
  "sqlite3GetVarint (fst (sqlite3PutVarint v) @ rest) = Some (v, snd (sqlite3PutVarint v))"
  by (simp add: get_varint_loop put_spec)

text \<open>A sequence of varints written one after the other, as in a record header, decodes to the
  same sequence.\<close>

theorem varint_sequence_roundtrip:
  "dec_many sqlite3GetVarint (length vs) (concat (map (\<lambda>v. fst (sqlite3PutVarint v)) vs) @ rest)
     = Some (vs, length (concat (map (\<lambda>v. fst (sqlite3PutVarint v)) vs)))"
  by (rule varint.dec_many_enc) simp_all

text \<open>\<open>sqlite3VarintLen\<close> is the number of bytes \<open>sqlite3PutVarint\<close> writes for values below
  2^63; from 2^63 on it answers 10 where the writer uses 9.\<close>

theorem sqlite3VarintLen_exact:
  "sqlite3VarintLen v = (if unat v < 2 ^ 63 then snd (sqlite3PutVarint v)
                         else snd (sqlite3PutVarint v) + 1)"
proof (cases "unat v < 2 ^ 56")
  case True
  then show ?thesis
    by (simp add: sqlite3VarintLen_def varint_len_loop_buf put_len_buf)
next
  case False
  then have put: "snd (sqlite3PutVarint v) = 9"
    by (simp add: sqlite3PutVarint_def putVarint64_big word_le_nat_alt)
  have "unat v < 2 ^ 64" using unsigned_less[of v] by simp
  then have "length (put_buf v) = (if unat v < 2 ^ 63 then 9 else 10)"
    using False length_put_buf[of 9 v] length_put_buf[of 10 v] length_put_buf_ge[of 8 v]
      length_put_buf_ge[of 9 v] by auto
  with put show ?thesis
    by (simp add: sqlite3VarintLen_def varint_len_loop_buf)
qed

lemma and_ffffffff: "v AND 0xffffffff \<noteq> v \<longleftrightarrow> v > (0xffffffff :: u64)"
proof -
  have m: "(0xffffffff :: u64) = mask 32" by (simp add: mask_eq_exp_minus_1)
  have "v AND mask 32 = v \<longleftrightarrow> unat v < 2 ^ 32"
    by (simp add: word_unat_eq_iff unsigned_take_bit_eq take_bit_nat_eq_self_iff flip: take_bit_eq_mask)
  then have "v AND 0xffffffff = v \<longleftrightarrow> unat v < 4294967296" by (simp add: m)
  moreover have "v > 0xffffffff \<longleftrightarrow> unat v > 4294967295" by (simp add: word_less_nat_alt)
  ultimately show ?thesis by linarith
qed

lemma ucast_u32_u64_u32 [simp]: "ucast (ucast (x :: u32) :: u64) = x"
  by (rule bit_word_eqI) (simp add: bit_simps)

lemma ucast_u32_le: "\<not> ucast (x :: u32) > (0xffffffff :: u64)"
proof -
  have "unat x < 2 ^ 32" using unsigned_less[of x] by simp
  then show ?thesis by (simp add: word_less_nat_alt unsigned_ucast_eq take_bit_nat_eq_self)
qed

lemma get32_two:
  assumes "bit p0 7" "\<not> bit p1 7"
  shows "varint_spec (p0 # p1 # ps)
     = Some (ucast (push_bit 7 (ucast (p0 AND 0x7f)) OR ucast p1 :: u32), 2)"
  using assms
  by (simp add: get_unfold, intro u64_eqI) (elim insertE emptyE; simp add: bit_simps mask_simps)

lemma get32_three:
  assumes "bit p0 7" "bit p1 7" "\<not> bit p2 7"
  shows "varint_spec (p0 # p1 # p2 # ps)
     = Some (ucast (push_bit 14 (ucast (p0 AND 0x7f)) OR push_bit 7 (ucast (p1 AND 0x7f)) OR ucast p2
         :: u32), 3)"
  using assms
  by (simp add: get_unfold, intro u64_eqI) (elim insertE emptyE; simp add: bit_simps mask_simps)

text \<open>For a buffer whose first byte has the continuation bit (the single-byte case is handled by
  the caller), \<open>sqlite3GetVarint32\<close> consumes the bytes \<open>sqlite3GetVarint\<close> does and returns its
  value, or 0xffffffff when that does not fit in 32 bits.\<close>

theorem sqlite3GetVarint32_saturates:
  assumes "bit p0 7"
  shows "sqlite3GetVarint32 (p0 # ps) =
    map_option (\<lambda>(v, n). (if v > 0xffffffff then 0xffffffff else ucast v, n))
      (sqlite3GetVarint (p0 # ps))"
proof (cases ps)
  case Nil
  with assms show ?thesis
    by (simp add: sqlite3GetVarint32_def get_varint_loop varint_spec_def)
next
  case (Cons p1 qs)
  show ?thesis
  proof (cases "bit p1 7")
    case False
    with assms show ?thesis
      by (simp add: Cons sqlite3GetVarint32_def and_80 get_varint_loop get32_two ucast_u32_le)
  next
    case p1: True
    show ?thesis
    proof (cases "qs \<noteq> [] \<and> \<not> bit (hd qs) 7")
      case True
      with assms p1 show ?thesis
        by (cases qs) (simp_all add: Cons sqlite3GetVarint32_def and_80 get_varint_loop get32_three ucast_u32_le)
    next
      case False
      with assms p1 show ?thesis
        by (cases qs) (simp_all add: Cons sqlite3GetVarint32_def and_80 and_ffffffff get_varint_loop
            varint_spec_def split: Option.bind_splits)
    qed
  qed
qed

theorem sqlite3GetVarint32_saturates_witness:
  "sqlite3GetVarint32 [0x90, 0x80, 0x80, 0x80, 0x00] = Some (0xffffffff, 5)"
proof -
  have "bit (0x90 :: u8) 7" by simp
  note * = sqlite3GetVarint32_saturates [OF this, of "[0x80, 0x80, 0x80, 0x00]"]
  show ?thesis
    unfolding * by (simp add: get_varint_loop varint_spec_def)
qed

end
