(* ===== verification/Utf.thy ===== *)
theory Utf
  imports Codec
begin

text \<open>
  Reading, writing and translating UTF-8 and UTF-16 (\<open>utf.c\<close>): the tolerant UTF-8 reader and its
  bounded variants, the writers, the character count, and \<open>sqlite3VdbeMemTranslate\<close>, which converts a
  string value between the three encodings through an output buffer of computed size. Characters are
  32-bit words, as in the code. The build does not define \<open>SQLITE_REPLACE_INVALID_UTF\<close>.
\<close>

section \<open>UTF-8\<close>

definition sqlite3Utf8Trans1 :: "u8 list" where
  "sqlite3Utf8Trans1 = [
     0x00, 0x01, 0x02, 0x03, 0x04, 0x05, 0x06, 0x07,
     0x08, 0x09, 0x0a, 0x0b, 0x0c, 0x0d, 0x0e, 0x0f,
     0x10, 0x11, 0x12, 0x13, 0x14, 0x15, 0x16, 0x17,
     0x18, 0x19, 0x1a, 0x1b, 0x1c, 0x1d, 0x1e, 0x1f,
     0x00, 0x01, 0x02, 0x03, 0x04, 0x05, 0x06, 0x07,
     0x08, 0x09, 0x0a, 0x0b, 0x0c, 0x0d, 0x0e, 0x0f,
     0x00, 0x01, 0x02, 0x03, 0x04, 0x05, 0x06, 0x07,
     0x00, 0x01, 0x02, 0x03, 0x00, 0x01, 0x00, 0x00]"

definition WRITE_UTF8 :: "u32 \<Rightarrow> u8 list" where
  "WRITE_UTF8 c =
     (if c < 0x00080 then [ucast (c AND 0xFF)]
      else if c < 0x00800 then
        [0xC0 + ucast (drop_bit 6 c AND 0x1F),
         0x80 + ucast (c AND 0x3F)]
      else if c < 0x10000 then
        [0xE0 + ucast (drop_bit 12 c AND 0x0F),
         0x80 + ucast (drop_bit 6 c AND 0x3F),
         0x80 + ucast (c AND 0x3F)]
      else
        [0xF0 + ucast (drop_bit 18 c AND 0x07),
         0x80 + ucast (drop_bit 12 c AND 0x3F),
         0x80 + ucast (drop_bit 6 c AND 0x3F),
         0x80 + ucast (c AND 0x3F)])"

text \<open>The inner loop of the readers: gather continuation bytes until one is missing, the terminator
  or the end of the input.\<close>

fun utf8_cont_loop :: "u32 \<Rightarrow> u8 list \<Rightarrow> u32 \<times> u8 list" where
  "utf8_cont_loop c [] = (c, [])"
| "utf8_cont_loop c (b # z) =
     (if b AND 0xc0 = 0x80 then utf8_cont_loop (push_bit 6 c + ucast (0x3f AND b)) z
      else (c, b # z))"

text \<open>\<open>READ_UTF8\<close> on a buffer that ends at \<open>zTerm\<close>; its callers read while \<open>zIn < zTerm\<close>.\<close>

definition READ_UTF8 :: "u8 list \<Rightarrow> (u32 \<times> u8 list) option" where
  "READ_UTF8 zIn =
     (case zIn of
        [] \<Rightarrow> None
      | b # z \<Rightarrow>
          Some (if 0xc0 \<le> (ucast b :: u32)
                then let (c, r) = utf8_cont_loop (ucast (sqlite3Utf8Trans1 ! (unat b - 0xc0))) z
                     in (if c < 0x80 \<or> c AND 0xFFFFF800 = 0xD800 \<or> c AND 0xFFFFFFFE = 0xFFFE
                         then 0xFFFD else c, r)
                else (ucast b, z)))"

text \<open>\<open>sqlite3Utf8Read\<close> on a zero-terminated string: at its end it reads the terminator and returns 0
  (the pointer then is past the terminator, where no caller reads on).\<close>

definition sqlite3Utf8Read :: "cstring \<Rightarrow> u32 \<times> cstring" where
  "sqlite3Utf8Read pz =
     (case pz of
        [] \<Rightarrow> (0, [])
      | b # z \<Rightarrow>
          if 0xc0 \<le> (ucast b :: u32)
          then let (c, r) = utf8_cont_loop (ucast (sqlite3Utf8Trans1 ! (unat b - 0xc0))) z
               in (if c < 0x80 \<or> c AND 0xFFFFF800 = 0xD800 \<or> c AND 0xFFFFFFFE = 0xFFFE
                   then 0xFFFD else c, r)
          else (ucast b, z))"

text \<open>\<open>sqlite3Utf8ReadLimited\<close>: at most \<open>n\<close> and at most four bytes; returns the character as it is
  and the number of bytes used.\<close>

fun utf8_limited_loop :: "u32 \<Rightarrow> nat \<Rightarrow> nat \<Rightarrow> u8 list \<Rightarrow> u32 \<times> nat" where
  "utf8_limited_loop c i n [] = (c, i)"
| "utf8_limited_loop c i n (b # z) =
     (if i < n \<and> b AND 0xc0 = 0x80
      then utf8_limited_loop (push_bit 6 c + ucast (0x3f AND b)) (i + 1) n z else (c, i))"

definition sqlite3Utf8ReadLimited :: "u8 list \<Rightarrow> nat \<Rightarrow> (u32 \<times> nat) option" where
  "sqlite3Utf8ReadLimited z n =
     (case z of
        [] \<Rightarrow> None
      | b # z' \<Rightarrow>
          Some (if 0xc0 \<le> (ucast b :: u32)
                then utf8_limited_loop (ucast (sqlite3Utf8Trans1 ! (unat b - 0xc0))) 1
                       (if n > 4 then 4 else n) z'
                else (ucast b, 1)))"

text \<open>\<open>SQLITE_SKIP_UTF8\<close> and the character count. \<open>nByte\<close> negative means no limit; \<open>i\<close> is the
  offset of the read pointer.\<close>

fun skip_cont :: "cstring \<Rightarrow> cstring" where
  "skip_cont [] = []"
| "skip_cont (b # z) = (if b AND 0xc0 = 0x80 then skip_cont z else b # z)"

lemma length_skip_cont: "length (skip_cont z) \<le> length z"
  by (induction z) auto

definition SQLITE_SKIP_UTF8 :: "cstring \<Rightarrow> cstring" where
  "SQLITE_SKIP_UTF8 z = (case z of [] \<Rightarrow> [] | b # z' \<Rightarrow> if 0xc0 \<le> b then skip_cont z' else z')"

lemma length_SKIP_UTF8: "z \<noteq> [] \<Longrightarrow> length (SQLITE_SKIP_UTF8 z) < length z"
  by (auto simp: SQLITE_SKIP_UTF8_def less_Suc_eq_le length_skip_cont split: list.splits)

function char_len_loop :: "cstring \<Rightarrow> int \<Rightarrow> int \<Rightarrow> nat \<Rightarrow> nat" where
  "char_len_loop z i nByte r =
     (if chr_at z 0 \<noteq> 0 \<and> (nByte \<ge> 0 \<longrightarrow> i < nByte)
      then let z' = SQLITE_SKIP_UTF8 z
           in char_len_loop z' (i + int (length z - length z')) nByte (r + 1)
      else r)"
  by pat_completeness auto
termination
  by (relation "measure (\<lambda>(z, i, nByte, r). length z)") (auto simp: chr_at_def length_SKIP_UTF8 split: if_splits)

declare char_len_loop.simps [simp del]

definition sqlite3Utf8CharLen :: "cstring \<Rightarrow> int \<Rightarrow> nat" where
  "sqlite3Utf8CharLen zIn nByte = char_len_loop zIn 0 nByte 0"

section \<open>UTF-16\<close>

definition WRITE_UTF16LE :: "u32 \<Rightarrow> u8 list" where
  "WRITE_UTF16LE c =
     (if c \<le> 0xFFFF then [ucast (c AND 0x00FF), ucast (drop_bit 8 c AND 0x00FF)]
      else [ucast ((drop_bit 10 c AND 0x003F) + (drop_bit 10 (c - 0x10000) AND 0x00C0)),
            ucast (0x00D8 + (drop_bit 18 (c - 0x10000) AND 0x03)),
            ucast (c AND 0x00FF),
            ucast (0x00DC + (drop_bit 8 c AND 0x03))])"

definition WRITE_UTF16BE :: "u32 \<Rightarrow> u8 list" where
  "WRITE_UTF16BE c =
     (if c \<le> 0xFFFF then [ucast (drop_bit 8 c AND 0x00FF), ucast (c AND 0x00FF)]
      else [ucast (0x00D8 + (drop_bit 18 (c - 0x10000) AND 0x03)),
            ucast ((drop_bit 10 c AND 0x003F) + (drop_bit 10 (c - 0x10000) AND 0x00C0)),
            ucast (0x00DC + (drop_bit 8 c AND 0x03)),
            ucast (c AND 0x00FF)])"

text \<open>One character of UTF-16 input, given the order of the two bytes of a unit: the body of the two
  reading loops of \<open>sqlite3VdbeMemTranslate\<close>. A surrogate takes the next unit if there is one.\<close>

definition unit16 :: "bool \<Rightarrow> u8 \<Rightarrow> u8 \<Rightarrow> u32" where
  "unit16 le b0 b1 = (if le then ucast b0 + push_bit 8 (ucast b1) else push_bit 8 (ucast b0) + ucast b1)"

fun read_utf16 :: "bool \<Rightarrow> u8 list \<Rightarrow> (u32 \<times> u8 list) option" where
  "read_utf16 le (b0 # b1 # z) =
     (let c = unit16 le b0 b1
      in if 0xd800 \<le> c \<and> c < 0xe000
         then (case z of
                 b2 # b3 # z' \<Rightarrow>
                   let c2 = unit16 le b2 b3
                   in Some ((c2 AND 0x03FF) + push_bit 10 (c AND 0x003F)
                        + push_bit 10 ((c AND 0x03C0) + 0x0040), z')
               | [] \<Rightarrow> Some (c, [])
               | _ \<Rightarrow> None)
         else Some (c, z))"
| "read_utf16 le _ = None"

section \<open>Translating a value between encodings\<close>

datatype text_enc = SQLITE_UTF8 | SQLITE_UTF16LE | SQLITE_UTF16BE

text \<open>The fields of \<open>Mem\<close> that these routines read and write, for a string value: the \<open>n\<close>
  content bytes, the encoding, the flags, and whether \<open>z\<close> is the value's own allocation
  (\<open>szMalloc\<close> positive and \<open>z\<close> equal to \<open>zMalloc\<close>), which is when it can be written in place.\<close>

record Mem =
  mem_z :: "u8 list"
  mem_enc :: text_enc
  mem_flags :: u16
  mem_own :: bool

definition MEM_Null :: u16 where "MEM_Null = 0x0001"
definition MEM_Str :: u16 where "MEM_Str = 0x0002"
definition MEM_Blob :: u16 where "MEM_Blob = 0x0010"
definition MEM_AffMask :: u16 where "MEM_AffMask = 0x003f"
definition MEM_Term :: u16 where "MEM_Term = 0x0200"
definition MEM_Subtype :: u16 where "MEM_Subtype = 0x0800"
definition MEM_Dyn :: u16 where "MEM_Dyn = 0x1000"
definition MEM_Static :: u16 where "MEM_Static = 0x2000"
definition MEM_Ephem :: u16 where "MEM_Ephem = 0x4000"

text \<open>\<open>sqlite3VdbeMemGrow\<close> with \<open>bPreserve\<close>: \<open>malloc_ok\<close> says whether the allocation succeeds; when
  it does not the value becomes NULL.\<close>

definition sqlite3VdbeMemGrow :: "bool \<Rightarrow> Mem \<Rightarrow> int \<times> Mem" where
  "sqlite3VdbeMemGrow malloc_ok pMem =
     (if \<not> malloc_ok
      then (SQLITE_NOMEM, pMem\<lparr>mem_z := [], mem_flags := MEM_Null, mem_own := False\<rparr>)
      else (SQLITE_OK, pMem\<lparr>mem_flags := mem_flags pMem AND NOT (MEM_Dyn OR MEM_Ephem OR MEM_Static),
                            mem_own := True\<rparr>))"

text \<open>\<open>vdbeMemAddTerminator\<close>: the three zero bytes lie past the content.\<close>

definition vdbeMemAddTerminator :: "bool \<Rightarrow> Mem \<Rightarrow> int \<times> Mem" where
  "vdbeMemAddTerminator malloc_ok pMem =
     (case sqlite3VdbeMemGrow malloc_ok pMem of
        (rc, m) \<Rightarrow> if rc \<noteq> SQLITE_OK then (SQLITE_NOMEM, m)
                   else (SQLITE_OK, m\<lparr>mem_flags := mem_flags m OR MEM_Term\<rparr>))"

text \<open>\<open>sqlite3VdbeMemMakeWriteable\<close> on a value without a zero-filled tail (\<open>MEM_Zero\<close> is for blobs).\<close>

definition sqlite3VdbeMemMakeWriteable :: "bool \<Rightarrow> Mem \<Rightarrow> int \<times> Mem" where
  "sqlite3VdbeMemMakeWriteable malloc_ok pMem =
     (let (rc, m) = (if mem_flags pMem AND (MEM_Str OR MEM_Blob) \<noteq> 0 \<and> \<not> mem_own pMem
                     then vdbeMemAddTerminator malloc_ok pMem else (SQLITE_OK, pMem))
      in if rc \<noteq> SQLITE_OK then (rc, m)
         else (SQLITE_OK, m\<lparr>mem_flags := mem_flags m AND NOT MEM_Ephem\<rparr>))"

text \<open>\<open>sqlite3VdbeMemHandleBom\<close>: a byte-order mark is removed and sets the encoding.\<close>

definition sqlite3VdbeMemHandleBom :: "bool \<Rightarrow> Mem \<Rightarrow> int \<times> Mem" where
  "sqlite3VdbeMemHandleBom malloc_ok pMem =
     (let bom = (case mem_z pMem of
                   b1 # b2 # _ \<Rightarrow> if b1 = 0xFE \<and> b2 = 0xFF then Some SQLITE_UTF16BE
                                  else if b1 = 0xFF \<and> b2 = 0xFE then Some SQLITE_UTF16LE else None
                 | _ \<Rightarrow> None)
      in case bom of
           None \<Rightarrow> (SQLITE_OK, pMem)
         | Some enc \<Rightarrow>
             (case sqlite3VdbeMemMakeWriteable malloc_ok pMem of
                (rc, m) \<Rightarrow> if rc \<noteq> SQLITE_OK then (rc, m)
                           else (rc, m\<lparr>mem_z := drop 2 (mem_z m), mem_flags := mem_flags m OR MEM_Term,
                                       mem_enc := enc\<rparr>)))"

lemma length_utf8_cont_loop: "length (snd (utf8_cont_loop c z)) \<le> length z"
  by (induction c z rule: utf8_cont_loop.induct) (auto simp: le_SucI)

lemma READ_UTF8_shorter: "READ_UTF8 z = Some (c, r) \<Longrightarrow> length r < length z"
proof (cases z)
  case (Cons b z')
  assume "READ_UTF8 z = Some (c, r)"
  then show ?thesis
    using length_utf8_cont_loop [of "ucast (sqlite3Utf8Trans1 ! (unat b - 0xc0))" z']
    by (auto simp: READ_UTF8_def Cons Let_def split: if_splits prod.splits)
qed (simp add: READ_UTF8_def)

lemma read_utf16_shorter: "read_utf16 le z = Some (c, r) \<Longrightarrow> length r < length z"
  by (induction le z rule: read_utf16.induct) (auto simp: Let_def split: if_splits list.splits)

function utf8_to_16 :: "bool \<Rightarrow> u8 list \<Rightarrow> u8 list" where
  "utf8_to_16 le zIn =
     (case READ_UTF8 zIn of
        None \<Rightarrow> []
      | Some (c, zIn') \<Rightarrow> (if le then WRITE_UTF16LE c else WRITE_UTF16BE c) @ utf8_to_16 le zIn')"
  by pat_completeness auto
termination
  by (relation "measure (\<lambda>(le, z). length z)") (auto dest!: READ_UTF8_shorter)

function utf16_to_8 :: "bool \<Rightarrow> u8 list \<Rightarrow> u8 list" where
  "utf16_to_8 le zIn =
     (case read_utf16 le zIn of
        None \<Rightarrow> []
      | Some (c, zIn') \<Rightarrow> WRITE_UTF8 c @ utf16_to_8 le zIn')"
  by pat_completeness auto
termination
  by (relation "measure (\<lambda>(le, z). length z)") (auto dest!: read_utf16_shorter)

declare utf8_to_16.simps [simp del] utf16_to_8.simps [simp del]

fun swap16 :: "u8 list \<Rightarrow> u8 list" where
  "swap16 (a # b # z) = b # a # swap16 z"
| "swap16 z = z"

text \<open>The bytes allocated for the output, terminator included: \<open>len\<close> in the code.\<close>

definition translate_len :: "text_enc \<Rightarrow> u8 list \<Rightarrow> nat" where
  "translate_len desiredEnc z =
     (if desiredEnc = SQLITE_UTF8 then 2 * (length z div 2 * 2) + 1 else 2 * length z + 2)"

text \<open>\<open>sqlite3VdbeMemTranslate\<close>: \<open>malloc_ok\<close> says whether the allocation of the writeable copy or of
  the output buffer succeeds. Between the two UTF-16 orders the bytes of each unit are swapped; when
  translating to UTF-8 an odd last byte is dropped (\<open>n &= ~1\<close>).\<close>

definition sqlite3VdbeMemTranslate :: "bool \<Rightarrow> Mem \<Rightarrow> text_enc \<Rightarrow> int \<times> Mem" where
  "sqlite3VdbeMemTranslate malloc_ok pMem desiredEnc =
     (if mem_enc pMem \<noteq> SQLITE_UTF8 \<and> desiredEnc \<noteq> SQLITE_UTF8
      then (case sqlite3VdbeMemMakeWriteable malloc_ok pMem of
              (rc, m) \<Rightarrow> if rc \<noteq> SQLITE_OK then (SQLITE_NOMEM, m)
                         else (SQLITE_OK, m\<lparr>mem_z := swap16 (mem_z m), mem_enc := desiredEnc\<rparr>))
      else
        let zIn = (if desiredEnc = SQLITE_UTF8 then take (length (mem_z pMem) div 2 * 2) (mem_z pMem)
                   else mem_z pMem)
        in if \<not> malloc_ok then (SQLITE_NOMEM, pMem\<lparr>mem_z := zIn\<rparr>)
           else let zOut =
                  (if mem_enc pMem = SQLITE_UTF8 then utf8_to_16 (desiredEnc = SQLITE_UTF16LE) zIn
                   else utf16_to_8 (mem_enc pMem = SQLITE_UTF16LE) zIn)
                in (SQLITE_OK,
                    pMem\<lparr>mem_flags := MEM_Str OR MEM_Term OR (mem_flags pMem AND (MEM_AffMask OR MEM_Subtype)),
                         mem_enc := desiredEnc, mem_z := zOut, mem_own := True\<rparr>))"

section \<open>The byte patterns\<close>

lemma trans1_table:
  "sqlite3Utf8Trans1 = map of_nat ([0..<32] @ [0..<16] @ [0..<8] @ [0,1,2,3,0,1,0,0])"
  by code_simp

text \<open>Lead bytes: the table strips the length marker.\<close>

lemma lead_C0: "unat y < 32 \<Longrightarrow> sqlite3Utf8Trans1 ! (unat (0xC0 + y :: u8) - 0xc0) = y"
  by (simp add: trans1_table nth_append unat_word_ariths)

lemma lead_E0: "unat y < 16 \<Longrightarrow> sqlite3Utf8Trans1 ! (unat (0xE0 + y :: u8) - 0xc0) = y"
  by (simp add: trans1_table nth_append unat_word_ariths)

lemma lead_F0: "unat y < 8 \<Longrightarrow> sqlite3Utf8Trans1 ! (unat (0xF0 + y :: u8) - 0xc0) = y"
  by (simp add: trans1_table nth_append unat_word_ariths)

lemma unat_ucast_u8_u32: "unat (ucast (w::u8) :: u32) = unat w"
  by transfer simp

lemma lead_ge:
  "unat y < 32 \<Longrightarrow> 0xc0 \<le> (ucast (0xC0 + y :: u8) :: u32)"
  "unat y < 16 \<Longrightarrow> 0xc0 \<le> (ucast (0xE0 + y :: u8) :: u32)"
  "unat y < 8 \<Longrightarrow> 0xc0 \<le> (ucast (0xF0 + y :: u8) :: u32)"
  by (simp_all add: word_le_nat_alt unat_ucast_u8_u32 unat_word_ariths)

text \<open>Continuation bytes.\<close>

lemma cont_byte:
  assumes "unat y < 64"
  shows "(0x80 + y :: u8) AND 0xc0 = 0x80" and "0x3f AND (0x80 + y :: u8) = y"
proof -
  have "map (\<lambda>n. ((0x80 + of_nat n :: u8) AND 0xc0, 0x3f AND (0x80 + of_nat n :: u8))) [0..<64]
      = map (\<lambda>n. (0x80, of_nat n)) [0..<64]"
    by code_simp
  from arg_cong [OF this, of "\<lambda>xs. xs ! unat y"] assms
  show "(0x80 + y :: u8) AND 0xc0 = 0x80" and "0x3f AND (0x80 + y :: u8) = y"
    by simp_all
qed

lemma is_cont_iff: "b AND 0xc0 = (0x80::u8) \<longleftrightarrow> 128 \<le> unat b \<and> unat b < 192"
proof -
  have h: "map (\<lambda>n. of_nat n AND 0xc0 = (0x80::u8)) [0..<256] = map (\<lambda>n. 128 \<le> n \<and> n < 192) [0..<256]"
    by code_simp
  have "unat b < 2 ^ LENGTH(8)" by (rule unsigned_less)
  then show ?thesis using arg_cong [OF h, of "\<lambda>xs. xs ! unat b"] by simp
qed

lemma unat_and_lt:
  "unat (ucast (x AND 0x3F :: u32) :: u8) < 64"
  "unat (ucast (x AND 0x1F :: u32) :: u8) < 32"
  "unat (ucast (x AND 0x0F :: u32) :: u8) < 16"
  "unat (ucast (x AND 0x07 :: u32) :: u8) < 8"
proof -
  have m: "(0x3F::u32) = mask 6" "(0x1F::u32) = mask 5" "(0x0F::u32) = mask 4" "(0x07::u32) = mask 3"
    by (simp_all add: mask_eq_exp_minus_1)
  have "unat (ucast (take_bit k x) :: u8) < 2 ^ k" for k
    by (simp add: unsigned_ucast_eq unsigned_take_bit_eq)
      (rule less_le_trans [OF take_bit_nat_less_exp], simp)
  then have "unat (ucast (x AND mask k :: u32) :: u8) < 2 ^ k" for k
    by (simp add: take_bit_eq_mask)
  from this[of 6] this[of 5] this[of 4] this[of 3] show
    "unat (ucast (x AND 0x3F :: u32) :: u8) < 64"
    "unat (ucast (x AND 0x1F :: u32) :: u8) < 32"
    "unat (ucast (x AND 0x0F :: u32) :: u8) < 16"
    "unat (ucast (x AND 0x07 :: u32) :: u8) < 8"
    unfolding m by simp_all
qed


text \<open>The two pieces a continuation byte splits a character into.\<close>

lemma low_high: "push_bit k (drop_bit k x) + take_bit k x = (x :: u32)"
  by (rule bits_ident)

lemma ucast_piece: "k \<le> 8 \<Longrightarrow> ucast (ucast (take_bit k x :: u32) :: u8) = take_bit k x"
  by (rule bit_word_eqI) (auto simp: bit_simps)

lemma take_drop_small:
  assumes "unat x < 2 ^ (n + k)"
  shows "take_bit n (drop_bit k x) = drop_bit k (x :: u32)"
proof (rule take_bit_word_small)
  have "unat (drop_bit k x) = unat x div 2 ^ k"
    by (simp only: unat_drop_bit_eq) (simp add: drop_bit_eq_div)
  also have "\<dots> < 2 ^ n"
    using assms by (intro less_mult_imp_div_less) (simp add: power_add)
  finally show "unat (drop_bit k x) < 2 ^ n" .
qed

lemma masks_u32:
  "(x :: u32) AND 0x1F = take_bit 5 x" "x AND 0x0F = take_bit 4 x" "x AND 0x07 = take_bit 3 x"
  by (simp_all add: take_bit_eq_mask mask_eq_exp_minus_1)

lemma piece_lt:
  "unat (ucast (take_bit 6 (x::u32)) :: u8) < 64" "unat (ucast (take_bit 5 x) :: u8) < 32"
  "unat (ucast (take_bit 4 x) :: u8) < 16" "unat (ucast (take_bit 3 x) :: u8) < 8"
  using unat_and_lt [of x] by (simp_all add: and_3f masks_u32)

definition utf8_stop :: "u8 list \<Rightarrow> bool" where
  "utf8_stop r = (r = [] \<or> hd r AND 0xc0 \<noteq> 0x80)"

lemma utf8_cont_loop_stop: "utf8_stop r \<Longrightarrow> utf8_cont_loop c r = (c, r)"
  by (cases r) (auto simp: utf8_stop_def)

lemma utf8_cont_loop_cont:
  "unat y < 64 \<Longrightarrow> utf8_cont_loop c ((0x80 + y) # z) = utf8_cont_loop (push_bit 6 c + ucast y) z"
  by (simp add: cont_byte)

definition replace_bad :: "u32 \<Rightarrow> u32" where
  "replace_bad c = (if c < 0x80 \<or> c AND 0xFFFFF800 = 0xD800 \<or> c AND 0xFFFFFFFE = 0xFFFE then 0xFFFD else c)"

lemma READ_UTF8_lead:
  "0xc0 \<le> (ucast b :: u32) \<Longrightarrow>
   READ_UTF8 (b # z) =
     Some (apfst replace_bad (utf8_cont_loop (ucast (sqlite3Utf8Trans1 ! (unat b - 0xc0))) z))"
  by (simp add: READ_UTF8_def replace_bad_def split: prod.splits)

lemma READ_UTF8_2:
  assumes "unat y0 < 32" "unat y1 < 64" "utf8_stop r"
  shows "READ_UTF8 ((0xC0 + y0) # (0x80 + y1) # r) = Some (replace_bad (push_bit 6 (ucast y0) + ucast y1), r)"
  using assms by (simp only: READ_UTF8_lead lead_ge lead_C0 utf8_cont_loop_cont utf8_cont_loop_stop apfst_conv)

lemma READ_UTF8_3:
  assumes "unat y0 < 16" "unat y1 < 64" "unat y2 < 64" "utf8_stop r"
  shows "READ_UTF8 ((0xE0 + y0) # (0x80 + y1) # (0x80 + y2) # r)
    = Some (replace_bad (push_bit 6 (push_bit 6 (ucast y0) + ucast y1) + ucast y2), r)"
  using assms by (simp only: READ_UTF8_lead lead_ge lead_E0 utf8_cont_loop_cont utf8_cont_loop_stop apfst_conv)

lemma READ_UTF8_4:
  assumes "unat y0 < 8" "unat y1 < 64" "unat y2 < 64" "unat y3 < 64" "utf8_stop r"
  shows "READ_UTF8 ((0xF0 + y0) # (0x80 + y1) # (0x80 + y2) # (0x80 + y3) # r)
    = Some (replace_bad (push_bit 6 (push_bit 6 (push_bit 6 (ucast y0) + ucast y1) + ucast y2) + ucast y3), r)"
  using assms by (simp only: READ_UTF8_lead lead_ge lead_F0 utf8_cont_loop_cont utf8_cont_loop_stop apfst_conv)

lemmas utf8_pieces = WRITE_UTF8_def masks_u32 and_3f append_Cons append_Nil if_True if_False

lemma read_write_utf8:
  assumes c: "c < 0x200000" and r: "utf8_stop r"
  shows "READ_UTF8 (WRITE_UTF8 c @ r) = Some (if c < 0x80 then c else replace_bad c, r)"
proof -
  have u: "unat c < 2 ^ (3 + 18)" using c by (simp add: word_less_nat_alt)
  have d: "drop_bit 12 c = drop_bit 6 (drop_bit 6 c)" "drop_bit 18 c = drop_bit 6 (drop_bit 6 (drop_bit 6 c))"
    by simp_all
  have t: "ucast (ucast (take_bit 6 x :: u32) :: u8) = take_bit 6 x"
    "ucast (ucast (take_bit 5 x :: u32) :: u8) = take_bit 5 x"
    "ucast (ucast (take_bit 4 x :: u32) :: u8) = take_bit 4 x"
    "ucast (ucast (take_bit 3 x :: u32) :: u8) = take_bit 3 x" for x
    by (rule ucast_piece, simp)+
  consider (1) "c < 0x80" | (2) "\<not> c < 0x80" "c < 0x800"
    | (3) "\<not> c < 0x80" "\<not> c < 0x800" "c < 0x10000"
    | (4) "\<not> c < 0x80" "\<not> c < 0x800" "\<not> c < 0x10000"
    by (auto simp: word_less_nat_alt)
  then show ?thesis
  proof cases
    case 1
    then have "unat c < 128" by (simp add: word_less_nat_alt)
    then have "ucast (ucast (take_bit 8 c) :: u8) = c"
      using ucast_piece [of 8 c] take_bit_word_small [of c 8] by simp
    moreover have "\<not> 0xc0 \<le> c" using 1 by (auto simp: word_le_nat_alt word_less_nat_alt)
    ultimately show ?thesis using 1 by (simp add: WRITE_UTF8_def READ_UTF8_def and_ff)
  next
    case 2
    then have "take_bit 5 (drop_bit 6 c) = drop_bit 6 c"
      by (intro take_drop_small) (simp add: word_less_nat_alt)
    moreover have "READ_UTF8 (WRITE_UTF8 c @ r)
        = Some (replace_bad (push_bit 6 (take_bit 5 (drop_bit 6 c)) + take_bit 6 c), r)"
      using 2 READ_UTF8_2 [OF piece_lt(2) piece_lt(1) r, of "drop_bit 6 c" c]
      by (simp only: utf8_pieces t)
    ultimately show ?thesis using 2 by (simp only: low_high if_False)
  next
    case 3
    then have "take_bit 4 (drop_bit 12 c) = drop_bit 6 (drop_bit 6 c)"
      by (subst take_drop_small) (simp_all add: word_less_nat_alt)
    moreover have "READ_UTF8 (WRITE_UTF8 c @ r) = Some (replace_bad (push_bit 6
        (push_bit 6 (take_bit 4 (drop_bit 12 c)) + take_bit 6 (drop_bit 6 c)) + take_bit 6 c), r)"
      using 3 READ_UTF8_3 [OF piece_lt(3) piece_lt(1) piece_lt(1) r, of "drop_bit 12 c" "drop_bit 6 c" c]
      by (simp only: utf8_pieces t)
    ultimately show ?thesis using 3 by (simp only: low_high if_False)
  next
    case 4
    have "take_bit 3 (drop_bit 18 c) = drop_bit 6 (drop_bit 6 (drop_bit 6 c))"
      by (subst take_drop_small) (use u in simp_all)
    moreover have "READ_UTF8 (WRITE_UTF8 c @ r) = Some (replace_bad (push_bit 6 (push_bit 6
        (push_bit 6 (take_bit 3 (drop_bit 18 c)) + take_bit 6 (drop_bit 12 c)) + take_bit 6 (drop_bit 6 c))
        + take_bit 6 c), r)"
      using 4 READ_UTF8_4 [OF piece_lt(4) piece_lt(1) piece_lt(1) piece_lt(1) r,
          of "drop_bit 18 c" "drop_bit 12 c" "drop_bit 6 c" c]
      by (simp only: utf8_pieces t)
    ultimately show ?thesis using 4 by (simp only: d low_high if_False)
  qed
qed

lemma unat_push_drop: "unat (push_bit k (drop_bit k (x :: u32))) = unat x div 2 ^ k * 2 ^ k"
proof -
  have "unat x div 2 ^ k * 2 ^ k \<le> unat x" by (rule div_times_less_eq_dividend)
  also have "unat x < 2 ^ LENGTH(32)" by (rule unsigned_less)
  finally have "unat x div 2 ^ k * 2 ^ k < 2 ^ LENGTH(32)" .
  then show ?thesis
    by (simp only: unsigned_push_bit_eq unat_drop_bit_eq)
      (simp only: push_bit_eq_mult drop_bit_eq_div take_bit_nat_eq_self)
qed

lemma and_surrogate: "c AND 0xFFFFF800 = 0xD800 \<longleftrightarrow> 0xD800 \<le> c \<and> c < (0xE000 :: u32)"
proof -
  have k: "(0xFFFFF800 :: u32) = push_bit 11 (mask 21)" by (simp add: mask_eq_exp_minus_1)
  have "c AND push_bit 11 (mask 21) = push_bit 11 (drop_bit 11 c)"
    by (rule bit_word_eqI) (auto simp: bit_push_bit_iff bit_drop_bit_eq bit_and_iff bit_mask_iff simp del: push_bit_Suc)
  then have "c AND 0xFFFFF800 = push_bit 11 (drop_bit 11 c)" by (simp only: k)
  then have "unat (c AND 0xFFFFF800) = unat c div 2048 * 2048"
    by (simp only: unat_push_drop) simp
  then show ?thesis by (simp add: word_unat_eq_iff word_le_nat_alt word_less_nat_alt) arith
qed

lemma and_noncharacter: "c AND 0xFFFFFFFE = 0xFFFE \<longleftrightarrow> c = 0xFFFE \<or> c = (0xFFFF :: u32)"
proof -
  have k: "(0xFFFFFFFE :: u32) = push_bit 1 (mask 31)" by (simp add: mask_eq_exp_minus_1)
  have "c AND push_bit 1 (mask 31) = push_bit 1 (drop_bit 1 c)"
    by (rule bit_word_eqI) (auto simp: bit_push_bit_iff bit_drop_bit_eq bit_and_iff bit_mask_iff simp del: push_bit_Suc)
  then have "c AND 0xFFFFFFFE = push_bit 1 (drop_bit 1 c)" by (simp only: k)
  then have "unat (c AND 0xFFFFFFFE) = unat c div 2 * 2"
    by (simp only: unat_push_drop) simp
  then show ?thesis by (simp add: word_unat_eq_iff) arith
qed

lemma replace_bad_eq:
  "replace_bad c = (if c < 0x80 \<or> 0xD800 \<le> c \<and> c < 0xE000 \<or> c = 0xFFFE \<or> c = 0xFFFF then 0xFFFD else c)"
  by (simp add: replace_bad_def and_surrogate and_noncharacter)

text \<open>The characters a text can hold: Unicode code points other than the surrogates and the two
  non-characters that the reader replaces.\<close>

definition valid_char :: "u32 \<Rightarrow> bool" where
  "valid_char c = (c < 0x110000 \<and> \<not> (0xD800 \<le> c \<and> c < 0xE000) \<and> c \<noteq> 0xFFFE \<and> c \<noteq> 0xFFFF)"

lemma not_cont_lead:
  "unat y < 32 \<Longrightarrow> (0xC0 + y :: u8) AND 0xc0 \<noteq> 0x80"
  "unat y < 16 \<Longrightarrow> (0xE0 + y :: u8) AND 0xc0 \<noteq> 0x80"
  "unat y < 8 \<Longrightarrow> (0xF0 + y :: u8) AND 0xc0 \<noteq> 0x80"
  by (simp_all add: is_cont_iff unat_word_ariths)

lemma utf8_stop_WRITE_UTF8: "utf8_stop (WRITE_UTF8 c @ r)"
proof (cases "c < 0x80")
  case True
  then have "unat (ucast (c AND 0xFF) :: u8) < 128"
    by (simp add: and_ff word_less_nat_alt unsigned_ucast_eq unsigned_take_bit_eq take_bit_nat_eq_self)
  then have "(ucast (c AND 0xFF) :: u8) AND 0xc0 \<noteq> 0x80" by (simp only: is_cont_iff) simp
  with True show ?thesis by (simp only: WRITE_UTF8_def utf8_stop_def if_True) simp
next
  case False
  then show ?thesis
    by (simp add: WRITE_UTF8_def utf8_stop_def not_cont_lead piece_lt masks_u32)
qed

definition dec_utf8 :: "u8 list \<Rightarrow> (u32 \<times> nat) option" where
  "dec_utf8 z = map_option (\<lambda>(c, r). (c, length z - length r)) (READ_UTF8 z)"

lemma valid_char_bound: "valid_char c \<Longrightarrow> c < 0x200000"
  by (auto simp: valid_char_def intro: less_trans)

lemma read_write_valid:
  "valid_char c \<Longrightarrow> utf8_stop r \<Longrightarrow> READ_UTF8 (WRITE_UTF8 c @ r) = Some (c, r)"
  by (simp add: read_write_utf8 valid_char_bound) (auto simp: replace_bad_eq valid_char_def)

interpretation utf8: byte_code WRITE_UTF8 dec_utf8 valid_char utf8_stop
proof unfold_locales
  fix c r assume "valid_char c" "utf8_stop r"
  then show "dec_utf8 (WRITE_UTF8 c @ r) = Some (c, length (WRITE_UTF8 c))"
    by (simp add: dec_utf8_def read_write_valid)
qed (rule utf8_stop_WRITE_UTF8)

lemma WRITE_UTF16_pair:
  assumes "0x10000 \<le> c" "c < (0x110000 :: u32)"
  obtains a b g e f where "a < 4" "b < 4" "g < 64" "e < 4" "f < 256"
    "unat c = 65536 + a * 262144 + b * 65536 + g * 1024 + e * 256 + f"
proof -
  let ?n = "unat c - 65536"
  have n: "unat c \<ge> 65536" "?n < 1048576"
    using assms by (auto simp: word_le_nat_alt word_less_nat_alt)
  define q1 q2 q3 q4 where "q1 = ?n div 256" and "q2 = q1 div 4" and "q3 = q2 div 64" and "q4 = q3 div 4"
  have "q1 * 256 + ?n mod 256 = ?n" "q2 * 4 + q1 mod 4 = q1" "q3 * 64 + q2 mod 64 = q2" "q4 * 4 + q3 mod 4 = q3"
    unfolding q1_def q2_def q3_def q4_def by (rule div_mult_mod_eq)+
  moreover have "?n mod 256 < 256" "q1 mod 4 < 4" "q2 mod 64 < 64" "q3 mod 4 < 4" by simp_all
  ultimately show ?thesis
    using n by (intro that [of q4 "q3 mod 4" "q2 mod 64" "q1 mod 4" "?n mod 256"]) linarith+
qed


lemma unat_and_16:
  fixes x :: u32
  shows "unat (x AND 0x03FF) = unat x mod 1024" "unat (x AND 0x3F) = unat x mod 64"
    "unat (x AND 0x03) = unat x mod 4" "unat (x AND 0xFF) = unat x mod 256"
    "unat (x AND 0xC0) = unat x mod 256 div 64 * 64" "unat (x AND 0x03C0) = unat x mod 1024 div 64 * 64"
proof -
  have m: "(0x3FF::u32) = mask 10" "(0x3F::u32) = mask 6" "(0x03::u32) = mask 2" "(0xFF::u32) = mask 8"
    "(0xC0::u32) = push_bit 6 (mask 2)" "(0x3C0::u32) = push_bit 6 (mask 4)"
    by (simp_all add: mask_eq_exp_minus_1)
  have t: "unat (x AND mask k) = unat x mod 2 ^ k" for k
    by (simp only: flip: take_bit_eq_mask) (simp only: unsigned_take_bit_eq, simp only: take_bit_eq_mod)
  have "x AND push_bit 6 (mask k) = push_bit 6 (drop_bit 6 (take_bit (6 + k) x))" for k
    by (rule bit_word_eqI) (auto simp: bit_simps)
  then have p: "unat (x AND push_bit 6 (mask k)) = unat x mod 2 ^ (6 + k) div 64 * 64" for k
    by (simp only: unat_push_drop) (simp only: unsigned_take_bit_eq, simp add: take_bit_eq_mod)
  show "unat (x AND 0x03FF) = unat x mod 1024" "unat (x AND 0x3F) = unat x mod 64"
    "unat (x AND 0x03) = unat x mod 4" "unat (x AND 0xFF) = unat x mod 256"
    "unat (x AND 0xC0) = unat x mod 256 div 64 * 64" "unat (x AND 0x03C0) = unat x mod 1024 div 64 * 64"
    unfolding m t p by simp_all
qed

lemma unat_drop_u32: "unat (drop_bit k (x :: u32)) = unat x div 2 ^ k"
  by (simp only: unat_drop_bit_eq) (simp only: drop_bit_eq_div)

lemma unat_ucast_u32_u8: "unat (ucast (x :: u32) :: u8) = unat x mod 256"
  by (simp add: unsigned_ucast_eq take_bit_eq_mod)

lemma unat_push_u32: "unat (push_bit k (x :: u32)) = unat x * 2 ^ k mod 4294967296"
  by (simp only: unsigned_push_bit_eq) (simp add: take_bit_eq_mod push_bit_eq_mult)

lemmas utf16_nat = unat_and_16 unat_drop_u32 unat_ucast_u32_u8 unat_push_u32 unat_ucast_u8_u32 unat_word_ariths

lemma write16_bytes:
  assumes "unat c = 65536 + a * 262144 + b * 65536 + g * 1024 + e * 256 + f"
    "a < 4" "b < 4" "g < 64" "e < 4" "f < 256"
  shows "unat (ucast ((drop_bit 10 c AND 0x003F) + (drop_bit 10 (c - 0x10000) AND 0x00C0) :: u32) :: u8) = g + 64 * b"
    and "unat (ucast (0x00D8 + (drop_bit 18 (c - 0x10000) AND 0x03) :: u32) :: u8) = 216 + a"
    and "unat (ucast (c AND 0x00FF :: u32) :: u8) = f"
    and "unat (ucast (0x00DC + (drop_bit 8 c AND 0x03) :: u32) :: u8) = 220 + e"
proof -
  have s: "unat (c - 0x10000) = a * 262144 + b * 65536 + g * 1024 + e * 256 + f"
    using assms by (subst unat_sub) (auto simp: word_le_nat_alt)
  let ?h = "a * 256 + (b * 64 + g)"
  have c: "unat c = (e * 256 + f) + (64 + ?h) * 1024" "unat c = f + ((64 + ?h) * 4 + e) * 256"
    and s2: "unat (c - 0x10000) = (e * 256 + f) + ?h * 1024"
      "unat (c - 0x10000) = (b * 65536 + g * 1024 + e * 256 + f) + a * 262144"
    using assms s by simp_all
  have l: "e * 256 + f < 1024" "b * 65536 + g * 1024 + e * 256 + f < 262144" using assms by linarith+
  have d: "unat c div 1024 = 64 + ?h" "unat c div 256 = (64 + ?h) * 4 + e" "unat c mod 256 = f"
    using l assms(6) by (simp only: c(1), simp, simp only: c(2), simp, simp only: c(2) mod_mult_self1 mod_less)
  have d2a: "unat (c - 0x10000) div 1024 = ?h" using l by (subst s2(1)) simp
  have d2b: "unat (c - 0x10000) div 262144 = a" using l by (subst s2(2)) simp
  note d2 = d2a d2b
  have "((64 + ?h) * 4 + e) mod 4 = e" using assms by (simp only: mod_mult_self3 mod_less)
  then have d3: "unat c div 256 mod 4 = e" by (simp only: d)
  have h: "64 + ?h = g + (a * 4 + b + 1) * 64" "?h = (b * 64 + g) + a * 256" by simp_all
  have m1: "(64 + ?h) mod 64 = g" using assms by (subst h(1)) (simp only: mod_mult_self1 mod_less)
  have "?h mod 256 = b * 64 + g" using assms by (subst h(2)) simp
  then have m2: "?h mod 256 div 64 = b" using assms by simp
  have "?h = g + (a * 4 + b) * 64" by simp
  then have "?h mod 64 = g" using assms by (simp only: mod_mult_self1 mod_less)
  note m = m1 m2 this
  show "unat (ucast ((drop_bit 10 c AND 0x003F) + (drop_bit 10 (c - 0x10000) AND 0x00C0) :: u32) :: u8) = g + 64 * b"
    using assms(2-) by (simp only: unat_ucast_u32_u8 unat_word_ariths unat_and_16 unat_drop_u32 d2 d) (simp add: d d2 m)
  show "unat (ucast (0x00D8 + (drop_bit 18 (c - 0x10000) AND 0x03) :: u32) :: u8) = 216 + a"
    using assms(2-) by (simp only: unat_ucast_u32_u8 unat_word_ariths unat_and_16 unat_drop_u32) (simp add: d d2 m)
  show "unat (ucast (c AND 0x00FF :: u32) :: u8) = f"
    using assms(2-) by (simp only: unat_ucast_u32_u8 unat_and_16) (simp add: d)
  show "unat (ucast (0x00DC + (drop_bit 8 c AND 0x03) :: u32) :: u8) = 220 + e"
    using assms(2-) by (simp only: unat_ucast_u32_u8 unat_word_ariths unat_and_16 unat_drop_u32) (simp add: d3)
qed


lemma surrogate_units:
  assumes "unat c1 = 55296 + a * 256 + b * 64 + g" "unat c2 = 56320 + e * 256 + f"
    "a < 4" "b < 4" "g < 64" "e < 4" "f < 256"
  shows "unat ((c2 AND 0x03FF) + push_bit 10 (c1 AND 0x003F)
      + push_bit 10 ((c1 AND 0x03C0) + 0x0040) :: u32)
    = 65536 + a * 262144 + b * 65536 + g * 1024 + e * 256 + f"
proof -
  have c: "unat c2 = (e * 256 + f) + 55 * 1024" "unat c1 = g + (864 + a * 4 + b) * 64"
     "unat c1 = (a * 256 + b * 64 + g) + 54 * 1024"
    using assms by simp_all
  have "unat c2 mod 1024 = e * 256 + f" using assms by (subst c(1)) (simp only: mod_mult_self1, simp)
  moreover have "unat c1 mod 64 = g" using assms by (subst c(2)) (simp only: mod_mult_self1 mod_less)
  moreover have "unat c1 mod 1024 div 64 = a * 4 + b"
  proof -
    have "unat c1 mod 1024 = (a * 4 + b) * 64 + g" using assms by (subst c(3)) (simp only: mod_mult_self1, simp)
    then show ?thesis using assms by (simp only:) simp
  qed
  ultimately show ?thesis using assms(3-)
    by (simp only: unat_word_ariths unat_and_16 unat_push_u32) simp
qed

lemma unat_unit16:
  "unat (unit16 True b0 b1) = unat b0 + 256 * unat b1" "unat (unit16 False b0 b1) = 256 * unat b0 + unat b1"
proof -
  have "unat b0 \<le> 255" "unat b1 \<le> 255" by (rule unat_u8_le)+
  then show "unat (unit16 True b0 b1) = unat b0 + 256 * unat b1" "unat (unit16 False b0 b1) = 256 * unat b0 + unat b1"
    unfolding unit16_def by (simp_all only: if_True if_False unat_word_ariths unat_push_u32 unat_ucast_u8_u32) simp_all
qed


lemma read_write_utf16:
  assumes v: "valid_char c"
  shows "read_utf16 True (WRITE_UTF16LE c @ r) = Some (c, r)"
    and "read_utf16 False (WRITE_UTF16BE c @ r) = Some (c, r)"
proof -
  have "read_utf16 True (WRITE_UTF16LE c @ r) = Some (c, r) \<and> read_utf16 False (WRITE_UTF16BE c @ r) = Some (c, r)"
  proof (cases "c \<le> 0xFFFF")
    case True
    then have n: "unat c < 65536" by (simp add: word_le_nat_alt)
    have "unat c mod 256 + 256 * (unat c div 256 mod 256) = unat c" using n by simp
    then have "unit16 True (ucast (c AND 0x00FF)) (ucast (drop_bit 8 c AND 0x00FF)) = c"
      "unit16 False (ucast (drop_bit 8 c AND 0x00FF)) (ucast (c AND 0x00FF)) = c"
      by (simp_all add: word_unat_eq_iff unat_unit16) (simp_all add: unat_and_16 unat_ucast_u32_u8 unat_drop_u32)
    with True v show ?thesis by (auto simp: WRITE_UTF16LE_def WRITE_UTF16BE_def valid_char_def)
  next
    case False
    then have "0x10000 \<le> c" "c < 0x110000"
      using v by (auto simp: word_le_nat_alt valid_char_def)
    then obtain a b g e f where k: "a < 4" "b < 4" "g < 64" "e < 4" "f < 256"
      and u: "unat c = 65536 + a * 262144 + b * 65536 + g * 1024 + e * 256 + f"
      by (rule WRITE_UTF16_pair)
    define b0 :: u8 where "b0 = ucast ((drop_bit 10 c AND 0x003F) + (drop_bit 10 (c - 0x10000) AND 0x00C0))"
    define b1 :: u8 where "b1 = ucast (0x00D8 + (drop_bit 18 (c - 0x10000) AND 0x03))"
    define b2 :: u8 where "b2 = ucast (c AND 0x00FF)"
    define b3 :: u8 where "b3 = ucast (0x00DC + (drop_bit 8 c AND 0x03))"
    note bs = b0_def b1_def b2_def b3_def
    have n: "unat b0 = g + 64 * b" "unat b1 = 216 + a" "unat b2 = f" "unat b3 = 220 + e"
      unfolding bs using write16_bytes [OF u k] by simp_all
    have w: "WRITE_UTF16LE c = [b0, b1, b2, b3]" "WRITE_UTF16BE c = [b1, b0, b3, b2]"
      using False by (simp_all only: WRITE_UTF16LE_def WRITE_UTF16BE_def bs if_False)
    have rd: "read_utf16 le (x0 # x1 # x2 # x3 # r) = Some (c, r)"
      if x: "unat (unit16 le x0 x1) = 55296 + a * 256 + b * 64 + g" "unat (unit16 le x2 x3) = 56320 + e * 256 + f"
      for le x0 x1 x2 x3
    proof -
      have "0xd800 \<le> unit16 le x0 x1 \<and> unit16 le x0 x1 < 0xe000"
        using x(1) k by (simp add: word_le_nat_alt word_less_nat_alt)
      moreover have "(unit16 le x2 x3 AND 0x03FF) + push_bit 10 (unit16 le x0 x1 AND 0x003F)
          + push_bit 10 ((unit16 le x0 x1 AND 0x03C0) + 0x0040) = c"
        unfolding word_unat_eq_iff using surrogate_units [OF x k] u by (simp only:)
      ultimately show ?thesis by (simp only: read_utf16.simps Let_def list.case) simp
    qed
    show ?thesis unfolding w append_Cons append_Nil
      by (intro conjI rd; simp only: unat_unit16 n) simp_all
  qed
  then show "read_utf16 True (WRITE_UTF16LE c @ r) = Some (c, r)"
    and "read_utf16 False (WRITE_UTF16BE c @ r) = Some (c, r)" by simp_all
qed

definition WRITE_UTF16 :: "bool \<Rightarrow> u32 \<Rightarrow> u8 list" where
  "WRITE_UTF16 le c = (if le then WRITE_UTF16LE c else WRITE_UTF16BE c)"

lemma read_write_16: "valid_char c \<Longrightarrow> read_utf16 le (WRITE_UTF16 le c @ r) = Some (c, r)"
  by (cases le) (simp_all add: WRITE_UTF16_def read_write_utf16)

lemma utf8_stop_text: "utf8_stop (concat (map WRITE_UTF8 cs))"
  by (cases cs) (simp_all add: utf8_stop_WRITE_UTF8, simp add: utf8_stop_def)

lemma utf8_to_16_text:
  "\<forall>c \<in> set cs. valid_char c \<Longrightarrow>
   utf8_to_16 le (concat (map WRITE_UTF8 cs)) = concat (map (WRITE_UTF16 le) cs)"
proof (induction cs)
  case Nil
  then show ?case by (simp add: utf8_to_16.simps READ_UTF8_def)
next
  case (Cons c cs)
  then show ?case
    by (subst utf8_to_16.simps) (simp add: read_write_valid utf8_stop_text flip: WRITE_UTF16_def)
qed

lemma utf16_to_8_text:
  "\<forall>c \<in> set cs. valid_char c \<Longrightarrow>
   utf16_to_8 le (concat (map (WRITE_UTF16 le) cs)) = concat (map WRITE_UTF8 cs)"
proof (induction cs)
  case Nil
  then show ?case by (simp add: utf16_to_8.simps)
next
  case (Cons c cs)
  then show ?case by (subst utf16_to_8.simps) (simp add: read_write_16)
qed

lemma swap16_text: "swap16 (concat (map (WRITE_UTF16 le) cs)) = concat (map (WRITE_UTF16 (\<not> le)) cs)"
proof (induction cs)
  case (Cons c cs)
  then show ?case by (cases le) (simp_all add: WRITE_UTF16_def WRITE_UTF16LE_def WRITE_UTF16BE_def)
qed simp

lemma even_length_WRITE_UTF16: "even (length (concat (map (WRITE_UTF16 le) cs)))"
  by (induction cs) (simp_all add: WRITE_UTF16_def WRITE_UTF16LE_def WRITE_UTF16BE_def)


text \<open>How much the translations can grow a text.\<close>

lemma trans1_small: "unat b - 0xc0 < 64 \<Longrightarrow> unat (sqlite3Utf8Trans1 ! (unat b - 0xc0)) < 0x80"
proof -
  have "list_all (\<lambda>x. unat x < 0x80) sqlite3Utf8Trans1" "length sqlite3Utf8Trans1 = 64" by code_simp+
  then show "unat b - 0xc0 < 64 \<Longrightarrow> ?thesis" by (simp add: list_all_length)
qed

lemma replace_bad_small: "c < 0x80 \<Longrightarrow> replace_bad c = 0xFFFD"
  by (simp add: replace_bad_def)

lemma utf8_cont_loop_progress:
  "utf8_cont_loop c z = (c', r) \<Longrightarrow> r = z \<and> c' = c \<or> length r < length z"
  using length_utf8_cont_loop [of "push_bit 6 c + ucast (0x3f AND hd z)" "tl z"]
  by (cases z) (auto split: if_splits)

lemma READ_UTF8_growth:
  assumes "READ_UTF8 z = Some (c, r)" "0xFFFF < c"
  shows "length r + 2 \<le> length z"
proof -
  obtain b z' where z: "z = b # z'" using assms by (cases z) (auto simp: READ_UTF8_def)
  let ?t = "ucast (sqlite3Utf8Trans1 ! (unat b - 0xc0)) :: u32"
  have b: "unat b \<le> 255" by (rule unat_u8_le)
  show ?thesis
  proof (cases "0xc0 \<le> (ucast b :: u32)")
    case True
    then obtain c' where rb: "utf8_cont_loop ?t z' = (c', r)" "c = replace_bad c'"
      using assms(1) by (cases "utf8_cont_loop ?t z'") (auto simp: z READ_UTF8_lead)
    have "?t < 0x80"
      using trans1_small [of b] unat_u8_le [of b] by (simp add: word_less_nat_alt unat_ucast_u8_u32)
    then have "c' \<noteq> ?t" using assms(2) rb(2) by (auto simp: replace_bad_small)
    then have "length r < length z'" using utf8_cont_loop_progress [OF rb(1)] by blast
    then show ?thesis by (simp add: z)
  next
    case False
    then have "c = ucast b" using assms(1) by (simp add: z READ_UTF8_def)
    then show ?thesis using b assms(2) by (simp add: word_less_nat_alt unat_ucast_u8_u32)
  qed
qed

lemma length_WRITE_UTF16: "length (WRITE_UTF16 le c) = (if c \<le> 0xFFFF then 2 else 4)"
  by (simp add: WRITE_UTF16_def WRITE_UTF16LE_def WRITE_UTF16BE_def)

lemma utf8_to_16_bound: "length (utf8_to_16 le z) \<le> 2 * length z"
proof (induction le z rule: utf8_to_16.induct)
  case (1 le z)
  show ?case
  proof (cases "READ_UTF8 z")
    case (Some p)
    obtain c r where p: "p = (c, r)" by fastforce
    have "length (utf8_to_16 le r) \<le> 2 * length r" using 1 Some p by simp
    moreover have "length r < length z" "0xFFFF < c \<Longrightarrow> length r + 2 \<le> length z"
      using Some p READ_UTF8_shorter READ_UTF8_growth by blast+
    ultimately have "length (WRITE_UTF16 le c) + length (utf8_to_16 le r) \<le> 2 * length z"
      by (auto simp: length_WRITE_UTF16 not_le)
    then show ?thesis by (subst utf8_to_16.simps) (simp add: Some p WRITE_UTF16_def)
  qed (subst utf8_to_16.simps, simp)
qed

lemma length_WRITE_UTF8: "length (WRITE_UTF8 c) \<le> (if c < 0x10000 then 3 else 4)"
  by (simp add: WRITE_UTF8_def)

lemma read_utf16_growth:
  assumes "read_utf16 le z = Some (c, r)"
  shows "length r + 2 \<le> length z" and "\<not> c < 0x10000 \<Longrightarrow> length r + 4 \<le> length z"
proof -
  have "unit16 le b0 b1 < 0x10000" for b0 b1
    using unat_unit16 [of b0 b1] unat_u8_le [of b0] unat_u8_le [of b1]
    by (cases le) (simp_all add: word_less_nat_alt)
  then show "length r + 2 \<le> length z" "\<not> c < 0x10000 \<Longrightarrow> length r + 4 \<le> length z"
    using assms by (induction le z rule: read_utf16.induct) (auto simp: Let_def split: if_splits list.splits)
qed

lemma utf16_to_8_bound: "length (utf16_to_8 le z) \<le> 2 * length z"
proof (induction le z rule: utf16_to_8.induct)
  case (1 le z)
  show ?case
  proof (cases "read_utf16 le z")
    case (Some p)
    obtain c r where p: "p = (c, r)" by fastforce
    have "length (utf16_to_8 le r) \<le> 2 * length r" using 1 Some p by simp
    then have "length (WRITE_UTF8 c) + length (utf16_to_8 le r) \<le> 2 * length z"
      using read_utf16_growth [of le z c r] Some p length_WRITE_UTF8 [of c] by (auto split: if_splits)
    then show ?thesis by (subst utf16_to_8.simps) (simp add: Some p)
  qed (subst utf16_to_8.simps, simp)
qed


text \<open>Skipping a character moves as far as reading it.\<close>

lemma utf8_cont_loop_skip: "utf8_cont_loop c z = (c', r) \<Longrightarrow> skip_cont z = r"
  by (induction c z rule: utf8_cont_loop.induct) (auto split: if_splits)

lemma SKIP_UTF8_READ: "READ_UTF8 z = Some (c, r) \<Longrightarrow> SQLITE_SKIP_UTF8 z = r"
proof (cases z)
  case (Cons b z')
  have "0xc0 \<le> (ucast b :: u32) \<longleftrightarrow> 0xc0 \<le> b"
    by (simp add: word_le_nat_alt unat_ucast_u8_u32)
  moreover assume "READ_UTF8 z = Some (c, r)"
  ultimately show ?thesis
    by (auto simp: Cons READ_UTF8_def SQLITE_SKIP_UTF8_def Let_def split: prod.splits if_splits
        dest: utf8_cont_loop_skip)
qed (simp add: READ_UTF8_def)

lemma READ_UTF8_nonzero: "READ_UTF8 z = Some (c, r) \<Longrightarrow> c \<noteq> 0 \<Longrightarrow> chr_at z 0 \<noteq> 0"
  by (cases z) (auto simp: READ_UTF8_def)

lemma char_len_text:
  "\<forall>c \<in> set cs. valid_char c \<Longrightarrow> 0 \<notin> set cs \<Longrightarrow>
   char_len_loop (concat (map WRITE_UTF8 cs)) i (-1) r = r + length cs"
proof (induction cs arbitrary: i r)
  case Nil
  then show ?case by (subst char_len_loop.simps) simp
next
  case (Cons c cs)
  then have "READ_UTF8 (concat (map WRITE_UTF8 (c # cs))) = Some (c, concat (map WRITE_UTF8 cs))"
    by (simp add: read_write_valid utf8_stop_text)
  from READ_UTF8_nonzero [OF this] SKIP_UTF8_READ [OF this] Cons show ?case
    by (subst char_len_loop.simps) (auto simp: Let_def)
qed

section \<open>Properties\<close>

text \<open>Reading back a written character: for every character below 0x200000, whatever follows
  that is not a continuation byte, \<open>READ_UTF8\<close> consumes exactly the bytes \<open>WRITE_UTF8\<close> wrote and returns
  the character, except that surrogates and the two non-characters are read as 0xFFFD.\<close>

theorem READ_WRITE_UTF8:
  assumes "c < 0x200000" and "r = [] \<or> hd r AND 0xc0 \<noteq> 0x80"
  shows "READ_UTF8 (WRITE_UTF8 c @ r)
    = Some (if 0xD800 \<le> c \<and> c < 0xE000 \<or> c = 0xFFFE \<or> c = 0xFFFF then 0xFFFD else c, r)"
proof -
  have "c < 0x80 \<Longrightarrow> \<not> (0xD800 \<le> c \<and> c < 0xE000 \<or> c = 0xFFFE \<or> c = 0xFFFF)"
    by (auto simp: word_le_nat_alt word_less_nat_alt)
  then show ?thesis
    using read_write_utf8 [OF assms(1), of r] assms(2)
    by (cases "c < 0x80") (simp_all add: utf8_stop_def replace_bad_eq del: de_Morgan_disj de_Morgan_conj)
qed

theorem READ_WRITE_UTF8_witness:
  "READ_UTF8 (WRITE_UTF8 0x20AC @ [0x41]) = Some (0x20AC, [0x41])"
  by (subst READ_WRITE_UTF8) simp_all

text \<open>A run of valid characters written in UTF-8 decodes to the same run, consuming every byte; if
  none of them is zero, \<open>sqlite3Utf8CharLen\<close> of the text is the number of characters.\<close>

theorem utf8_sequence_roundtrip:
  assumes v: "\<forall>c \<in> set cs. valid_char c"
  shows "dec_many dec_utf8 (length cs) (concat (map WRITE_UTF8 cs))
           = Some (cs, length (concat (map WRITE_UTF8 cs)))
       \<and> (0 \<notin> set cs \<longrightarrow> sqlite3Utf8CharLen (concat (map WRITE_UTF8 cs)) (-1) = length cs)"
  using utf8.dec_many_enc [OF v, of "[]"] char_len_text [OF v, of 0 0]
  by (simp add: utf8_stop_def sqlite3Utf8CharLen_def)

theorem utf8_sequence_roundtrip_witness:
  "sqlite3Utf8CharLen (concat (map WRITE_UTF8 [0x41, 0x10348])) (-1) = length [0x41, 0x10348 :: u32]"
  by (rule mp [OF conjunct2 [OF utf8_sequence_roundtrip]]) (simp_all add: valid_char_def)

text \<open>C39. Translating a UTF-8 text of valid characters to either UTF-16 order, swapping the order, and
  translating back gives the text again, and each step gives the encoding of the same characters.\<close>

theorem translate_roundtrip:
  assumes "\<forall>c \<in> set cs. valid_char c" and "mem_z m = concat (map WRITE_UTF8 cs)"
    and "mem_enc m = SQLITE_UTF8"
  shows "let m1 = snd (sqlite3VdbeMemTranslate True m SQLITE_UTF16LE);
             m2 = snd (sqlite3VdbeMemTranslate True m1 SQLITE_UTF16BE);
             m3 = snd (sqlite3VdbeMemTranslate True m2 SQLITE_UTF8)
         in mem_z m1 = concat (map WRITE_UTF16LE cs) \<and> mem_enc m1 = SQLITE_UTF16LE
          \<and> mem_z m2 = concat (map WRITE_UTF16BE cs) \<and> mem_enc m2 = SQLITE_UTF16BE
          \<and> mem_z m3 = mem_z m \<and> mem_enc m3 = SQLITE_UTF8"
proof -
  have le: "WRITE_UTF16 True = WRITE_UTF16LE" and be: "WRITE_UTF16 False = WRITE_UTF16BE"
    by (simp_all add: fun_eq_iff WRITE_UTF16_def)
  note t = utf8_to_16_text [OF assms(1)] utf16_to_8_text [OF assms(1)] swap16_text
  have e: "length (concat (map WRITE_UTF16BE cs)) div 2 * 2 = length (concat (map WRITE_UTF16BE cs))"
    using even_length_WRITE_UTF16 [of False cs] by (simp add: be)
  have "utf8_to_16 True (concat (map WRITE_UTF8 cs)) = concat (map WRITE_UTF16LE cs)"
    "swap16 (concat (map WRITE_UTF16LE cs)) = concat (map WRITE_UTF16BE cs)"
    "utf16_to_8 False (concat (map WRITE_UTF16BE cs)) = concat (map WRITE_UTF8 cs)"
    using t(1) [of True] t(2) [of False] t(3) [of True cs] by (simp_all add: le be)
  then show ?thesis
    using assms(2,3) e
    by (simp add: sqlite3VdbeMemTranslate_def sqlite3VdbeMemMakeWriteable_def Let_def)
qed

theorem translate_roundtrip_witness:
  "mem_z (snd (sqlite3VdbeMemTranslate True
     \<lparr>mem_z = [0x41, 0xF0, 0x90, 0x8D, 0x88], mem_enc = SQLITE_UTF8, mem_flags = 2, mem_own = False\<rparr>
     SQLITE_UTF16LE)) = [0x41, 0, 0x00, 0xD8, 0x48, 0xDF]"
  using translate_roundtrip [of "[0x41, 0x10348]"
     "\<lparr>mem_z = [0x41, 0xF0, 0x90, 0x8D, 0x88], mem_enc = SQLITE_UTF8, mem_flags = 2, mem_own = False\<rparr>"]
  by (simp add: valid_char_def WRITE_UTF8_def WRITE_UTF16LE_def Let_def)

text \<open>Whatever the bytes of the input, well-formed or not, a translation between UTF-8 and UTF-16
  writes no more than the computed \<open>len\<close> bytes, terminator included: the final assertion of
  \<open>sqlite3VdbeMemTranslate\<close>.\<close>

theorem translate_fits:
  assumes "(mem_enc m = SQLITE_UTF8) \<noteq> (desired = SQLITE_UTF8)"
  shows "length (mem_z (snd (sqlite3VdbeMemTranslate True m desired)))
      + (if desired = SQLITE_UTF8 then 1 else 2) \<le> translate_len desired (mem_z m)"
proof -
  let ?even = "take (length (mem_z m) div 2 * 2) (mem_z m)"
  have "length ?even = length (mem_z m) div 2 * 2" by simp
  then show ?thesis
    using assms utf8_to_16_bound [of "desired = SQLITE_UTF16LE" "mem_z m"]
      utf16_to_8_bound [of "mem_enc m = SQLITE_UTF16LE" ?even]
    by (cases "desired = SQLITE_UTF8")
      (simp_all add: sqlite3VdbeMemTranslate_def translate_len_def del: length_take)
qed

theorem translate_fits_witness:
  "length (mem_z (snd (sqlite3VdbeMemTranslate True
     \<lparr>mem_z = [0xFF, 0x80, 0xC3], mem_enc = SQLITE_UTF8, mem_flags = 2, mem_own = False\<rparr>
     SQLITE_UTF16BE))) + 2 \<le> 8"
  using translate_fits [of "\<lparr>mem_z = [0xFF, 0x80, 0xC3], mem_enc = SQLITE_UTF8, mem_flags = 2, mem_own = False\<rparr>"
     SQLITE_UTF16BE]
  by (simp add: translate_len_def)

end
