(* ===== verification/Strings.thy ===== *)
theory Strings
  imports Prelude
begin

text \<open>
  SQLite's own character classification and case folding (\<open>global.c\<close>), the case-insensitive
  comparisons and hashes (\<open>util.c\<close>, \<open>hash.c\<close>), identifier dequoting and hexadecimal digits. The
  two lookup tables are copied from the source; the lemmas say what they compute on every byte.
\<close>

section \<open>The tables\<close>


definition sqlite3UpperToLower :: "u8 list" where
  "sqlite3UpperToLower = [
     0, 1, 2, 3, 4, 5, 6, 7, 8, 9, 10, 11, 12, 13, 14, 15,
     16, 17, 18, 19, 20, 21, 22, 23, 24, 25, 26, 27, 28, 29, 30, 31,
     32, 33, 34, 35, 36, 37, 38, 39, 40, 41, 42, 43, 44, 45, 46, 47,
     48, 49, 50, 51, 52, 53, 54, 55, 56, 57, 58, 59, 60, 61, 62, 63,
     64, 97, 98, 99, 100, 101, 102, 103, 104, 105, 106, 107, 108, 109, 110, 111,
     112, 113, 114, 115, 116, 117, 118, 119, 120, 121, 122, 91, 92, 93, 94, 95,
     96, 97, 98, 99, 100, 101, 102, 103, 104, 105, 106, 107, 108, 109, 110, 111,
     112, 113, 114, 115, 116, 117, 118, 119, 120, 121, 122, 123, 124, 125, 126, 127,
     128, 129, 130, 131, 132, 133, 134, 135, 136, 137, 138, 139, 140, 141, 142, 143,
     144, 145, 146, 147, 148, 149, 150, 151, 152, 153, 154, 155, 156, 157, 158, 159,
     160, 161, 162, 163, 164, 165, 166, 167, 168, 169, 170, 171, 172, 173, 174, 175,
     176, 177, 178, 179, 180, 181, 182, 183, 184, 185, 186, 187, 188, 189, 190, 191,
     192, 193, 194, 195, 196, 197, 198, 199, 200, 201, 202, 203, 204, 205, 206, 207,
     208, 209, 210, 211, 212, 213, 214, 215, 216, 217, 218, 219, 220, 221, 222, 223,
     224, 225, 226, 227, 228, 229, 230, 231, 232, 233, 234, 235, 236, 237, 238, 239,
     240, 241, 242, 243, 244, 245, 246, 247, 248, 249, 250, 251, 252, 253, 254, 255]"

definition sqlite3CtypeMap :: "u8 list" where
  "sqlite3CtypeMap = [
     0x00, 0x00, 0x00, 0x00, 0x00, 0x00, 0x00, 0x00, 0x00, 0x01, 0x01, 0x01, 0x01, 0x01, 0x00, 0x00,
     0x00, 0x00, 0x00, 0x00, 0x00, 0x00, 0x00, 0x00, 0x00, 0x00, 0x00, 0x00, 0x00, 0x00, 0x00, 0x00,
     0x01, 0x00, 0x80, 0x00, 0x40, 0x00, 0x00, 0x80, 0x00, 0x00, 0x00, 0x00, 0x00, 0x00, 0x00, 0x00,
     0x0c, 0x0c, 0x0c, 0x0c, 0x0c, 0x0c, 0x0c, 0x0c, 0x0c, 0x0c, 0x00, 0x00, 0x00, 0x00, 0x00, 0x00,
     0x00, 0x0a, 0x0a, 0x0a, 0x0a, 0x0a, 0x0a, 0x02, 0x02, 0x02, 0x02, 0x02, 0x02, 0x02, 0x02, 0x02,
     0x02, 0x02, 0x02, 0x02, 0x02, 0x02, 0x02, 0x02, 0x02, 0x02, 0x02, 0x80, 0x00, 0x00, 0x00, 0x40,
     0x80, 0x2a, 0x2a, 0x2a, 0x2a, 0x2a, 0x2a, 0x22, 0x22, 0x22, 0x22, 0x22, 0x22, 0x22, 0x22, 0x22,
     0x22, 0x22, 0x22, 0x22, 0x22, 0x22, 0x22, 0x22, 0x22, 0x22, 0x22, 0x00, 0x00, 0x00, 0x00, 0x00,
     0x40, 0x40, 0x40, 0x40, 0x40, 0x40, 0x40, 0x40, 0x40, 0x40, 0x40, 0x40, 0x40, 0x40, 0x40, 0x40,
     0x40, 0x40, 0x40, 0x40, 0x40, 0x40, 0x40, 0x40, 0x40, 0x40, 0x40, 0x40, 0x40, 0x40, 0x40, 0x40,
     0x40, 0x40, 0x40, 0x40, 0x40, 0x40, 0x40, 0x40, 0x40, 0x40, 0x40, 0x40, 0x40, 0x40, 0x40, 0x40,
     0x40, 0x40, 0x40, 0x40, 0x40, 0x40, 0x40, 0x40, 0x40, 0x40, 0x40, 0x40, 0x40, 0x40, 0x40, 0x40,
     0x40, 0x40, 0x40, 0x40, 0x40, 0x40, 0x40, 0x40, 0x40, 0x40, 0x40, 0x40, 0x40, 0x40, 0x40, 0x40,
     0x40, 0x40, 0x40, 0x40, 0x40, 0x40, 0x40, 0x40, 0x40, 0x40, 0x40, 0x40, 0x40, 0x40, 0x40, 0x40,
     0x40, 0x40, 0x40, 0x40, 0x40, 0x40, 0x40, 0x40, 0x40, 0x40, 0x40, 0x40, 0x40, 0x40, 0x40, 0x40,
     0x40, 0x40, 0x40, 0x40, 0x40, 0x40, 0x40, 0x40, 0x40, 0x40, 0x40, 0x40, 0x40, 0x40, 0x40, 0x40]"

definition UpperToLower :: "u8 \<Rightarrow> u8" where
  "UpperToLower c = sqlite3UpperToLower ! unat c"

definition ctype_has :: "u8 \<Rightarrow> u8 \<Rightarrow> bool" where
  "ctype_has m c \<longleftrightarrow> (sqlite3CtypeMap ! unat c) AND m \<noteq> 0"

definition sqlite3Toupper :: "u8 \<Rightarrow> u8" where
  "sqlite3Toupper x = x AND NOT ((sqlite3CtypeMap ! unat x) AND 0x20)"

definition sqlite3Isspace :: "u8 \<Rightarrow> bool" where "sqlite3Isspace = ctype_has 0x01"
definition sqlite3Isdigit :: "u8 \<Rightarrow> bool" where "sqlite3Isdigit = ctype_has 0x04"
definition sqlite3Isxdigit :: "u8 \<Rightarrow> bool" where "sqlite3Isxdigit = ctype_has 0x08"
definition sqlite3Tolower :: "u8 \<Rightarrow> u8" where "sqlite3Tolower = UpperToLower"
definition sqlite3Isquote :: "u8 \<Rightarrow> bool" where "sqlite3Isquote = ctype_has 0x80"
definition IdChar :: "u8 \<Rightarrow> bool" where "IdChar = ctype_has 0x46"

section \<open>What the tables compute\<close>

text \<open>Each table, or each bit of the classification table, is one list equation; a lookup at a byte
  then reads the closed form.\<close>

lemma upper_to_lower_table:
  "sqlite3UpperToLower =
     map (\<lambda>n. if 65 \<le> n \<and> n \<le> 90 then of_nat (n + 32) else of_nat n) [0..<256]"
  by code_simp

lemma ctype_has_tab:
  assumes "map (\<lambda>x. x AND m \<noteq> 0) sqlite3CtypeMap = map P [0..<256]"
  shows "ctype_has m c \<longleftrightarrow> P (unat c)"
proof -
  have "length sqlite3CtypeMap = 256"
    using arg_cong [OF assms, of length] by simp
  then have "(sqlite3CtypeMap ! unat c AND m \<noteq> 0) = map (\<lambda>x. x AND m \<noteq> 0) sqlite3CtypeMap ! unat c"
    by simp
  then show ?thesis by (simp add: ctype_has_def assms)
qed

lemmas byte_ranges = word_le_nat_alt word_less_nat_alt word_unat_eq_iff

lemma UpperToLower_eq: "UpperToLower c = (if 65 \<le> c \<and> c \<le> 90 then c + 32 else c)"
  by (simp add: UpperToLower_def upper_to_lower_table word_le_nat_alt)

lemma sqlite3Isspace_eq: "sqlite3Isspace c \<longleftrightarrow> (9 \<le> c \<and> c \<le> 13) \<or> c = 32"
proof -
  have "map (\<lambda>x. x AND 0x01 \<noteq> 0) sqlite3CtypeMap = map (\<lambda>n. (9 \<le> n \<and> n \<le> 13) \<or> n = 32) [0..<256]"
    by code_simp
  from ctype_has_tab [OF this] show ?thesis
    by (simp add: sqlite3Isspace_def byte_ranges)
qed

lemma sqlite3Isdigit_eq: "sqlite3Isdigit c \<longleftrightarrow> 48 \<le> c \<and> c \<le> 57"
proof -
  have "map (\<lambda>x. x AND 0x04 \<noteq> 0) sqlite3CtypeMap = map (\<lambda>n. 48 \<le> n \<and> n \<le> 57) [0..<256]"
    by code_simp
  from ctype_has_tab [OF this] show ?thesis
    by (simp add: sqlite3Isdigit_def byte_ranges)
qed

lemma sqlite3Isxdigit_eq:
  "sqlite3Isxdigit c \<longleftrightarrow> (48 \<le> c \<and> c \<le> 57) \<or> (65 \<le> c \<and> c \<le> 70) \<or> (97 \<le> c \<and> c \<le> 102)"
proof -
  have "map (\<lambda>x. x AND 0x08 \<noteq> 0) sqlite3CtypeMap =
      map (\<lambda>n. (48 \<le> n \<and> n \<le> 57) \<or> (65 \<le> n \<and> n \<le> 70) \<or> (97 \<le> n \<and> n \<le> 102)) [0..<256]"
    by code_simp
  from ctype_has_tab [OF this] show ?thesis
    by (simp add: sqlite3Isxdigit_def byte_ranges)
qed

lemma sqlite3Isquote_eq: "sqlite3Isquote c \<longleftrightarrow> c = 34 \<or> c = 39 \<or> c = 91 \<or> c = 96"
proof -
  have "map (\<lambda>x. x AND 0x80 \<noteq> 0) sqlite3CtypeMap =
      map (\<lambda>n. n = 34 \<or> n = 39 \<or> n = 91 \<or> n = 96) [0..<256]"
    by code_simp
  from ctype_has_tab [OF this] show ?thesis
    by (simp add: sqlite3Isquote_def byte_ranges)
qed

lemma IdChar_eq:
  "IdChar c \<longleftrightarrow> (48 \<le> c \<and> c \<le> 57) \<or> (65 \<le> c \<and> c \<le> 90) \<or> (97 \<le> c \<and> c \<le> 122) \<or> c = 36 \<or> c = 95
     \<or> 128 \<le> c"
proof -
  have "map (\<lambda>x. x AND 0x46 \<noteq> 0) sqlite3CtypeMap =
      map (\<lambda>n. (48 \<le> n \<and> n \<le> 57) \<or> (65 \<le> n \<and> n \<le> 90) \<or> (97 \<le> n \<and> n \<le> 122) \<or> n = 36 \<or> n = 95
        \<or> 128 \<le> n) [0..<256]"
    by code_simp
  from ctype_has_tab [OF this] show ?thesis
    by (simp add: IdChar_def byte_ranges)
qed

lemma UpperToLower_zero_iff [simp]: "UpperToLower c = 0 \<longleftrightarrow> c = 0"
  by (auto simp: UpperToLower_eq byte_ranges unat_word_ariths)

lemma UpperToLower_0 [simp]: "UpperToLower 0 = 0"
  by simp

lemma UpperToLower_idem [simp]: "UpperToLower (UpperToLower c) = UpperToLower c"
  by (auto simp: UpperToLower_eq byte_ranges unat_word_ariths)

section \<open>Comparison without regard to case\<close>

text \<open>The string pointer is the rest of the string; \<open>chr_at z 0\<close> is \<open>*z\<close>.\<close>

function str_icmp_loop :: "cstring \<Rightarrow> cstring \<Rightarrow> int" where
  "str_icmp_loop a b =
     (let c = chr_at a 0; x = chr_at b 0
      in if c = x then (if c = 0 then 0 else str_icmp_loop (tl a) (tl b))
         else let d = int (unat (UpperToLower c)) - int (unat (UpperToLower x))
              in if d \<noteq> 0 then d else str_icmp_loop (tl a) (tl b))"
  by pat_completeness auto
termination
proof (relation "measure (\<lambda>(a, b). length a + length b)", goal_cases)
  case 1
  then show ?case by simp
next
  case (2 a b c x)
  then show ?case by (cases a) (auto simp: chr_at_def)
next
  case (3 a b c x d)
  then show ?case by (cases a; cases b) (auto simp: chr_at_def)
qed

declare str_icmp_loop.simps [simp del]

definition sqlite3StrICmp :: "cstring \<Rightarrow> cstring \<Rightarrow> int" where
  "sqlite3StrICmp zLeft zRight = str_icmp_loop zLeft zRight"

text \<open>The API entry point takes pointers that may be NULL.\<close>

definition sqlite3_stricmp :: "cstring option \<Rightarrow> cstring option \<Rightarrow> int" where
  "sqlite3_stricmp zLeft zRight =
     (case zLeft of
        None \<Rightarrow> (case zRight of None \<Rightarrow> 0 | Some _ \<Rightarrow> -1)
      | Some l \<Rightarrow> (case zRight of None \<Rightarrow> 1 | Some r \<Rightarrow> sqlite3StrICmp l r))"

text \<open>The loop of \<open>sqlite3_strnicmp\<close>, whose condition decrements \<open>N\<close> even when it ends the loop.\<close>

function str_nicmp_loop :: "cstring \<Rightarrow> cstring \<Rightarrow> int \<Rightarrow> int" where
  "str_nicmp_loop a b N =
     (let go = N > 0 \<and> chr_at a 0 \<noteq> 0 \<and> UpperToLower (chr_at a 0) = UpperToLower (chr_at b 0);
          N' = N - 1
      in if go then str_nicmp_loop (tl a) (tl b) N'
         else if N' < 0 then 0
         else int (unat (UpperToLower (chr_at a 0))) - int (unat (UpperToLower (chr_at b 0))))"
  by pat_completeness auto
termination
  by (relation "measure (\<lambda>(a, b, N). nat N)") auto

declare str_nicmp_loop.simps [simp del]

definition sqlite3_strnicmp :: "cstring option \<Rightarrow> cstring option \<Rightarrow> int \<Rightarrow> int" where
  "sqlite3_strnicmp zLeft zRight N =
     (case zLeft of
        None \<Rightarrow> (case zRight of None \<Rightarrow> 0 | Some _ \<Rightarrow> -1)
      | Some l \<Rightarrow> (case zRight of None \<Rightarrow> 1 | Some r \<Rightarrow> str_nicmp_loop l r N))"

fun str_ihash_loop :: "u8 \<Rightarrow> cstring \<Rightarrow> u8" where
  "str_ihash_loop h [] = h"
| "str_ihash_loop h (c # z) = str_ihash_loop (h + UpperToLower c) z"

definition sqlite3StrIHash :: "cstring option \<Rightarrow> u8" where
  "sqlite3StrIHash z = (case z of None \<Rightarrow> 0 | Some s \<Rightarrow> str_ihash_loop 0 s)"

text \<open>The reference: \<open>strcmp\<close> on unsigned bytes, returning the difference at the first mismatch.\<close>

fun strcmp_spec :: "cstring \<Rightarrow> cstring \<Rightarrow> int" where
  "strcmp_spec [] [] = 0"
| "strcmp_spec (c # a) [] = int (unat c)"
| "strcmp_spec [] (x # b) = - int (unat x)"
| "strcmp_spec (c # a) (x # b) =
     (if c = x then strcmp_spec a b else int (unat c) - int (unat x))"

abbreviation fold_case :: "cstring \<Rightarrow> cstring" where
  "fold_case \<equiv> map UpperToLower"

lemma zero_in_fold [simp]: "0 \<in> UpperToLower ` S \<longleftrightarrow> 0 \<in> S"
  by (metis UpperToLower_0 UpperToLower_zero_iff image_iff)

lemma str_icmp_loop_spec:
  "0 \<notin> set a \<Longrightarrow> 0 \<notin> set b \<Longrightarrow> str_icmp_loop a b = strcmp_spec (fold_case a) (fold_case b)"
proof (induction a b rule: list_induct2')
  case (4 c a x b)
  then show ?case
    by (subst str_icmp_loop.simps) (auto simp: Let_def simp flip: word_uint_eq_iff)
qed (subst str_icmp_loop.simps, auto simp: Let_def uint_0_iff)+

lemma str_nicmp_loop_spec:
  "0 \<notin> set a \<Longrightarrow> 0 \<notin> set b \<Longrightarrow>
   str_nicmp_loop a b (int n) = strcmp_spec (take n (fold_case a)) (take n (fold_case b))"
proof (induction n arbitrary: a b)
  case 0
  then show ?case by (subst str_nicmp_loop.simps) (simp add: Let_def)
next
  case (Suc n)
  then show ?case
    by (cases a; cases b; subst str_nicmp_loop.simps) (auto simp: Let_def)
qed

lemma strcmp_spec_zero_iff: "0 \<notin> set a \<Longrightarrow> 0 \<notin> set b \<Longrightarrow> strcmp_spec a b = 0 \<longleftrightarrow> a = b"
  by (induction a b rule: strcmp_spec.induct) (auto simp: uint_0_iff simp flip: word_uint_eq_iff)

lemma strcmp_spec_antisym: "strcmp_spec b a = - strcmp_spec a b"
  by (induction a b rule: strcmp_spec.induct) auto

lemma sqlite3StrICmp_zero_iff:
  "0 \<notin> set a \<Longrightarrow> 0 \<notin> set b \<Longrightarrow> sqlite3StrICmp a b = 0 \<longleftrightarrow> fold_case a = fold_case b"
  using strcmp_spec_zero_iff [of "fold_case a" "fold_case b"]
  by (auto simp: sqlite3StrICmp_def str_icmp_loop_spec)

section \<open>Hexadecimal\<close>

text \<open>The digit trick: letters have bit 6 set, and \<open>'A' + 9\<close> and \<open>'a' + 9\<close> end in the nibble 10.\<close>

definition sqlite3HexToInt :: "u8 \<Rightarrow> u8" where
  "sqlite3HexToInt c =
     (let h = (ucast c :: i32); h = h + 9 * (1 AND drop_bit 6 h) in ucast (h AND 0xf))"

text \<open>\<open>sqlite3HexToBlob\<close> on \<open>n\<close> characters after the opening quote: the loop runs while
  \<open>i < n - 1\<close> in steps of two.\<close>

fun hex_to_blob_loop :: "cstring \<Rightarrow> nat \<Rightarrow> u8 list" where
  "hex_to_blob_loop (a # b # z) (Suc (Suc n)) =
     (push_bit 4 (sqlite3HexToInt a) OR sqlite3HexToInt b) # hex_to_blob_loop z n"
| "hex_to_blob_loop _ _ = []"

definition sqlite3HexToBlob :: "cstring \<Rightarrow> nat \<Rightarrow> u8 list" where
  "sqlite3HexToBlob z n = hex_to_blob_loop z ((n - 1) + (n - 1) mod 2)"

definition hex_digit :: "u8 \<Rightarrow> u8" where
  "hex_digit v = (if v < 10 then 48 + v else 87 + v)"

definition hex_of_blob :: "u8 list \<Rightarrow> cstring" where
  "hex_of_blob bs = concat (map (\<lambda>b. [hex_digit (drop_bit 4 b), hex_digit (b AND 0xf)]) bs)"

lemma hex_digit_val: "unat v < 16 \<Longrightarrow> sqlite3HexToInt (hex_digit v) = v"
proof -
  have "map (\<lambda>n. sqlite3HexToInt (hex_digit (of_nat n))) [0..<16] = map of_nat [0..<16]"
    by code_simp
  from arg_cong [OF this, of "\<lambda>xs. xs ! unat v"] show "unat v < 16 \<Longrightarrow> ?thesis" by simp
qed

lemma hex_digit_pair:
  "push_bit 4 (sqlite3HexToInt (hex_digit (drop_bit 4 b))) OR sqlite3HexToInt (hex_digit (b AND 0xf)) = b"
proof -
  have "unat (drop_bit 4 b) = unat b div 16" by (simp only: unat_drop_bit_eq) (simp add: drop_bit_eq_div)
  then have "unat (drop_bit 4 b) < 16" using unat_u8_less [of b] by linarith
  moreover have t: "b AND 0xf = take_bit 4 b" by (simp add: take_bit_eq_mask mask_eq_exp_minus_1)
  moreover have "unat (take_bit 4 b) < 16"
    using take_bit_nat_less_exp [of 4 "unat b"] by (simp add: unsigned_take_bit_eq)
  moreover have "push_bit 4 (drop_bit 4 b) OR take_bit 4 b = b"
    by (rule bit_word_eqI) (auto simp: bit_push_bit_iff bit_drop_bit_eq bit_or_iff bit_take_bit_iff)
  ultimately show ?thesis by (simp only: hex_digit_val)
qed

section \<open>Dequoting\<close>

text \<open>The loop of \<open>sqlite3Dequote\<close> from position 1; it returns the text it leaves in place. Running
  into the terminator without a closing quote (the source asserts it never happens) is \<open>None\<close>.\<close>

fun dequote_loop :: "u8 \<Rightarrow> cstring \<Rightarrow> cstring option" where
  "dequote_loop q [] = None"
| "dequote_loop q (c # z) =
     (if c = q
      then (case z of
              d # z' \<Rightarrow> if d = q then map_option ((#) q) (dequote_loop q z') else Some []
            | [] \<Rightarrow> Some [])
      else map_option ((#) c) (dequote_loop q z))"

definition sqlite3Dequote :: "cstring \<Rightarrow> cstring option" where
  "sqlite3Dequote z =
     (case z of
        [] \<Rightarrow> Some z
      | c # z' \<Rightarrow> if \<not> sqlite3Isquote c then Some z
                 else dequote_loop (if c = 91 then 93 else c) z')"

definition double_quote :: "u8 \<Rightarrow> cstring \<Rightarrow> cstring" where
  "double_quote q s = concat (map (\<lambda>c. if c = q then [q, q] else [c]) s)"

lemma dequote_loop_double:
  "chr_at rest 0 \<noteq> q \<Longrightarrow> dequote_loop q (double_quote q s @ q # rest) = Some s"
proof (induction s)
  case Nil
  then show ?case by (cases rest) (simp_all add: double_quote_def)
next
  case (Cons c s)
  then show ?case by (simp add: double_quote_def)
qed

section \<open>Properties\<close>

text \<open>On zero-terminated strings \<open>sqlite3StrICmp\<close> is \<open>strcmp\<close> of the two strings with ASCII
  upper-case letters replaced by lower-case ones: same value, hence 0 exactly when the strings differ
  in case only.\<close>

theorem sqlite3StrICmp_is_folded_strcmp:
  assumes "0 \<notin> set a" and "0 \<notin> set b"
  shows "sqlite3StrICmp a b = strcmp_spec (fold_case a) (fold_case b)
    \<and> (sqlite3StrICmp a b = 0 \<longleftrightarrow> fold_case a = fold_case b)"
  using assms sqlite3StrICmp_zero_iff [of a b] by (simp add: sqlite3StrICmp_def str_icmp_loop_spec)

theorem sqlite3StrICmp_is_folded_strcmp_witness:
  "sqlite3StrICmp (asc ''KiB'') (asc ''kib'') = 0 \<and> sqlite3StrICmp (asc ''GB'') (asc ''Gib'') = -7"
proof -
  have *: "0 \<notin> set (asc ''KiB'')" "0 \<notin> set (asc ''kib'')" "0 \<notin> set (asc ''GB'')" "0 \<notin> set (asc ''Gib'')"
    by simp_all
  show ?thesis
    using sqlite3StrICmp_is_folded_strcmp [OF *(1,2)] sqlite3StrICmp_is_folded_strcmp [OF *(3,4)]
    by (simp add: UpperToLower_eq)
qed

text \<open>\<open>sqlite3_strnicmp\<close> with a count \<open>n\<close> is the same comparison on the first \<open>n\<close> bytes.\<close>

lemma sqlite3_strnicmp_is_prefix_compare:
  "0 \<notin> set a \<Longrightarrow> 0 \<notin> set b \<Longrightarrow> sqlite3_strnicmp (Some a) (Some b) (int n)
    = strcmp_spec (take n (fold_case a)) (take n (fold_case b))"
  by (simp add: sqlite3_strnicmp_def str_nicmp_loop_spec)

lemma sqlite3_strnicmp_zero_iff:
  assumes "0 \<notin> set a" "0 \<notin> set b"
  shows "sqlite3_strnicmp (Some a) (Some b) (int n) = 0
    \<longleftrightarrow> take n (fold_case a) = take n (fold_case b)"
proof -
  have "0 \<notin> set (take n (fold_case a))" "0 \<notin> set (take n (fold_case b))"
    using assms by (auto dest!: in_set_takeD)
  then show ?thesis
    using assms by (simp add: sqlite3_strnicmp_is_prefix_compare strcmp_spec_zero_iff)
qed

text \<open>Dequoting undoes quoting: for each of SQLite's four quote characters, the body with every
  closing quote doubled, followed by a closing quote, dequotes to the body.\<close>

theorem sqlite3Dequote_quote:
  assumes "sqlite3Isquote q"
  shows "sqlite3Dequote (q # double_quote (if q = 91 then 93 else q) s @ [if q = 91 then 93 else q]) = Some s"
  using assms dequote_loop_double [of "[]" "if q = 91 then 93 else q" s]
  by (auto simp: sqlite3Dequote_def sqlite3Isquote_eq)

theorem sqlite3Dequote_quote_witness:
  "sqlite3Dequote (asc ''[a]]b]'') = Some (asc ''a]b'')"
proof -
  have "sqlite3Isquote 91" by (simp add: sqlite3Isquote_eq)
  from sqlite3Dequote_quote [OF this, of "asc ''a]b''"] show ?thesis
    by (simp add: double_quote_def)
qed

text \<open>A blob written as two hexadecimal digits per byte is read back by \<open>sqlite3HexToBlob\<close> from
  the text between the quotes of \<open>x'...'\<close>, the closing quote included in the length.\<close>

theorem sqlite3HexToBlob_roundtrip:
  "sqlite3HexToBlob (hex_of_blob bs @ [39]) (length (hex_of_blob bs) + 1) = bs"
proof -
  have len: "length (hex_of_blob bs) = 2 * length bs"
    by (induction bs) (simp_all add: hex_of_blob_def)
  have "hex_to_blob_loop (hex_of_blob bs @ [39]) (2 * length bs) = bs"
    by (induction bs) (simp_all add: hex_of_blob_def hex_digit_pair)
  then show ?thesis by (simp add: sqlite3HexToBlob_def len)
qed

end
