(* ===== verification/KvArgs.thy ===== *)
theory KvArgs
  imports Strings "HOL-Library.Signed_Division"
begin

text \<open>
  The command lines of \<open>kvtest.c\<close>: integer arguments with their suffixes, and the option loops of
  \<open>initMain\<close>, \<open>statMain\<close> and \<open>runMain\<close>. A C \<open>int\<close> is an \<open>int\<close> whose every intermediate result is
  checked to be representable (\<open>ck\<close>); signed overflow, undefined in C, is \<open>None\<close> or the error
  \<open>Undefined\<close>. \<open>fatalError\<close> ends the program: its calls are the other values of \<open>kv_error\<close>.
\<close>

section \<open>Errors and checked integers\<close>

datatype kv_error =
    Undefined
  | UnknownArgument cstring
  | UnknownOption cstring
  | MissingArgument cstring
  | NotPositive cstring
  | BadPagesize
  | MmapNegative
  | CannotOpen cstring
  | CreateFailed
  | CannotPrepare cstring
  | ExportUsage
  | NotADirectory cstring
  | UnknownObject cstring
  | NoSuchObject cstring
  | NoSuchFile cstring
  | CannotAllocate int
  | CannotWrite cstring
  | ShortWrite cstring
  | BlobOpenFailed
  | BlobIOFailed int

definition ck :: "int \<Rightarrow> int option" where
  "ck x = (if - 2147483648 \<le> x \<and> x \<le> 2147483647 then Some x else None)"

section \<open>Integer arguments\<close>

definition hexDigitValue :: "u8 \<Rightarrow> int" where
  "hexDigitValue c =
     (if 48 \<le> sint c \<and> sint c \<le> 57 then sint c - 48
      else if 97 \<le> sint c \<and> sint c \<le> 102 then sint c - 97 + 10
      else if 65 \<le> sint c \<and> sint c \<le> 70 then sint c - 65 + 10
      else - 1)"

definition aMult :: "(cstring \<times> int) list" where
  "aMult =
     [(asc ''KiB'', 1024),
      (asc ''MiB'', 1024 * 1024),
      (asc ''GiB'', 1024 * 1024 * 1024),
      (asc ''KB'', 1000),
      (asc ''MB'', 1000000),
      (asc ''GB'', 1000000000),
      (asc ''K'', 1000),
      (asc ''M'', 1000000),
      (asc ''G'', 1000000000)]"

text \<open>The two digit loops; each returns the value and the rest of the argument. The decimal loop
  evaluates \<open>v*10 + zArg[0] - '0'\<close> from left to right.\<close>

fun hex_loop :: "int \<Rightarrow> cstring \<Rightarrow> (int \<times> cstring) option" where
  "hex_loop v [] = Some (v, [])"
| "hex_loop v (c # z) =
     (if hexDigitValue c \<ge> 0
      then do { v1 \<leftarrow> ck (v * 16); v2 \<leftarrow> ck (v1 + hexDigitValue c); hex_loop v2 z }
      else Some (v, c # z))"

fun dec_loop :: "int \<Rightarrow> cstring \<Rightarrow> (int \<times> cstring) option" where
  "dec_loop v [] = Some (v, [])"
| "dec_loop v (c # z) =
     (if 48 \<le> sint c \<and> sint c \<le> 57
      then do { v1 \<leftarrow> ck (v * 10); v2 \<leftarrow> ck (v1 + sint c); v3 \<leftarrow> ck (v2 - 48); dec_loop v3 z }
      else Some (v, c # z))"

text \<open>The loop over \<open>aMult\<close>: the first suffix equal to the rest up to case multiplies.\<close>

fun mult_loop :: "(cstring \<times> int) list \<Rightarrow> int \<Rightarrow> cstring \<Rightarrow> int option" where
  "mult_loop [] v z = Some v"
| "mult_loop ((s, m) # ms) v z =
     (if sqlite3_stricmp (Some s) (Some z) = 0 then ck (v * m) else mult_loop ms v z)"

definition integerValue :: "cstring \<Rightarrow> int option" where
  "integerValue zArg =
     (let (isNeg, z) = (if chr_at zArg 0 = 0x2d then (True, drop 1 zArg)
                        else if chr_at zArg 0 = 0x2b then (False, drop 1 zArg)
                        else (False, zArg))
      in do {
        (v, z') \<leftarrow> (if chr_at z 0 = 0x30 \<and> chr_at z 1 = 0x78 then hex_loop 0 (drop 2 z)
                    else dec_loop 0 z);
        w \<leftarrow> mult_loop aMult v z';
        (if isNeg then ck (- w) else Some w)
      })"

section \<open>Decimal text\<close>

text \<open>\<open>%0nd\<close>, with a width.\<close>

definition zero_pad :: "nat \<Rightarrow> cstring \<Rightarrow> cstring" where
  "zero_pad w z = replicate (w - length z) 0x30 @ z"

definition fmt_0d :: "nat \<Rightarrow> int \<Rightarrow> cstring" where
  "fmt_0d w v = (if v < 0 then 0x2d # zero_pad (w - 1) (dec_nat (nat (- v))) else zero_pad w (dec_nat (nat v)))"

section \<open>The option loops\<close>

text \<open>The common shape of an option taking an integer: the next argument is consumed.\<close>

definition int_arg :: "cstring \<Rightarrow> cstring list \<Rightarrow> kv_error + int \<times> cstring list" where
  "int_arg a rest =
     (case rest of
        [] \<Rightarrow> Inl (MissingArgument a)
      | v # rest' \<Rightarrow> (case integerValue v of None \<Rightarrow> Inl Undefined | Some n \<Rightarrow> Inr (n, rest')))"

text \<open>\<open>if( z[1]=='-' ) z++\<close>\<close>

definition undash :: "cstring \<Rightarrow> cstring" where
  "undash a = (if chr_at a 1 = 0x2d then drop 1 a else a)"

subsection \<open>\<open>kvtest init\<close>\<close>

record init_opts =
  in_nCount :: int
  in_sz :: int
  in_iVariance :: int
  in_pgsz :: int

definition init_defaults :: init_opts where
  "init_defaults = \<lparr>in_nCount = 1000, in_sz = 10000, in_iVariance = 0, in_pgsz = 4096\<rparr>"

text \<open>\<open>((pgsz-1)&pgsz)!=0\<close> on 32-bit two's complement.\<close>

definition bad_pagesize :: "int \<Rightarrow> bool" where
  "bad_pagesize pgsz = (pgsz < 512 \<or> pgsz > 65536 \<or> (pgsz - 1) AND pgsz \<noteq> 0)"

definition init_opt :: "cstring \<Rightarrow> cstring list \<Rightarrow> init_opts \<Rightarrow> kv_error + init_opts \<times> cstring list" where
  "init_opt a rest o1 =
     (if chr_at a 0 \<noteq> 0x2d then Inl (UnknownArgument a)
      else let z = undash a in
        if z = asc ''-count'' then
          (case int_arg a rest of Inl e \<Rightarrow> Inl e
           | Inr (n, r) \<Rightarrow> if n < 1 then Inl (NotPositive a) else Inr (o1\<lparr>in_nCount := n\<rparr>, r))
        else if z = asc ''-size'' then
          (case int_arg a rest of Inl e \<Rightarrow> Inl e
           | Inr (n, r) \<Rightarrow> if n < 1 then Inl (NotPositive a) else Inr (o1\<lparr>in_sz := n\<rparr>, r))
        else if z = asc ''-variance'' then
          (case int_arg a rest of Inl e \<Rightarrow> Inl e
           | Inr (n, r) \<Rightarrow> Inr (o1\<lparr>in_iVariance := n\<rparr>, r))
        else if z = asc ''-pagesize'' then
          (case int_arg a rest of Inl e \<Rightarrow> Inl e
           | Inr (n, r) \<Rightarrow> if bad_pagesize n then Inl BadPagesize else Inr (o1\<lparr>in_pgsz := n\<rparr>, r))
        else Inl (UnknownOption a))"

subsection \<open>\<open>kvtest run\<close>\<close>

datatype order = ORDER_ASC | ORDER_DESC | ORDER_RANDOM

record run_opts =
  ro_nCount :: int
  ro_iKey :: int
  ro_iMax :: int
  ro_iCache :: int
  ro_bBlobApi :: bool
  ro_bStats :: bool
  ro_eOrder :: order
  ro_isUpdateTest :: bool
  ro_doIntegrityCk :: bool
  ro_noSync :: bool
  ro_doFsync :: bool
  ro_doMultiTrans :: bool
  ro_noCheckpoint :: bool
  ro_mmapSize :: int
  ro_zJMode :: "cstring option"

definition run_defaults :: run_opts where
  "run_defaults =
     \<lparr>ro_nCount = 1000, ro_iKey = 1, ro_iMax = 0, ro_iCache = 1000, ro_bBlobApi = False, ro_bStats = False,
      ro_eOrder = ORDER_ASC, ro_isUpdateTest = False, ro_doIntegrityCk = False, ro_noSync = False,
      ro_doFsync = False, ro_doMultiTrans = False, ro_noCheckpoint = False, ro_mmapSize = 0,
      ro_zJMode = None\<rparr>"

definition run_opt :: "cstring \<Rightarrow> cstring list \<Rightarrow> run_opts \<Rightarrow> kv_error + run_opts \<times> cstring list" where
  "run_opt a rest o1 =
     (if chr_at a 0 \<noteq> 0x2d then Inl (UnknownArgument a)
      else let z = undash a in
        if z = asc ''-asc'' then Inr (o1\<lparr>ro_eOrder := ORDER_ASC\<rparr>, rest)
        else if z = asc ''-blob-api'' then Inr (o1\<lparr>ro_bBlobApi := True\<rparr>, rest)
        else if z = asc ''-cache-size'' then
          (case int_arg a rest of Inl e \<Rightarrow> Inl e | Inr (n, r) \<Rightarrow> Inr (o1\<lparr>ro_iCache := n\<rparr>, r))
        else if z = asc ''-count'' then
          (case int_arg a rest of Inl e \<Rightarrow> Inl e
           | Inr (n, r) \<Rightarrow> if n < 1 then Inl (NotPositive a) else Inr (o1\<lparr>ro_nCount := n\<rparr>, r))
        else if z = asc ''-desc'' then Inr (o1\<lparr>ro_eOrder := ORDER_DESC\<rparr>, rest)
        else if z = asc ''-fsync'' then Inr (o1\<lparr>ro_doFsync := True\<rparr>, rest)
        else if z = asc ''-integrity-check'' then Inr (o1\<lparr>ro_doIntegrityCk := True\<rparr>, rest)
        else if z = asc ''-jmode'' then
          (case rest of [] \<Rightarrow> Inl (MissingArgument a) | v # r \<Rightarrow> Inr (o1\<lparr>ro_zJMode := Some v\<rparr>, r))
        else if z = asc ''-mmap'' then
          (case int_arg a rest of Inl e \<Rightarrow> Inl e
           | Inr (n, r) \<Rightarrow> if ro_nCount o1 < 0 then Inl MmapNegative else Inr (o1\<lparr>ro_mmapSize := n\<rparr>, r))
        else if z = asc ''-max-id'' then
          (case int_arg a rest of Inl e \<Rightarrow> Inl e | Inr (n, r) \<Rightarrow> Inr (o1\<lparr>ro_iMax := n\<rparr>, r))
        else if z = asc ''-multitrans'' then Inr (o1\<lparr>ro_doMultiTrans := True\<rparr>, rest)
        else if z = asc ''-nocheckpoint'' then Inr (o1\<lparr>ro_noCheckpoint := True\<rparr>, rest)
        else if z = asc ''-nosync'' then Inr (o1\<lparr>ro_noSync := True\<rparr>, rest)
        else if z = asc ''-random'' then Inr (o1\<lparr>ro_eOrder := ORDER_RANDOM\<rparr>, rest)
        else if z = asc ''-start'' then
          (case int_arg a rest of Inl e \<Rightarrow> Inl e
           | Inr (n, r) \<Rightarrow> if n < 1 then Inl (NotPositive a) else Inr (o1\<lparr>ro_iKey := n\<rparr>, r))
        else if z = asc ''-stats'' then Inr (o1\<lparr>ro_bStats := True\<rparr>, rest)
        else if z = asc ''-update'' then Inr (o1\<lparr>ro_isUpdateTest := True\<rparr>, rest)
        else Inl (UnknownOption a))"

subsection \<open>\<open>kvtest stat\<close>\<close>

definition stat_opt :: "cstring \<Rightarrow> cstring list \<Rightarrow> bool \<Rightarrow> kv_error + bool \<times> cstring list" where
  "stat_opt a rest doVacuum =
     (if chr_at a 0 \<noteq> 0x2d then Inl (UnknownArgument a)
      else let z = undash a in
        if z = asc ''-vacuum'' then Inr (True, rest) else Inl (UnknownOption a))"

text \<open>The \<open>for\<close> loop over the arguments: an option step consumes its own arguments.\<close>

fun opt_loop :: "nat \<Rightarrow> (cstring \<Rightarrow> cstring list \<Rightarrow> 'o \<Rightarrow> kv_error + 'o \<times> cstring list)
    \<Rightarrow> cstring list \<Rightarrow> 'o \<Rightarrow> kv_error + 'o" where
  "opt_loop n opt [] o1 = Inr o1"
| "opt_loop 0 opt (a # rest) o1 = Inl Undefined"
| "opt_loop (Suc n) opt (a # rest) o1 =
     (case opt a rest o1 of Inl e \<Rightarrow> Inl e | Inr (o2, rest') \<Rightarrow> opt_loop n opt rest' o2)"

definition init_args :: "cstring list \<Rightarrow> kv_error + init_opts" where
  "init_args args = opt_loop (length args) init_opt args init_defaults"

definition stat_args :: "cstring list \<Rightarrow> kv_error + bool" where
  "stat_args args = opt_loop (length args) stat_opt args False"

definition run_args :: "cstring list \<Rightarrow> kv_error + run_opts" where
  "run_args args = opt_loop (length args) run_opt args run_defaults"

section \<open>Parsing and printing numbers\<close>

lemma ck_Some_iff [simp]: "ck x = Some y \<longleftrightarrow> y = x \<and> - 2147483648 \<le> x \<and> x \<le> 2147483647"
  by (auto simp: ck_def)

lemma ck_None_iff [simp]: "ck x = None \<longleftrightarrow> \<not> (- 2147483648 \<le> x \<and> x \<le> 2147483647)"
  by (simp add: ck_def)

lemma digit_char:
  assumes "k < 10"
  shows "sint (of_nat (48 + k) :: u8) = 48 + int k" and "unat (of_nat (48 + k) :: u8) = 48 + k"
proof -
  have "map (\<lambda>k. (sint (of_nat (48 + k) :: u8), unat (of_nat (48 + k) :: u8))) [0..<10]
      = map (\<lambda>k. (48 + int k, 48 + k)) [0..<10]"
    by code_simp
  from arg_cong [OF this, of "\<lambda>xs. xs ! k"] assms
  show "sint (of_nat (48 + k) :: u8) = 48 + int k" and "unat (of_nat (48 + k) :: u8) = 48 + k"
    by simp_all
qed

lemma dec_loop_digit:
  "k < 10 \<Longrightarrow> 0 \<le> v \<Longrightarrow> dec_loop v (of_nat (48 + k) # z) =
     (if v * 10 + int k + 48 \<le> 2147483647 then dec_loop (v * 10 + int k) z else None)"
  by (simp only: dec_loop.simps digit_char(1)) (auto simp: ck_def)

lemma dec_loop_dec_nat:
  "dec_loop 0 (dec_nat n @ z) = (if int n + 48 \<le> 2147483647 then dec_loop (int n) z else None)"
proof (induction n arbitrary: z rule: dec_nat.induct)
  case (1 n)
  show ?case
  proof (cases "n < 10")
    case True
    then show ?thesis by (subst dec_nat.simps) (simp add: dec_loop_digit del: dec_loop.simps of_nat_add)
  next
    case False
    have e: "int (n div 10) * 10 + int (n mod 10) = int n"
      using div_mult_mod_eq [of n 10] by linarith
    have le: "int n + 48 \<le> 2147483647 \<Longrightarrow> int (n div 10) + 48 \<le> 2147483647" by linarith
    have "dec_nat n = dec_nat (n div 10) @ [of_nat (48 + n mod 10)]"
      using False by (subst dec_nat.simps) simp
    then have "dec_loop 0 (dec_nat n @ z) = dec_loop 0 (dec_nat (n div 10) @ of_nat (48 + n mod 10) # z)"
      by simp
    then show ?thesis
      using 1 [OF False, of "of_nat (48 + n mod 10) # z"] le dec_loop_digit [of "n mod 10" "int (n div 10)" z]
      by (simp only: e) auto
  qed
qed

lemma dec_nat_nonempty [simp]: "dec_nat n \<noteq> []"
  by (subst dec_nat.simps) simp

lemma dec_nat_digits: "c \<in> set (dec_nat n) \<Longrightarrow> 48 \<le> unat c \<and> unat c \<le> 57"
proof (induction n rule: dec_nat.induct)
  case (1 n)
  have "k < 10 \<Longrightarrow> unat (of_nat (48 + k) :: u8) = 48 + k" for k
    by (rule digit_char(2))
  then show ?case using 1 by (subst (asm) (2) dec_nat.simps) (auto split: if_splits)
qed

lemma chr_at_dec_nat: "48 \<le> unat (chr_at (dec_nat n @ z) 0) \<and> unat (chr_at (dec_nat n @ z) 0) \<le> 57"
  using dec_nat_digits [of "hd (dec_nat n)" n] by (cases "dec_nat n") auto

text \<open>Only the number 0 starts with the digit 0, so only it can be taken for a hexadecimal prefix.\<close>

lemma dec_nat_hd_zero: "0 < n \<Longrightarrow> hd (dec_nat n) \<noteq> 0x30"
proof (induction n rule: dec_nat.induct)
  case (1 n)
  show ?case
  proof (cases "n < 10")
    case True
    have "unat (of_nat (48 + n) :: u8) = 48 + n" using True by (rule digit_char(2))
    then have "(of_nat (48 + n) :: u8) \<noteq> 0x30" using 1(2) by (auto simp: word_unat_eq_iff)
    then show ?thesis using True by (subst dec_nat.simps) simp
  next
    case False
    then have "hd (dec_nat (n div 10)) \<noteq> 0x30" using 1 by simp
    then show ?thesis using False by (subst dec_nat.simps) simp
  qed
qed

lemma dec_nat_0: "dec_nat 0 = [0x30]"
  by (subst dec_nat.simps) simp

text \<open>The suffixes.\<close>

definition aMult1 :: "(cstring \<times> int) list" where
  "aMult1 = ([], 1) # aMult"

lemma stricmp_eq_0:
  "0 \<notin> set a \<Longrightarrow> 0 \<notin> set b \<Longrightarrow> sqlite3_stricmp (Some a) (Some b) = 0 \<longleftrightarrow> fold_case a = fold_case b"
  by (simp add: sqlite3_stricmp_def sqlite3StrICmp_zero_iff)

lemma fold_aMult:
  "map (\<lambda>(s, m). (fold_case s, m)) aMult =
     [(asc ''kib'', 1024), (asc ''mib'', 1048576), (asc ''gib'', 1073741824), (asc ''kb'', 1000),
      (asc ''mb'', 1000000), (asc ''gb'', 1000000000), (asc ''k'', 1000), (asc ''m'', 1000000), (asc ''g'', 1000000000)]"
  by (simp add: aMult_def UpperToLower_eq)

lemma mult_loop_map_of:
  "(\<forall>(s, m) \<in> set ms. 0 \<notin> set s) \<Longrightarrow> 0 \<notin> set z \<Longrightarrow>
   mult_loop ms v z = (case map_of (map (\<lambda>(s, m). (fold_case s, m)) ms) (fold_case z) of
     None \<Rightarrow> Some v | Some m \<Rightarrow> ck (v * m))"
  by (induction ms) (auto simp: stricmp_eq_0)

lemma mult_loop_suffix:
  assumes "(s, m) \<in> set aMult1" "0 \<notin> set z" "fold_case z = fold_case s" "ck v = Some v"
  shows "mult_loop aMult v z = ck (v * m)"
proof -
  have nz: "\<forall>(s, m) \<in> set aMult. 0 \<notin> set s" by (simp add: aMult_def)
  have "(fold_case s, m) \<in> set (map (\<lambda>(s, m). (fold_case s, m)) aMult1)" using assms(1) by force
  then show ?thesis
    unfolding mult_loop_map_of [OF nz assms(2)] assms(3) fold_aMult
    by (simp add: aMult1_def fold_aMult) (auto simp: assms(4))
qed


text \<open>No argument that starts with a decimal number and continues with a suffix starts with \<open>0x\<close>.\<close>

lemma suffix_not_x:
  assumes "(s, m) \<in> set aMult1" "fold_case z = fold_case s"
  shows "chr_at z 0 \<noteq> 0x78"
proof
  assume x: "chr_at z 0 = 0x78"
  then obtain r where "fold_case z = 0x78 # r" by (cases z) (auto simp: UpperToLower_eq)
  then have "hd (fold_case s) = 0x78" "s \<noteq> []" using assms(2) by auto
  then show False using assms(1) by (auto simp: aMult1_def aMult_def UpperToLower_eq)
qed

lemma not_hex_prefix:
  assumes "chr_at z 0 \<noteq> 0x78"
  shows "\<not> (chr_at (dec_nat n @ z) 0 = 0x30 \<and> chr_at (dec_nat n @ z) 1 = 0x78)"
proof (cases "n = 0")
  case True
  then show ?thesis using assms by (simp add: dec_nat_0)
next
  case False
  then show ?thesis using dec_nat_hd_zero [of n] by (cases "dec_nat n") auto
qed

text \<open>\<open>integerValue\<close> after its sign.\<close>

definition int_body :: "cstring \<Rightarrow> int option" where
  "int_body z = do {
     (v, z') \<leftarrow> (if chr_at z 0 = 0x30 \<and> chr_at z 1 = 0x78 then hex_loop 0 (drop 2 z) else dec_loop 0 z);
     mult_loop aMult v z' }"

lemma integerValue_unsigned:
  assumes "(s, m) \<in> set aMult1" "0 \<notin> set z" "fold_case z = fold_case s"
  shows "int_body (dec_nat n @ z)
     = (if int n + 48 \<le> 2147483647 \<and> int n * m \<le> 2147483647 then Some (int n * m) else None)"
proof -
  have m: "1 \<le> m" using assms(1) by (auto simp: aMult1_def aMult_def)
  have "dec_loop v z = Some (v, z)" for v
  proof (cases z)
    case (Cons c z')
    then have "hd (fold_case s) = UpperToLower c" "s \<noteq> []" using assms(3) by auto
    then have "\<not> (48 \<le> sint c \<and> sint c \<le> 57)"
      using assms(1) by (auto simp: aMult1_def aMult_def UpperToLower_eq sint_uint split: if_splits)
    then show ?thesis by (simp only: Cons dec_loop.simps if_False)
  qed simp
  moreover have lo: "- 2147483648 \<le> int n * m"
    using mult_nonneg_nonneg [of "int n" m] m by linarith
  ultimately show ?thesis
    using not_hex_prefix [OF suffix_not_x [OF assms(1,3)]] mult_loop_suffix [OF assms, of "int n"] m lo
    by (auto simp: int_body_def dec_loop_dec_nat ck_def)
qed


lemma chr_at_dec_nat_sign: "chr_at (dec_nat n @ z) 0 \<noteq> 0x2d" "chr_at (dec_nat n @ z) 0 \<noteq> 0x2b"
  using chr_at_dec_nat [of n z] by (auto simp: word_unat_eq_iff)

text \<open>The loop of options: each step that succeeds consumes at least its own name, so the number of
  arguments is fuel enough, and an invariant that every step keeps holds at the end.\<close>

lemma opt_loop_inv:
  assumes "opt_loop n opt args o1 = Inr o2" "P o1"
    and "\<And>a rest p p' r. opt a rest p = Inr (p', r) \<Longrightarrow> P p \<Longrightarrow> P p'"
  shows "P o2"
  using assms by (induction n opt args o1 rule: opt_loop.induct) (auto split: sum.splits)

lemma opt_loop_error:
  assumes "opt_loop n opt args o1 = Inl e" "length args \<le> n" "P o1"
    and "\<And>a rest p p' r. opt a rest p = Inr (p', r) \<Longrightarrow> P p \<Longrightarrow> P p' \<and> length r \<le> length rest"
  shows "\<exists>a rest p. P p \<and> opt a rest p = Inl e"
  using assms
proof (induction n opt args o1 rule: opt_loop.induct)
  case (3 n opt a rest o1)
  show ?case
  proof (cases "opt a rest o1")
    case (Inl e')
    then show ?thesis using 3 by auto
  next
    case (Inr q)
    then obtain p' r where q: "opt a rest o1 = Inr (p', r)" by (cases q) auto
    then have "P p'" "length r \<le> n" using 3(3,4) 3(5) [OF q] by auto
    moreover have "opt_loop n opt r p' = Inl e" using 3(2) q by simp
    ultimately show ?thesis using 3(1) [OF q refl] 3(5) by blast
  qed
qed auto

lemma int_arg_shorter: "int_arg a rest = Inr (n, r) \<Longrightarrow> length r \<le> length rest"
  by (auto simp: int_arg_def split: list.splits option.splits)

lemma run_opt_valid:
  "run_opt a rest p = Inr (p', r) \<Longrightarrow> 1 \<le> ro_nCount p \<and> 1 \<le> ro_iKey p \<Longrightarrow>
   (1 \<le> ro_nCount p' \<and> 1 \<le> ro_iKey p') \<and> length r \<le> length rest"
  by (auto simp: run_opt_def Let_def split: if_splits sum.splits list.splits dest: int_arg_shorter)

lemma run_opt_mmap: "1 \<le> ro_nCount p \<Longrightarrow> run_opt a rest p \<noteq> Inl MmapNegative"
  by (auto simp: run_opt_def Let_def int_arg_def split: if_splits sum.splits list.splits option.splits)

text \<open>The test for a power of two.\<close>

lemma and_odd_even: "(2 * k + 1) AND (2 * m) = 2 * (k AND m)" for k m :: nat
  by (subst and_rec) simp

lemma and_pred_zero_nat: "0 < n \<Longrightarrow> (n - 1) AND n = 0 \<Longrightarrow> \<exists>k. n = 2 ^ k" for n :: nat
proof (induction n rule: less_induct)
  case (less n)
  show ?case
  proof (cases "even n")
    case True
    then obtain m where m: "n = 2 * m" "0 < m" using less.prems by (auto elim: evenE)
    have "(n - 1) AND n = 2 * ((m - 1) AND m)"
    proof -
      have e: "n - 1 = 2 * (m - 1) + 1" using m by simp
      show ?thesis by (subst e, subst m(1), rule and_odd_even)
    qed
    then have "\<exists>k. m = 2 ^ k" using less m by auto
    then show ?thesis using m(1) by (auto intro: exI [where x = "Suc _"])
  next
    case False
    then obtain m where m: "n = 2 * m + 1" by (auto elim: oddE)
    then have "(n - 1) AND n = 2 * m"
      by (simp add: and_rec [of "2 * m" "Suc (2 * m)"])
    then have "m = 0" using less.prems by simp
    then show ?thesis using m by (auto intro: exI [where x = 0])
  qed
qed

lemma pow2_range: "512 \<le> (2::nat) ^ k \<Longrightarrow> 2 ^ k \<le> (65536::nat) \<Longrightarrow> k \<in> {9, 10, 11, 12, 13, 14, 15, 16}"
proof -
  assume "512 \<le> (2::nat) ^ k" "2 ^ k \<le> (65536::nat)"
  then have "(2::nat) ^ 9 \<le> 2 ^ k" "(2::nat) ^ k \<le> 2 ^ 16" by simp_all
  then have "9 \<le> k" "k \<le> 16" by (simp_all add: power_increasing_iff del: power_numeral)
  then show ?thesis by auto
qed

lemma bad_pagesize_iff:
  "\<not> bad_pagesize n \<longleftrightarrow> n \<in> {512, 1024, 2048, 4096, 8192, 16384, 32768, 65536}"
proof
  assume a: "\<not> bad_pagesize n"
  then have n: "512 \<le> n" "n \<le> 65536" "(n - 1) AND n = 0" by (auto simp: bad_pagesize_def)
  have "int ((nat n - 1) AND nat n) = (n - 1) AND n"
    using n by (simp add: of_nat_and_eq of_nat_diff)
  then have "(nat n - 1) AND nat n = 0" using n by simp
  then obtain k where k: "nat n = 2 ^ k" using and_pred_zero_nat [of "nat n"] n by auto
  then have "k \<in> {9, 10, 11, 12, 13, 14, 15, 16}" using n by (intro pow2_range) (simp_all flip: k)
  then have "nat n \<in> {512, 1024, 2048, 4096, 8192, 16384, 32768, 65536}" using k by auto
  then show "n \<in> {512, 1024, 2048, 4096, 8192, 16384, 32768, 65536}" using n by auto
next
  assume "n \<in> {512, 1024, 2048, 4096, 8192, 16384, 32768, 65536}"
  then show "\<not> bad_pagesize n" by (auto simp: bad_pagesize_def)
qed

lemma init_opt_valid:
  "init_opt a rest p = Inr (p', r) \<Longrightarrow>
   1 \<le> in_nCount p \<and> 1 \<le> in_sz p \<and> \<not> bad_pagesize (in_pgsz p) \<Longrightarrow>
   1 \<le> in_nCount p' \<and> 1 \<le> in_sz p' \<and> \<not> bad_pagesize (in_pgsz p')"
  by (auto simp: init_opt_def Let_def split: if_splits sum.splits)

lemma integerValue_body:
  "chr_at z 0 \<noteq> 0x2d \<Longrightarrow> chr_at z 0 \<noteq> 0x2b \<Longrightarrow> integerValue z = int_body z"
  "integerValue (0x2d # z) = int_body z \<bind> (\<lambda>w. ck (- w))"
  by (simp_all add: integerValue_def int_body_def case_prod_beta' Let_def)

section \<open>Properties\<close>

text \<open>An integer argument made of a decimal number and one of the nine suffixes in any case (or
  none) has the value number times multiplier, and with a leading \<open>-\<close> its negation, provided the
  product fits an \<open>int\<close> and the number is at most 2147483599. For the 48 larger numbers up to
  \<open>INT_MAX\<close> the code's \<open>v*10 + zArg[0] - '0'\<close> overflows before the subtraction: the result is
  undefined.\<close>

theorem integerValue_decimal_suffix:
  assumes "(s, m) \<in> set aMult1" "0 \<notin> set z" "fold_case z = fold_case s"
  shows "integerValue (dec_nat n @ z)
       = (if int n \<le> 2147483599 \<and> int n * m \<le> 2147483647 then Some (int n * m) else None)
    \<and> integerValue (0x2d # dec_nat n @ z)
       = (if int n \<le> 2147483599 \<and> int n * m \<le> 2147483647 then Some (- (int n * m)) else None)"
proof -
  have m: "1 \<le> m" using assms(1) by (auto simp: aMult1_def aMult_def)
  then have "0 \<le> int n * m" by simp
  then have "int n * m \<le> 2147483647 \<Longrightarrow> ck (- (int n * m)) = Some (- (int n * m))" by (simp only: ck_Some_iff) linarith
  moreover note integerValue_unsigned [OF assms, of n]
  moreover have "int n + 48 \<le> 2147483647 \<longleftrightarrow> int n \<le> 2147483599" by linarith
  ultimately show ?thesis
    using chr_at_dec_nat_sign [of n z] by (simp add: integerValue_body)
qed

theorem integerValue_decimal_suffix_witness:
  "integerValue (asc ''100k'') = Some 100000 \<and> integerValue (asc ''2147483600'') = None"
proof -
  have d: "dec_nat 100 @ asc ''k'' = asc ''100k''" "dec_nat 2147483600 @ [] = asc ''2147483600''"
    by (simp_all add: dec_nat.simps)
  show ?thesis
    using conjunct1 [OF integerValue_decimal_suffix [of "asc ''K''" 1000 "asc ''k''" 100]]
      conjunct1 [OF integerValue_decimal_suffix [of "[]" 1 "[]" 2147483600]]
    unfolding d by (simp add: aMult1_def aMult_def UpperToLower_eq)
qed

text \<open>C34. What \<open>kvtest init\<close> accepts: whenever its arguments are accepted, the count and the size are
  positive and the page size is one of the powers of two from 512 to 65536.\<close>

theorem init_args_valid:
  assumes "init_args args = Inr p"
  shows "1 \<le> in_nCount p \<and> 1 \<le> in_sz p
    \<and> in_pgsz p \<in> {512, 1024, 2048, 4096, 8192, 16384, 32768, 65536}"
proof -
  have d: "1 \<le> in_nCount init_defaults \<and> 1 \<le> in_sz init_defaults \<and> \<not> bad_pagesize (in_pgsz init_defaults)"
    by (simp add: init_defaults_def bad_pagesize_def)
  have "1 \<le> in_nCount p \<and> 1 \<le> in_sz p \<and> \<not> bad_pagesize (in_pgsz p)"
    by (rule opt_loop_inv [OF assms [unfolded init_args_def],
        where P = "\<lambda>p. 1 \<le> in_nCount p \<and> 1 \<le> in_sz p \<and> \<not> bad_pagesize (in_pgsz p)", OF d init_opt_valid])
  then show ?thesis by (simp only: bad_pagesize_iff)
qed

lemma int_100k: "integerValue (asc ''100k'') = Some 100000"
  by (simp add: integerValue_def hexDigitValue_def ck_def aMult_def stricmp_eq_0 UpperToLower_eq)

theorem init_args_valid_witness:
  "\<exists>p. init_args [asc ''--count'', asc ''100k''] = Inr p \<and> 1 \<le> in_nCount p"
proof -
  have e: "init_args [asc ''--count'', asc ''100k''] = Inr (init_defaults\<lparr>in_nCount := 100000\<rparr>)"
    by (simp add: init_args_def init_opt_def undash_def int_arg_def int_100k [simplified])
  from init_args_valid [OF this] show ?thesis using e by blast
qed

text \<open>C35. What \<open>kvtest run\<close> accepts: the count and the start key are positive. The size for memory
  mapping is not checked: the test meant for it looks at the count, so its error never occurs whatever
  the arguments, and a negative size is taken.\<close>

theorem run_args_checked:
  "(run_args args = Inr p \<longrightarrow> 1 \<le> ro_nCount p \<and> 1 \<le> ro_iKey p)
   \<and> run_args args \<noteq> Inl MmapNegative
   \<and> (integerValue v = Some n \<longrightarrow> run_args [asc ''--mmap'', v] = Inr (run_defaults\<lparr>ro_mmapSize := n\<rparr>))"
proof (intro conjI impI)
  let ?P = "\<lambda>p. 1 \<le> ro_nCount p \<and> 1 \<le> ro_iKey p"
  have d: "?P run_defaults" by (simp add: run_defaults_def)
  show "1 \<le> ro_nCount p" "1 \<le> ro_iKey p" if "run_args args = Inr p"
    using opt_loop_inv [OF that [unfolded run_args_def], of ?P, OF d] run_opt_valid by blast+
  show "run_args args \<noteq> Inl MmapNegative"
    using opt_loop_error [of "length args" run_opt args run_defaults MmapNegative ?P] d run_opt_valid run_opt_mmap
    unfolding run_args_def by blast
  show "run_args [asc ''--mmap'', v] = Inr (run_defaults\<lparr>ro_mmapSize := n\<rparr>)" if "integerValue v = Some n"
    using that by (simp add: run_args_def run_opt_def undash_def int_arg_def run_defaults_def)
qed

theorem run_args_checked_witness:
  "run_args [asc ''--mmap'', asc ''-5''] = Inr (run_defaults\<lparr>ro_mmapSize := -5\<rparr>)"
proof -
  have "integerValue (asc ''-5'') = Some (-5)"
    by (simp add: integerValue_def ck_def aMult_def stricmp_eq_0 UpperToLower_eq)
  with run_args_checked [of "[]" run_defaults "asc ''-5''" "-5"] show ?thesis by blast
qed

end
