(* ===== verification/KvFiles.thy ===== *)
theory KvFiles
  imports KvArgs
begin

text \<open>
  The part of \<open>kvtest.c\<close> that works on files: \<open>pathType\<close>, \<open>fileSize\<close>, \<open>readFile\<close>, \<open>updateFile\<close>,
  \<open>kvtest_mkdir\<close> and \<open>exportMain\<close>. The file system is a map from paths to nodes. What the operating
  system and the allocator decide (permissions, free space, memory) is the record \<open>os\<close>, an argument of
  every operation; what is fixed by the calls themselves is in the definitions: \<open>mkdir\<close> fails on an
  existing object, \<open>fopen\<close> for writing fails on a directory and truncates a file, \<open>fread\<close> of zero bytes
  reads no item. \<open>sqlite3_mprintf\<close> is taken to succeed.
\<close>

section \<open>The file system\<close>

datatype node = File "u8 list" | Dir | Special nat

type_synonym fs = "cstring \<Rightarrow> node option"

record os =
  os_access :: "fs \<Rightarrow> cstring \<Rightarrow> bool"
  os_mkdir :: "fs \<Rightarrow> cstring \<Rightarrow> bool"
  os_open_r :: "fs \<Rightarrow> cstring \<Rightarrow> bool"
  os_open_w :: "fs \<Rightarrow> cstring \<Rightarrow> bool"
  os_fread :: "fs \<Rightarrow> cstring \<Rightarrow> bool"
  os_fwrite :: "fs \<Rightarrow> cstring \<Rightarrow> nat \<Rightarrow> nat"
  os_malloc :: "nat \<Rightarrow> bool"

text \<open>An operating system on which everything that can succeed does.\<close>

definition os_ideal :: os where
  "os_ideal = \<lparr>os_access = (\<lambda>fs p. fs p \<noteq> None), os_mkdir = (\<lambda>fs p. True), os_open_r = (\<lambda>fs p. True),
     os_open_w = (\<lambda>fs p. True), os_fread = (\<lambda>fs p. True), os_fwrite = (\<lambda>fs p n. n), os_malloc = (\<lambda>n. True)\<rparr>"

definition open_for_write :: "os \<Rightarrow> fs \<Rightarrow> cstring \<Rightarrow> bool" where
  "open_for_write os fs z = (os_open_w os fs z \<and> fs z \<noteq> Some Dir)"

section \<open>Looking at paths\<close>

datatype path_type = PATH_NEXIST | PATH_DIR | PATH_TREE | PATH_DB | PATH_OTHER

definition node_size :: "node \<Rightarrow> nat" where
  "node_size n = (case n of File bs \<Rightarrow> length bs | Dir \<Rightarrow> 0 | Special k \<Rightarrow> k)"

definition pathType :: "os \<Rightarrow> fs \<Rightarrow> cstring \<Rightarrow> path_type" where
  "pathType os fs zPath =
     (if \<not> os_access os fs zPath then PATH_NEXIST
      else case fs zPath of
        None \<Rightarrow> PATH_OTHER
      | Some Dir \<Rightarrow>
          (case fs (zPath @ asc ''/00'') of
             None \<Rightarrow> PATH_DIR
           | Some Dir \<Rightarrow> PATH_TREE
           | Some _ \<Rightarrow> PATH_DIR)
      | Some n \<Rightarrow> if node_size n mod 512 = 0 then PATH_DB else PATH_OTHER)"

definition fileSize :: "fs \<Rightarrow> cstring \<Rightarrow> int" where
  "fileSize fs zPath =
     (case fs zPath of
        None \<Rightarrow> - 1
      | Some (File bs) \<Rightarrow> int (length bs)
      | Some _ \<Rightarrow> - 1)"

section \<open>Reading and updating a file\<close>

text \<open>\<open>readFile\<close>: the buffer and, in \<open>*pnByte\<close>, its length; \<open>None\<close> is the null pointer.
  \<open>sqlite3_malloc64(0)\<close> is null.\<close>

definition readFile :: "os \<Rightarrow> fs \<Rightarrow> cstring \<Rightarrow> u8 list option" where
  "readFile os fs zName =
     (let nIn = fileSize fs zName
      in if nIn < 0 then None
         else if \<not> os_open_r os fs zName then None
         else if nIn = 0 \<or> \<not> os_malloc os (nat nIn) then None
         else if \<not> os_fread os fs zName then None
         else case fs zName of Some (File bs) \<Rightarrow> Some bs | _ \<Rightarrow> None)"

text \<open>\<open>updateFile\<close>: \<open>rnd n\<close> is what \<open>sqlite3_randomness\<close> puts in a buffer of \<open>n\<close> bytes. Returns the
  result (\<open>*pnByte\<close>) and the file system, changed also when the program ends with an error.\<close>

definition updateFile :: "os \<Rightarrow> (nat \<Rightarrow> u8 list) \<Rightarrow> fs \<Rightarrow> cstring \<Rightarrow> (kv_error + int) \<times> fs" where
  "updateFile os rnd fs zName =
     (let sz = fileSize fs zName
      in if sz < 0 then (Inl (NoSuchFile zName), fs)
         else if sz = 0 then (Inr 0, fs)
         else if \<not> os_malloc os (nat sz) then (Inl (CannotAllocate sz), fs)
         else if \<not> open_for_write os fs zName then (Inl (CannotWrite zName), fs)
         else
           let pBuf = rnd (nat sz);
               nWritten = os_fwrite os fs zName (nat sz);
               fs' = fs(zName \<mapsto> File (take nWritten pBuf))
           in if nWritten \<noteq> nat sz then (Inl (ShortWrite zName), fs') else (Inr sz, fs'))"

definition kvtest_mkdir :: "os \<Rightarrow> cstring \<Rightarrow> fs \<Rightarrow> fs" where
  "kvtest_mkdir os zDir fs = (if fs zDir = None \<and> os_mkdir os fs zDir then fs(zDir \<mapsto> Dir) else fs)"

section \<open>File names of keys\<close>

text \<open>The formats \<open>%06d\<close> and \<open>%02d/%02d/%02d\<close> of \<open>runMain\<close> and \<open>exportMain\<close>; C division truncates.\<close>

definition key_dir :: "int \<Rightarrow> cstring" where
  "key_dir iKey = fmt_0d 6 iKey"

definition key_tree :: "int \<Rightarrow> cstring" where
  "key_tree iKey =
     fmt_0d 2 (iKey sdiv 10000) @ asc ''/'' @ fmt_0d 2 ((iKey sdiv 100) smod 100) @ asc ''/''
       @ fmt_0d 2 (iKey smod 100)"

definition key_tail :: "path_type \<Rightarrow> int \<Rightarrow> cstring" where
  "key_tail t iKey = (if t = PATH_DIR then key_dir iKey else key_tree iKey)"

definition key_path :: "path_type \<Rightarrow> cstring \<Rightarrow> int \<Rightarrow> cstring" where
  "key_path t zDb iKey = zDb @ asc ''/'' @ key_tail t iKey"

section \<open>Exporting\<close>

text \<open>\<open>sqlite3_snprintf(20, zTail, ...)\<close> keeps 19 characters.\<close>

definition snprintf20 :: "cstring \<Rightarrow> cstring" where
  "snprintf20 z = take 19 z"

text \<open>One row: returns the text shown, and the file system. \<open>fopen\<close> is not checked: writing through
  the null pointer is undefined.\<close>

definition export_row :: "os \<Rightarrow> path_type \<Rightarrow> cstring \<Rightarrow> int \<times> u8 list \<Rightarrow> fs \<Rightarrow> (kv_error + cstring) \<times> fs" where
  "export_row os t zDir row fs =
     (let iKey = fst row; pData = snd row;
          (zTail, fs1) =
            (if t = PATH_DIR then (snprintf20 (key_dir iKey), fs)
             else
               let fs2 = kvtest_mkdir os (zDir @ asc ''/'' @ snprintf20 (fmt_0d 2 (iKey sdiv 10000))) fs;
                   fs3 = kvtest_mkdir os (zDir @ asc ''/'' @ snprintf20 (fmt_0d 2 (iKey sdiv 10000) @ asc ''/''
                           @ fmt_0d 2 ((iKey sdiv 100) smod 100))) fs2
               in (snprintf20 (key_tree iKey), fs3));
          zFN = zDir @ asc ''/'' @ zTail
      in if \<not> open_for_write os fs1 zFN then (Inl Undefined, fs1)
         else
           let nWrote = os_fwrite os fs1 zFN (length pData);
               fs4 = fs1(zFN \<mapsto> File (take nWrote pData))
           in if nWrote \<noteq> length pData then (Inl (ShortWrite zFN), fs4) else (Inr zTail, fs4))"

fun export_rows :: "os \<Rightarrow> path_type \<Rightarrow> cstring \<Rightarrow> (int \<times> u8 list) list \<Rightarrow> fs \<Rightarrow> (kv_error + cstring list) \<times> fs" where
  "export_rows os t zDir [] fs = (Inr [], fs)"
| "export_rows os t zDir (row # rows) fs =
     (case export_row os t zDir row fs of
        (Inl e, fs') \<Rightarrow> (Inl e, fs')
      | (Inr z, fs') \<Rightarrow>
          (case export_rows os t zDir rows fs' of
             (Inl e, fs2) \<Rightarrow> (Inl e, fs2)
           | (Inr zs, fs2) \<Rightarrow> (Inr (z # zs), fs2)))"

fun export_args :: "os \<Rightarrow> cstring \<Rightarrow> cstring list \<Rightarrow> fs \<Rightarrow> (kv_error + unit) \<times> fs" where
  "export_args os zDir [] fs = (Inr (), fs)"
| "export_args os zDir (a # args) fs =
     (let z = (if chr_at a 0 = 0x2d \<and> chr_at a 1 = 0x2d then drop 1 a else a)
      in if z = asc ''-tree'' then export_args os zDir args (kvtest_mkdir os (zDir @ asc ''/00'') fs)
         else (Inl (UnknownArgument a), fs))"

text \<open>\<open>exportMain\<close>: \<open>argv\<close> is the whole argument vector. \<open>db_open\<close> is the result code of
  \<open>sqlite3_open\<close> and \<open>db_rows\<close> the rows of \<open>SELECT k, v FROM kv ORDER BY k\<close>, \<open>None\<close> if it cannot be
  prepared. Returns the tails shown.\<close>

definition exportMain :: "os \<Rightarrow> (cstring \<Rightarrow> int) \<Rightarrow> (cstring \<Rightarrow> (int \<times> u8 list) list option) \<Rightarrow> cstring list
    \<Rightarrow> fs \<Rightarrow> (kv_error + cstring list) \<times> fs" where
  "exportMain os db_open db_rows argv fs =
     (if length argv < 4 then (Inl ExportUsage, fs)
      else
        let zDb = argv ! 2; zDir = argv ! 3;
            (r, fs1) = export_args os zDir (drop 4 argv) (kvtest_mkdir os zDir fs)
        in case r of
             Inl e \<Rightarrow> (Inl e, fs1)
           | Inr _ \<Rightarrow>
               let ePathType = pathType os fs1 zDir
               in if ePathType \<noteq> PATH_DIR \<and> ePathType \<noteq> PATH_TREE then (Inl (NotADirectory zDir), fs1)
                  else if db_open zDb \<noteq> 0 then (Inl (CannotOpen zDb), fs1)
                  else (case db_rows zDb of
                         None \<Rightarrow> (Inl (CannotPrepare (asc ''SELECT k, v FROM kv ORDER BY k'')), fs1)
                       | Some rows \<Rightarrow> export_rows os ePathType zDir rows fs1))"

section \<open>File names identify keys\<close>

definition tail_step :: "int \<Rightarrow> u8 \<Rightarrow> int" where
  "tail_step v c = (if c = 0x2f then v else 10 * v + (int (unat c) - 48))"

definition tail_value :: "cstring \<Rightarrow> int" where
  "tail_value z = foldl tail_step 0 z"

lemma tail_step_digit: "k < 10 \<Longrightarrow> tail_step v (of_nat (48 + k)) = 10 * v + int k"
proof -
  assume k: "k < 10"
  have "unat (of_nat (48 + k) :: u8) = 48 + k" using k by (rule digit_char(2))
  moreover from this have "(of_nat (48 + k) :: u8) \<noteq> 0x2f" by (auto simp: word_unat_eq_iff)
  ultimately show ?thesis by (simp add: tail_step_def)
qed

lemma foldl_dec_nat: "foldl tail_step v (dec_nat n) = v * 10 ^ length (dec_nat n) + int n"
proof (induction n arbitrary: v rule: dec_nat.induct)
  case (1 n)
  show ?case
  proof (cases "n < 10")
    case True
    then show ?thesis using tail_step_digit [of n v] by (subst (1 2) dec_nat.simps) (simp del: of_nat_add)
  next
    case False
    then have e: "dec_nat n = dec_nat (n div 10) @ [of_nat (48 + n mod 10)]"
      by (subst dec_nat.simps) simp
    have "int n = int (n div 10) * 10 + int (n mod 10)"
      using div_mult_mod_eq [of n 10] by linarith
    then show ?thesis
      using 1 [OF False, of v] tail_step_digit [of "n mod 10"] by (simp only: e) (simp del: of_nat_add)
  qed
qed

lemma foldl_zeros: "foldl tail_step 0 (replicate k 0x30) = 0"
  by (induction k) (simp_all add: tail_step_def)

lemma foldl_fmt_0d: "0 \<le> v \<Longrightarrow> foldl tail_step 0 (fmt_0d w v) = v"
  by (simp add: fmt_0d_def zero_pad_def foldl_zeros foldl_dec_nat)

lemma length_dec_nat_le: "n < 10 ^ Suc k \<Longrightarrow> length (dec_nat n) \<le> Suc k"
proof (induction k arbitrary: n)
  case 0
  then show ?case by (subst dec_nat.simps) simp
next
  case (Suc k)
  then have "length (dec_nat (n div 10)) \<le> Suc k" by (intro Suc.IH) (simp add: less_mult_imp_div_less)
  then show ?case by (subst dec_nat.simps) simp
qed

lemma foldl_two_digits:
  assumes "0 \<le> x" "x < 100"
  shows "foldl tail_step v (fmt_0d 2 x) = v * 100 + x"
proof -
  have l: "length (dec_nat (nat x)) \<le> Suc 1" using assms by (intro length_dec_nat_le) simp
  have "length (dec_nat (nat x)) \<noteq> 0" by simp
  then have "length (dec_nat (nat x)) = 1 \<or> length (dec_nat (nat x)) = 2" using l by linarith
  then show ?thesis
    using assms by (auto simp: fmt_0d_def zero_pad_def foldl_dec_nat tail_step_def)
qed

lemma sdiv_nonneg: "0 \<le> k \<Longrightarrow> 0 < m \<Longrightarrow> k sdiv m = k div (m :: int)"
  by (cases "k = 0") (simp_all add: signed_divide_int_def)

lemma smod_nonneg: "0 \<le> k \<Longrightarrow> 0 < m \<Longrightarrow> k smod m = k mod (m :: int)"
  by (cases "k = 0") (simp_all add: signed_modulo_int_def)

lemma tail_value_key_tree:
  assumes k: "0 \<le> iKey"
  shows "tail_value (key_tree iKey) = iKey"
proof -
  let ?q = "iKey div 10000" and ?a = "(iKey div 100) mod 100" and ?b = "iKey mod 100"
  have s: "tail_step v 0x2f = v" for v by (simp add: tail_step_def)
  have "0 \<le> ?q" "0 \<le> iKey div 100" using k by (simp_all add: pos_imp_zdiv_nonneg_iff)
  then have "foldl tail_step 0 (fmt_0d 2 (iKey sdiv 10000)) = ?q"
    "foldl tail_step v (fmt_0d 2 ((iKey sdiv 100) smod 100)) = v * 100 + ?a"
    "foldl tail_step v (fmt_0d 2 (iKey smod 100)) = v * 100 + ?b" for v
    using k by (simp_all add: sdiv_nonneg smod_nonneg foldl_fmt_0d foldl_two_digits)
  then have "tail_value (key_tree iKey) = (?q * 100 + ?a) * 100 + ?b"
    by (simp add: tail_value_def key_tree_def s)
  moreover have "?q * 100 + ?a = iKey div 100"
    using zdiv_zmult2_eq [of 100 iKey 100] div_mult_mod_eq [of "iKey div 100" 100] by simp
  ultimately show ?thesis using div_mult_mod_eq [of iKey 100] by simp
qed

lemma tail_value_key_tail: "0 \<le> iKey \<Longrightarrow> tail_value (key_tail t iKey) = iKey"
  by (simp add: key_tail_def tail_value_key_tree) (simp add: tail_value_def key_dir_def foldl_fmt_0d)

lemma key_path_inj:
  assumes "0 \<le> j" "0 \<le> k" "key_path t z j = key_path t z k"
  shows "j = k"
proof -
  have "key_tail t j = key_tail t k" using assms(3) by (simp add: key_path_def)
  then show ?thesis using assms(1,2) by (metis tail_value_key_tail)
qed

text \<open>The 19 characters that \<open>sqlite3_snprintf\<close> keeps are enough for every 32-bit key.\<close>

lemma length_fmt_0d: "0 \<le> v \<Longrightarrow> v < 10 ^ Suc k \<Longrightarrow> length (fmt_0d w v) \<le> max w (Suc k)"
proof -
  assume "0 \<le> v" "v < 10 ^ Suc k"
  then have "nat v < 10 ^ Suc k" by (simp add: nat_less_iff)
  then have "length (dec_nat (nat v)) \<le> Suc k" by (rule length_dec_nat_le)
  then show ?thesis using \<open>0 \<le> v\<close> by (simp add: fmt_0d_def zero_pad_def)
qed

lemma length_key_tail:
  assumes "0 \<le> k" "k \<le> 2147483647"
  shows "length (key_dir k) \<le> 19" "length (key_tree k) \<le> 19"
proof -
  show "length (key_dir k) \<le> 19"
    using length_fmt_0d [of k 9 6] assms by (simp add: key_dir_def)
  have "0 \<le> k div 10000" "k div 10000 < 10 ^ Suc 5" using assms by (simp_all add: pos_imp_zdiv_nonneg_iff)
  then have "length (fmt_0d 2 (k div 10000)) \<le> 6" using length_fmt_0d [of "k div 10000" 5 2] by simp
  moreover have "length (fmt_0d 2 (k div 100 mod 100)) \<le> 2" "length (fmt_0d 2 (k mod 100)) \<le> 2"
    using length_fmt_0d [of "k div 100 mod 100" 1 2] length_fmt_0d [of "k mod 100" 1 2] by simp_all
  ultimately show "length (key_tree k) \<le> 19"
    using assms by (simp add: key_tree_def sdiv_nonneg smod_nonneg pos_imp_zdiv_nonneg_iff)
qed

section \<open>What an export leaves behind\<close>

lemma mkdir_keeps_files: "fs p = Some (File c) \<Longrightarrow> kvtest_mkdir os z fs p = Some (File c)"
  by (auto simp: kvtest_mkdir_def)

lemma export_row_files:
  assumes "export_row os t zDir (k, b) fs = (Inr z, fs')" "0 \<le> k" "k \<le> 2147483647"
  shows "z = key_tail t k" and "fs' (key_path t zDir k) = Some (File b)"
    and "p \<noteq> key_path t zDir k \<Longrightarrow> fs p = Some (File c) \<Longrightarrow> fs' p = Some (File c)"
  using assms(1) length_key_tail [OF assms(2,3)]
  by (auto simp: export_row_def Let_def snprintf20_def key_tail_def key_path_def mkdir_keeps_files
      split: if_splits)

lemma export_rows_Cons:
  assumes "export_rows os t zDir (row # rows) fs = (Inr zs, fs')"
  obtains z fs1 zs1 where "export_row os t zDir row fs = (Inr z, fs1)"
    and "export_rows os t zDir rows fs1 = (Inr zs1, fs')" and "zs = z # zs1"
  using assms by (auto split: prod.splits sum.splits)

lemma export_rows_keep:
  "export_rows os t zDir rows fs = (Inr zs, fs') \<Longrightarrow>
   (\<And>k b. (k, b) \<in> set rows \<Longrightarrow> 0 \<le> k \<and> k \<le> 2147483647 \<and> p \<noteq> key_path t zDir k) \<Longrightarrow>
   fs p = Some (File c) \<Longrightarrow> fs' p = Some (File c)"
proof (induction rows arbitrary: fs zs)
  case (Cons row rows)
  obtain k b where row: "row = (k, b)" by fastforce
  from Cons.prems(1) obtain z fs1 zs1 where r: "export_row os t zDir (k, b) fs = (Inr z, fs1)"
    and rs: "export_rows os t zDir rows fs1 = (Inr zs1, fs')"
    unfolding row by (rule export_rows_Cons)
  have k: "0 \<le> k" "k \<le> 2147483647" "p \<noteq> key_path t zDir k" using Cons.prems(2) [of k b] by (simp_all add: row)
  have "fs1 p = Some (File c)" by (rule export_row_files(3) [OF r k Cons.prems(3)])
  show ?case by (rule Cons.IH [OF rs _ \<open>fs1 p = Some (File c)\<close>])
      (meson Cons.prems(2) list.set_intros(2))
qed simp

lemma export_rows_files:
  "export_rows os t zDir rows fs = (Inr zs, fs') \<Longrightarrow>
   (\<And>k b. (k, b) \<in> set rows \<Longrightarrow> 0 \<le> k \<and> k \<le> 2147483647) \<Longrightarrow> distinct (map fst rows) \<Longrightarrow>
   zs = map (key_tail t \<circ> fst) rows \<and> (\<forall>(k, b) \<in> set rows. fs' (key_path t zDir k) = Some (File b))"
proof (induction rows arbitrary: fs zs)
  case (Cons row rows)
  obtain k b where row: "row = (k, b)" by fastforce
  from Cons.prems(1) obtain z fs1 zs1 where r: "export_row os t zDir (k, b) fs = (Inr z, fs1)"
    and rs: "export_rows os t zDir rows fs1 = (Inr zs1, fs')" and zs: "zs = z # zs1"
    unfolding row by (rule export_rows_Cons)
  have k: "0 \<le> k" "k \<le> 2147483647" using Cons.prems(2) [of k b] by (simp_all add: row)
  have "fs' (key_path t zDir k) = Some (File b)"
    using rs
  proof (rule export_rows_keep)
    fix j c assume j: "(j, c) \<in> set rows"
    then have "0 \<le> j" "j \<le> 2147483647" using Cons.prems(2) [of j c] by (simp_all add: row)
    moreover have "j \<noteq> k" using j Cons.prems(3) by (auto simp: row image_iff)
    ultimately show "0 \<le> j \<and> j \<le> 2147483647 \<and> key_path t zDir k \<noteq> key_path t zDir j"
      using key_path_inj [OF k(1), of j t zDir] by blast
  qed (rule export_row_files(2) [OF r k])
  moreover have "zs1 = map (key_tail t \<circ> fst) rows
      \<and> (\<forall>(k, b) \<in> set rows. fs' (key_path t zDir k) = Some (File b))"
    using rs by (rule Cons.IH) (use Cons.prems(2,3) in \<open>auto simp: row\<close>)
  ultimately show ?case using export_row_files(1) [OF r k] by (simp add: row zs)
qed simp


text \<open>An export makes no directory disappear, and makes new ones only in a tree.\<close>

lemma export_row_dirs:
  assumes "export_row os t zDir row fs = (Inr z, fs')"
  shows "fs p = Some Dir \<Longrightarrow> fs' p = Some Dir"
    and "t = PATH_DIR \<Longrightarrow> fs p \<noteq> Some Dir \<Longrightarrow> fs' p \<noteq> Some Dir"
  using assms by (auto simp: export_row_def Let_def open_for_write_def kvtest_mkdir_def split: if_splits)

lemma export_rows_dirs:
  "export_rows os t zDir rows fs = (Inr zs, fs') \<Longrightarrow>
   (fs p = Some Dir \<longrightarrow> fs' p = Some Dir) \<and> (t = PATH_DIR \<longrightarrow> fs p \<noteq> Some Dir \<longrightarrow> fs' p \<noteq> Some Dir)"
proof (induction rows arbitrary: fs zs)
  case (Cons row rows)
  from Cons.prems obtain z fs1 zs1 where r: "export_row os t zDir row fs = (Inr z, fs1)"
    and rs: "export_rows os t zDir rows fs1 = (Inr zs1, fs')"
    by (rule export_rows_Cons)
  show ?case using Cons.IH [OF rs] export_row_dirs [OF r, of p] by blast
qed simp

lemma pathType_layout:
  "pathType os fs z = PATH_DIR \<Longrightarrow> fs z = Some Dir \<and> fs (z @ asc ''/00'') \<noteq> Some Dir"
  "pathType os fs z = PATH_TREE \<Longrightarrow> fs z = Some Dir \<and> fs (z @ asc ''/00'') = Some Dir"
  by (auto simp: pathType_def split: if_splits option.splits node.splits)

lemma pathType_ideal:
  "fs z = Some Dir \<Longrightarrow> pathType os_ideal fs z = (if fs (z @ asc ''/00'') = Some Dir then PATH_TREE else PATH_DIR)"
  by (auto simp: pathType_def os_ideal_def split: option.splits node.splits)

lemma readFile_ideal: "fs z = Some (File b) \<Longrightarrow> readFile os_ideal fs z = (if b = [] then None else Some b)"
  by (simp add: readFile_def os_ideal_def fileSize_def)

lemma exportMain_rows:
  assumes "exportMain os db_open db_rows argv fs = (Inr zs, fs')" "db_rows (argv ! 2) = Some rows"
  obtains t fs1 where "t = PATH_DIR \<or> t = PATH_TREE" "pathType os fs1 (argv ! 3) = t"
    "export_rows os t (argv ! 3) rows fs1 = (Inr zs, fs')"
proof -
  obtain r fs1 where a: "export_args os (argv ! 3) (drop 4 argv) (kvtest_mkdir os (argv ! 3) fs) = (r, fs1)"
    by fastforce
  have "(pathType os fs1 (argv ! 3) = PATH_DIR \<or> pathType os fs1 (argv ! 3) = PATH_TREE)
      \<and> export_rows os (pathType os fs1 (argv ! 3)) (argv ! 3) rows fs1 = (Inr zs, fs')"
    using assms by (cases r) (simp_all add: exportMain_def Let_def a split: if_splits)
  then show ?thesis using that by blast
qed

lemma export_rows_pathType:
  assumes r: "export_rows os t z rows fs1 = (Inr zs, fs')"
    and t: "t = PATH_DIR \<or> t = PATH_TREE" "pathType os fs1 z = t"
  shows "pathType os_ideal fs' z = t"
proof -
  note d = export_rows_dirs [OF r, of z] export_rows_dirs [OF r, of "z @ asc ''/00''"]
  from t(1) show ?thesis
  proof
    assume t': "t = PATH_DIR"
    note p = pathType_layout(1) [OF t(2) [unfolded t']]
    have "fs' z = Some Dir" using d(1) p by blast
    moreover have "fs' (z @ asc ''/00'') \<noteq> Some Dir" using d(2) p t' by blast
    ultimately show ?thesis using t' by (simp only: pathType_ideal if_False)
  next
    assume t': "t = PATH_TREE"
    note p = pathType_layout(2) [OF t(2) [unfolded t']]
    have "fs' z = Some Dir" using d(1) p by blast
    moreover have "fs' (z @ asc ''/00'') = Some Dir" using d(2) p by blast
    ultimately show ?thesis using t' by (simp only: pathType_ideal if_True simp_thms)
  qed
qed

section \<open>Properties\<close>

text \<open>C31. A directory that \<open>kvtest export\<close> filled is one \<open>kvtest run\<close> can use: after an export that
  ends without error, of a table whose keys are distinct and not negative, \<open>pathType\<close> recognises the
  layout the export used, and reading the file that \<open>runMain\<close> computes for a key gives the blob of that
  key, unless the blob is empty, when \<open>readFile\<close> returns null.\<close>

theorem export_then_read:
  assumes "exportMain os db_open db_rows argv fs = (Inr zs, fs')" and "db_rows (argv ! 2) = Some rows"
    and "\<forall>(k, b) \<in> set rows. 0 \<le> k \<and> k \<le> 2147483647" and "distinct (map fst rows)"
  shows "\<exists>t. (t = PATH_DIR \<or> t = PATH_TREE) \<and> pathType os_ideal fs' (argv ! 3) = t
    \<and> zs = map (key_tail t \<circ> fst) rows
    \<and> (\<forall>(k, b) \<in> set rows.
          readFile os_ideal fs' (key_path t (argv ! 3) k) = (if b = [] then None else Some b))"
proof -
  obtain t fs1 where t: "t = PATH_DIR \<or> t = PATH_TREE" "pathType os fs1 (argv ! 3) = t"
    and r: "export_rows os t (argv ! 3) rows fs1 = (Inr zs, fs')"
    using assms(1,2) by (rule exportMain_rows)
  have f: "zs = map (key_tail t \<circ> fst) rows
      \<and> (\<forall>(k, b) \<in> set rows. fs' (key_path t (argv ! 3) k) = Some (File b))"
    using r by (rule export_rows_files) (use assms(3) in blast, rule assms(4))
  have "pathType os_ideal fs' (argv ! 3) = t"
    by (rule export_rows_pathType [OF r t])
  moreover have "readFile os_ideal fs' (key_path t (argv ! 3) k) = (if b = [] then None else Some b)"
    if "(k, b) \<in> set rows" for k b
  proof -
    have "fs' (key_path t (argv ! 3) k) = Some (File b)" using f that by blast
    then show ?thesis by (rule readFile_ideal)
  qed
  ultimately have "pathType os_ideal fs' (argv ! 3) = t
      \<and> (\<forall>(k, b) \<in> set rows.
          readFile os_ideal fs' (key_path t (argv ! 3) k) = (if b = [] then None else Some b))"
    by auto
  then show ?thesis using t(1) conjunct1 [OF f] by (intro exI [of _ t]) simp
qed

definition example_export :: "(kv_error + cstring list) \<times> fs" where
  "example_export = exportMain os_ideal (\<lambda>_. 0) (\<lambda>_. Some [(7, [11, 12])])
     [asc ''kvtest'', asc ''export'', asc ''t.db'', asc ''d''] Map.empty"

theorem export_then_read_witness:
  "\<exists>t. readFile os_ideal (snd example_export) (key_path t (asc ''d'') 7) = Some [11, 12]"
proof -
  have d: "dec_nat 7 = [55]" by (subst dec_nat.simps) simp
  have r: "replicate 5 x = [x, x, x, x, x]" for x :: u8 by (simp add: eval_nat_numeral)
  have "fst example_export = Inr [asc ''000007'']"
    by (simp add: example_export_def exportMain_def kvtest_mkdir_def os_ideal_def pathType_def
      export_row_def open_for_write_def snprintf20_def key_dir_def fmt_0d_def zero_pad_def d r)
  then have "exportMain os_ideal (\<lambda>_. 0) (\<lambda>_. Some [(7, [11, 12])])
     [asc ''kvtest'', asc ''export'', asc ''t.db'', asc ''d''] Map.empty
    = (Inr [asc ''000007''], snd example_export)"
    by (simp only: prod_eq_iff fst_conv snd_conv example_export_def)
  from export_then_read [OF this] show ?thesis by auto
qed

text \<open>Updating a file: on success the file holds the new bytes, its size is the old one and is the
  number reported; no other file is touched, also when the update fails.\<close>

theorem updateFile_size:
  assumes "updateFile os rnd fs z = (r, fs')" and "\<forall>n. length (rnd n) = n"
  shows "(\<forall>p. p \<noteq> z \<longrightarrow> fs' p = fs p)
    \<and> (\<forall>n. r = Inr n \<longrightarrow> n = fileSize fs z \<and> fileSize fs' z = n
          \<and> (n \<noteq> 0 \<longrightarrow> fs' z = Some (File (rnd (nat n)))))"
  using assms by (auto simp: updateFile_def Let_def fileSize_def split: if_splits option.splits node.splits)

theorem updateFile_size_witness:
  "fileSize (snd (updateFile os_ideal (\<lambda>n. replicate n 7) [asc ''f'' \<mapsto> File [1, 2, 3]] (asc ''f''))) (asc ''f'') = 3"
proof -
  let ?fs = "[asc ''f'' \<mapsto> File [1, 2, 3]]"
  have "updateFile os_ideal (\<lambda>n. replicate n 7) ?fs (asc ''f'') = (Inr 3, ?fs(asc ''f'' \<mapsto> File [7, 7, 7]))"
    by (simp add: updateFile_def fileSize_def os_ideal_def open_for_write_def Let_def numeral_3_eq_3)
  from updateFile_size [OF this] this show ?thesis by (simp add: fileSize_def)
qed

end
