(* ===== verification/KvRun.thy ===== *)
theory KvRun
  imports KvFiles
begin

text \<open>
  The commands of \<open>kvtest.c\<close>: the pseudo-random keys, the loop of \<open>runMain\<close> that fetches or updates
  one blob per cycle from files, through the blob interface or by SQL, and what \<open>init\<close>, \<open>stat\<close>, \<open>run\<close>
  and \<open>main\<close> execute and print. The database engine, as this program uses it, is the record \<open>env\<close> of
  its answers.
\<close>

section \<open>Pseudo-random keys\<close>

text \<open>\<open>randInt\<close>: a shift register \<open>x\<close> and a congruential generator \<open>y\<close>, both static.\<close>

type_synonym rng = "u32 \<times> u32"

definition rng_init :: rng where
  "rng_init = (0x333a13cd, 0xecb2adea)"

definition lfsr :: "u32 \<Rightarrow> u32" where
  "lfsr x = drop_bit 1 x XOR ((1 + NOT (x AND 1)) AND 0xd0000001)"

definition lcg :: "u32 \<Rightarrow> u32" where
  "lcg y = y * 1103515245 + 12345"

definition randInt :: "rng \<Rightarrow> u32 \<times> rng" where
  "randInt g = (let x = lfsr (fst g); y = lcg (snd g) in (x XOR y, (x, y)))"

text \<open>The key for the next cycle. \<open>randInt()%iMax\<close> is unsigned.\<close>

definition next_key :: "order \<Rightarrow> int \<Rightarrow> rng \<Rightarrow> int \<Rightarrow> int option \<times> rng" where
  "next_key eOrder iMax g iKey =
     (case eOrder of
        ORDER_ASC \<Rightarrow> (do { k \<leftarrow> ck (iKey + 1); Some (if k > iMax then 1 else k) }, g)
      | ORDER_DESC \<Rightarrow> (do { k \<leftarrow> ck (iKey - 1); Some (if k \<le> 0 then iMax else k) }, g)
      | ORDER_RANDOM \<Rightarrow> (let (r, g') = randInt g in (Some (sint (r mod word_of_int iMax + 1)), g')))"

section \<open>The loop of \<open>runMain\<close>\<close>

text \<open>The engine: \<open>sqlite3_blob_open\<close> for a key and \<open>sqlite3_blob_reopen\<close> on a handle return a result
  code and a handle; \<open>ev_blob_bytes\<close> is the size behind a handle and \<open>ev_blob_io\<close> the result code of
  reading or writing it; \<open>ev_prepare\<close> is the result code of preparing the query, and \<open>ev_row\<close> the size of
  the blob of a key, \<open>None\<close> if there is no such row (the update statement stores it through
  \<open>remember()\<close>).\<close>

record 'h env =
  ev_os :: os
  ev_rnd :: "nat \<Rightarrow> u8 list"
  ev_blob_open :: "int \<Rightarrow> int \<times> 'h"
  ev_blob_reopen :: "'h \<Rightarrow> int \<Rightarrow> int \<times> 'h"
  ev_blob_bytes :: "'h \<Rightarrow> int"
  ev_blob_io :: "'h \<Rightarrow> int"
  ev_realloc :: "int \<Rightarrow> bool"
  ev_prepare :: int
  ev_row :: "int \<Rightarrow> int option"

record 'h run_state =
  rs_i :: int
  rs_nCount :: int
  rs_nExtra :: int
  rs_iKey :: int
  rs_nData :: int
  rs_nTotal :: int
  rs_rng :: rng
  rs_pBlob :: "'h option"
  rs_nAlloc :: int
  rs_pData :: bool
  rs_pStmt :: bool
  rs_fs :: fs

text \<open>CASE 1: blobs out of separate files.\<close>

definition fetch_file :: "'h env \<Rightarrow> run_opts \<Rightarrow> path_type \<Rightarrow> cstring \<Rightarrow> 'h run_state \<Rightarrow> kv_error + 'h run_state" where
  "fetch_file ev ro t zDb s =
     (let zKey = key_path t zDb (rs_iKey s)
      in if ro_isUpdateTest ro
         then (case updateFile (ev_os ev) (ev_rnd ev) (rs_fs s) zKey of
                 (Inl e, fs') \<Rightarrow> Inl e
               | (Inr n, fs') \<Rightarrow> Inr (s\<lparr>rs_nData := n, rs_fs := fs'\<rparr>))
         else (case readFile (ev_os ev) (rs_fs s) zKey of
                 None \<Rightarrow> Inr (s\<lparr>rs_nData := 0\<rparr>)
               | Some bs \<Rightarrow> Inr (s\<lparr>rs_nData := int (length bs)\<rparr>)))"

text \<open>CASE 2: the incremental blob interface. When \<open>sqlite3_blob_reopen\<close> fails the cycle goes on with
  the \<open>nData\<close> of the one before.\<close>

definition fetch_blob :: "'h env \<Rightarrow> run_opts \<Rightarrow> 'h run_state \<Rightarrow> kv_error + 'h run_state" where
  "fetch_blob ev ro s =
     (case (case rs_pBlob s of
              None \<Rightarrow> (let (rc, h) = ev_blob_open ev (rs_iKey s)
                       in if rc \<noteq> 0 then Inl BlobOpenFailed else Inr (rc, h))
            | Some h0 \<Rightarrow> Inr (ev_blob_reopen ev h0 (rs_iKey s))) of
        Inl e \<Rightarrow> Inl e
      | Inr (rc, h) \<Rightarrow>
          let s1 = s\<lparr>rs_pBlob := Some h\<rparr>
          in if rc \<noteq> 0 then Inr s1
             else
               let nData = ev_blob_bytes ev h;
                   s2 = (if rs_nAlloc s1 < nData + 1
                         then s1\<lparr>rs_nData := nData, rs_nAlloc := nData + 100, rs_pData := ev_realloc ev (nData + 100)\<rparr>
                         else s1\<lparr>rs_nData := nData\<rparr>)
               in if \<not> rs_pData s2 then Inl (CannotAllocate (nData + 1))
                  else if ev_blob_io ev h \<noteq> 0 then Inl (BlobIOFailed (rs_iKey s))
                  else Inr s2)"

text \<open>CASE 3: SQL.\<close>

definition fetch_sql :: "'h env \<Rightarrow> 'h run_state \<Rightarrow> kv_error + 'h run_state" where
  "fetch_sql ev s =
     (if \<not> rs_pStmt s \<and> ev_prepare ev \<noteq> 0 then Inl (CannotPrepare (asc ''query''))
      else Inr (s\<lparr>rs_pStmt := True,
                  rs_nData := (case ev_row ev (rs_iKey s) of None \<Rightarrow> 0 | Some n \<Rightarrow> n)\<rparr>))"

definition fetch :: "'h env \<Rightarrow> run_opts \<Rightarrow> path_type \<Rightarrow> cstring \<Rightarrow> 'h run_state \<Rightarrow> kv_error + 'h run_state" where
  "fetch ev ro t zDb s =
     (if t = PATH_DIR \<or> t = PATH_TREE then fetch_file ev ro t zDb s
      else if ro_bBlobApi ro then fetch_blob ev ro s
      else fetch_sql ev s)"

text \<open>The end of a cycle: next key, totals, and one more cycle for a miss.\<close>

definition cycle_end :: "run_opts \<Rightarrow> int \<Rightarrow> 'h run_state \<Rightarrow> kv_error + 'h run_state" where
  "cycle_end ro iMax s =
     (case next_key (ro_eOrder ro) iMax (rs_rng s) (rs_iKey s) of
        (None, g) \<Rightarrow> Inl Undefined
      | (Some k, g) \<Rightarrow>
          let s1 = s\<lparr>rs_iKey := k, rs_rng := g, rs_nTotal := rs_nTotal s + rs_nData s\<rparr>
          in if rs_nData s = 0
             then (case ck (rs_nCount s + 1) of
                     None \<Rightarrow> Inl Undefined
                   | Some n \<Rightarrow> Inr (s1\<lparr>rs_nCount := n, rs_nExtra := rs_nExtra s + 1\<rparr>))
             else Inr s1)"

definition cycle :: "'h env \<Rightarrow> run_opts \<Rightarrow> path_type \<Rightarrow> cstring \<Rightarrow> int \<Rightarrow> 'h run_state \<Rightarrow> kv_error + 'h run_state" where
  "cycle ev ro t zDb iMax s =
     (case fetch ev ro t zDb s of
        Inl e \<Rightarrow> Inl e
      | Inr s1 \<Rightarrow>
          (case cycle_end ro iMax s1 of
             Inl e \<Rightarrow> Inl e
           | Inr s2 \<Rightarrow> (case ck (rs_i s + 1) of None \<Rightarrow> Inl Undefined | Some j \<Rightarrow> Inr (s2\<lparr>rs_i := j\<rparr>))))"

lemma cycle_i: "cycle ev ro t zDb iMax s = Inr s' \<Longrightarrow> rs_i s' = rs_i s + 1 \<and> rs_i s + 1 \<le> 2147483647"
  by (auto simp: cycle_def split: sum.splits option.splits)

function run_loop :: "'h env \<Rightarrow> run_opts \<Rightarrow> path_type \<Rightarrow> cstring \<Rightarrow> int \<Rightarrow> 'h run_state \<Rightarrow> kv_error + 'h run_state" where
  "run_loop ev ro t zDb iMax s =
     (if rs_i s < rs_nCount s
      then (case cycle ev ro t zDb iMax s of
              Inl e \<Rightarrow> Inl e
            | Inr s' \<Rightarrow> run_loop ev ro t zDb iMax s')
      else Inr s)"
  by pat_completeness auto
termination
  by (relation "measure (\<lambda>(ev, ro, t, zDb, iMax, s). nat (2147483647 - rs_i s))") (auto dest!: cycle_i)

declare run_loop.simps [simp del]


definition run_start :: "run_opts \<Rightarrow> fs \<Rightarrow> 'h run_state" where
  "run_start ro fs =
     \<lparr>rs_i = 0, rs_nCount = ro_nCount ro, rs_nExtra = 0, rs_iKey = ro_iKey ro, rs_nData = 0, rs_nTotal = 0,
      rs_rng = rng_init, rs_pBlob = None, rs_nAlloc = 0, rs_pData = False, rs_pStmt = False, rs_fs = fs\<rparr>"

section \<open>\<open>runMain\<close>\<close>

text \<open>What the connection answers to the queries about itself, and whether the database opens;
  \<open>q_max\<close> is \<open>SELECT max(k)\<close>, 0 for a null.\<close>

record db_info =
  q_open :: int
  q_page_size :: "int option"
  q_cache_size :: "int option"
  q_journal_mode :: "cstring option"
  q_max :: "int option"

text \<open>The statements executed before the loop, in their order, the page size and cache size read back,
  the journal mode shown and the largest key. \<open>%Q\<close> quotes the mode, doubling quotes.\<close>

record run_setup =
  su_sql :: "cstring list"
  su_iPagesize :: int
  su_iCache :: int
  su_zJMode :: cstring
  su_iMax :: int

definition quote_Q :: "cstring \<Rightarrow> cstring" where
  "quote_Q z = asc [CHR 0x27] @ concat (map (\<lambda>c. if c = 0x27 then [c, c] else [c]) z) @ asc [CHR 0x27]"

definition setup_db :: "db_info \<Rightarrow> run_opts \<Rightarrow> run_setup" where
  "setup_db q ro =
     \<lparr>su_sql =
        [asc ''PRAGMA mmap_size='' @ fmt_d (ro_mmapSize ro),
         asc ''PRAGMA cache_size='' @ fmt_d (ro_iCache ro)]
        @ (if ro_noSync ro then [asc ''PRAGMA synchronous=OFF''] else [])
        @ [asc ''PRAGMA page_size'', asc ''PRAGMA cache_size'']
        @ (case ro_zJMode ro of
             None \<Rightarrow> []
           | Some z \<Rightarrow> (asc ''PRAGMA journal_mode='' @ quote_Q z)
               # (if ro_noCheckpoint ro then [asc ''PRAGMA wal_autocheckpoint=0''] else []))
        @ [asc ''PRAGMA journal_mode'']
        @ (if ro_iMax ro \<le> 0 then [asc ''SELECT max(k) FROM kv''] else [])
        @ (if \<not> ro_doMultiTrans ro then [asc ''BEGIN''] else []),
      su_iPagesize = (case q_page_size q of None \<Rightarrow> 0 | Some n \<Rightarrow> n),
      su_iCache = (case q_cache_size q of None \<Rightarrow> 0 | Some n \<Rightarrow> n),
      su_zJMode = (case q_journal_mode q of None \<Rightarrow> asc ''???'' | Some z \<Rightarrow> z),
      su_iMax = (if ro_iMax ro \<le> 0 then (case q_max q of None \<Rightarrow> ro_iMax ro | Some n \<Rightarrow> n) else ro_iMax ro)\<rparr>"

definition setup_none :: "run_opts \<Rightarrow> run_setup" where
  "setup_none ro =
     \<lparr>su_sql = [], su_iPagesize = 0, su_iCache = ro_iCache ro, su_zJMode = [], su_iMax = ro_iMax ro\<rparr>"

text \<open>The lines printed at the end, without the SQLite version and the times.\<close>

definition report :: "run_opts \<Rightarrow> path_type \<Rightarrow> run_setup \<Rightarrow> int \<Rightarrow> 'h run_state \<Rightarrow> cstring list" where
  "report ro t su iMax s =
     (if rs_nExtra s \<noteq> 0
      then [fmt_d (rs_nCount s) @ asc '' cycles due to '' @ fmt_d (rs_nExtra s) @ asc '' misses''] else [])
     @ [asc ''--count '' @ fmt_d (rs_nCount s - rs_nExtra s) @ asc '' --max-id '' @ fmt_d iMax
          @ (case ro_eOrder ro of
               ORDER_RANDOM \<Rightarrow> asc '' --random''
             | ORDER_DESC \<Rightarrow> asc '' --desc''
             | ORDER_ASC \<Rightarrow> asc '' --asc'')]
     @ (if t = PATH_DB
        then [asc ''--cache-size '' @ fmt_d (su_iCache su) @ asc '' --jmode '' @ su_zJMode su,
              asc ''--mmap '' @ fmt_d (ro_mmapSize ro) @ (if ro_bBlobApi ro then asc '' --blob-api'' else [])]
             @ (if ro_noSync ro then [asc ''--nosync''] else [])
        else [])
     @ (if su_iPagesize su \<noteq> 0 then [asc ''Database page size: '' @ fmt_d (su_iPagesize su)] else [])"

text \<open>\<open>runMain\<close> on the whole argument vector: the statements executed, the final state of the loop
  and the report. The statistics (\<open>display_stats\<close>), the integrity check and the clock have no effect on
  these.\<close>

definition runMain :: "'h env \<Rightarrow> db_info \<Rightarrow> cstring list \<Rightarrow> fs
    \<Rightarrow> kv_error + cstring list \<times> 'h run_state \<times> cstring list" where
  "runMain ev q argv fs =
     (let zDb = argv ! 2; eType = pathType (ev_os ev) fs zDb
      in if eType = PATH_OTHER then Inl (UnknownObject zDb)
         else if eType = PATH_NEXIST then Inl (NoSuchObject zDb)
         else (case run_args (drop 3 argv) of
             Inl e \<Rightarrow> Inl e
           | Inr ro \<Rightarrow>
               if eType = PATH_DB \<and> q_open q \<noteq> 0 then Inl (CannotOpen zDb)
               else
                 let su = (if eType = PATH_DB then setup_db q ro else setup_none ro);
                     iMax = (if su_iMax su \<le> 0 then 1000 else su_iMax su)
                 in (case run_loop ev ro eType zDb iMax (run_start ro fs) of
                       Inl e \<Rightarrow> Inl e
                     | Inr s \<Rightarrow>
                         Inr (su_sql su @ (if eType = PATH_DB \<and> \<not> ro_doMultiTrans ro then [asc ''COMMIT''] else []),
                              s, report ro eType su iMax s))))"

section \<open>\<open>initMain\<close> and \<open>statMain\<close>\<close>

text \<open>\<open>initMain\<close>: the script it executes; \<open>db_open\<close> and \<open>db_exec\<close> are the result codes of opening and
  of running the script.\<close>

definition init_sql :: "init_opts \<Rightarrow> cstring" where
  "init_sql p =
     asc ''DROP TABLE IF EXISTS kv;'' @ [10]
     @ asc ''PRAGMA page_size='' @ fmt_d (in_pgsz p) @ asc '';'' @ [10]
     @ asc ''VACUUM;'' @ [10]
     @ asc ''BEGIN;'' @ [10]
     @ asc ''CREATE TABLE kv(k INTEGER PRIMARY KEY, v BLOB);'' @ [10]
     @ asc ''WITH RECURSIVE c(x) AS (VALUES(1) UNION ALL SELECT x+1 FROM c WHERE x<'' @ fmt_d (in_nCount p) @ asc '')''
     @ asc '' INSERT INTO kv(k,v) SELECT x, randomblob('' @ fmt_d (in_sz p) @ asc ''+(random()%(''
     @ fmt_d (in_iVariance p + 1) @ asc ''))) FROM c;'' @ [10]
     @ asc ''COMMIT;'' @ [10]"

definition initMain :: "(cstring \<Rightarrow> int) \<Rightarrow> (cstring \<Rightarrow> int) \<Rightarrow> cstring list \<Rightarrow> kv_error + cstring" where
  "initMain db_open db_exec argv =
     (case init_args (drop 3 argv) of
        Inl e \<Rightarrow> Inl e
      | Inr p \<Rightarrow>
          if db_open (argv ! 2) \<noteq> 0 then Inl (CannotOpen (argv ! 2))
          else if ck (in_iVariance p + 1) = None then Inl Undefined
          else if db_exec (init_sql p) \<noteq> 0 then Inl CreateFailed
          else Inr (init_sql p))"

text \<open>\<open>statMain\<close>: the statements and the lines shown. \<open>query\<close> gives the rows of integers of a statement,
  \<open>None\<close> if it cannot be prepared; \<open>integrity\<close> the lines of the integrity check. \<open>%8d\<close> pads on the
  left.\<close>

definition pad_left :: "nat \<Rightarrow> cstring \<Rightarrow> cstring" where
  "pad_left w z = replicate (w - length z) 0x20 @ z"

definition stat_line :: "string \<Rightarrow> int \<Rightarrow> cstring" where
  "stat_line label n = asc label @ pad_left 8 (fmt_d n)"

definition stat_query :: "(cstring \<Rightarrow> int list list option) \<Rightarrow> cstring \<Rightarrow> (int list list \<Rightarrow> cstring list) \<Rightarrow> kv_error + cstring list" where
  "stat_query query z f = (case query z of None \<Rightarrow> Inl (CannotPrepare z) | Some rows \<Rightarrow> Inr (f rows))"

definition stat_counts :: "int list list \<Rightarrow> cstring list" where
  "stat_counts rows =
     (case rows of
        [] \<Rightarrow> [asc ''No rows'']
      | r # _ \<Rightarrow>
          [stat_line ''Number of entries:  '' (r ! 0), stat_line ''Average value size: '' (r ! 3),
           stat_line ''Minimum value size: '' (r ! 1), stat_line ''Maximum value size: '' (r ! 2)])"

definition stat_first :: "string \<Rightarrow> int list list \<Rightarrow> cstring list" where
  "stat_first label rows = (case rows of [] \<Rightarrow> [] | r # _ \<Rightarrow> [stat_line label (r ! 0)])"

fun stat_queries :: "(cstring \<Rightarrow> int list list option) \<Rightarrow> (cstring \<times> (int list list \<Rightarrow> cstring list)) list \<Rightarrow> kv_error + cstring list" where
  "stat_queries query [] = Inr []"
| "stat_queries query ((z, f) # qs) =
     (case stat_query query z f of
        Inl e \<Rightarrow> Inl e
      | Inr ls \<Rightarrow> (case stat_queries query qs of Inl e \<Rightarrow> Inl e | Inr ls' \<Rightarrow> Inr (ls @ ls')))"

definition statMain :: "(cstring \<Rightarrow> int) \<Rightarrow> (cstring \<Rightarrow> int list list option) \<Rightarrow> cstring list option
    \<Rightarrow> cstring list \<Rightarrow> kv_error + cstring list" where
  "statMain db_open query integrity argv =
     (case stat_args (drop 3 argv) of
        Inl e \<Rightarrow> Inl e
      | Inr doVacuum \<Rightarrow>
          if db_open (argv ! 2) \<noteq> 0 then Inl (CannotOpen (argv ! 2))
          else
            (case stat_queries query
                [(asc ''SELECT count(*), min(length(v)), max(length(v)), avg(length(v))  FROM kv'', stat_counts),
                 (asc ''PRAGMA page_size'', stat_first ''Page-size:          ''),
                 (asc ''PRAGMA page_count'', stat_first ''Page-count:         ''),
                 (asc ''PRAGMA freelist_count'', stat_first ''Freelist-count:     '')] of
               Inl e \<Rightarrow> Inl e
             | Inr ls \<Rightarrow>
                 (case integrity of
                    None \<Rightarrow> Inl (CannotPrepare (asc ''PRAGMA integrity_check(10)''))
                  | Some is \<Rightarrow>
                      Inr ((if doVacuum then [asc ''Vacuuming....       done''] else []) @ ls
                           @ map (\<lambda>z. asc ''Integrity-check:    '' @ z) is))))"


text \<open>The SQL function \<open>remember(V,PTR)\<close>: memory is a map from addresses.\<close>

definition rememberFunc :: "int \<Rightarrow> int \<Rightarrow> (int \<Rightarrow> int option) \<Rightarrow> int \<times> (int \<Rightarrow> int option)" where
  "rememberFunc v ptr mem = (v, mem(ptr \<mapsto> v))"

section \<open>Statistics\<close>

text \<open>\<open>fgets\<close> with a buffer of 200 bytes: up to 199 bytes, ending after a newline.\<close>

fun fgets :: "nat \<Rightarrow> cstring \<Rightarrow> cstring \<times> cstring" where
  "fgets 0 z = ([], z)"
| "fgets (Suc n) [] = ([], [])"
| "fgets (Suc n) (c # z) = (if c = 10 then ([c], z) else (let (l, r) = fgets n z in (c # l, r)))"

lemma fgets_split: "fgets n z = (l, r) \<Longrightarrow> z = l @ r \<and> (0 < n \<and> z \<noteq> [] \<longrightarrow> l \<noteq> [])"
  by (induction n z arbitrary: l r rule: fgets.induct) (auto split: if_splits prod.splits)

definition aTrans :: "(cstring \<times> cstring) list" where
  "aTrans =
     [(asc ''rchar: '',                 asc ''Bytes received by read():''),
      (asc ''wchar: '',                 asc ''Bytes sent to write():''),
      (asc ''syscr: '',                 asc ''Read() system calls:''),
      (asc ''syscw: '',                 asc ''Write() system calls:''),
      (asc ''read_bytes: '',            asc ''Bytes read from storage:''),
      (asc ''write_bytes: '',           asc ''Bytes written to storage:''),
      (asc ''cancelled_write_bytes: '', asc ''Cancelled write bytes:'')]"

definition pad_right :: "nat \<Rightarrow> cstring \<Rightarrow> cstring" where
  "pad_right w z = z @ replicate (w - length z) 0x20"

fun trans_line :: "(cstring \<times> cstring) list \<Rightarrow> cstring \<Rightarrow> cstring" where
  "trans_line [] z = []"
| "trans_line ((zPattern, zDesc) # ts) z =
     (let n = length zPattern
      in if take n z = zPattern then pad_right 36 zDesc @ asc '' '' @ drop n z else trans_line ts z)"

text \<open>\<open>displayLinuxIoStats\<close>: \<open>None\<close> is a file that cannot be opened.\<close>

function io_lines :: "cstring \<Rightarrow> cstring" where
  "io_lines z =
     (if z = [] then []
      else let (l, r) = fgets 199 z in trans_line aTrans l @ io_lines r)"
  by pat_completeness auto
termination
proof (relation "measure length", simp)
  fix z :: cstring and x l r
  assume a: "z \<noteq> []" "x = fgets 199 z" "(l, r) = x"
  then have "z = l @ r \<and> (0 < (199::nat) \<and> z \<noteq> [] \<longrightarrow> l \<noteq> [])" by (intro fgets_split) simp
  then show "(r, z) \<in> measure length" using a(1) by auto
qed

declare io_lines.simps [simp del]

definition displayLinuxIoStats :: "cstring option \<Rightarrow> cstring" where
  "displayLinuxIoStats io = (case io of None \<Rightarrow> [] | Some z \<Rightarrow> io_lines z)"

text \<open>\<open>display_stats\<close>: \<open>status op\<close> and \<open>db_status op\<close> give the current value and the high-water mark.\<close>

definition display_stats :: "(nat \<Rightarrow> int \<times> int) \<Rightarrow> (nat \<Rightarrow> int \<times> int) \<Rightarrow> cstring option \<Rightarrow> cstring" where
  "display_stats status db_status io =
     (let cur = (\<lambda>op. fmt_d (fst (status op))); hi = (\<lambda>op. fmt_d (snd (status op)));
          dbcur = (\<lambda>op. fmt_d (fst (db_status op)))
      in [10]
      @ asc ''Memory Used:                         '' @ cur 0 @ asc '' (max '' @ hi 0 @ asc '') bytes'' @ [10]
      @ asc ''Number of Outstanding Allocations:   '' @ cur 9 @ asc '' (max '' @ hi 9 @ asc '')'' @ [10]
      @ asc ''Number of Pcache Pages Used:         '' @ cur 1 @ asc '' (max '' @ hi 1 @ asc '') pages'' @ [10]
      @ asc ''Number of Pcache Overflow Bytes:     '' @ cur 2 @ asc '' (max '' @ hi 2 @ asc '') bytes'' @ [10]
      @ asc ''Largest Allocation:                  '' @ hi 5 @ asc '' bytes'' @ [10]
      @ asc ''Largest Pcache Allocation:           '' @ hi 7 @ asc '' bytes'' @ [10]
      @ asc ''Pager Heap Usage:                    '' @ dbcur 1 @ asc '' bytes'' @ [10]
      @ asc ''Page cache hits:                     '' @ dbcur 7 @ [10]
      @ asc ''Page cache misses:                   '' @ dbcur 8 @ [10]
      @ asc ''Page cache writes:                   '' @ dbcur 9 @ [10]
      @ displayLinuxIoStats io)"

section \<open>\<open>main\<close>\<close>

definition commands :: "string list list" where
  "commands =
     [[''kvtest'', ''init'', ''test1.db'', ''--count'', ''100k''],
      [''kvtest'', ''stat'', ''test1.db''],
      [''kvtest'', ''export'', ''test1.db'', ''test1.dir''],
      [''kvtest'', ''export'', ''test1.db'', ''test1.tree'', ''--tree''],
      [''kvtest'', ''run'', ''test1.db'', ''--count'', ''100k'', ''--blob-api''],
      [''kvtest'', ''run'', ''test1.dir'', ''--count'', ''100k'', ''--blob-api''],
      [''kvtest'', ''run'', ''test1.tree'', ''--count'', ''100k'', ''--blob-api''],
      [''kvtest'', ''run'', ''test1.db'', ''--count'', ''100k'', ''--update''],
      [''kvtest'', ''run'', ''test1.dir'', ''--count'', ''100k'', ''--update''],
      [''kvtest'', ''run'', ''test1.tree'', ''--count'', ''100k'', ''--update'']]"

definition counts :: "nat list" where
  "counts = [5, 3, 4, 5, 6, 6, 6, 6, 6, 6]"

text \<open>\<open>main\<close> with the four commands as functions on the state \<open>'w\<close> of the world; an error ends the
  program. \<open>av\<close> is truncated to \<open>counts[i]\<close> arguments.\<close>

record 'w kv_commands =
  c_init :: "cstring list \<Rightarrow> 'w \<Rightarrow> kv_error + 'w"
  c_export :: "cstring list \<Rightarrow> 'w \<Rightarrow> kv_error + 'w"
  c_run :: "cstring list \<Rightarrow> 'w \<Rightarrow> kv_error + 'w"
  c_stat :: "cstring list \<Rightarrow> 'w \<Rightarrow> kv_error + 'w"

fun main_loop :: "'w kv_commands \<Rightarrow> (string list \<times> nat) list \<Rightarrow> 'w \<Rightarrow> kv_error + 'w" where
  "main_loop c [] w = Inr w"
| "main_loop c ((av, n) # cs) w =
     (let args = map asc (take n av);
          r = (if av ! 1 = ''init'' then c_init c args w
               else if av ! 1 = ''export'' then c_export c args w
               else if av ! 1 = ''run'' then c_run c args w
               else if av ! 1 = ''stat'' then c_stat c args w
               else Inr w)
      in case r of Inl e \<Rightarrow> Inl e | Inr w' \<Rightarrow> main_loop c cs w')"

definition kvtest_main :: "'w kv_commands \<Rightarrow> 'w \<Rightarrow> kv_error + 'w" where
  "kvtest_main c w = main_loop c (zip commands counts) w"

section \<open>The generator\<close>

lemma bit_lfsr:
  assumes "n < 32"
  shows "bit (lfsr x) n \<longleftrightarrow> (bit x (Suc n) \<noteq> (bit x 0 \<and> n \<in> {0, 28, 30, 31}))"
proof -
  have o: "(1 + NOT (x AND 1) :: u32) = (if bit x 0 then NOT 0 else 0)"
    by (simp add: one_and_eq and_one_eq bit_0 odd_iff_mod_2_eq_one even_iff_mod_2_eq_zero)
  have c: "bit (0xd0000001 :: u32) n \<longleftrightarrow> n \<in> {0, 28, 30, 31}"
  proof -
    have "map (bit (0xd0000001 :: u32)) [0..<32] = map (\<lambda>n. n \<in> {0, 28, 30, 31}) [0..<32]"
      by code_simp
    from arg_cong [OF this, of "\<lambda>xs. xs ! n"] assms show ?thesis by simp
  qed
  show ?thesis
    unfolding lfsr_def o using assms c
    by (simp add: bit_xor_iff bit_and_iff bit_not_iff bit_drop_bit_eq)
qed

lemma lfsr_inj: "lfsr x = lfsr y \<Longrightarrow> x = y"
proof (rule bit_word_eqI)
  fix n assume e: "lfsr x = lfsr y" and n: "n < LENGTH(32)"
  have b: "k < 32 \<Longrightarrow> bit x (Suc k) \<noteq> (bit x 0 \<and> k \<in> {0, 28, 30, 31})
      \<longleftrightarrow> bit y (Suc k) \<noteq> (bit y 0 \<and> k \<in> {0, 28, 30, 31})" for k
    using bit_lfsr [of k x] bit_lfsr [of k y] e by simp
  have "bit x 0 = bit y 0" using b [of 31] by simp
  then show "bit x n = bit y n" using b [of "n - 1"] n by (cases n) auto
qed

lemma lcg_inj: "lcg x = lcg y \<Longrightarrow> x = y"
proof -
  have c: "(1103515245 :: u32) * 0xeeb9eb65 = 1" by simp
  assume "lcg x = lcg y"
  then have "x * 1103515245 = y * 1103515245" by (simp add: lcg_def)
  then have "x * 1103515245 * 0xeeb9eb65 = y * 1103515245 * 0xeeb9eb65" by (rule arg_cong)
  then show ?thesis by (simp only: mult.assoc c mult_1_right)
qed

lemma lfsr_0: "lfsr 0 = 0"
  by (simp add: lfsr_def)

section \<open>The keys\<close>

definition key_pos :: "int \<Rightarrow> int \<Rightarrow> int \<Rightarrow> int" where
  "key_pos iMax k j = (k - 1 + j) mod iMax + 1"

lemma key_pos_range: "1 \<le> iMax \<Longrightarrow> 1 \<le> key_pos iMax k j \<and> key_pos iMax k j \<le> iMax"
  using pos_mod_bound [of iMax "k - 1 + j"] pos_mod_sign [of iMax "k - 1 + j"]
  unfolding key_pos_def by linarith

lemma key_pos_0: "1 \<le> k \<Longrightarrow> k \<le> iMax \<Longrightarrow> key_pos iMax k 0 = k"
  by (simp add: key_pos_def)

lemma key_pos_step: "1 \<le> iMax \<Longrightarrow> key_pos iMax (key_pos iMax k i) j = key_pos iMax k (i + j)"
  by (simp add: key_pos_def mod_simps ac_simps)

lemma next_key_asc:
  assumes "1 \<le> k" "k \<le> iMax" "iMax < 2147483647"
  shows "next_key ORDER_ASC iMax g k = (Some (key_pos iMax k 1), g)"
proof (cases "k = iMax")
  case True
  then show ?thesis using assms by (simp add: next_key_def ck_def key_pos_def)
next
  case False
  then show ?thesis using assms by (simp add: next_key_def ck_def key_pos_def)
qed

lemma next_key_desc:
  assumes "1 \<le> k" "k \<le> iMax" "iMax < 2147483647"
  shows "next_key ORDER_DESC iMax g k = (Some (if k = 1 then iMax else k - 1), g)"
  using assms by (auto simp: next_key_def ck_def)

lemma next_key_random:
  assumes "1 \<le> iMax" "iMax \<le> 2147483647"
  shows "\<exists>k'. fst (next_key ORDER_RANDOM iMax g k) = Some k' \<and> 1 \<le> k' \<and> k' \<le> iMax"
proof -
  define r where "r = fst (randInt g)"
  let ?m = "word_of_int iMax :: u32"
  have m: "uint ?m = iMax" using assms by (simp add: uint_word_of_int_eq take_bit_int_eq_self)
  have "uint (r mod ?m) = uint r mod iMax" by (simp add: uint_mod m)
  then have u: "0 \<le> uint (r mod ?m)" "uint (r mod ?m) < iMax" using assms by simp_all
  then have "uint (r mod ?m + 1) = uint (r mod ?m) + 1"
    using assms by (simp add: uint_word_ariths)
  then have "sint (r mod ?m + 1) = uint (r mod ?m) + 1"
    using u assms by (simp add: sint_uint signed_take_bit_int_eq_self)
  then show ?thesis using u by (simp add: next_key_def r_def Let_def case_prod_beta)
qed

lemma next_key_range:
  assumes "1 \<le> k" "k \<le> iMax" "iMax < 2147483647"
  shows "\<exists>k'. fst (next_key eOrder iMax g k) = Some k' \<and> 1 \<le> k' \<and> k' \<le> iMax"
  using assms next_key_asc [of k iMax g] next_key_desc [of k iMax g] next_key_random [of iMax g k]
    key_pos_range [of iMax k 1]
  by (cases eOrder) auto

section \<open>Where the blobs come from\<close>

text \<open>What the loop relies on: getting a blob leaves the counters, the key and the generator alone.\<close>

locale blob_source =
  fixes get :: "'h run_state \<Rightarrow> kv_error + 'h run_state"
  assumes frame: "get s = Inr s1 \<Longrightarrow> rs_i s1 = rs_i s \<and> rs_nCount s1 = rs_nCount s \<and> rs_nExtra s1 = rs_nExtra s
    \<and> rs_iKey s1 = rs_iKey s \<and> rs_nTotal s1 = rs_nTotal s \<and> rs_rng s1 = rs_rng s"
begin

lemma cycle_counts:
  assumes "get s = Inr s1" "cycle_end ro iMax s1 = Inr s2"
  shows "rs_i s2 = rs_i s \<and> rs_nCount s2 - rs_nExtra s2 = rs_nCount s - rs_nExtra s
    \<and> rs_nExtra s2 = rs_nExtra s + (if rs_nData s1 = 0 then 1 else 0)
    \<and> rs_nTotal s2 = rs_nTotal s + rs_nData s1"
  using assms(2) frame [OF assms(1)]
  by (auto simp: cycle_end_def Let_def split: prod.splits option.splits if_splits)

lemma cycle_key:
  assumes "get s = Inr s1" "cycle_end ro iMax s1 = Inr s2"
    and "1 \<le> rs_iKey s" "rs_iKey s \<le> iMax" "iMax < 2147483647"
  shows "1 \<le> rs_iKey s2 \<and> rs_iKey s2 \<le> iMax"
  using assms(2) frame [OF assms(1)] next_key_range [OF assms(3-5), of "ro_eOrder ro" "rs_rng s"]
  by (auto simp: cycle_end_def Let_def split: prod.splits option.splits if_splits)

end

interpretation files: blob_source "fetch_file ev ro t zDb" for ev ro t zDb
  by unfold_locales (auto simp: fetch_file_def Let_def split: if_splits prod.splits sum.splits option.splits)

interpretation blobs: blob_source "fetch_blob ev ro" for ev ro
  by unfold_locales
    (auto simp: fetch_blob_def Let_def split: if_splits prod.splits sum.splits option.splits)

interpretation sql: blob_source "fetch_sql ev" for ev
  by unfold_locales (auto simp: fetch_sql_def split: if_splits)

interpretation source: blob_source "fetch ev ro t zDb" for ev ro t zDb
  by unfold_locales
    (auto simp: fetch_def split: if_splits dest: files.frame blobs.frame sql.frame)


section \<open>The loop\<close>

lemma cycle_Inr:
  assumes "cycle ev ro t zDb iMax s = Inr s'"
  obtains s1 s2 where "fetch ev ro t zDb s = Inr s1" "cycle_end ro iMax s1 = Inr s2"
    "s' = s2\<lparr>rs_i := rs_i s + 1\<rparr>"
  using assms by (auto simp: cycle_def split: sum.splits option.splits)

lemma run_loop_induct [consumes 1, case_names stop step]:
  assumes "run_loop ev ro t zDb iMax s = Inr s'"
    and "\<not> rs_i s' < rs_nCount s' \<Longrightarrow> P s'"
    and "\<And>s s1. rs_i s < rs_nCount s \<Longrightarrow> cycle ev ro t zDb iMax s = Inr s1 \<Longrightarrow> P s1 \<Longrightarrow> P s"
  shows "P s"
  using assms
proof (induction ev ro t zDb iMax s rule: run_loop.induct)
  case (1 ev ro t zDb iMax s)
  show ?case
  proof (cases "rs_i s < rs_nCount s")
    case True
    then obtain s1 where c: "cycle ev ro t zDb iMax s = Inr s1" "run_loop ev ro t zDb iMax s1 = Inr s'"
      using 1(2) by (subst (asm) run_loop.simps) (auto split: sum.splits)
    have "P s1" using 1(1) [OF True c(1) c(2)] 1(3,4) by blast
    with 1(4) [OF True c(1)] show ?thesis by blast
  next
    case False
    then have "s' = s" using 1(2) by (subst (asm) run_loop.simps) simp
    then show ?thesis using 1(3) False by blast
  qed
qed

lemma run_loop_counts:
  "run_loop ev ro t zDb iMax s = Inr s' \<Longrightarrow>
   (rs_i s \<le> rs_nCount s \<longrightarrow> rs_i s' = rs_nCount s')
   \<and> rs_nCount s' - rs_nExtra s' = rs_nCount s - rs_nExtra s \<and> rs_nExtra s \<le> rs_nExtra s'"
proof (induction rule: run_loop_induct)
  case (step s s1)
  from step(2) obtain s2 s3 where f: "fetch ev ro t zDb s = Inr s2" "cycle_end ro iMax s2 = Inr s3"
    and s1: "s1 = s3\<lparr>rs_i := rs_i s + 1\<rparr>" by (rule cycle_Inr)
  show ?case using source.cycle_counts [OF f] step(1,3) by (auto simp: s1 split: if_splits)
qed simp

lemma run_loop_key:
  "run_loop ev ro t zDb iMax s = Inr s' \<Longrightarrow> iMax < 2147483647 \<Longrightarrow>
   1 \<le> rs_iKey s \<and> rs_iKey s \<le> iMax \<longrightarrow> 1 \<le> rs_iKey s' \<and> rs_iKey s' \<le> iMax"
proof (induction rule: run_loop_induct)
  case (step s s1)
  from step(2) obtain s2 s3 where f: "fetch ev ro t zDb s = Inr s2" "cycle_end ro iMax s2 = Inr s3"
    and s1: "s1 = s3\<lparr>rs_i := rs_i s + 1\<rparr>" by (rule cycle_Inr)
  show ?case using source.cycle_key [OF f _ _ step(4)] step(3,4) by (auto simp: s1)
qed simp

text \<open>SQL in ascending order over a table without gaps.\<close>

lemma run_loop_sql_asc:
  assumes "t = PATH_DB" "\<not> ro_bBlobApi ro" "ev_prepare ev = 0" "ro_eOrder ro = ORDER_ASC"
    and m: "1 \<le> iMax" "iMax < 2147483647"
    and row: "\<And>k. 1 \<le> k \<Longrightarrow> k \<le> iMax \<Longrightarrow> ev_row ev k = Some (sz k) \<and> 0 < sz k"
  shows "rs_nCount s = rs_i s + int n \<Longrightarrow> rs_nCount s \<le> 2147483647 \<Longrightarrow> - 1 \<le> rs_i s \<Longrightarrow>
    1 \<le> rs_iKey s \<Longrightarrow> rs_iKey s \<le> iMax \<Longrightarrow>
    \<exists>s'. run_loop ev ro t zDb iMax s = Inr s' \<and> rs_nExtra s' = rs_nExtra s
      \<and> rs_iKey s' = key_pos iMax (rs_iKey s) (int n)
      \<and> rs_nTotal s' = rs_nTotal s + (\<Sum>j<n. sz (key_pos iMax (rs_iKey s) (int j)))"
proof (induction n arbitrary: s)
  case 0
  then show ?case by (subst run_loop.simps) (simp add: key_pos_0)
next
  case (Suc n)
  let ?k = "rs_iKey s"
  define s1 where "s1 = s\<lparr>rs_pStmt := True, rs_nData := sz ?k, rs_iKey := key_pos iMax ?k 1,
    rs_nTotal := rs_nTotal s + sz ?k, rs_i := rs_i s + 1\<rparr>"
  have k: "1 \<le> ?k" "?k \<le> iMax" by fact+
  have i: "ck (rs_i s + 1) = Some (rs_i s + 1)" using Suc.prems by simp
  have nz: "sz ?k \<noteq> 0" "ev_row ev ?k = Some (sz ?k)" using row [OF k] by auto
  have c: "cycle ev ro t zDb iMax s = Inr s1"
    using nz by (simp add: i cycle_def fetch_def assms(1-4) fetch_sql_def cycle_end_def
      next_key_asc [OF k m(2)] s1_def)
  have p: "1 \<le> rs_iKey s1 \<and> rs_iKey s1 \<le> iMax" using key_pos_range [OF m(1), of ?k 1] by (simp add: s1_def)
  obtain s' where s': "run_loop ev ro t zDb iMax s1 = Inr s'" "rs_nExtra s' = rs_nExtra s1"
      "rs_iKey s' = key_pos iMax (rs_iKey s1) (int n)"
      "rs_nTotal s' = rs_nTotal s1 + (\<Sum>j<n. sz (key_pos iMax (rs_iKey s1) (int j)))"
    using Suc.IH [of s1] Suc.prems p by (auto simp: s1_def)
  have st: "key_pos iMax (rs_iKey s1) (int j) = key_pos iMax ?k (int (Suc j))" for j
    using key_pos_step [OF m(1), of ?k 1 "int j"] by (simp add: s1_def)
  have "run_loop ev ro t zDb iMax s = run_loop ev ro t zDb iMax s1"
    using Suc.prems(1) c by (subst run_loop.simps) simp
  moreover have "(\<Sum>j<Suc n. sz (key_pos iMax ?k (int j))) = sz ?k + (\<Sum>j<n. sz (key_pos iMax ?k (int (Suc j))))"
    by (subst sum.lessThan_Suc_shift) (simp add: key_pos_0 [OF k])
  ultimately show ?case using s' by (simp only: st) (simp add: s1_def)
qed

text \<open>A table with no rows.\<close>

lemma run_loop_no_rows:
  "run_loop ev ro t zDb iMax s = Inr s' \<Longrightarrow> t = PATH_DB \<Longrightarrow> \<not> ro_bBlobApi ro \<Longrightarrow>
   (\<And>k. ev_row ev k = None) \<Longrightarrow> \<not> rs_i s < rs_nCount s"
proof (induction rule: run_loop_induct)
  case (step s s1)
  from step(2) obtain s2 s3 where f: "fetch ev ro t zDb s = Inr s2" "cycle_end ro iMax s2 = Inr s3"
    and s1: "s1 = s3\<lparr>rs_i := rs_i s + 1\<rparr>" by (rule cycle_Inr)
  have "rs_nData s2 = 0"
    using f(1) step(4-6) by (auto simp: fetch_def fetch_sql_def split: if_splits)
  then have "rs_nCount s1 = rs_nCount s + 1"
    using source.cycle_counts [OF f] by (simp add: s1)
  then show ?case using step(1,3-6) by (simp add: s1)
qed simp


text \<open>The blob interface when every \<open>sqlite3_blob_reopen\<close> fails.\<close>

lemma run_loop_stale:
  assumes "t = PATH_DB" "ro_bBlobApi ro" and m: "1 \<le> iMax" "iMax < 2147483647"
    and re: "\<And>h k. fst (ev_blob_reopen ev h k) \<noteq> 0" and "d \<noteq> 0"
  shows "rs_nCount s = rs_i s + int n \<Longrightarrow> rs_nCount s \<le> 2147483647 \<Longrightarrow> - 1 \<le> rs_i s \<Longrightarrow>
    1 \<le> rs_iKey s \<Longrightarrow> rs_iKey s \<le> iMax \<Longrightarrow> rs_pBlob s \<noteq> None \<Longrightarrow> rs_nData s = d \<Longrightarrow>
    \<exists>s'. run_loop ev ro t zDb iMax s = Inr s' \<and> rs_nExtra s' = rs_nExtra s
      \<and> rs_nTotal s' = rs_nTotal s + int n * d"
proof (induction n arbitrary: s)
  case 0
  then show ?case by (subst run_loop.simps) simp
next
  case (Suc n)
  obtain h0 where h0: "rs_pBlob s = Some h0" using Suc.prems by blast
  obtain rc h where re': "ev_blob_reopen ev h0 (rs_iKey s) = (rc, h)" "rc \<noteq> 0"
    using re [of h0 "rs_iKey s"] by (cases "ev_blob_reopen ev h0 (rs_iKey s)") auto
  obtain k' g where k': "next_key (ro_eOrder ro) iMax (rs_rng s) (rs_iKey s) = (Some k', g)" "1 \<le> k'" "k' \<le> iMax"
    using next_key_range [OF Suc.prems(4,5) m(2), of "ro_eOrder ro" "rs_rng s"]
    by (metis fst_conv surj_pair)
  define s1 where "s1 = s\<lparr>rs_pBlob := Some h, rs_iKey := k', rs_rng := g, rs_nTotal := rs_nTotal s + d,
    rs_i := rs_i s + 1\<rparr>"
  have i: "ck (rs_i s + 1) = Some (rs_i s + 1)" using Suc.prems by simp
  have c: "cycle ev ro t zDb iMax s = Inr s1"
    using re'(2) Suc.prems(7) assms(6)
    by (simp add: i cycle_def fetch_def assms(1,2) fetch_blob_def h0 re'(1) cycle_end_def k'(1) s1_def)
  obtain s' where s': "run_loop ev ro t zDb iMax s1 = Inr s'" "rs_nExtra s' = rs_nExtra s1"
      "rs_nTotal s' = rs_nTotal s1 + int n * d"
    using Suc.IH [of s1] Suc.prems k' by (auto simp: s1_def)
  have "run_loop ev ro t zDb iMax s = run_loop ev ro t zDb iMax s1"
    using Suc.prems(1) c by (subst run_loop.simps) simp
  then show ?case using s' by (simp add: s1_def distrib_right)
qed

section \<open>Properties\<close>

text \<open>C30. The generator of keys never degenerates: both registers move by injective maps, so the state
  returns to every state it was in, and the shift register, started from its seed, is never 0. In all
  three orders a key from 1 to the largest key is followed by a key from 1 to the largest key.\<close>

theorem keys_in_range:
  "inj lfsr \<and> inj lcg \<and> (x \<noteq> 0 \<longrightarrow> lfsr x \<noteq> 0)
   \<and> (1 \<le> k \<and> k \<le> iMax \<and> iMax < 2147483647 \<longrightarrow>
       (\<exists>k'. fst (next_key eOrder iMax g k) = Some k' \<and> 1 \<le> k' \<and> k' \<le> iMax))"
  using next_key_range [of k iMax eOrder g] lfsr_inj [of x 0]
  by (auto simp: lfsr_0 intro!: injI dest: lfsr_inj lcg_inj)

theorem keys_in_range_witness:
  "\<exists>k'. fst (next_key ORDER_RANDOM 1000 rng_init 1) = Some k' \<and> 1 \<le> k' \<and> k' \<le> 1000"
  using keys_in_range [of 0 1 1000 ORDER_RANDOM rng_init] by simp

text \<open>C32. Every run that ends has done what was asked: the cycles done are the requested count plus one
  for each miss, the count reported is the requested one, and the key stays in range.\<close>

theorem run_loop_accounting:
  assumes "run_loop ev ro t zDb iMax (run_start ro fs) = Inr s'"
    and "0 \<le> ro_nCount ro" and "1 \<le> ro_iKey ro" "ro_iKey ro \<le> iMax" "iMax < 2147483647"
  shows "rs_i s' = ro_nCount ro + rs_nExtra s' \<and> rs_nCount s' - rs_nExtra s' = ro_nCount ro
    \<and> 0 \<le> rs_nExtra s' \<and> 1 \<le> rs_iKey s' \<and> rs_iKey s' \<le> iMax"
  using run_loop_counts [OF assms(1)] run_loop_key [OF assms(1,5)] assms(2-4)
  by (simp add: run_start_def)

definition example_env :: "(int \<Rightarrow> int option) \<Rightarrow> unit env" where
  "example_env row = \<lparr>ev_os = os_ideal, ev_rnd = (\<lambda>n. replicate n 0), ev_blob_open = (\<lambda>k. (0, ())),
     ev_blob_reopen = (\<lambda>h k. (4, ())), ev_blob_bytes = (\<lambda>h. 7), ev_blob_io = (\<lambda>h. 0), ev_realloc = (\<lambda>n. True),
     ev_prepare = 0, ev_row = row\<rparr>"

theorem run_loop_accounting_witness:
  "\<exists>s'. run_loop (example_env (\<lambda>k. Some 5)) run_defaults PATH_DB [] 10 (run_start run_defaults Map.empty) = Inr s'
    \<and> rs_i s' = 1000 + rs_nExtra s'"
proof -
  obtain s' where r: "run_loop (example_env (\<lambda>k. Some 5)) run_defaults PATH_DB [] 10 (run_start run_defaults Map.empty) = Inr s'"
    using run_loop_sql_asc [of PATH_DB run_defaults "example_env (\<lambda>k. Some 5)" 10 "\<lambda>k. 5"
      "run_start run_defaults Map.empty" 1000]
    by (auto simp: example_env_def run_defaults_def run_start_def)
  from run_loop_accounting [OF r] r show ?thesis by (simp add: run_defaults_def)
qed

text \<open>C33. Reading by SQL in ascending order a table that holds all keys from 1 to the largest: the run
  ends after exactly the requested number of reads, without a miss; the keys read are consecutive,
  starting over at 1 after the largest, and the bytes counted are the sum of the sizes of these blobs.\<close>

theorem run_sql_ascending:
  assumes "\<not> ro_bBlobApi ro" "ev_prepare ev = 0" "ro_eOrder ro = ORDER_ASC"
    and "1 \<le> ro_iKey ro" "ro_iKey ro \<le> iMax" "iMax < 2147483647"
    and "0 \<le> ro_nCount ro" "ro_nCount ro \<le> 2147483647"
    and "\<forall>k. 1 \<le> k \<and> k \<le> iMax \<longrightarrow> ev_row ev k = Some (sz k) \<and> 0 < sz k"
  shows "\<exists>s'. run_loop ev ro PATH_DB zDb iMax (run_start ro fs) = Inr s' \<and> rs_nExtra s' = 0
    \<and> rs_iKey s' = (ro_iKey ro - 1 + ro_nCount ro) mod iMax + 1
    \<and> rs_nTotal s' = (\<Sum>j<nat (ro_nCount ro). sz ((ro_iKey ro - 1 + int j) mod iMax + 1))"
proof -
  have m: "1 \<le> iMax" using assms(4,5) by linarith
  show ?thesis
    using run_loop_sql_asc [OF refl assms(1-3) m assms(6), of sz "run_start ro fs" "nat (ro_nCount ro)"]
      assms(4-9) by (simp add: run_start_def key_pos_def)
qed

theorem run_sql_ascending_witness:
  "\<exists>s'. run_loop (example_env (\<lambda>k. Some k)) (run_defaults\<lparr>ro_nCount := 4\<rparr>) PATH_DB [] 3
      (run_start (run_defaults\<lparr>ro_nCount := 4\<rparr>) Map.empty) = Inr s'
    \<and> rs_nExtra s' = 0 \<and> rs_iKey s' = 2 \<and> rs_nTotal s' = 1 + 2 + 3 + 1"
  using run_sql_ascending [of "run_defaults\<lparr>ro_nCount := 4\<rparr>" "example_env (\<lambda>k. Some k)" 3 "\<lambda>k. k" "[]" Map.empty]
  by (simp add: example_env_def run_defaults_def eval_nat_numeral)

text \<open>A run by SQL over an empty table never ends well: every cycle is a miss and adds a cycle, until
  the counter overflows.\<close>

theorem run_empty_table:
  assumes "\<not> ro_bBlobApi ro" and "\<forall>k. ev_row ev k = None" and "1 \<le> ro_nCount ro"
  shows "\<exists>e. run_loop ev ro PATH_DB zDb iMax (run_start ro fs) = Inl e"
proof (cases "run_loop ev ro PATH_DB zDb iMax (run_start ro fs)")
  case (Inr s')
  from run_loop_no_rows [OF this] assms show ?thesis by (simp add: run_start_def)
qed simp

theorem run_empty_table_witness:
  "\<exists>e. run_loop (example_env (\<lambda>k. None)) run_defaults PATH_DB [] 1000 (run_start run_defaults Map.empty) = Inl e"
  by (rule run_empty_table) (simp_all add: example_env_def run_defaults_def)

text \<open>Through the blob interface misses are not noticed after the first blob: if the first key opens
  with a blob of \<open>d\<close> bytes and every later \<open>sqlite3_blob_reopen\<close> fails, the run ends without error or
  miss and counts \<open>d\<close> bytes for each of the requested reads.\<close>

theorem run_blob_stale:
  assumes "ro_bBlobApi ro" and "1 \<le> ro_iKey ro" "ro_iKey ro \<le> iMax" "iMax < 2147483647"
    and "1 \<le> ro_nCount ro" "ro_nCount ro \<le> 2147483647"
    and "ev_blob_open ev (ro_iKey ro) = (0, h)" "ev_blob_bytes ev h = d" "0 < d" "ev_blob_io ev h = 0"
    and "ev_realloc ev (d + 100)" and "\<forall>h k. fst (ev_blob_reopen ev h k) \<noteq> 0"
  shows "\<exists>s'. run_loop ev ro PATH_DB zDb iMax (run_start ro fs) = Inr s' \<and> rs_nExtra s' = 0
    \<and> rs_nTotal s' = ro_nCount ro * d"
proof -
  let ?s = "run_start ro fs"
  have m: "1 \<le> iMax" using assms(2,3) by linarith
  have k: "1 \<le> rs_iKey ?s" "rs_iKey ?s \<le> iMax" using assms(2,3) by (simp_all add: run_start_def)
  obtain k' g where k': "next_key (ro_eOrder ro) iMax (rs_rng ?s) (rs_iKey ?s) = (Some k', g)" "1 \<le> k'" "k' \<le> iMax"
    using next_key_range [OF k assms(4), of "ro_eOrder ro" "rs_rng ?s"] by (metis fst_conv surj_pair)
  define s1 where "s1 = ?s\<lparr>rs_pBlob := Some h, rs_nData := d, rs_nAlloc := d + 100, rs_pData := True,
    rs_iKey := k', rs_rng := g, rs_nTotal := d, rs_i := 1\<rparr>"
  have i: "ck (1 :: int) = Some 1" by simp
  have "cycle ev ro PATH_DB zDb iMax ?s = Inr s1"
    using assms(1,7-11) k'(1)
    by (simp add: cycle_def fetch_def fetch_blob_def cycle_end_def run_start_def s1_def i)
  then have "run_loop ev ro PATH_DB zDb iMax ?s = run_loop ev ro PATH_DB zDb iMax s1"
    using assms(5) by (subst run_loop.simps) (simp add: run_start_def)
  moreover have "\<exists>s'. run_loop ev ro PATH_DB zDb iMax s1 = Inr s' \<and> rs_nExtra s' = rs_nExtra s1
      \<and> rs_nTotal s' = rs_nTotal s1 + int (nat (ro_nCount ro - 1)) * d"
    using assms(5,6,9,12) k'
    by (intro run_loop_stale [OF refl assms(1) m assms(4)]) (simp_all add: s1_def run_start_def)
  ultimately show ?thesis using assms(5) by (auto simp: s1_def run_start_def left_diff_distrib)
qed


theorem run_blob_stale_witness:
  "\<exists>s'. run_loop (example_env (\<lambda>k. None)) (run_defaults\<lparr>ro_bBlobApi := True\<rparr>) PATH_DB [] 3
      (run_start (run_defaults\<lparr>ro_bBlobApi := True\<rparr>) Map.empty) = Inr s'
    \<and> rs_nExtra s' = 0 \<and> rs_nTotal s' = 7000"
  using run_blob_stale [of "run_defaults\<lparr>ro_bBlobApi := True\<rparr>" 3 "example_env (\<lambda>k. None)" "()" 7 "[]" Map.empty]
  by (simp add: example_env_def run_defaults_def)

lemma run_100k:
  "run_args [asc ''--count'', asc ''100k'', asc ''--blob-api'']
     = Inr (run_defaults\<lparr>ro_nCount := 100000, ro_bBlobApi := True\<rparr>)"
  "run_args [asc ''--count'', asc ''100k'', asc ''--update'']
     = Inr (run_defaults\<lparr>ro_nCount := 100000, ro_isUpdateTest := True\<rparr>)"
  by (simp_all add: run_args_def run_opt_def undash_def int_arg_def int_100k [simplified])

text \<open>The command lines that \<open>main\<close> runs are well formed: each has the number of arguments that
  \<open>counts\<close> says, and the option parser of its command accepts it.\<close>

theorem commands_accepted:
  "map length commands = counts
   \<and> list_all (\<lambda>c.
        (c ! 1 = ''init'' \<and> (\<exists>p. init_args (map asc (drop 3 c)) = Inr p))
      \<or> (c ! 1 = ''stat'' \<and> (\<exists>b. stat_args (map asc (drop 3 c)) = Inr b))
      \<or> (c ! 1 = ''export'' \<and> (\<exists>fs'. export_args os (asc (c ! 3)) (map asc (drop 4 c)) fs = (Inr (), fs')))
      \<or> (c ! 1 = ''run'' \<and> (\<exists>p. run_args (map asc (drop 3 c)) = Inr p))) commands"
proof -
  have i: "init_args [asc ''--count'', asc ''100k''] = Inr (init_defaults\<lparr>in_nCount := 100000\<rparr>)"
    by (simp add: init_args_def init_opt_def undash_def int_arg_def int_100k [simplified])
  show ?thesis
    using i run_100k
    by (simp add: commands_def counts_def stat_args_def del: asc_simps) (auto simp: asc_def)
qed

end
