(* ===== verification/Bitvec.thy ===== *)
theory Bitvec
  imports Prelude
begin

text \<open>
  The sparse bitmaps of \<open>bitvec.c\<close>, used by the pager for the pages already journalled. A bitmap of
  \<open>iSize\<close> bits is an array of bits, a hash table of bit numbers with linear probing, or, when the table
  is full, 62 bitmaps of a 62nd of the size. Structures of 512 bytes on a 64-bit machine: 496 bytes of
  union, hence 3968 bits, 124 hash entries and 62 sub-bitmaps. Numbers of type \<open>u32\<close> are naturals; the
  only one that can wrap is \<open>i--\<close> on 0, written out in \<open>sqlite3BitvecTestNotNull\<close>.
\<close>

section \<open>Constants\<close>

definition BITVEC_SZ :: nat where "BITVEC_SZ = 512"
definition BITVEC_USIZE :: nat where "BITVEC_USIZE = ((BITVEC_SZ - 3 * 4) div 8) * 8"
definition BITVEC_SZELEM :: nat where "BITVEC_SZELEM = 8"
definition BITVEC_NELEM :: nat where "BITVEC_NELEM = BITVEC_USIZE div 1"
definition BITVEC_NBIT :: nat where "BITVEC_NBIT = BITVEC_NELEM * BITVEC_SZELEM"
definition BITVEC_NINT :: nat where "BITVEC_NINT = BITVEC_USIZE div 4"
definition BITVEC_MXHASH :: nat where "BITVEC_MXHASH = BITVEC_NINT div 2"
definition BITVEC_HASH :: "nat \<Rightarrow> nat" where "BITVEC_HASH X = (X * 1) mod BITVEC_NINT"
definition BITVEC_NPTR :: nat where "BITVEC_NPTR = BITVEC_USIZE div 8"

lemma bitvec_consts [simp]:
  "BITVEC_NELEM = 496" "BITVEC_SZELEM = 8" "BITVEC_NBIT = 3968" "BITVEC_NINT = 124" "BITVEC_MXHASH = 62"
  "BITVEC_NPTR = 62" "BITVEC_HASH X = X mod 124"
  by (simp_all add: BITVEC_NELEM_def BITVEC_SZELEM_def BITVEC_NBIT_def BITVEC_NINT_def BITVEC_MXHASH_def
      BITVEC_NPTR_def BITVEC_HASH_def BITVEC_USIZE_def BITVEC_SZ_def)

section \<open>The structure\<close>

text \<open>The three uses of the union: \<open>iSize\<close> and the bits; \<open>iSize\<close>, \<open>nSet\<close> and the hash table; \<open>iSize\<close>,
  \<open>nSet\<close>, \<open>iDivisor\<close> and the sub-bitmaps, where a null pointer is \<open>None\<close>.\<close>

datatype bitvec =
    BV_bitmap nat "u8 list"
  | BV_hash nat nat "nat list"
  | BV_sub nat nat nat "bitvec option list"

fun iSize :: "bitvec \<Rightarrow> nat" where
  "iSize (BV_bitmap sz _) = sz"
| "iSize (BV_hash sz _ _) = sz"
| "iSize (BV_sub sz _ _ _) = sz"

text \<open>\<open>sqlite3BitvecCreate\<close> when its allocation succeeds: zeroed memory.\<close>

definition bitvec_new :: "nat \<Rightarrow> bitvec" where
  "bitvec_new sz =
     (if sz \<le> BITVEC_NBIT then BV_bitmap sz (replicate BITVEC_NELEM 0)
      else BV_hash sz 0 (replicate BITVEC_NINT 0))"

definition sqlite3BitvecCreate :: "nat \<Rightarrow> allocs \<Rightarrow> bitvec option \<times> allocs" where
  "sqlite3BitvecCreate sz al = (let (ok, al') = next_alloc al in (if ok then Some (bitvec_new sz) else None, al'))"

section \<open>Testing\<close>

definition bit_test :: "u8 list \<Rightarrow> nat \<Rightarrow> bool" where
  "bit_test a i = (a ! (i div BITVEC_SZELEM) AND push_bit (i mod BITVEC_SZELEM) 1 \<noteq> 0)"

text \<open>Linear probing from position \<open>h\<close> for a free entry or the value \<open>v\<close>; \<open>None\<close> if neither turns up in
  one round, where the loop in the code would not end.\<close>

fun probe :: "nat \<Rightarrow> nat list \<Rightarrow> nat \<Rightarrow> nat \<Rightarrow> nat option" where
  "probe 0 a h v = None"
| "probe (Suc n) a h v =
     (if a ! h = 0 \<or> a ! h = v then Some h else probe n a ((h + 1) mod BITVEC_NINT) v)"

function bitvec_test :: "bitvec \<Rightarrow> nat \<Rightarrow> bool option" where
  "bitvec_test (BV_bitmap sz a) i = Some (bit_test a i)"
| "bitvec_test (BV_hash sz nSet a) i =
     (case probe BITVEC_NINT a (BITVEC_HASH i) (i + 1) of
        None \<Rightarrow> None
      | Some h \<Rightarrow> Some (a ! h = i + 1))"
| "bitvec_test (BV_sub sz nSet iDivisor apSub) i =
     (let bin = i div iDivisor; i' = i mod iDivisor
      in if bin < length apSub
         then (case apSub ! bin of None \<Rightarrow> Some False | Some p \<Rightarrow> bitvec_test p i')
         else None)"
  by pat_completeness auto
termination
proof (relation "measure (size \<circ> fst)", simp)
  fix sz nSet iDivisor apSub i bin i' and p :: bitvec
  assume "bin < length apSub" "apSub ! bin = Some p"
  then have "Some p \<in> set apSub" by (metis nth_mem)
  then have "size_option size (Some p) < Suc (size_list (size_option size) apSub)"
    by (intro le_imp_less_Suc size_list_estimation' [of "Some p"]) auto
  then show "((p, i'), BV_sub sz nSet iDivisor apSub, i) \<in> measure (size \<circ> fst)" by simp
qed

definition sqlite3BitvecTestNotNull :: "bitvec \<Rightarrow> nat \<Rightarrow> bool option" where
  "sqlite3BitvecTestNotNull p i =
     (let i' = (i + 4294967295) mod 4294967296
      in if i' \<ge> iSize p then Some False else bitvec_test p i')"

definition sqlite3BitvecTest :: "bitvec option \<Rightarrow> nat \<Rightarrow> bool option" where
  "sqlite3BitvecTest p i = (case p of None \<Rightarrow> Some False | Some p \<Rightarrow> sqlite3BitvecTestNotNull p i)"

section \<open>Setting\<close>

text \<open>Setting a list of values in turn, the result codes combined with \<open>|=\<close>: the loop after a rehash.
  Zero entries are skipped.\<close>

fun set_each :: "(bitvec \<Rightarrow> nat \<Rightarrow> allocs \<Rightarrow> (int \<times> bitvec \<times> allocs) option) \<Rightarrow> nat list
    \<Rightarrow> int \<times> bitvec \<times> allocs \<Rightarrow> (int \<times> bitvec \<times> allocs) option" where
  "set_each f [] (rc, p, al) = Some (rc, p, al)"
| "set_each f (v # vs) (rc, p, al) =
     (if v = 0 then set_each f vs (rc, p, al)
      else (case f p (v - 1) al of
              None \<Rightarrow> None
            | Some (rc', p', al') \<Rightarrow> set_each f vs (rc OR rc', p', al')))"

text \<open>\<open>sqlite3BitvecSet\<close> after \<open>i--\<close>. The first argument bounds the depth of the recursion through
  sub-bitmaps and rehashes; \<open>None\<close> is running out of it, or a probe that does not end.\<close>

primrec bitvec_set :: "nat \<Rightarrow> bitvec \<Rightarrow> nat \<Rightarrow> allocs \<Rightarrow> (int \<times> bitvec \<times> allocs) option" where
  "bitvec_set 0 = (\<lambda>p i al. None)"
| "bitvec_set (Suc n) = (\<lambda>p i al.
     case p of
       BV_sub sz nSet iDivisor apSub \<Rightarrow>
         (let bin = i div iDivisor; i' = i mod iDivisor
          in if \<not> bin < length apSub then None
             else
               let (c, al1) = (case apSub ! bin of
                                 None \<Rightarrow> sqlite3BitvecCreate iDivisor al
                               | Some c \<Rightarrow> (Some c, al))
               in (case c of
                     None \<Rightarrow> Some (SQLITE_NOMEM, p, al1)
                   | Some c' \<Rightarrow>
                       (case bitvec_set n c' i' al1 of
                          None \<Rightarrow> None
                        | Some (rc, c2, al2) \<Rightarrow> Some (rc, BV_sub sz nSet iDivisor (apSub[bin := Some c2]), al2))))
     | BV_bitmap sz a \<Rightarrow>
         Some (SQLITE_OK,
               BV_bitmap sz (a[i div BITVEC_SZELEM := a ! (i div BITVEC_SZELEM) OR push_bit (i mod BITVEC_SZELEM) 1]), al)
     | BV_hash sz nSet a \<Rightarrow>
         (case probe BITVEC_NINT a (BITVEC_HASH i) (i + 1) of
            None \<Rightarrow> None
          | Some h \<Rightarrow>
              if a ! h = i + 1 then Some (SQLITE_OK, p, al)
              else if (if a ! BITVEC_HASH i = 0 then nSet < BITVEC_NINT - 1 else nSet < BITVEC_MXHASH)
              then Some (SQLITE_OK, BV_hash sz (nSet + 1) (a[h := i + 1]), al)
              else
                let (ok, al1) = next_alloc al
                in if \<not> ok then Some (SQLITE_NOMEM, p, al1)
                   else
                     let p1 = BV_sub sz nSet ((sz + BITVEC_NPTR - 1) div BITVEC_NPTR) (replicate BITVEC_NPTR None)
                     in (case bitvec_set n p1 i al1 of
                           None \<Rightarrow> None
                         | Some r \<Rightarrow> set_each (bitvec_set n) a r)))"

definition sqlite3BitvecSet :: "bitvec option \<Rightarrow> nat \<Rightarrow> allocs \<Rightarrow> (int \<times> bitvec option \<times> allocs) option" where
  "sqlite3BitvecSet p i al =
     (case p of
        None \<Rightarrow> Some (SQLITE_OK, None, al)
      | Some p \<Rightarrow>
          (case bitvec_set 16 p (i - 1) al of
             None \<Rightarrow> None
           | Some (rc, p', al') \<Rightarrow> Some (rc, Some p', al')))"

section \<open>Clearing\<close>

text \<open>The loop that rebuilds the hash table without the value \<open>i + 1\<close>.\<close>

fun rebuild :: "nat \<Rightarrow> nat list \<Rightarrow> nat \<times> nat list \<Rightarrow> (nat \<times> nat list) option" where
  "rebuild i [] (nSet, a) = Some (nSet, a)"
| "rebuild i (v # vs) (nSet, a) =
     (if v \<noteq> 0 \<and> v \<noteq> i + 1
      then (case probe BITVEC_NINT a (BITVEC_HASH (v - 1)) 0 of
              None \<Rightarrow> None
            | Some h \<Rightarrow> rebuild i vs (nSet + 1, a[h := v]))
      else rebuild i vs (nSet, a))"

function bitvec_clear :: "bitvec \<Rightarrow> nat \<Rightarrow> bitvec option" where
  "bitvec_clear (BV_bitmap sz a) i =
     Some (BV_bitmap sz (a[i div BITVEC_SZELEM := a ! (i div BITVEC_SZELEM) AND NOT (push_bit (i mod BITVEC_SZELEM) 1)]))"
| "bitvec_clear (BV_hash sz nSet a) i =
     (case rebuild i a (0, replicate BITVEC_NINT 0) of
        None \<Rightarrow> None
      | Some (nSet', a') \<Rightarrow> Some (BV_hash sz nSet' a'))"
| "bitvec_clear (BV_sub sz nSet iDivisor apSub) i =
     (let bin = i div iDivisor; i' = i mod iDivisor
      in if bin < length apSub
         then (case apSub ! bin of
                 None \<Rightarrow> Some (BV_sub sz nSet iDivisor apSub)
               | Some p \<Rightarrow>
                   (case bitvec_clear p i' of
                      None \<Rightarrow> None
                    | Some p' \<Rightarrow> Some (BV_sub sz nSet iDivisor (apSub[bin := Some p']))))
         else None)"
  by pat_completeness auto
termination
proof (relation "measure (size \<circ> fst)", simp)
  fix sz nSet iDivisor apSub i bin i' and p :: bitvec
  assume "bin < length apSub" "apSub ! bin = Some p"
  then have "Some p \<in> set apSub" by (metis nth_mem)
  then have "size_option size (Some p) < Suc (size_list (size_option size) apSub)"
    by (intro le_imp_less_Suc size_list_estimation' [of "Some p"]) auto
  then show "((p, i'), BV_sub sz nSet iDivisor apSub, i) \<in> measure (size \<circ> fst)" by simp
qed

definition sqlite3BitvecClear :: "bitvec option \<Rightarrow> nat \<Rightarrow> bitvec option option" where
  "sqlite3BitvecClear p i =
     (case p of None \<Rightarrow> Some None | Some p \<Rightarrow> (case bitvec_clear p (i - 1) of None \<Rightarrow> None | Some p' \<Rightarrow> Some (Some p')))"

definition sqlite3BitvecSize :: "bitvec \<Rightarrow> nat" where
  "sqlite3BitvecSize p = iSize p"

section \<open>Linear probing\<close>

text \<open>Position \<open>k\<close> of the probe sequence that starts at \<open>h\<close>.\<close>

definition slot :: "nat \<Rightarrow> nat \<Rightarrow> nat" where
  "slot h k = (h + k) mod 124"

lemma slot_less [simp]: "slot h k < 124"
  by (simp add: slot_def)

lemma slot_0: "h < 124 \<Longrightarrow> slot h 0 = h"
  by (simp add: slot_def)

lemma slot_Suc: "slot (Suc h mod 124) k = slot h (Suc k)"
  by (simp add: slot_def mod_simps)

lemma slot_onto: "h < 124 \<Longrightarrow> p < 124 \<Longrightarrow> \<exists>k < 124. slot h k = p"
proof (cases "h \<le> p")
  case True
  moreover assume "p < 124"
  ultimately show ?thesis by (intro exI [of _ "p - h"]) (simp add: slot_def)
next
  case False
  moreover assume "h < 124"
  ultimately show ?thesis by (intro exI [of _ "124 + p - h"]) (simp add: slot_def)
qed

lemma probe_Some:
  "probe n a h v = Some j \<Longrightarrow> h < 124 \<Longrightarrow>
   \<exists>k < n. j = slot h k \<and> (a ! j = 0 \<or> a ! j = v) \<and> (\<forall>k' < k. a ! slot h k' \<noteq> 0 \<and> a ! slot h k' \<noteq> v)"
proof (induction n arbitrary: h)
  case (Suc n)
  show ?case
  proof (cases "a ! h = 0 \<or> a ! h = v")
    case True
    then show ?thesis using Suc.prems by (intro exI [of _ 0]) (auto simp: slot_0)
  next
    case False
    then have "probe n a ((h + 1) mod 124) v = Some j" using Suc.prems by simp
    from Suc.IH [OF this] obtain k where k: "k < n" "j = slot h (Suc k)" "a ! j = 0 \<or> a ! j = v"
        "\<forall>k' < k. a ! slot h (Suc k') \<noteq> 0 \<and> a ! slot h (Suc k') \<noteq> v"
      by (auto simp: slot_Suc)
    have "\<forall>k' < Suc k. a ! slot h k' \<noteq> 0 \<and> a ! slot h k' \<noteq> v"
      using k(4) False slot_0 [OF Suc.prems(2)] by (auto simp: less_Suc_eq_0_disj)
    then show ?thesis using k by blast
  qed
qed simp

lemma probe_None:
  "probe n a h v = None \<Longrightarrow> h < 124 \<Longrightarrow> k < n \<Longrightarrow> a ! slot h k \<noteq> 0 \<and> a ! slot h k \<noteq> v"
proof (induction n arbitrary: h k)
  case (Suc n)
  then have h: "a ! h \<noteq> 0" "a ! h \<noteq> v" "probe n a ((h + 1) mod 124) v = None"
    by (auto split: if_splits)
  show ?case
  proof (cases k)
    case 0
    then show ?thesis using h Suc.prems by (simp add: slot_0)
  next
    case (Suc m)
    then show ?thesis using Suc.IH [OF h(3), of m] Suc.prems by (simp add: slot_Suc)
  qed
qed simp

lemma probe_total:
  assumes "h < 124" "length a = 124" "0 \<in> set a"
  obtains j where "probe 124 a h v = Some j"
proof (cases "probe 124 a h v")
  case None
  obtain p where "p < 124" "a ! p = 0" using assms(2,3) by (metis in_set_conv_nth)
  with slot_onto [OF assms(1), of p] probe_None [OF None assms(1)] show ?thesis by blast
qed (rule that)

text \<open>A value can be found: it sits in its probe sequence with no free entry before it.\<close>

definition reach :: "nat list \<Rightarrow> nat \<Rightarrow> bool" where
  "reach a v = (\<exists>k < 124. a ! slot ((v - 1) mod 124) k = v \<and> (\<forall>k' < k. a ! slot ((v - 1) mod 124) k' \<noteq> 0))"

lemma reach_upd:
  assumes "reach a w" "j < length a" "a ! j = 0" "w \<noteq> 0" "v \<noteq> 0"
  shows "reach (a[j := v]) w"
proof -
  obtain k where k: "k < 124" "a ! slot ((w - 1) mod 124) k = w"
      "\<forall>k' < k. a ! slot ((w - 1) mod 124) k' \<noteq> 0"
    using assms(1) by (auto simp: reach_def)
  have "a[j := v] ! slot ((w - 1) mod 124) k = w" using k(2) assms by (cases "slot ((w - 1) mod 124) k = j") auto
  moreover have "\<forall>k' < k. a[j := v] ! slot ((w - 1) mod 124) k' \<noteq> 0"
    using k(3) assms by (auto simp: nth_list_update)
  ultimately show ?thesis using k(1) by (auto simp: reach_def)
qed

text \<open>The entries in use.\<close>

definition used :: "nat list \<Rightarrow> nat list" where
  "used a = filter (\<lambda>v. v \<noteq> 0) a"

lemma used_simps [simp]:
  "used [] = []" "used (v # a) = (if v = 0 then used a else v # used a)" "used (a @ b) = used a @ used b"
  "used (replicate n 0) = []" "set (used a) = set a - {0}"
  by (auto simp: used_def)

lemma used_all: "0 \<notin> set a \<Longrightarrow> used a = a"
  by (induction a) auto

text \<open>The invariant of the hash representation.\<close>

definition hash_ok :: "nat \<Rightarrow> nat \<Rightarrow> nat list \<Rightarrow> bool" where
  "hash_ok sz nSet a =
     (length a = 124 \<and> (\<forall>v \<in> set a. v \<noteq> 0 \<longrightarrow> v \<le> sz \<and> reach a v)
      \<and> nSet = length (used a) \<and> nSet \<le> 123 \<and> distinct (used a))"

lemma hash_ok_free: "hash_ok sz nSet a \<Longrightarrow> 0 \<in> set a"
  by (rule ccontr, frule used_all) (auto simp: hash_ok_def)

lemma hash_probe:
  assumes "hash_ok sz nSet a" "v \<noteq> 0"
  obtains j where "probe 124 a ((v - 1) mod 124) v = Some j" "j < 124" "a ! j = 0 \<or> a ! j = v"
    "a ! j = v \<longleftrightarrow> v \<in> set a"
proof -
  have l: "length a = 124" using assms(1) by (simp add: hash_ok_def)
  obtain j where j: "probe 124 a ((v - 1) mod 124) v = Some j"
    using probe_total [of "(v - 1) mod 124" a] l hash_ok_free [OF assms(1)] by auto
  obtain k where k: "j = slot ((v - 1) mod 124) k" "a ! j = 0 \<or> a ! j = v"
      "\<forall>k' < k. a ! slot ((v - 1) mod 124) k' \<noteq> 0 \<and> a ! slot ((v - 1) mod 124) k' \<noteq> v"
    using probe_Some [OF j] by auto
  have jl: "j < 124" using k(1) by simp
  have "a ! j = v" if "v \<in> set a"
  proof -
    have "reach a v" using assms that by (auto simp: hash_ok_def)
    then obtain m where m: "a ! slot ((v - 1) mod 124) m = v" "\<forall>k' < m. a ! slot ((v - 1) mod 124) k' \<noteq> 0"
      by (auto simp: reach_def)
    have "\<not> m < k" using m(1) k(3) by blast
    moreover have "k < m \<Longrightarrow> a ! j = v" using m(2) k(1,2) by blast
    ultimately show ?thesis using m(1) k(1) by (cases "k = m") auto
  qed
  moreover have "v \<in> set a" if "a ! j = v"
    using that k(1) l by (metis nth_mem slot_less)
  ultimately show ?thesis using that [OF j jl k(2)] by blast
qed

lemma hash_insert:
  assumes ok: "hash_ok sz nSet a" and v: "v \<noteq> 0" "v \<le> sz" "v \<notin> set a" "nSet < 123"
    and j: "probe 124 a ((v - 1) mod 124) w = Some j" "a ! j = 0"
  shows "hash_ok sz (nSet + 1) (a[j := v])" and "set (a[j := v]) - {0} = insert v (set a - {0})"
proof -
  have l: "length a = 124" using ok by (simp add: hash_ok_def)
  obtain k where k: "k < 124" "j = slot ((v - 1) mod 124) k" "\<forall>k' < k. a ! slot ((v - 1) mod 124) k' \<noteq> 0"
    using probe_Some [OF j(1)] by auto
  then have jl: "j < length a" using l by simp
  note split = id_take_nth_drop [OF jl] upd_conv_take_nth_drop [OF jl, of v]
  have f: "used (a[j := v])
      = used (take j a) @ v # used (drop (Suc j) a)"
    using v(1) by (simp add: split(2))
  have g: "used a = used (take j a) @ used (drop (Suc j) a)"
    by (subst split(1)) (simp add: j(2))
  have s: "set (a[j := v]) = insert v (set (take j a) \<union> set (drop (Suc j) a))"
    by (simp add: split(2))
  have s': "set a = insert 0 (set (take j a) \<union> set (drop (Suc j) a))"
    by (subst split(1)) (simp add: j(2))
  show set: "set (a[j := v]) - {0} = insert v (set a - {0})" using s s' v(1) by auto
  have "reach (a[j := v]) v"
    unfolding reach_def
  proof (intro exI conjI)
    show "a[j := v] ! slot ((v - 1) mod 124) k = v" using k(2) jl by simp
    show "\<forall>k' < k. a[j := v] ! slot ((v - 1) mod 124) k' \<noteq> 0"
      using k(3) jl v(1) by (auto simp: nth_list_update)
  qed (rule k(1))
  moreover have "reach (a[j := v]) u \<and> u \<le> sz" if "u \<in> set a" "u \<noteq> 0" for u
    using reach_upd [OF _ jl j(2) that(2) v(1)] ok that by (simp add: hash_ok_def)
  ultimately have "\<forall>u \<in> set (a[j := v]). u \<noteq> 0 \<longrightarrow> u \<le> sz \<and> reach (a[j := v]) u"
    using s s' v(2) by auto
  moreover have "distinct (used (a[j := v]))"
    using ok v(1,3) s' by (auto simp: f g hash_ok_def)
  ultimately show "hash_ok sz (nSet + 1) (a[j := v])"
    using ok v(4) l by (simp add: hash_ok_def f g)
qed

lemma hash_ok_empty: "hash_ok sz 0 (replicate 124 0)"
  by (simp add: hash_ok_def)

lemma rebuild_ok:
  assumes "hash_ok sz nSet b" "\<forall>v \<in> set vs. v \<noteq> 0 \<longrightarrow> v \<le> sz" "distinct (used vs)"
    "(set vs - {0}) \<inter> set b = {}" "nSet + length (used vs) \<le> 123"
  shows "\<exists>nSet' b'. rebuild i vs (nSet, b) = Some (nSet', b') \<and> hash_ok sz nSet' b'
    \<and> set b' - {0} = (set b \<union> {v \<in> set vs. v \<noteq> i + 1}) - {0}"
  using assms
proof (induction vs arbitrary: nSet b)
  case (Cons v vs)
  show ?case
  proof (cases "v \<noteq> 0 \<and> v \<noteq> i + 1")
    case True
    have l: "length b = 124" using Cons.prems(1) by (simp add: hash_ok_def)
    obtain j where j: "probe 124 b ((v - 1) mod 124) 0 = Some j"
      using probe_total [of "(v - 1) mod 124" b] l hash_ok_free [OF Cons.prems(1)] by auto
    then have "b ! j = 0" using probe_Some [OF j] by auto
    moreover have "v \<le> sz" "v \<notin> set b" "nSet < 123" using True Cons.prems by auto
    ultimately have ok: "hash_ok sz (nSet + 1) (b[j := v])" "set (b[j := v]) - {0} = insert v (set b - {0})"
      using hash_insert [OF Cons.prems(1) _ _ _ _ j] True by auto
    have "v \<notin> set vs" using Cons.prems(3) True by auto
    have "(set vs - {0}) \<inter> (set (b[j := v]) - {0}) = {}"
      unfolding ok(2) using Cons.prems(4) \<open>v \<notin> set vs\<close> by auto
    then have "(set vs - {0}) \<inter> set (b[j := v]) = {}" by auto
    moreover have "nSet + 1 + length (used vs) \<le> 123" using Cons.prems(5) True by simp
    moreover have "distinct (used vs)" using Cons.prems(3) True by simp
    ultimately obtain n' b' where r: "rebuild i vs (nSet + 1, b[j := v]) = Some (n', b')" "hash_ok sz n' b'"
        "set b' - {0} = (set (b[j := v]) \<union> {v \<in> set vs. v \<noteq> i + 1}) - {0}"
      using Cons.IH [OF ok(1)] Cons.prems(2) by auto
    have "set b' - {0} = (set b \<union> {w \<in> set (v # vs). w \<noteq> i + 1}) - {0}"
      by (simp only: r(3) Un_Diff ok(2)) (use True in auto)
    moreover have "rebuild i (v # vs) (nSet, b) = Some (n', b')" using True j r(1) by simp
    ultimately show ?thesis using r(2) by blast
  next
    case False
    have "distinct (used vs)" "(set vs - {0}) \<inter> set b = {}"
      "nSet + length (used vs) \<le> 123" "\<forall>v \<in> set vs. v \<noteq> 0 \<longrightarrow> v \<le> sz"
      using Cons.prems by (auto split: if_splits)
    then obtain n' b' where r: "rebuild i vs (nSet, b) = Some (n', b')" "hash_ok sz n' b'"
        "set b' - {0} = (set b \<union> {v \<in> set vs. v \<noteq> i + 1}) - {0}"
      using Cons.IH [OF Cons.prems(1)] by blast
    moreover have "rebuild i (v # vs) (nSet, b) = Some (n', b')" using False r(1) by auto
    moreover have "set b' - {0} = (set b \<union> {w \<in> set (v # vs). w \<noteq> i + 1}) - {0}" using r(3) False by auto
    ultimately show ?thesis by blast
  qed
qed auto

section \<open>The invariant of a bitmap\<close>

inductive bv_wf :: "nat \<Rightarrow> bitvec \<Rightarrow> bool" where
  wf_bitmap: "sz \<le> 3968 \<Longrightarrow> length a = 496 \<Longrightarrow> bv_wf sz (BV_bitmap sz a)"
| wf_hash: "3968 < sz \<Longrightarrow> hash_ok sz nSet a \<Longrightarrow> bv_wf sz (BV_hash sz nSet a)"
| wf_sub: "3968 < sz \<Longrightarrow> d = (sz + 61) div 62 \<Longrightarrow> length ps = 62 \<Longrightarrow>
    (\<And>p. Some p \<in> set ps \<Longrightarrow> bv_wf d p) \<Longrightarrow> bv_wf sz (BV_sub sz nSet d ps)"

inductive_cases bv_wf_hashE: "bv_wf sz (BV_hash sz' nSet a)"
inductive_simps bv_wf_simps:
  "bv_wf sz (BV_bitmap sz' a)" "bv_wf sz (BV_hash sz' nSet a)" "bv_wf sz (BV_sub sz' nSet d ps)"

lemma bv_wf_iSize: "bv_wf sz p \<Longrightarrow> iSize p = sz"
  by (cases rule: bv_wf.cases) auto

lemma bv_wf_new: "bv_wf sz (bitvec_new sz)"
  by (simp add: bitvec_new_def bv_wf_simps hash_ok_empty)

text \<open>Membership: the test on a number already reduced by one.\<close>

definition bv_mem :: "bitvec \<Rightarrow> nat \<Rightarrow> bool" where
  "bv_mem p i = (bitvec_test p i = Some True)"

lemma bv_mem_bitmap: "bv_mem (BV_bitmap sz a) i \<longleftrightarrow> bit_test a i"
  by (simp add: bv_mem_def)

lemma bv_mem_hash:
  "hash_ok sz nSet a \<Longrightarrow> bv_mem (BV_hash sz' nSet' a) i \<longleftrightarrow> i + 1 \<in> set a"
  by (rule hash_probe [of sz nSet a "i + 1"]) (auto simp: bv_mem_def)

lemma bv_mem_sub:
  "i div d < length ps \<Longrightarrow> bv_mem (BV_sub sz nSet d ps) i \<longleftrightarrow>
     (case ps ! (i div d) of None \<Rightarrow> False | Some p \<Rightarrow> bv_mem p (i mod d))"
  by (simp add: bv_mem_def split: option.split)

text \<open>Where a bit of a divided bitmap goes.\<close>

lemma bin_less:
  assumes "3968 < sz" "d = (sz + 61) div (62 :: nat)" "i < sz"
  shows "i div d < 62" and "i mod d < d"
proof -
  have "sz \<le> 62 * d" using assms(2) by simp
  then have "i < 62 * d" using assms(3) by linarith
  then show "i div d < 62" by (simp add: less_mult_imp_div_less)
  show "i mod d < d" using assms(1,2) by simp
qed

lemma bitvec_test_total: "bv_wf sz p \<Longrightarrow> i < sz \<Longrightarrow> bitvec_test p i = Some (bv_mem p i)"
proof (induction arbitrary: i rule: bv_wf.induct)
  case (wf_bitmap sz a)
  then show ?case by (simp add: bv_mem_def)
next
  case (wf_hash sz nSet a)
  then show ?case by (auto simp: bv_mem_def elim!: hash_probe [of sz nSet a "i + 1"])
next
  case (wf_sub sz d ps nSet)
  have b: "i div d < length ps" "i mod d < d" using bin_less [OF wf_sub(1,2,6)] wf_sub(3) by simp_all
  show ?case
  proof (cases "ps ! (i div d)")
    case None
    then show ?thesis using b by (simp add: bv_mem_def)
  next
    case (Some p)
    then have "Some p \<in> set ps" using b(1) by (metis nth_mem)
    then show ?thesis using b wf_sub(5) [of p "i mod d"] Some by (simp add: bv_mem_sub)
  qed
qed

lemma bv_mem_new: "i < sz \<Longrightarrow> \<not> bv_mem (bitvec_new sz) i"
  by (simp add: bitvec_new_def bv_mem_bitmap bit_test_def bv_mem_hash [OF hash_ok_empty])

text \<open>The bits of the array representation.\<close>

lemma bit_test_iff: "bit_test a i \<longleftrightarrow> bit (a ! (i div 8)) (i mod 8)"
  by (simp add: bit_test_def bit_iff_and_push_bit_not_eq_0)

lemma bit_pow_u8: "bit (2 ^ (i mod 8) :: u8) n \<longleftrightarrow> n = i mod 8"
  by (auto simp: bit_exp_iff)

lemma bit_test_set:
  assumes "i div 8 < length a"
  shows "bit_test (a[i div 8 := a ! (i div 8) OR 2 ^ (i mod 8)]) j \<longleftrightarrow> j = i \<or> bit_test a j"
proof (cases "j div 8 = i div 8")
  case True
  then have "j mod 8 = i mod 8 \<longleftrightarrow> j = i" by (metis div_mult_mod_eq)
  then show ?thesis using assms True
    by (auto simp: bit_test_iff bit_or_iff bit_pow_u8)
next
  case False
  then show ?thesis by (auto simp: bit_test_iff)
qed

lemma bit_test_clear:
  assumes "i div 8 < length a"
  shows "bit_test (a[i div 8 := a ! (i div 8) AND NOT (2 ^ (i mod 8))]) j \<longleftrightarrow> j \<noteq> i \<and> bit_test a j"
proof (cases "j div 8 = i div 8")
  case True
  then have "j mod 8 = i mod 8 \<longleftrightarrow> j = i" by (metis div_mult_mod_eq)
  then show ?thesis using assms True
    by (auto simp: bit_test_iff bit_and_iff bit_not_iff bit_pow_u8)
next
  case False
  then show ?thesis by (auto simp: bit_test_iff)
qed

section \<open>Clearing\<close>

lemma bitvec_clear_ok:
  "bv_wf sz p \<Longrightarrow> i < sz \<Longrightarrow>
   \<exists>p'. bitvec_clear p i = Some p' \<and> bv_wf sz p' \<and> (\<forall>j < sz. bv_mem p' j \<longleftrightarrow> j \<noteq> i \<and> bv_mem p j)"
proof (induction arbitrary: i rule: bv_wf.induct)
  case (wf_bitmap sz a)
  then have "i div 8 < length a" by linarith
  then show ?case using wf_bitmap by (simp add: bv_wf_simps bv_mem_bitmap bit_test_clear)
next
  case (wf_hash sz nSet a)
  have h: "\<forall>v \<in> set a. v \<noteq> 0 \<longrightarrow> v \<le> sz" "distinct (used a)" "length (used a) \<le> 123"
    using wf_hash(2) by (auto simp: hash_ok_def)
  obtain n' b' where r: "rebuild i a (0, replicate 124 0) = Some (n', b')" "hash_ok sz n' b'"
      "set b' - {0} = (set (replicate 124 0) \<union> {v \<in> set a. v \<noteq> i + 1}) - {0}"
    using rebuild_ok [OF hash_ok_empty h(1,2), of i] h(3) by auto
  have "Suc j \<in> set b' \<longleftrightarrow> Suc j \<in> set a \<and> j \<noteq> i" for j
    using arg_cong [OF r(3), of "\<lambda>S. Suc j \<in> S"] by auto
  then show ?case
    using r(1,2) wf_hash(1) by (auto simp: bv_wf_simps bv_mem_hash [OF r(2)] bv_mem_hash [OF wf_hash(2)])
next
  case (wf_sub sz d ps nSet)
  have b: "i div d < length ps" "i mod d < d" using bin_less [OF wf_sub(1,2,6)] wf_sub(3) by simp_all
  show ?case
  proof (cases "ps ! (i div d)")
    case None
    then have "\<not> bv_mem (BV_sub sz nSet d ps) i" using b by (simp add: bv_mem_sub)
    moreover have "bv_wf sz (BV_sub sz nSet d ps)" using wf_sub by (simp add: bv_wf_simps)
    ultimately show ?thesis using None b by auto
  next
    case (Some p)
    then have "Some p \<in> set ps" using b(1) by (metis nth_mem)
    then obtain p' where p': "bitvec_clear p (i mod d) = Some p'" "bv_wf d p'"
        "\<forall>j < d. bv_mem p' j \<longleftrightarrow> j \<noteq> i mod d \<and> bv_mem p j"
      using wf_sub(5) [of p "i mod d"] b(2) by blast
    have "bv_wf sz (BV_sub sz nSet d (ps[i div d := Some p']))"
      using wf_sub p'(2) by (auto simp: bv_wf_simps dest!: set_update_subset_insert [THEN subsetD])
    moreover have "bv_mem (BV_sub sz nSet d (ps[i div d := Some p'])) j
        \<longleftrightarrow> j \<noteq> i \<and> bv_mem (BV_sub sz nSet d ps) j" if "j < sz" for j
    proof -
      have bj: "j div d < length ps" "j mod d < d" using bin_less [OF wf_sub(1,2) that] wf_sub(3) by simp_all
      have "j div d = i div d \<Longrightarrow> j mod d = i mod d \<longleftrightarrow> j = i" by (metis div_mult_mod_eq)
      then show ?thesis using bj b(1) p'(3) Some by (auto simp: bv_mem_sub nth_list_update)
    qed
    ultimately show ?thesis using b(1) Some p'(1) by (simp add: Let_def)
  qed
qed

section \<open>Setting: the depth needed and the result\<close>

text \<open>The depth that a bitmap of a size needs: two for each division by 62, and one for the last step.\<close>

fun level :: "nat \<Rightarrow> nat" where
  "level sz = (if sz \<le> 3968 then 0 else Suc (level ((sz + 61) div 62)))"

declare level.simps [simp del]

lemma level_sub: "3968 < sz \<Longrightarrow> level sz = Suc (level ((sz + 61) div 62))"
  by (subst level.simps) simp

lemma level_bound: "sz \<le> 4294967296 \<Longrightarrow> level sz \<le> 4"
proof -
  have l0: "s \<le> 3968 \<Longrightarrow> level s = 0" for s by (subst level.simps) simp
  have step: "level ((s + 61) div 62) \<le> n \<Longrightarrow> level s \<le> Suc n" for s n by (subst level.simps) simp
  assume "sz \<le> 4294967296"
  define s1 s2 s3 s4 where "s1 = (sz + 61) div 62" "s2 = (s1 + 61) div 62" "s3 = (s2 + 61) div 62"
    "s4 = (s3 + 61) div 62"
  note d = this
  have "s1 \<le> 69273667" unfolding d using \<open>sz \<le> _\<close> by linarith
  then have "s2 \<le> 1117318" unfolding d(2) by linarith
  then have "s3 \<le> 18022" unfolding d(3) by linarith
  then have "s4 \<le> 3968" unfolding d(4) by linarith
  then have "level s4 \<le> 0" by (simp add: l0)
  then have "level s3 \<le> Suc 0" unfolding d(4) by (rule step)
  then have "level s2 \<le> Suc (Suc 0)" unfolding d(3) by (rule step)
  then have "level s1 \<le> Suc (Suc (Suc 0))" unfolding d(2) by (rule step)
  then have "level sz \<le> Suc (Suc (Suc (Suc 0)))" unfolding d(1) by (rule step)
  then show ?thesis by simp
qed

definition need :: "nat \<Rightarrow> bitvec \<Rightarrow> nat" where
  "need sz p = (case p of BV_sub _ _ _ _ \<Rightarrow> 2 * level sz | _ \<Rightarrow> 2 * level sz + 1)"

definition is_sub :: "bitvec \<Rightarrow> bool" where
  "is_sub p = (case p of BV_sub _ _ _ _ \<Rightarrow> True | _ \<Rightarrow> False)"

text \<open>What setting the bits \<open>S\<close> of a well-formed bitmap guarantees. When an allocation fails some of the
  bits may be missing, but none appears.\<close>

definition set_post :: "nat \<Rightarrow> nat set \<Rightarrow> bitvec \<Rightarrow> allocs \<Rightarrow> (int \<times> bitvec \<times> allocs) option \<Rightarrow> bool" where
  "set_post sz S p al r =
     (\<exists>rc p' al'. r = Some (rc, p', al') \<and> bv_wf sz p' \<and> (is_sub p \<longrightarrow> is_sub p')
        \<and> (rc = 0 \<or> rc = 7) \<and> (al = [] \<longrightarrow> rc = 0 \<and> al' = [])
        \<and> (rc = 0 \<longrightarrow> (\<forall>j < sz. bv_mem p' j \<longleftrightarrow> j \<in> S \<or> bv_mem p j))
        \<and> (\<forall>j < sz. bv_mem p' j \<longrightarrow> j \<in> S \<or> bv_mem p j))"

lemma set_postI:
  "r = Some (rc, p', al') \<Longrightarrow> bv_wf sz p' \<Longrightarrow> (is_sub p \<Longrightarrow> is_sub p') \<Longrightarrow> rc = 0 \<or> rc = 7 \<Longrightarrow>
   (al = [] \<Longrightarrow> rc = 0 \<and> al' = []) \<Longrightarrow>
   (rc = 0 \<Longrightarrow> \<forall>j < sz. bv_mem p' j \<longleftrightarrow> j \<in> S \<or> bv_mem p j) \<Longrightarrow>
   \<forall>j < sz. bv_mem p' j \<longrightarrow> j \<in> S \<or> bv_mem p j \<Longrightarrow> set_post sz S p al r"
  unfolding set_post_def by blast

lemma set_post_Some:
  "set_post sz S p al (Some (rc, p', al')) \<longleftrightarrow>
     bv_wf sz p' \<and> (is_sub p \<longrightarrow> is_sub p') \<and> (rc = 0 \<or> rc = 7) \<and> (al = [] \<longrightarrow> rc = 0 \<and> al' = [])
     \<and> (rc = 0 \<longrightarrow> (\<forall>j < sz. bv_mem p' j \<longleftrightarrow> j \<in> S \<or> bv_mem p j))
     \<and> (\<forall>j < sz. bv_mem p' j \<longrightarrow> j \<in> S \<or> bv_mem p j)"
  by (simp add: set_post_def)

lemma set_post_trans:
  assumes "set_post sz S p0 al0 (Some (rc, p, al))" "set_post sz T p al (Some (rc', p', al'))"
  shows "set_post sz (S \<union> T) p0 al0 (Some (rc OR rc', p', al'))"
proof -
  have a: "is_sub p0 \<longrightarrow> is_sub p" "rc = 0 \<or> rc = 7" "al0 = [] \<longrightarrow> rc = 0 \<and> al = []"
    "rc = 0 \<longrightarrow> (\<forall>j < sz. bv_mem p j \<longleftrightarrow> j \<in> S \<or> bv_mem p0 j)"
    "\<forall>j < sz. bv_mem p j \<longrightarrow> j \<in> S \<or> bv_mem p0 j"
    using assms(1) by (simp_all add: set_post_Some)
  have b: "bv_wf sz p'" "is_sub p \<longrightarrow> is_sub p'" "rc' = 0 \<or> rc' = 7" "al = [] \<longrightarrow> rc' = 0 \<and> al' = []"
    "rc' = 0 \<longrightarrow> (\<forall>j < sz. bv_mem p' j \<longleftrightarrow> j \<in> T \<or> bv_mem p j)"
    "\<forall>j < sz. bv_mem p' j \<longrightarrow> j \<in> T \<or> bv_mem p j"
    using assms(2) by (simp_all add: set_post_Some)
  have r: "rc OR rc' = 0 \<or> rc OR rc' = 7" "rc OR rc' = 0 \<longleftrightarrow> rc = 0 \<and> rc' = 0" using a(2) b(3) by auto
  show ?thesis
    unfolding set_post_Some
  proof (intro conjI impI)
    show "\<forall>j < sz. bv_mem p' j \<longleftrightarrow> j \<in> S \<union> T \<or> bv_mem p0 j" if "rc OR rc' = 0"
      using that a(4) b(5) r(2) by simp blast
    show "\<forall>j < sz. bv_mem p' j \<longrightarrow> j \<in> S \<union> T \<or> bv_mem p0 j" using a(5) b(6) by blast
    show "rc OR rc' = 0" "al' = []" if "al0 = []" using that a(3) b(4) r(2) by simp_all
  qed (use a(1) b(1,2) r(1) in blast)+
qed

lemma set_each_ok:
  assumes f: "\<And>p i al. bv_wf sz p \<Longrightarrow> is_sub p \<Longrightarrow> i < sz \<Longrightarrow> set_post sz {i} p al (f p i al)"
  shows "set_post sz S p0 al0 (Some (rc, p, al)) \<Longrightarrow> is_sub p \<Longrightarrow> \<forall>v \<in> set vs. v \<le> sz \<Longrightarrow>
    set_post sz (S \<union> {j. Suc j \<in> set vs}) p0 al0 (set_each f vs (rc, p, al))"
proof (induction vs arbitrary: rc p al S)
  case (Cons v vs)
  show ?case
  proof (cases "v = 0")
    case True
    have "{j. Suc j \<in> set (v # vs)} = {j. Suc j \<in> set vs}" using True by auto
    then show ?thesis using Cons.IH [OF Cons.prems(1,2)] Cons.prems(3) True by simp
  next
    case False
    then have v: "v - 1 < sz" "Suc (v - 1) = v" using Cons.prems(3) by auto
    have wf: "bv_wf sz p" using Cons.prems(1) by (simp add: set_post_Some)
    have p: "set_post sz {v - 1} p al (f p (v - 1) al)" by (rule f [OF wf Cons.prems(2) v(1)])
    then obtain rc' p' al' where r: "f p (v - 1) al = Some (rc', p', al')" unfolding set_post_def by blast
    then have s: "is_sub p'" using p Cons.prems(2) by (simp add: set_post_Some)
    have "set_post sz (S \<union> {v - 1}) p0 al0 (Some (rc OR rc', p', al'))"
      using Cons.prems(1) p unfolding r by (rule set_post_trans)
    moreover have "S \<union> {v - 1} \<union> {j. Suc j \<in> set vs} = S \<union> {j. Suc j \<in> set (v # vs)}"
      using v(2) by auto
    ultimately show ?thesis
      using Cons.IH [of "S \<union> {v - 1}" "rc OR rc'" p' al'] r s Cons.prems(3) False by simp
  qed
qed simp

lemma bv_mem_empty_sub: "j div d < 62 \<Longrightarrow> \<not> bv_mem (BV_sub sz nSet d (replicate 62 None)) j"
  by (simp add: bv_mem_sub)

lemma bv_wf_empty_sub:
  "3968 < sz \<Longrightarrow> bv_wf sz (BV_sub sz nSet ((sz + 61) div 62) (replicate 62 None))"
  by (simp add: bv_wf_simps)

lemma bitvec_set_sub_step:
  assumes IH: "\<And>p al. bv_wf d p \<Longrightarrow> need d p \<le> n \<Longrightarrow> set_post d {i mod d} p al (bitvec_set n p (i mod d) al)"
    and wf: "bv_wf sz (BV_sub sz nSet d ps)" and i: "i < sz" and n: "2 * level sz \<le> Suc n"
  shows "set_post sz {i} (BV_sub sz nSet d ps) al (bitvec_set (Suc n) (BV_sub sz nSet d ps) i al)"
proof -
  let ?p = "BV_sub sz nSet d ps" and ?b = "i div d"
  have sz: "3968 < sz" "d = (sz + 61) div 62" "length ps = 62" and ps: "\<And>p. Some p \<in> set ps \<Longrightarrow> bv_wf d p"
    using wf unfolding bv_wf_simps by blast+
  have b: "?b < length ps" "i mod d < d" using bin_less [OF sz(1,2) i] sz(3) by simp_all
  have nd: "need d c \<le> n" for c
    using n level_sub [OF sz(1)] sz(2) by (auto simp: need_def split: bitvec.splits)
  obtain c al1 where c: "(case ps ! ?b of None \<Rightarrow> sqlite3BitvecCreate d al | Some c \<Rightarrow> (Some c, al)) = (c, al1)"
    by fastforce
  have al1: "al = [] \<Longrightarrow> al1 = [] \<and> c \<noteq> None"
    using c by (cases "ps ! ?b") (auto simp: sqlite3BitvecCreate_def dest: sym)
  show ?thesis
  proof (cases c)
    case None
    then have "bitvec_set (Suc n) ?p i al = Some (7, ?p, al1)"
      using b(1) c by (simp add: Let_def rc_defs)
    moreover have "al \<noteq> []" using al1 None by blast
    ultimately show ?thesis using wf by (simp only: set_post_Some) simp
  next
    case (Some c')
    have wc: "bv_wf d c'" and mc: "\<And>j. j < sz \<Longrightarrow> j div d = ?b \<Longrightarrow> bv_mem c' (j mod d) \<longleftrightarrow> bv_mem ?p j"
    proof -
      have "bv_wf d c' \<and> (\<forall>j < sz. j div d = ?b \<longrightarrow> (bv_mem c' (j mod d) \<longleftrightarrow> bv_mem ?p j))"
      proof (cases "ps ! ?b")
        case None
        then have "c' = bitvec_new d" using c Some by (auto simp: sqlite3BitvecCreate_def split: if_splits prod.splits)
        moreover have "\<not> bv_mem ?p j" if "j < sz" "j div d = ?b" for j using None b(1) that by (simp add: bv_mem_sub)
        moreover have "\<not> bv_mem (bitvec_new d) (j mod d)" if "j < sz" for j
          using bin_less(2) [OF sz(1,2) that] by (rule bv_mem_new)
        ultimately show ?thesis by (simp add: bv_wf_new)
      next
        case (Some c2)
        then have "c2 = c'" using c \<open>c = Some c'\<close> by simp
        then have e: "ps ! ?b = Some c'" using Some by simp
        moreover from this have "Some c' \<in> set ps" using b(1) by (metis nth_mem)
        ultimately show ?thesis using ps b(1) by (simp add: bv_mem_sub)
      qed
      then show "bv_wf d c'" "\<And>j. j < sz \<Longrightarrow> j div d = ?b \<Longrightarrow> bv_mem c' (j mod d) \<longleftrightarrow> bv_mem ?p j" by blast+
    qed
    have post: "set_post d {i mod d} c' al1 (bitvec_set n c' (i mod d) al1)" by (rule IH [OF wc nd])
    then obtain rc c2 al2 where r: "bitvec_set n c' (i mod d) al1 = Some (rc, c2, al2)"
      unfolding set_post_def by blast
    have q: "bv_wf d c2" "rc = 0 \<or> rc = 7" "al1 = [] \<longrightarrow> rc = 0 \<and> al2 = []"
      "rc = 0 \<longrightarrow> (\<forall>j < d. bv_mem c2 j \<longleftrightarrow> j = i mod d \<or> bv_mem c' j)"
      "\<forall>j < d. bv_mem c2 j \<longrightarrow> j = i mod d \<or> bv_mem c' j"
      using post unfolding r set_post_Some by simp_all
    let ?p' = "BV_sub sz nSet d (ps[?b := Some c2])"
    have r': "bitvec_set (Suc n) ?p i al = Some (rc, ?p', al2)"
      using b(1) c Some r by (simp add: Let_def)
    have wf': "bv_wf sz ?p'"
      using wf q(1) by (auto simp: bv_wf_simps dest!: set_update_subset_insert [THEN subsetD])
    have m: "bv_mem ?p' j \<longleftrightarrow> (if j div d = ?b then bv_mem c2 (j mod d) else bv_mem ?p j)" if "j < sz" for j
      using bin_less [OF sz(1,2) that] sz(3) b(1) by (simp add: bv_mem_sub nth_list_update)
    have eq: "j = i \<longleftrightarrow> j div d = ?b \<and> j mod d = i mod d" for j by (metis div_mult_mod_eq)
    have all: "\<forall>j < sz. bv_mem ?p' j \<longleftrightarrow> j \<in> {i} \<or> bv_mem ?p j" if "rc = 0"
      using q(4) that bin_less(2) [OF sz(1,2)] mc by (simp add: m eq)
    have none: "\<forall>j < sz. bv_mem ?p' j \<longrightarrow> j \<in> {i} \<or> bv_mem ?p j"
      using q(5) bin_less(2) [OF sz(1,2)] mc by (simp add: m eq) blast
    show ?thesis
      by (rule set_postI [OF r' wf' _ q(2) _ all none]) (use q(3) al1 in \<open>simp_all add: is_sub_def\<close>)
  qed
qed


lemma bitvec_set_ok:
  "bv_wf sz p \<Longrightarrow> i < sz \<Longrightarrow> need sz p \<le> n \<Longrightarrow> set_post sz {i} p al (bitvec_set n p i al)"
proof (induction n arbitrary: sz p i al)
  case 0
  then have "is_sub p" "level sz = 0" by (auto simp: need_def is_sub_def split: bitvec.splits)
  moreover from 0(1) this have "3968 < sz" by (cases rule: bv_wf.cases) (simp_all add: is_sub_def)
  ultimately show ?case using level_sub [of sz] by simp
next
  case (Suc n)
  have sub: "set_post sz {i} q al (bitvec_set (Suc n) q i al)"
    if asm: "bv_wf sz q" "is_sub q" "2 * level sz \<le> Suc n" "i < sz" for q i al
  proof -
    obtain nSet d ps where q: "q = BV_sub sz nSet d ps"
      using asm(1,2) by (cases rule: bv_wf.cases) (auto simp: is_sub_def)
    have "3968 < sz" "d = (sz + 61) div 62" using asm(1) unfolding q bv_wf_simps by blast+
    then have "i mod d < d" using bin_less(2) [OF _ _ asm(4)] by blast
    then show ?thesis
      unfolding q by (intro bitvec_set_sub_step Suc.IH) (use asm q in auto)
  qed
  show ?case
    using Suc.prems(1)
  proof (cases rule: bv_wf.cases)
    case (wf_bitmap a)
    have "i div 8 < length a" using wf_bitmap Suc.prems(2) by linarith
    then show ?thesis
      using wf_bitmap by (simp add: set_post_Some bv_wf_simps bv_mem_bitmap bit_test_set rc_defs is_sub_def)
  next
    case (wf_sub d ps nSet)
    then show ?thesis
      using Suc.prems by (intro sub) (simp_all add: is_sub_def need_def)
  next
    case (wf_hash nSet a)
    have ok: "hash_ok sz nSet a" by fact
    obtain h where h: "probe 124 a (i mod 124) (i + 1) = Some h" "h < 124" "a ! h = 0 \<or> a ! h = i + 1"
        "a ! h = i + 1 \<longleftrightarrow> i + 1 \<in> set a"
      using hash_probe [OF ok, of "i + 1"] by auto
    note mem = bv_mem_hash [OF ok]
    consider (present) "i + 1 \<in> set a"
      | (room) "i + 1 \<notin> set a" "if a ! (i mod 124) = 0 then nSet < 123 else nSet < 62"
      | (full) "i + 1 \<notin> set a" "\<not> (if a ! (i mod 124) = 0 then nSet < 123 else nSet < 62)" by blast
    then show ?thesis
    proof cases
      case present
      then have "bitvec_set (Suc n) p i al = Some (0, p, al)" using wf_hash(1) h by (simp add: rc_defs)
      moreover have "bv_mem p i" using present wf_hash(1) by (simp add: mem)
      ultimately show ?thesis using Suc.prems(1) by (auto simp: set_post_Some)
    next
      case room
      then have j: "a ! h = 0" "nSet < 123" using h(3,4) by (auto split: if_splits)
      have r: "bitvec_set (Suc n) p i al = Some (0, BV_hash sz (nSet + 1) (a[h := i + 1]), al)"
        using room wf_hash(1) h by (simp add: rc_defs)
      have ins: "hash_ok sz (nSet + 1) (a[h := i + 1])" "set (a[h := i + 1]) - {0} = insert (i + 1) (set a - {0})"
        using hash_insert [OF ok, of "i + 1" "i + 1" h] room(1) Suc.prems(2) h(1) j by simp_all
      have "Suc k \<in> set (a[h := i + 1]) \<longleftrightarrow> k = i \<or> Suc k \<in> set a" for k
        using arg_cong [OF ins(2), of "\<lambda>S. Suc k \<in> S"] by simp
      then show ?thesis
        using wf_hash(1,2) ins(1) unfolding r
        by (simp add: set_post_Some bv_wf_simps bv_mem_hash [OF ins(1) [simplified]] mem is_sub_def)
    next
      case full
      obtain b al1 where al: "next_alloc al = (b, al1)" by fastforce
      let ?p1 = "BV_sub sz nSet ((sz + 61) div 62) (replicate 62 None)"
      have e: "bitvec_set (Suc n) p i al =
        (if \<not> b then Some (7, p, al1)
         else case bitvec_set n ?p1 i al1 of None \<Rightarrow> None | Some r \<Rightarrow> set_each (bitvec_set n) a r)"
        using full wf_hash(1) h al
          by (cases "a ! (i mod 124) = 0") (simp_all add: rc_defs add.commute [of 61 sz])
      have al0: "al = [] \<Longrightarrow> b \<and> al1 = []" using al by simp
      show ?thesis
      proof (cases b)
        case False
        then show ?thesis using e Suc.prems(1) al0 by (auto simp: set_post_Some)
      next
        case True
        have nd: "2 * level sz \<le> n" using Suc.prems(3) wf_hash(1) by (simp add: need_def)
        have w1: "bv_wf sz ?p1" using wf_hash(2) by (rule bv_wf_empty_sub)
        have P: "set_post sz {k} q al' (bitvec_set n q k al')" if "bv_wf sz q" "is_sub q" "k < sz" for q k al'
          using Suc.IH [OF that(1,3)] nd that(2) by (simp add: need_def is_sub_def split: bitvec.splits)
        have s1: "set_post sz {i} ?p1 al1 (bitvec_set n ?p1 i al1)"
          by (rule P [OF w1 _ Suc.prems(2)]) (simp add: is_sub_def)
        then obtain rc2 p2 al2 where r2: "bitvec_set n ?p1 i al1 = Some (rc2, p2, al2)"
          unfolding set_post_def by blast
        have sub2: "is_sub p2" using s1 unfolding r2 set_post_Some by (simp add: is_sub_def)
        have vs: "\<forall>v \<in> set a. v \<le> sz" using ok by (auto simp: hash_ok_def)
        have "set_post sz ({i} \<union> {j. Suc j \<in> set a}) ?p1 al1 (set_each (bitvec_set n) a (rc2, p2, al2))"
          by (rule set_each_ok [OF P s1 [unfolded r2] sub2 vs])
        moreover have "\<not> bv_mem ?p1 j" if "j < sz" for j
          using bin_less(1) [OF wf_hash(2) refl that] by (rule bv_mem_empty_sub)
        ultimately show ?thesis
          using e True r2 al0 wf_hash(1) unfolding set_post_def
          by (auto simp: mem is_sub_def)
      qed
    qed
  qed
qed

section \<open>The built-in test\<close>

text \<open>The macros on the linear array of bits that the test compares with.\<close>

definition SETBIT :: "u8 list \<Rightarrow> nat \<Rightarrow> u8 list" where
  "SETBIT V I = V[I div 8 := V ! (I div 8) OR push_bit (I mod 8) 1]"

definition CLEARBIT :: "u8 list \<Rightarrow> nat \<Rightarrow> u8 list" where
  "CLEARBIT V I = V[I div 8 := V ! (I div 8) AND NOT (push_bit (I mod 8) 1)]"

definition TESTBIT :: "u8 list \<Rightarrow> nat \<Rightarrow> bool" where
  "TESTBIT V I = (V ! (I div 8) AND push_bit (I mod 8) 1 \<noteq> 0)"

text \<open>The program that the test runs: \<open>aOp\<close> is changed in place, \<open>rnd\<close> is what \<open>sqlite3_randomness\<close>
  writes into \<open>i\<close>, call by call. Reading past the array and an overflow of \<open>int\<close> are \<open>None\<close>.\<close>

definition int_ck :: "int \<Rightarrow> int option" where
  "int_ck v = (if - 2147483648 \<le> v \<and> v \<le> 2147483647 then Some v else None)"

lemma int_ck_Some: "int_ck v = Some w \<longleftrightarrow> w = v \<and> - 2147483648 \<le> v \<and> v \<le> 2147483647"
  by (auto simp: int_ck_def)

record op_step =
  os_i :: int
  os_aOp :: "int list"
  os_nx :: nat
  os_rnd :: nat

text \<open>The \<open>switch\<close>: the bit number, the array, the length of the operation and the number of random draws.\<close>

definition op_switch :: "(nat \<Rightarrow> int) \<Rightarrow> int \<Rightarrow> nat \<Rightarrow> int list \<Rightarrow> nat \<Rightarrow> (int \<times> int list \<times> nat \<times> nat) option" where
  "op_switch rnd op pc aOp k =
     (if op = 1 \<or> op = 2 \<or> op = 5
      then do {
        s \<leftarrow> rd aOp (pc + 2);
        x \<leftarrow> rd aOp (pc + 3);
        i \<leftarrow> int_ck (s - 1);
        s' \<leftarrow> int_ck (s + x);
        Some (i, aOp[pc + 2 := s'], 4, k) }
      else Some (rnd k, aOp, 2, k + 1))"

text \<open>The \<open>switch\<close> and the decrement of the count.\<close>

definition op_fetch :: "(nat \<Rightarrow> int) \<Rightarrow> int \<Rightarrow> nat \<Rightarrow> int list \<Rightarrow> nat \<Rightarrow> op_step option" where
  "op_fetch rnd op pc aOp k =
     (case op_switch rnd op pc aOp k of
        None \<Rightarrow> None
      | Some (i, u, nx, k') \<Rightarrow> do {
          n \<leftarrow> rd u (pc + 1);
          n' \<leftarrow> int_ck (n - 1);
          Some \<lparr>os_i = i, os_aOp = u[pc + 1 := n'], os_nx = (if n' > 0 then 0 else nx), os_rnd = k'\<rparr> })"

lemma op_switch_array:
  "op_switch rnd op pc aOp k = Some (i, u, nx, k') \<Longrightarrow>
   length u = length aOp \<and> u ! (pc + 1) = aOp ! (pc + 1) \<and> nx > 0"
  by (auto simp: op_switch_def bind_eq_Some_conv split: if_splits)

lemma op_fetch_decreases:
  assumes "rd aOp pc = Some op" "op_fetch rnd op pc aOp k = Some s"
  shows "length aOp - (pc + os_nx s) < length aOp - pc
    \<or> os_nx s = 0 \<and> nat (os_aOp s ! (pc + 1)) < nat (aOp ! (pc + 1))"
    and "length (os_aOp s) = length aOp"
proof -
  obtain i u nx k' where u: "op_switch rnd op pc aOp k = Some (i, u, nx, k')"
    using assms(2) by (auto simp: op_fetch_def split: option.splits)
  note a = op_switch_array [OF u]
  have s: "pc + 1 < length u" "s = \<lparr>os_i = i, os_aOp = u[pc + 1 := u ! (pc + 1) - 1],
      os_nx = (if u ! (pc + 1) - 1 > 0 then 0 else nx), os_rnd = k'\<rparr>"
    using assms(2) u by (auto simp: op_fetch_def bind_eq_Some_conv int_ck_Some rd_Some_iff)
  show "length (os_aOp s) = length aOp" using a s(2) by simp
  show "length aOp - (pc + os_nx s) < length aOp - pc
    \<or> os_nx s = 0 \<and> nat (os_aOp s ! (pc + 1)) < nat (aOp ! (pc + 1))"
    using a s(1) unfolding s(2) by auto
qed

text \<open>Either the program counter advances or the count of the current operation goes down.\<close>

definition prog_left :: "nat \<Rightarrow> int list \<Rightarrow> nat \<times> nat" where
  "prog_left pc aOp = (length aOp - pc, nat (aOp ! (pc + 1)))"

lemma op_fetch_left:
  "rd aOp pc = Some op \<Longrightarrow> op_fetch rnd op pc aOp k = Some s \<Longrightarrow>
   (prog_left (pc + os_nx s) (os_aOp s), prog_left pc aOp) \<in> less_than <*lex*> less_than"
  using op_fetch_decreases [of aOp pc op rnd k s] by (auto simp: prog_left_def)

text \<open>The arguments: the program counter and array, the number of random draws, the two sets. The outer
  option is an undefined read or an endless probe, \<open>Inl\<close> the jump to \<open>bitvec_end\<close>.\<close>

function test_loop :: "(nat \<Rightarrow> int) \<Rightarrow> nat \<Rightarrow> nat \<Rightarrow> int list \<Rightarrow> nat \<Rightarrow> bitvec option \<Rightarrow> u8 list \<Rightarrow> allocs
    \<Rightarrow> (int + bitvec option \<times> u8 list) option" where
  "test_loop rnd sz pc aOp k p V al =
     (case rd aOp pc of
        None \<Rightarrow> None
      | Some op \<Rightarrow>
          if op = 0 then Some (Inr (p, V))
          else
            (case op_fetch rnd op pc aOp k of
               None \<Rightarrow> None
             | Some s \<Rightarrow>
                 let i = nat ((os_i s AND 0x7fffffff) mod int sz)
                 in if op AND 1 \<noteq> 0
                    then
                      let V' = SETBIT V (i + 1)
                      in if op \<noteq> 5
                         then (case sqlite3BitvecSet p (i + 1) al of
                                 None \<Rightarrow> None
                               | Some (rc, p', al') \<Rightarrow>
                                   if rc \<noteq> 0 then Some (Inl (- 1))
                                   else test_loop rnd sz (pc + os_nx s) (os_aOp s) (os_rnd s) p' V' al')
                         else test_loop rnd sz (pc + os_nx s) (os_aOp s) (os_rnd s) p V' al
                    else (case sqlite3BitvecClear p (i + 1) of
                            None \<Rightarrow> None
                          | Some p' \<Rightarrow>
                              test_loop rnd sz (pc + os_nx s) (os_aOp s) (os_rnd s) p' (CLEARBIT V (i + 1)) al)))"
  by pat_completeness auto
termination
proof (relation "inv_image (less_than <*lex*> less_than)
    (\<lambda>(rnd, sz, pc, aOp, k, p, V, al). prog_left pc aOp)", goal_cases)
  case 1
  show ?case by (intro wf_inv_image wf_lex_prod wf_less_than)
qed (simp_all only: in_inv_image prod.case op_fetch_left)

declare test_loop.simps [simp del]

text \<open>The comparison at the end: the first number on which the two disagree.\<close>

fun test_compare :: "bitvec option \<Rightarrow> u8 list \<Rightarrow> nat list \<Rightarrow> int \<Rightarrow> int option" where
  "test_compare p V [] rc = Some rc"
| "test_compare p V (i # is) rc =
     (case sqlite3BitvecTest p i of
        None \<Rightarrow> None
      | Some b \<Rightarrow> if TESTBIT V i \<noteq> b then Some (int i) else test_compare p V is rc)"

definition sqlite3BitvecBuiltinTest :: "(nat \<Rightarrow> int) \<Rightarrow> nat \<Rightarrow> int list \<Rightarrow> allocs \<Rightarrow> int option" where
  "sqlite3BitvecBuiltinTest rnd sz aOp al =
     (let (pBitvec, al) = sqlite3BitvecCreate sz al;
          (okV, al) = next_alloc al;
          pV = replicate ((sz + 7) div 8 + 1) 0;
          (okT, al) = next_alloc al
      in case pBitvec of
           None \<Rightarrow> Some (- 1)
         | Some b \<Rightarrow>
             if \<not> okV \<or> \<not> okT then Some (- 1)
             else
               (case test_loop rnd sz 0 aOp 0 (Some b) pV al of
                  None \<Rightarrow> None
                | Some (Inl rc) \<Rightarrow> Some rc
                | Some (Inr (p, V)) \<Rightarrow> do {
                    t0 \<leftarrow> sqlite3BitvecTest None 0;
                    t1 \<leftarrow> sqlite3BitvecTest p (sz + 1);
                    t2 \<leftarrow> sqlite3BitvecTest p 0;
                    b \<leftarrow> p;
                    test_compare p V [1..<sz + 1]
                      (of_bool t0 + of_bool t1 + of_bool t2 + (int (sqlite3BitvecSize b) - int sz)) }))"

section \<open>The contract of a set of numbers\<close>

text \<open>What the pager and the test rely on: a set of numbers from 1 to \<open>sz\<close> in which setting, clearing and
  testing always work.\<close>

locale id_set =
  fixes sz :: nat and wf :: "'s \<Rightarrow> bool" and ins del :: "'s \<Rightarrow> nat \<Rightarrow> 's option" and mem :: "'s \<Rightarrow> nat \<Rightarrow> bool option"
  assumes mem_total: "wf p \<Longrightarrow> 1 \<le> i \<Longrightarrow> i \<le> sz \<Longrightarrow> \<exists>b. mem p i = Some b"
    and ins_law: "wf p \<Longrightarrow> 1 \<le> i \<Longrightarrow> i \<le> sz \<Longrightarrow> \<exists>p'. ins p i = Some p' \<and> wf p'
      \<and> (\<forall>j. 1 \<le> j \<and> j \<le> sz \<longrightarrow> mem p' j = (if j = i then Some True else mem p j))"
    and del_law: "wf p \<Longrightarrow> 1 \<le> i \<Longrightarrow> i \<le> sz \<Longrightarrow> \<exists>p'. del p i = Some p' \<and> wf p'
      \<and> (\<forall>j. 1 \<le> j \<and> j \<le> sz \<longrightarrow> mem p' j = (if j = i then Some False else mem p j))"

text \<open>A set agrees with a linear array of bits.\<close>

definition agree :: "nat \<Rightarrow> ('s \<Rightarrow> nat \<Rightarrow> bool option) \<Rightarrow> 's \<Rightarrow> u8 list \<Rightarrow> bool" where
  "agree sz mem p V = (sz div 8 < length V \<and> (\<forall>i. 1 \<le> i \<and> i \<le> sz \<longrightarrow> mem p i = Some (TESTBIT V i)))"

lemma TESTBIT_is_bit_test: "TESTBIT V = bit_test V"
  by (simp add: fun_eq_iff TESTBIT_def bit_test_def)

lemma TESTBIT_SETBIT: "i div 8 < length V \<Longrightarrow> TESTBIT (SETBIT V i) j \<longleftrightarrow> j = i \<or> TESTBIT V j"
  by (simp add: TESTBIT_is_bit_test SETBIT_def bit_test_set)

lemma TESTBIT_CLEARBIT: "i div 8 < length V \<Longrightarrow> TESTBIT (CLEARBIT V i) j \<longleftrightarrow> j \<noteq> i \<and> TESTBIT V j"
  by (simp add: TESTBIT_is_bit_test CLEARBIT_def bit_test_clear)

lemma length_SETBIT [simp]: "length (SETBIT V i) = length V" "length (CLEARBIT V i) = length V"
  by (simp_all add: SETBIT_def CLEARBIT_def)

lemma agree_less: "agree sz mem p V \<Longrightarrow> i \<le> sz \<Longrightarrow> i div 8 < length V"
  using div_le_mono [of i sz 8] by (auto simp: agree_def)

context id_set
begin

lemma agree_ins:
  assumes "wf p" "agree sz mem p V" "1 \<le> i" "i \<le> sz"
  shows "\<exists>p'. ins p i = Some p' \<and> wf p' \<and> agree sz mem p' (SETBIT V i)"
  using ins_law [OF assms(1,3,4)] assms(2) agree_less [OF assms(2,4)]
  by (fastforce simp: agree_def TESTBIT_SETBIT)

lemma agree_del:
  assumes "wf p" "agree sz mem p V" "1 \<le> i" "i \<le> sz"
  shows "\<exists>p'. del p i = Some p' \<and> wf p' \<and> agree sz mem p' (CLEARBIT V i)"
  using del_law [OF assms(1,3,4)] assms(2) agree_less [OF assms(2,4)]
  by (fastforce simp: agree_def TESTBIT_CLEARBIT)

end

section \<open>The operations of the interface\<close>

lemma iSize_test:
  "bv_wf sz p \<Longrightarrow> 1 \<le> i \<Longrightarrow> i \<le> sz \<Longrightarrow> sz < 2 ^ 32 \<Longrightarrow> sqlite3BitvecTest (Some p) i = Some (bv_mem p (i - 1))"
proof -
  assume a: "bv_wf sz p" "1 \<le> i" "i \<le> sz" "sz < 2 ^ 32"
  then have i: "i - 1 < sz" "(i + 4294967295) mod 4294967296 = i - 1" by (simp_all add: le_mod_geq)
  show ?thesis
    using bitvec_test_total [OF a(1) i(1)] bv_wf_iSize [OF a(1)] i
    by (simp add: sqlite3BitvecTest_def sqlite3BitvecTestNotNull_def Let_def)
qed

lemma test_outside:
  "bv_wf sz p \<Longrightarrow> sz < 2 ^ 32 - 1 \<Longrightarrow> sqlite3BitvecTest (Some p) 0 = Some False"
  "bv_wf sz p \<Longrightarrow> sz < 2 ^ 32 - 1 \<Longrightarrow> sqlite3BitvecTest (Some p) (sz + 1) = Some False"
  using bv_wf_iSize [of sz p]
  by (simp_all add: sqlite3BitvecTest_def sqlite3BitvecTestNotNull_def Let_def le_mod_geq)

text \<open>Setting with an allocator that may fail.\<close>

lemma BitvecSet_ok:
  assumes "bv_wf sz p" "1 \<le> i" "i \<le> sz" "sz < 2 ^ 32"
  shows "\<exists>rc p' al'. sqlite3BitvecSet (Some p) i al = Some (rc, Some p', al') \<and> bv_wf sz p' \<and> (rc = 0 \<or> rc = 7)
    \<and> (al = [] \<longrightarrow> rc = 0 \<and> al' = [])
    \<and> (rc = 0 \<longrightarrow> (\<forall>j < sz. bv_mem p' j \<longleftrightarrow> j = i - 1 \<or> bv_mem p j))
    \<and> (\<forall>j < sz. bv_mem p' j \<longrightarrow> j = i - 1 \<or> bv_mem p j)"
proof -
  have "need sz p \<le> 16"
    using level_bound [of sz] assms(4) by (auto simp: need_def split: bitvec.split)
  then have "set_post sz {i - 1} p al (bitvec_set 16 p (i - 1) al)"
    using bitvec_set_ok [of sz p "i - 1" 16 al] assms by simp
  then show ?thesis unfolding set_post_def by (auto simp: sqlite3BitvecSet_def)
qed

text \<open>The three operations with unlimited memory.\<close>

definition bv_ins :: "bitvec \<Rightarrow> nat \<Rightarrow> bitvec option" where
  "bv_ins p i = (case sqlite3BitvecSet (Some p) i [] of Some (rc, Some p', al) \<Rightarrow> if rc = 0 then Some p' else None | _ \<Rightarrow> None)"

definition bv_del :: "bitvec \<Rightarrow> nat \<Rightarrow> bitvec option" where
  "bv_del p i = (case sqlite3BitvecClear (Some p) i of Some (Some p') \<Rightarrow> Some p' | _ \<Rightarrow> None)"

definition bv_inv :: "nat \<Rightarrow> bitvec \<Rightarrow> bool" where
  "bv_inv sz p = (bv_wf sz p \<and> sz < 2 ^ 32)"

lemma bv_ins_eq: "bv_ins p i = Some p' \<Longrightarrow> bv_inv sz p \<Longrightarrow> 1 \<le> i \<Longrightarrow> i \<le> sz \<Longrightarrow>
   sqlite3BitvecSet (Some p) i [] = Some (0, Some p', [])"
  using BitvecSet_ok [of sz p i "[]"] by (auto simp: bv_ins_def bv_inv_def)

lemma bv_del_eq: "bv_del p i = Some p' \<Longrightarrow> sqlite3BitvecClear (Some p) i = Some (Some p')"
  by (auto simp: bv_del_def split: option.splits)

interpretation bv: id_set sz "bv_inv sz" bv_ins bv_del "\<lambda>p. sqlite3BitvecTest (Some p)" for sz
proof (unfold_locales, goal_cases)
  case (1 p i)
  then show ?case by (auto simp: bv_inv_def iSize_test)
next
  case (2 p i)
  then obtain p' where s: "sqlite3BitvecSet (Some p) i [] = Some (0, Some p', [])" "bv_wf sz p'"
      "\<forall>j < sz. bv_mem p' j \<longleftrightarrow> j = i - 1 \<or> bv_mem p j"
    using BitvecSet_ok [of sz p i "[]"] by (auto simp: bv_inv_def)
  have "sqlite3BitvecTest (Some p') j = (if j = i then Some True else sqlite3BitvecTest (Some p) j)"
    if "1 \<le> j \<and> j \<le> sz" for j
    using that 2 s(2) s(3) [rule_format, of "j - 1"] by (auto simp: bv_inv_def iSize_test)
  then show ?case using s 2 by (auto simp: bv_ins_def bv_inv_def)
next
  case (3 p i)
  then obtain p' where s: "bitvec_clear p (i - 1) = Some p'" "bv_wf sz p'"
      "\<forall>j < sz. bv_mem p' j \<longleftrightarrow> j \<noteq> i - 1 \<and> bv_mem p j"
    using bitvec_clear_ok [of sz p "i - 1"] by (auto simp: bv_inv_def less_eq_Suc_le)
  have "sqlite3BitvecTest (Some p') j = (if j = i then Some False else sqlite3BitvecTest (Some p) j)"
    if "1 \<le> j \<and> j \<le> sz" for j
  proof -
    have "j - 1 < sz" using that by linarith
    then show ?thesis using that 3 s(2) s(3) by (auto simp: bv_inv_def iSize_test)
  qed
  then show ?case using s 3 by (auto simp: bv_del_def sqlite3BitvecClear_def bv_inv_def)
qed

section \<open>Programs of the built-in test\<close>

text \<open>The operations 1 to 4 of the test with their operands, and the words that stand for them.\<close>

datatype bv_instr = Set_bits int int int | Clear_bits int int int | Set_random int | Clear_random int

fun bv_words :: "bv_instr \<Rightarrow> int list" where
  "bv_words (Set_bits n s x) = [1, n, s, x]"
| "bv_words (Clear_bits n s x) = [2, n, s, x]"
| "bv_words (Set_random n) = [3, n]"
| "bv_words (Clear_random n) = [4, n]"

text \<open>No operand overflows \<open>int\<close>.\<close>

fun instr_ok :: "bv_instr \<Rightarrow> bool" where
  "instr_ok (Set_bits n s x) = (1 \<le> n \<and> n \<le> 2147483647 \<and> \<bar>s\<bar> + n * \<bar>x\<bar> \<le> 2147483647)"
| "instr_ok (Clear_bits n s x) = (1 \<le> n \<and> n \<le> 2147483647 \<and> \<bar>s\<bar> + n * \<bar>x\<bar> \<le> 2147483647)"
| "instr_ok (Set_random n) = (1 \<le> n \<and> n \<le> 2147483647)"
| "instr_ok (Clear_random n) = (1 \<le> n \<and> n \<le> 2147483647)"

lemma rd_append [simp]:
  "rd (pre @ a # ys) (length pre) = Some a"
  "rd (pre @ a # b # ys) (Suc (length pre)) = Some b"
  "rd (pre @ a # b # c # ys) (Suc (Suc (length pre))) = Some c"
  "rd (pre @ a # b # c # d # ys) (length pre + 3) = Some d"
  by (simp_all add: rd_def nth_append)

lemma update_append [simp]:
  "(pre @ a # b # ys)[Suc (length pre) := v] = pre @ a # v # ys"
  "(pre @ a # b # c # ys)[Suc (Suc (length pre)) := v] = pre @ a # b # v # ys"
  by (simp_all add: list_update_append)

lemma op_fetch_range:
  "op = 1 \<or> op = 2 \<Longrightarrow> 1 \<le> n \<Longrightarrow> n \<le> 2147483647 \<Longrightarrow> \<bar>s\<bar> + n * \<bar>x\<bar> \<le> 2147483647 \<Longrightarrow>
   op_fetch rnd op (length pre) (pre @ op # n # s # x # rest) k =
     Some \<lparr>os_i = s - 1, os_aOp = pre @ op # (n - 1) # (s + x) # x # rest,
           os_nx = (if n - 1 > 0 then 0 else 4), os_rnd = k\<rparr>"
proof -
  assume a: "op = 1 \<or> op = 2" "1 \<le> n" "n \<le> 2147483647" "\<bar>s\<bar> + n * \<bar>x\<bar> \<le> 2147483647"
  have "\<bar>x\<bar> \<le> n * \<bar>x\<bar>" using a(2) by (simp add: mult_le_cancel_right1)
  then have b: "int_ck (s - 1) = Some (s - 1)" "int_ck (s + x) = Some (s + x)" "int_ck (n - 1) = Some (n - 1)"
    using a(2-4) unfolding int_ck_Some by linarith+
  have "op_switch rnd op (length pre) (pre @ op # n # s # x # rest) k
      = Some (s - 1, pre @ op # n # (s + x) # x # rest, 4, k)"
    using a(1) b by (auto simp: op_switch_def)
  then show ?thesis using b by (simp add: op_fetch_def)
qed

lemma op_fetch_random:
  "op \<noteq> 1 \<Longrightarrow> op \<noteq> 2 \<Longrightarrow> op \<noteq> 5 \<Longrightarrow> 1 \<le> n \<Longrightarrow> n \<le> 2147483647 \<Longrightarrow>
   op_fetch rnd op (length pre) (pre @ op # n # rest) k =
     Some \<lparr>os_i = rnd k, os_aOp = pre @ op # (n - 1) # rest, os_nx = (if n - 1 > 0 then 0 else 2), os_rnd = k + 1\<rparr>"
proof -
  assume a: "op \<noteq> 1" "op \<noteq> 2" "op \<noteq> 5" "1 \<le> n" "n \<le> 2147483647"
  have b: "int_ck (n - 1) = Some (n - 1)" using a(4,5) unfolding int_ck_Some by linarith
  show ?thesis using a b by (simp add: op_switch_def op_fetch_def)
qed

text \<open>One turn of the loop keeps the set and the array in agreement.\<close>

lemma test_loop_turn:
  assumes op: "rd aOp pc = Some op" "op \<noteq> 0" "op \<noteq> 5" "op_fetch rnd op pc aOp k = Some s"
    and inv: "bv_inv sz p" "agree sz (\<lambda>p. sqlite3BitvecTest (Some p)) p V" "0 < sz"
  shows "\<exists>p' V'. test_loop rnd sz pc aOp k (Some p) V []
      = test_loop rnd sz (pc + os_nx s) (os_aOp s) (os_rnd s) (Some p') V' []
    \<and> bv_inv sz p' \<and> agree sz (\<lambda>p. sqlite3BitvecTest (Some p)) p' V'"
proof -
  define i where "i = nat ((os_i s AND 0x7fffffff) mod int sz) + 1"
  have "nat ((os_i s AND 0x7fffffff) mod int sz) < sz" using inv(3) by (simp add: nat_less_iff)
  then have i: "1 \<le> i" "i \<le> sz" unfolding i_def by linarith+
  show ?thesis
  proof (cases "op AND 1 = 0")
    case True
    obtain p' where p': "bv_del p i = Some p'" "bv_inv sz p'"
        "agree sz (\<lambda>p. sqlite3BitvecTest (Some p)) p' (CLEARBIT V i)"
      using bv.agree_del [OF inv(1,2) i] by blast
    have "test_loop rnd sz pc aOp k (Some p) V []
        = test_loop rnd sz (pc + os_nx s) (os_aOp s) (os_rnd s) (Some p') (CLEARBIT V i) []"
      using op True bv_del_eq [OF p'(1)] unfolding i_def by (subst test_loop.simps) simp
    then show ?thesis using p' by blast
  next
    case False
    obtain p' where p': "bv_ins p i = Some p'" "bv_inv sz p'"
        "agree sz (\<lambda>p. sqlite3BitvecTest (Some p)) p' (SETBIT V i)"
      using bv.agree_ins [OF inv(1,2) i] by blast
    have "test_loop rnd sz pc aOp k (Some p) V []
        = test_loop rnd sz (pc + os_nx s) (os_aOp s) (os_rnd s) (Some p') (SETBIT V i) []"
      using op False bv_ins_eq [OF p'(1) inv(1) i] unfolding i_def by (subst test_loop.simps) simp
    then show ?thesis using p' by blast
  qed
qed

text \<open>All turns of one operation. The number of turns left is the induction variable.\<close>

definition reaches :: "(nat \<Rightarrow> int) \<Rightarrow> nat \<Rightarrow> nat \<times> int list \<times> nat \<times> bitvec \<times> u8 list \<Rightarrow> nat \<Rightarrow> int list \<Rightarrow> bool" where
  "reaches rnd sz st pc rest =
     (case st of (pc0, aOp, k, p, V) \<Rightarrow>
        \<exists>pre k' p' V'. length pre = pc \<and> bv_inv sz p' \<and> agree sz (\<lambda>p. sqlite3BitvecTest (Some p)) p' V'
          \<and> test_loop rnd sz pc0 aOp k (Some p) V [] = test_loop rnd sz pc (pre @ rest) k' (Some p') V' [])"

lemma range_reaches:
  "op = 1 \<or> op = 2 \<Longrightarrow> n = int (Suc m) \<Longrightarrow> n \<le> 2147483647 \<Longrightarrow> \<bar>s\<bar> + n * \<bar>x\<bar> \<le> 2147483647 \<Longrightarrow> 0 < sz \<Longrightarrow>
   bv_inv sz p \<Longrightarrow> agree sz (\<lambda>p. sqlite3BitvecTest (Some p)) p V \<Longrightarrow>
   reaches rnd sz (length pre, pre @ op # n # s # x # rest, k, p, V) (length pre + 4) rest"
proof (induction m arbitrary: n s p V k)
  case 0
  note f = op_fetch_range [OF 0(1) _ 0(3,4), of rnd pre rest k]
  obtain p' V' where t: "test_loop rnd sz (length pre) (pre @ op # n # s # x # rest) k (Some p) V []
      = test_loop rnd sz (length pre + 4) (pre @ op # (n - 1) # (s + x) # x # rest) k (Some p') V' []"
      "bv_inv sz p'" "agree sz (\<lambda>p. sqlite3BitvecTest (Some p)) p' V'"
    using test_loop_turn [OF _ _ _ f 0(6,7,5)] 0(1,2) by auto
  show ?case unfolding reaches_def prod.case
    by (rule exI [of _ "pre @ [op, n - 1, s + x, x]"], rule exI [of _ k], rule exI [of _ p'], rule exI [of _ V'])
      (simp add: t)
next
  case (Suc m)
  have n: "1 \<le> n" "n - 1 > 0" "n - 1 = int (Suc m)" using Suc.prems(2) by simp_all
  note f = op_fetch_range [OF Suc.prems(1) n(1) Suc.prems(3,4), of rnd pre rest k]
  obtain p' V' where t: "test_loop rnd sz (length pre) (pre @ op # n # s # x # rest) k (Some p) V []
      = test_loop rnd sz (length pre) (pre @ op # (n - 1) # (s + x) # x # rest) k (Some p') V' []"
      "bv_inv sz p'" "agree sz (\<lambda>p. sqlite3BitvecTest (Some p)) p' V'"
    using test_loop_turn [OF _ _ _ f Suc.prems(6,7,5)] Suc.prems(1) n(2) by auto
  have "\<bar>s + x\<bar> + (n - 1) * \<bar>x\<bar> \<le> \<bar>s\<bar> + n * \<bar>x\<bar>" by (simp add: algebra_simps)
  then have "reaches rnd sz (length pre, pre @ op # (n - 1) # (s + x) # x # rest, k, p', V') (length pre + 4) rest"
    using Suc.prems t(2,3) n(3) by (intro Suc.IH) simp_all
  then show ?case using t(1) by (simp add: reaches_def)
qed

lemma random_reaches:
  "op = 3 \<or> op = 4 \<Longrightarrow> n = int (Suc m) \<Longrightarrow> n \<le> 2147483647 \<Longrightarrow> 0 < sz \<Longrightarrow>
   bv_inv sz p \<Longrightarrow> agree sz (\<lambda>p. sqlite3BitvecTest (Some p)) p V \<Longrightarrow>
   reaches rnd sz (length pre, pre @ op # n # rest, k, p, V) (length pre + 2) rest"
proof (induction m arbitrary: n p V k)
  case 0
  then have op: "op \<noteq> 1" "op \<noteq> 2" "op \<noteq> 5" "op \<noteq> 0" by auto
  note f = op_fetch_random [OF op(1-3) _ 0(3), of rnd pre rest k]
  obtain p' V' where t: "test_loop rnd sz (length pre) (pre @ op # n # rest) k (Some p) V []
      = test_loop rnd sz (length pre + 2) (pre @ op # (n - 1) # rest) (k + 1) (Some p') V' []"
      "bv_inv sz p'" "agree sz (\<lambda>p. sqlite3BitvecTest (Some p)) p' V'"
    using test_loop_turn [OF _ op(4,3) f 0(5,6,4)] 0(2) by auto
  show ?case unfolding reaches_def prod.case
    by (rule exI [of _ "pre @ [op, n - 1]"], rule exI [of _ "k + 1"], rule exI [of _ p'], rule exI [of _ V'])
      (use t in simp)
next
  case (Suc m)
  then have op: "op \<noteq> 1" "op \<noteq> 2" "op \<noteq> 5" "op \<noteq> 0" by auto
  have n: "1 \<le> n" "n - 1 > 0" "n - 1 = int (Suc m)" using Suc.prems(2) by simp_all
  note f = op_fetch_random [OF op(1-3) n(1) Suc.prems(3), of rnd pre rest k]
  obtain p' V' where t: "test_loop rnd sz (length pre) (pre @ op # n # rest) k (Some p) V []
      = test_loop rnd sz (length pre) (pre @ op # (n - 1) # rest) (k + 1) (Some p') V' []"
      "bv_inv sz p'" "agree sz (\<lambda>p. sqlite3BitvecTest (Some p)) p' V'"
    using test_loop_turn [OF _ op(4,3) f Suc.prems(5,6,4)] n(2) by auto
  have "reaches rnd sz (length pre, pre @ op # (n - 1) # rest, k + 1, p', V') (length pre + 2) rest"
    using Suc.prems t(2,3) n(3) by (intro Suc.IH) simp_all
  then show ?case using t(1) by (simp add: reaches_def)
qed

lemma words_reach:
  "list_all instr_ok is \<Longrightarrow> 0 < sz \<Longrightarrow> bv_inv sz p \<Longrightarrow> agree sz (\<lambda>p. sqlite3BitvecTest (Some p)) p V \<Longrightarrow>
   \<exists>pc. reaches rnd sz (length pre, pre @ concat (map bv_words is) @ rest, k, p, V) pc rest"
proof (induction "is" arbitrary: pre k p V)
  case Nil
  then show ?case unfolding reaches_def
    by (intro exI [of _ "length pre"]) auto
next
  case (Cons a "is")
  let ?rest = "concat (map bv_words is) @ rest"
  have "\<exists>pc. reaches rnd sz (length pre, pre @ bv_words a @ ?rest, k, p, V) pc ?rest"
  proof (cases a)
    case (Set_bits n s x)
    then have "n = int (Suc (nat n - 1))" using Cons.prems(1) by simp
    then show ?thesis
      using range_reaches [of 1 n "nat n - 1" s x sz p V rnd pre ?rest k] Cons.prems Set_bits by auto
  next
    case (Clear_bits n s x)
    then have "n = int (Suc (nat n - 1))" using Cons.prems(1) by simp
    then show ?thesis
      using range_reaches [of 2 n "nat n - 1" s x sz p V rnd pre ?rest k] Cons.prems Clear_bits by auto
  next
    case (Set_random n)
    then have "n = int (Suc (nat n - 1))" using Cons.prems(1) by simp
    then show ?thesis
      using random_reaches [of 3 n "nat n - 1" sz p V rnd pre ?rest k] Cons.prems Set_random by auto
  next
    case (Clear_random n)
    then have "n = int (Suc (nat n - 1))" using Cons.prems(1) by simp
    then show ?thesis
      using random_reaches [of 4 n "nat n - 1" sz p V rnd pre ?rest k] Cons.prems Clear_random by auto
  qed
  then obtain pc pre' k' p' V' where s: "length pre' = pc" "bv_inv sz p'"
      "agree sz (\<lambda>p. sqlite3BitvecTest (Some p)) p' V'"
      "test_loop rnd sz (length pre) (pre @ bv_words a @ ?rest) k (Some p) V []
        = test_loop rnd sz pc (pre' @ ?rest) k' (Some p') V' []"
    unfolding reaches_def by auto
  show ?case
    using Cons.IH [of p' V' pre' k'] Cons.prems s by (simp add: reaches_def)
qed

lemma test_compare_agree:
  "agree sz (\<lambda>p. sqlite3BitvecTest (Some p)) p V \<Longrightarrow> \<forall>i \<in> set is. 1 \<le> i \<and> i \<le> sz \<Longrightarrow>
   test_compare (Some p) V is rc = Some rc"
  by (induction "is") (auto simp: agree_def)

lemma agree_new:
  assumes "0 < sz" "sz < 2 ^ 32"
  shows "agree sz (\<lambda>p. sqlite3BitvecTest (Some p)) (bitvec_new sz) (replicate ((sz + 7) div 8 + 1) 0)"
proof -
  have "sqlite3BitvecTest (Some (bitvec_new sz)) i = Some (TESTBIT (replicate ((sz + 7) div 8 + 1) 0) i)"
    if "1 \<le> i" "i \<le> sz" for i
  proof -
    have "i - 1 < sz" "i div 8 < (sz + 7) div 8 + 1" using that by linarith+
    then show ?thesis
      using iSize_test [OF bv_wf_new that assms(2)] bv_mem_new [of "i - 1" sz]
      by (simp add: TESTBIT_is_bit_test bit_test_iff del: replicate.simps)
  qed
  moreover have "sz div 8 < (sz + 7) div 8 + 1" by linarith
  ultimately show ?thesis by (simp add: agree_def del: replicate.simps)
qed

text \<open>The numbers in a bitmap.\<close>

definition bits :: "nat \<Rightarrow> bitvec \<Rightarrow> nat set" where
  "bits sz p = {i. 1 \<le> i \<and> i \<le> sz \<and> sqlite3BitvecTest (Some p) i = Some True}"

lemma bits_iff: "bv_inv sz p \<Longrightarrow> i \<in> bits sz p \<longleftrightarrow> 1 \<le> i \<and> i \<le> sz \<and> bv_mem p (i - 1)"
  by (auto simp: bits_def bv_inv_def iSize_test)

lemma bits_ins:
  "bv_inv sz p \<Longrightarrow> 1 \<le> i \<Longrightarrow> i \<le> sz \<Longrightarrow> \<exists>p'. bv_ins p i = Some p' \<and> bv_inv sz p' \<and> bits sz p' = insert i (bits sz p)"
  by (frule (2) bv.ins_law) (auto simp: bits_def split: if_splits)

lemma bits_del:
  "bv_inv sz p \<Longrightarrow> 1 \<le> i \<Longrightarrow> i \<le> sz \<Longrightarrow> \<exists>p'. bv_del p i = Some p' \<and> bv_inv sz p' \<and> bits sz p' = bits sz p - {i}"
  by (frule (2) bv.del_law) (auto simp: bits_def split: if_splits)

section \<open>Properties\<close>

text \<open>C36. With unlimited memory a bitmap of less than 2^32 bits is the set of its numbers: a new one is
  empty, \<open>sqlite3BitvecSet\<close> adds the number and \<open>sqlite3BitvecClear\<close> removes it, whatever the
  representation (array, hash table or sub-bitmaps) and the rehash that the call needs; both return, and
  the structure stays well formed.\<close>

theorem bitvec_refines_set:
  assumes "bv_inv sz p" "1 \<le> i" "i \<le> sz"
  shows "bits sz (bitvec_new sz) = {} \<and> bv_inv sz (bitvec_new sz)
    \<and> (\<exists>p'. sqlite3BitvecSet (Some p) i [] = Some (SQLITE_OK, Some p', []) \<and> bv_inv sz p'
         \<and> bits sz p' = insert i (bits sz p))
    \<and> (\<exists>p'. sqlite3BitvecClear (Some p) i = Some (Some p') \<and> bv_inv sz p' \<and> bits sz p' = bits sz p - {i})"
proof (intro conjI)
  show new: "bv_inv sz (bitvec_new sz)" using assms(1) by (simp add: bv_inv_def bv_wf_new)
  have "\<not> bv_mem (bitvec_new sz) (j - 1)" if "1 \<le> j" "j \<le> sz" for j
    using that by (intro bv_mem_new) linarith
  then show "bits sz (bitvec_new sz) = {}" using bits_iff [OF new] by blast
  show "\<exists>p'. sqlite3BitvecSet (Some p) i [] = Some (SQLITE_OK, Some p', []) \<and> bv_inv sz p'
      \<and> bits sz p' = insert i (bits sz p)"
    using bits_ins [OF assms] bv_ins_eq [OF _ assms] unfolding SQLITE_OK_def by blast
  show "\<exists>p'. sqlite3BitvecClear (Some p) i = Some (Some p') \<and> bv_inv sz p' \<and> bits sz p' = bits sz p - {i}"
    using bits_del [OF assms] bv_del_eq by blast
qed

lemma bitvec_refines_set_witness:
  "\<exists>p'. sqlite3BitvecSet (Some (bitvec_new 5000)) 4097 [] = Some (SQLITE_OK, Some p', [])"
  using bitvec_refines_set [of 5000 "bitvec_new 5000" 4097] by (auto simp: bv_inv_def bv_wf_new)

text \<open>However the allocator behaves, \<open>sqlite3BitvecSet\<close> returns \<open>SQLITE_OK\<close> or \<open>SQLITE_NOMEM\<close>, leaves a
  well-formed bitmap and adds no number but the one asked for; after \<open>SQLITE_OK\<close> that number is there and
  no other is lost. (After \<open>SQLITE_NOMEM\<close> numbers may be lost: the hash table is emptied before it is
  redistributed.)\<close>

theorem bitvec_set_nomem:
  assumes "bv_inv sz p" "1 \<le> i" "i \<le> sz"
  shows "\<exists>rc p' al'. sqlite3BitvecSet (Some p) i al = Some (rc, Some p', al') \<and> bv_inv sz p'
    \<and> bits sz p' \<subseteq> insert i (bits sz p)
    \<and> (rc = SQLITE_OK \<and> bits sz p' = insert i (bits sz p) \<or> rc = SQLITE_NOMEM \<and> al \<noteq> [])"
proof -
  obtain rc p' al' where r: "sqlite3BitvecSet (Some p) i al = Some (rc, Some p', al')" "bv_wf sz p'"
      "rc = 0 \<or> rc = 7" "al = [] \<longrightarrow> rc = 0"
      "rc = 0 \<longrightarrow> (\<forall>j < sz. bv_mem p' j \<longleftrightarrow> j = i - 1 \<or> bv_mem p j)"
      "\<forall>j < sz. bv_mem p' j \<longrightarrow> j = i - 1 \<or> bv_mem p j"
    using BitvecSet_ok [of sz p i al] assms by (auto simp: bv_inv_def)
  have inv: "bv_inv sz p'" using r(2) assms(1) by (simp add: bv_inv_def)
  have j: "j - 1 < sz" "j - 1 = i - 1 \<longleftrightarrow> j = i" if "1 \<le> j" "j \<le> sz" for j
    using that assms(2) by linarith+
  have "bits sz p' \<subseteq> insert i (bits sz p)"
    unfolding subset_iff insert_iff bits_iff [OF inv] bits_iff [OF assms(1)] using r(6) j by blast
  moreover have "bits sz p' = insert i (bits sz p)" if "rc = 0"
    unfolding set_eq_iff insert_iff bits_iff [OF inv] bits_iff [OF assms(1)] using r(5) that j assms(2,3) by blast
  ultimately show ?thesis using r(1,3,4) inv unfolding rc_defs by blast
qed

lemma bitvec_set_nomem_witness:
  "\<exists>rc p' al'. sqlite3BitvecSet (Some (bitvec_new 5000)) 4097 [False] = Some (rc, Some p', al')
    \<and> bits 5000 p' \<subseteq> insert 4097 (bits 5000 (bitvec_new 5000))"
  using bitvec_set_nomem [of 5000 "bitvec_new 5000" 4097 "[False]"] by (auto simp: bv_inv_def bv_wf_new)

text \<open>The built-in test ends and finds no error: any program of operations 1 to 4 whose numbers stay
  within \<open>int\<close>, on a bitmap of any size up to 2^31 - 1, returns 0, whatever the random numbers.\<close>

theorem builtin_test_passes:
  assumes "list_all instr_ok is" "0 < sz" "sz < 2 ^ 31"
  shows "sqlite3BitvecBuiltinTest rnd sz (concat (map bv_words is) @ [0]) [] = Some 0"
proof -
  have new: "bv_inv sz (bitvec_new sz)" using assms(3) by (simp add: bv_inv_def bv_wf_new)
  obtain pc where "reaches rnd sz (0, concat (map bv_words is) @ [0], 0, bitvec_new sz,
      replicate ((sz + 7) div 8 + 1) 0) pc [0]"
    using words_reach [OF assms(1,2) new agree_new, of rnd "[]" "[0]" 0] assms by (auto simp del: replicate.simps)
  then obtain pre k p V where r: "length pre = pc" "bv_inv sz p" "agree sz (\<lambda>p. sqlite3BitvecTest (Some p)) p V"
      "test_loop rnd sz 0 (concat (map bv_words is) @ [0]) 0 (Some (bitvec_new sz)) (replicate ((sz + 7) div 8 + 1) 0) []
        = test_loop rnd sz pc (pre @ [0]) k (Some p) V []"
    unfolding reaches_def prod.case by blast
  have "test_loop rnd sz pc (pre @ [0]) k (Some p) V [] = Some (Inr (Some p, V))"
    unfolding r(1) [symmetric] by (subst test_loop.simps) simp
  moreover have "bv_wf sz p" "iSize p = sz" using r(2) bv_wf_iSize by (auto simp: bv_inv_def)
  moreover have "test_compare (Some p) V [1..<sz + 1] 0 = Some 0" using r(3) by (rule test_compare_agree) auto
  ultimately show ?thesis
    using r(4) assms(3) test_outside [of sz p]
    by (simp add: sqlite3BitvecBuiltinTest_def sqlite3BitvecCreate_def sqlite3BitvecSize_def sqlite3BitvecTest_def [of None]
        del: replicate.simps upt_Suc)
qed

lemma builtin_test_passes_witness:
  "sqlite3BitvecBuiltinTest (\<lambda>k. 37 * int k) 40000 [1, 500, 1, 79, 4, 9, 2, 10, 1, 158, 0] [] = Some 0"
  using builtin_test_passes [of "[Set_bits 500 1 79, Clear_random 9, Clear_bits 10 1 158]" 40000 "\<lambda>k. 37 * int k"]
  by simp

end
