(* ===== verification/PageState.thy ===== *)
theory PageState
  imports Prelude
begin

text \<open>
  The latch of a page in \<open>integrated_vmcache.cpp\<close>: one 64-bit word with a state in the top 8 bits and a
  version in the other 56 (\<open>PageState\<close>), the loops that take and release it (\<open>fixX\<close>, \<open>fixS\<close>, \<open>unlockS\<close>,
  \<open>GuardO::init\<close>, \<open>checkVersionAndRestart\<close>, the guards built from an optimistic one) and its use by the
  eviction callbacks. Operations on the word are functions of the current word; the loops are steps of
  threads that interleave at every load and compare-and-swap of the one word.
\<close>

section \<open>The word\<close>

definition Unlocked :: u64 where "Unlocked = 0"
definition MaxShared :: u64 where "MaxShared = 252"
definition Locked :: u64 where "Locked = 253"
definition Marked :: u64 where "Marked = 254"
definition Evicted :: u64 where "Evicted = 255"

lemmas state_defs = Unlocked_def MaxShared_def Locked_def Marked_def Evicted_def

definition sameVersion :: "u64 \<Rightarrow> u64 \<Rightarrow> u64" where
  "sameVersion oldStateAndVersion newState =
     (drop_bit 8 (push_bit 8 oldStateAndVersion)) OR push_bit 56 newState"

definition nextVersion :: "u64 \<Rightarrow> u64 \<Rightarrow> u64" where
  "nextVersion oldStateAndVersion newState =
     (drop_bit 8 (push_bit 8 oldStateAndVersion) + 1) OR push_bit 56 newState"

definition getState :: "u64 \<Rightarrow> u64" where
  "getState v = drop_bit 56 v"

definition ps_init :: u64 where
  "ps_init = sameVersion 0 Evicted"

text \<open>\<open>compare_exchange\<close>: whether it succeeded and the word after it. The weak form may fail although the word is
  the expected one; in the steps of the threads below a flag says that it does not.\<close>

definition cas :: "u64 \<Rightarrow> u64 \<Rightarrow> u64 \<Rightarrow> bool \<times> u64" where
  "cas cell old new = (if cell = old then (True, new) else (False, cell))"

definition cas_weak :: "bool \<Rightarrow> u64 \<Rightarrow> u64 \<Rightarrow> u64 \<Rightarrow> bool \<times> u64" where
  "cas_weak strong cell old new = (if strong then cas cell old new else (False, cell))"

definition tryLockX :: "u64 \<Rightarrow> u64 \<Rightarrow> bool \<times> u64" where
  "tryLockX cell old = cas cell old (sameVersion old Locked)"

definition unlockX :: "u64 \<Rightarrow> u64" where
  "unlockX cell = nextVersion cell Unlocked"

definition unlockXEvicted :: "u64 \<Rightarrow> u64" where
  "unlockXEvicted cell = nextVersion cell Evicted"

definition downgradeLock :: "u64 \<Rightarrow> u64" where
  "downgradeLock cell = nextVersion cell 1"

definition tryLockS :: "u64 \<Rightarrow> u64 \<Rightarrow> bool \<times> u64" where
  "tryLockS cell old =
     (let s = getState old
      in if s < MaxShared then cas cell old (sameVersion old (s + 1))
         else if s = Marked then cas cell old (sameVersion old 1)
         else (False, cell))"

text \<open>One turn of the loop of \<open>unlockS\<close>, with the word it loaded.\<close>

definition unlockS_turn :: "u64 \<Rightarrow> u64 \<Rightarrow> bool \<times> u64" where
  "unlockS_turn cell old = cas cell old (sameVersion old (getState old - 1))"

definition tryMark :: "u64 \<Rightarrow> u64 \<Rightarrow> bool \<times> u64" where
  "tryMark cell old = cas cell old (sameVersion old Marked)"

section \<open>States and versions\<close>

definition version_of :: "u64 \<Rightarrow> u64" where
  "version_of v = take_bit 56 v"

lemma shift_out: "drop_bit 8 (push_bit 8 v) = version_of v"
  by (rule bit_word_eqI) (auto simp: version_of_def bit_simps)

lemma getState_OR: "s < 256 \<Longrightarrow> getState (version_of v OR push_bit 56 s) = s"
proof -
  assume "s < 256"
  then have "take_bit 8 s = s" by (intro take_bit_word_small) (simp add: word_less_nat_alt)
  moreover have "drop_bit 56 (version_of v) = 0"
    by (rule bit_word_eqI) (simp add: version_of_def bit_simps)
  moreover have "drop_bit 56 (push_bit 56 s) = take_bit 8 s"
    by (rule bit_word_eqI) (auto simp: bit_simps)
  ultimately show ?thesis by (simp add: getState_def)
qed

lemma version_OR: "version_of (version_of v OR push_bit 56 s) = version_of v"
  by (rule bit_word_eqI) (auto simp: version_of_def bit_simps)

lemma sameVersion_state [simp]: "s < 256 \<Longrightarrow> getState (sameVersion v s) = s"
  by (simp add: sameVersion_def shift_out getState_OR)

lemma sameVersion_version [simp]: "version_of (sameVersion v s) = version_of v"
  by (simp add: sameVersion_def shift_out version_OR)

lemma version_of_Suc:
  assumes "unat (version_of v) < 2 ^ 56 - 1"
  shows "version_of (version_of v + 1) = version_of v + 1" "unat (version_of v + 1) = unat (version_of v) + 1"
proof -
  show u: "unat (version_of v + 1) = unat (version_of v) + 1"
    using assms by (simp add: unat_word_ariths)
  show "version_of (version_of v + 1) = version_of v + 1"
    using assms u unfolding version_of_def by (intro take_bit_word_small) simp
qed

lemma nextVersion_state [simp]:
  "s < 256 \<Longrightarrow> unat (version_of v) < 2 ^ 56 - 1 \<Longrightarrow> getState (nextVersion v s) = s"
  using version_of_Suc(1) [of v] getState_OR [of s "version_of v + 1"]
  by (simp add: nextVersion_def shift_out)

lemma nextVersion_version [simp]:
  "unat (version_of v) < 2 ^ 56 - 1 \<Longrightarrow> unat (version_of (nextVersion v s)) = unat (version_of v) + 1"
  using version_of_Suc [of v] version_OR [of "version_of v + 1" s]
  by (simp add: nextVersion_def shift_out)

lemma word_parts_eq: "v = w \<longleftrightarrow> getState v = getState w \<and> version_of v = version_of w"
proof
  assume a: "getState v = getState w \<and> version_of v = version_of w"
  have "bit v n \<longleftrightarrow> bit w n" if "n < 64" for n
  proof (cases "n < 56")
    case True
    then show ?thesis
      using arg_cong [OF a [THEN conjunct2], of "\<lambda>w. bit w n"] by (simp add: version_of_def bit_take_bit_iff)
  next
    case False
    then have "n = 56 + (n - 56)" by simp
    then show ?thesis using a [THEN conjunct1] by (metis bit_drop_bit_eq comp_apply getState_def)
  qed
  then show "v = w" by (intro bit_word_eqI) simp
qed simp

section \<open>The loops\<close>

text \<open>Where a thread is in the code, between two accesses to the word; a word carried along is one that
  was loaded before, or the version of an optimistic guard.\<close>

datatype thread =
    Idle
  | FixX_load | FixX_test u64 | FixX_fault | HoldX
  | FixS_load | FixS_test u64 | FixS_fault | HoldS
  | UnlockS_load | UnlockS_cas u64
  | GuardO_load | GuardO_test u64 | GuardO_fault | HoldO u64
  | Check_load u64 | Check_test u64 u64 | Restart
  | UpX_load u64 | UpX_test u64 u64 | UpS u64
  | GotX
  | Policy_load | Policy_test u64 | Policy_share u64 | Cand bool
  | Evict_load bool | Evict_test bool u64 | Evict_clear bool u64 | Evict_cas bool u64
  | Evict_unlockS bool u64 | Evict_unlockS_cas bool u64 u64 | Evict_last bool u64
  | HoldE | Leaked | Crashed

text \<open>\<open>BufferManager::fixX\<close>; \<open>FixX_fault\<close> is the page fault, served with the latch held, and \<open>GotX\<close> the return to
  the constructor of \<open>GuardX\<close>, which marks the page as dirty.\<close>

fun fixX_turn :: "thread \<Rightarrow> u64 \<Rightarrow> thread \<times> u64" where
  "fixX_turn FixX_load cell = (FixX_test cell, cell)"
| "fixX_turn (FixX_test v) cell =
     (if getState v = Evicted
      then (let (ok, c) = tryLockX cell v in (if ok then FixX_fault else FixX_load, c))
      else if getState v = Marked \<or> getState v = Unlocked
      then (let (ok, c) = tryLockX cell v in (if ok then GotX else FixX_load, c))
      else (FixX_load, cell))"
| "fixX_turn FixX_fault cell = (GotX, cell)"
| "fixX_turn GotX cell = (HoldX, cell)"
| "fixX_turn p cell = (p, cell)"

text \<open>\<open>BufferManager::fixS\<close>.\<close>

fun fixS_turn :: "thread \<Rightarrow> u64 \<Rightarrow> thread \<times> u64" where
  "fixS_turn FixS_load cell = (FixS_test cell, cell)"
| "fixS_turn (FixS_test v) cell =
     (if getState v = Locked then (FixS_load, cell)
      else if getState v = Evicted
      then (let (ok, c) = tryLockX cell v in (if ok then FixS_fault else FixS_load, c))
      else (let (ok, c) = tryLockS cell v in (if ok then HoldS else FixS_load, c)))"
| "fixS_turn FixS_fault cell = (FixS_load, unlockX cell)"
| "fixS_turn p cell = (p, cell)"

text \<open>\<open>PageState::unlockS\<close>.\<close>

fun unlockS_loop :: "thread \<Rightarrow> u64 \<Rightarrow> thread \<times> u64" where
  "unlockS_loop UnlockS_load cell = (UnlockS_cas cell, cell)"
| "unlockS_loop (UnlockS_cas v) cell =
     (let (ok, c) = unlockS_turn cell v in (if ok then Idle else UnlockS_load, c))"
| "unlockS_loop p cell = (p, cell)"

text \<open>\<open>GuardO::init\<close>.\<close>

fun guardO_turn :: "bool \<Rightarrow> thread \<Rightarrow> u64 \<Rightarrow> thread \<times> u64" where
  "guardO_turn strong GuardO_load cell = (GuardO_test cell, cell)"
| "guardO_turn strong (GuardO_test v) cell =
     (if getState v = Marked
      then (let newV = sameVersion v Unlocked; (ok, c) = cas_weak strong cell v newV
            in (if ok then HoldO newV else GuardO_load, c))
      else if getState v = Locked then (GuardO_load, cell)
      else if getState v = Evicted
      then (let (ok, c) = tryLockX cell v in (if ok then GuardO_fault else GuardO_load, c))
      else (HoldO v, cell))"
| "guardO_turn strong GuardO_fault cell = (GuardO_load, unlockX cell)"
| "guardO_turn strong p cell = (p, cell)"

text \<open>\<open>GuardO::checkVersionAndRestart\<close>: the exception is \<open>Restart\<close>.\<close>

fun check_turn :: "bool \<Rightarrow> thread \<Rightarrow> u64 \<Rightarrow> thread \<times> u64" where
  "check_turn strong (Check_load version) cell = (Check_test version cell, cell)"
| "check_turn strong (Check_test version v) cell =
     (if version = v then (HoldO version, cell)
      else if push_bit 8 v = push_bit 8 version
      then (if getState v \<le> MaxShared then (HoldO version, cell)
            else if getState v = Marked
            then (let (ok, c) = cas_weak strong cell v (sameVersion v Unlocked) in (if ok then HoldO version else Restart, c))
            else (Restart, cell))
      else (Restart, cell))"
| "check_turn strong p cell = (p, cell)"

text \<open>The constructors of \<open>GuardX\<close> and \<open>GuardS\<close> from a \<open>GuardO\<close>.\<close>

fun upgrade_turn :: "thread \<Rightarrow> u64 \<Rightarrow> thread \<times> u64" where
  "upgrade_turn (UpX_load version) cell =
     (if push_bit 8 cell \<noteq> push_bit 8 version then (Restart, cell) else (UpX_test version cell, cell))"
| "upgrade_turn (UpX_test version v) cell =
     (if getState v = Unlocked \<or> getState v = Marked
      then (let (ok, c) = tryLockX cell v in (if ok then GotX else UpX_load version, c))
      else (UpX_load version, cell))"
| "upgrade_turn p cell = (p, cell)"

fun upgradeS_turn :: "thread \<Rightarrow> u64 \<Rightarrow> thread \<times> u64" where
  "upgradeS_turn (UpS version) cell =
     (let (ok, c) = tryLockS cell version in (if ok then HoldS else Restart, c))"
| "upgradeS_turn p cell = (p, cell)"

text \<open>The part of \<open>vmcache_evict_policy\<close> for one page, which reads the flag \<open>dirty\<close> of the page. \<open>Cand True\<close> is a
  candidate for which the shared latch was taken.\<close>

fun policy_turn :: "bool \<Rightarrow> thread \<Rightarrow> u64 \<Rightarrow> thread \<times> u64" where
  "policy_turn dirty Policy_load cell = (Policy_test cell, cell)"
| "policy_turn dirty (Policy_test v) cell =
     (if getState v = Marked then (if dirty then Policy_share v else Cand False, cell)
      else if getState v = Unlocked then (let (ok, c) = tryMark cell v in (Idle, c))
      else (Idle, cell))"
| "policy_turn dirty (Policy_share v) cell = (let (ok, c) = tryLockS cell v in (if ok then Cand True else Idle, c))"
| "policy_turn dirty p cell = (p, cell)"

text \<open>\<open>vmcache_canBeEvicted\<close>: the answer, the flag \<open>dirty\<close> and the word, from the flag, the word loaded first
  and the word found by what follows. \<open>unlockS\<close> is taken as one step; a failed exchange loads the word.\<close>

definition vmcache_canBeEvicted :: "bool \<Rightarrow> u64 \<Rightarrow> u64 \<Rightarrow> bool \<times> bool \<times> u64" where
  "vmcache_canBeEvicted dirty v cell =
     (if getState v = Marked then (let (ok, c) = tryLockX cell v in (ok, dirty, c))
      else if dirty
      then (let (ok, c) = (if getState v = 1 then cas cell v (sameVersion v Locked) else (False, cell));
                v = (if getState v = 1 then cell else v)
            in if ok then (True, False, c)
               else (getState v = Locked, False, sameVersion c (getState c - 1)))
      else (getState v = Locked, dirty, cell))"

text \<open>The same as steps of a thread, for a candidate with the shared latch (\<open>True\<close>) or without; the flag \<open>dirty\<close> is
  that of the page when it is read. \<open>Leaked\<close> is a candidate that the answer no leaves with its shared latch, \<open>Crashed\<close> a failed
  \<open>assert_crash\<close>.\<close>

fun evict_turn :: "bool \<Rightarrow> bool \<Rightarrow> thread \<Rightarrow> u64 \<Rightarrow> thread \<times> u64" where
  "evict_turn strong dirty (Evict_load b) cell = (Evict_test b cell, cell)"
| "evict_turn strong dirty (Evict_test b v) cell =
     (if getState v = Marked
      then (let (ok, c) = tryLockX cell v in (if ok then HoldE else if b then Leaked else Idle, c))
      else (if dirty then Evict_clear b v else Evict_last b v, cell))"
| "evict_turn strong dirty (Evict_clear b v) cell = (Evict_cas b v, cell)"
| "evict_turn strong dirty (Evict_cas b v) cell =
     (if getState v = 1
      then (let (ok, c) = cas_weak strong cell v (sameVersion v Locked) in (if ok then HoldE else Evict_unlockS b cell, c))
      else (Evict_unlockS b v, cell))"
| "evict_turn strong dirty (Evict_unlockS b v) cell = (Evict_unlockS_cas b v cell, cell)"
| "evict_turn strong dirty (Evict_unlockS_cas b v old) cell =
     (let (ok, c) = unlockS_turn cell old in (if ok then Evict_last False v else Evict_unlockS b v, c))"
| "evict_turn strong dirty (Evict_last b v) cell =
     (if getState v = Locked then (if dirty then Crashed else HoldE, cell) else (if b then Leaked else Idle, cell))"
| "evict_turn strong dirty p cell = (p, cell)"

section \<open>Interleaving\<close>

text \<open>The word, the flag \<open>dirty\<close> of the page, the threads, the number of exclusive sections ended so far, and whether the cache
  has asked to evict a page for which its candidate holds no latch while the page was dirty or latched exclusively.\<close>

record page_sys =
  lword :: u64
  pdirty :: bool
  th :: "nat \<Rightarrow> thread"
  ended :: nat
  misused :: bool

definition page_start :: page_sys where
  "page_start = \<lparr>lword = ps_init, pdirty = False, th = (\<lambda>_. Idle), ended = 0, misused = False\<rparr>"

text \<open>What the code does next by itself.\<close>

definition turn :: "bool \<Rightarrow> bool \<Rightarrow> thread \<Rightarrow> u64 \<Rightarrow> thread \<times> u64" where
  "turn strong dirty p cell =
     (case p of
        FixX_load \<Rightarrow> fixX_turn p cell | FixX_test _ \<Rightarrow> fixX_turn p cell | FixX_fault \<Rightarrow> fixX_turn p cell
      | GotX \<Rightarrow> fixX_turn p cell
      | FixS_load \<Rightarrow> fixS_turn p cell | FixS_test _ \<Rightarrow> fixS_turn p cell | FixS_fault \<Rightarrow> fixS_turn p cell
      | UnlockS_load \<Rightarrow> unlockS_loop p cell | UnlockS_cas _ \<Rightarrow> unlockS_loop p cell
      | GuardO_load \<Rightarrow> guardO_turn strong p cell | GuardO_test _ \<Rightarrow> guardO_turn strong p cell
      | GuardO_fault \<Rightarrow> guardO_turn strong p cell
      | Check_load _ \<Rightarrow> check_turn strong p cell | Check_test _ _ \<Rightarrow> check_turn strong p cell
      | UpX_load _ \<Rightarrow> upgrade_turn p cell | UpX_test _ _ \<Rightarrow> upgrade_turn p cell | UpS _ \<Rightarrow> upgradeS_turn p cell
      | Policy_load \<Rightarrow> policy_turn dirty p cell | Policy_test _ \<Rightarrow> policy_turn dirty p cell
      | Policy_share _ \<Rightarrow> policy_turn dirty p cell
      | Evict_load _ \<Rightarrow> evict_turn strong dirty p cell | Evict_test _ _ \<Rightarrow> evict_turn strong dirty p cell
      | Evict_clear _ _ \<Rightarrow> evict_turn strong dirty p cell | Evict_cas _ _ \<Rightarrow> evict_turn strong dirty p cell
      | Evict_unlockS _ _ \<Rightarrow> evict_turn strong dirty p cell | Evict_unlockS_cas _ _ _ \<Rightarrow> evict_turn strong dirty p cell
      | Evict_last _ _ \<Rightarrow> evict_turn strong dirty p cell
      | _ \<Rightarrow> (p, cell))"

text \<open>The flag \<open>dirty\<close> after the step: set by the constructors of \<open>GuardX\<close>, cleared by \<open>vmcache_canBeEvicted\<close>; a page that
  is read in brings its own, here \<open>disk\<close>.\<close>

fun dirty_after :: "bool \<Rightarrow> thread \<Rightarrow> bool \<Rightarrow> bool" where
  "dirty_after disk GotX dirty = True"
| "dirty_after disk (Evict_clear _ _) dirty = False"
| "dirty_after disk FixX_fault dirty = disk"
| "dirty_after disk FixS_fault dirty = disk"
| "dirty_after disk GuardO_fault dirty = disk"
| "dirty_after disk _ dirty = dirty"

text \<open>The two questions of the cache that \<open>vmcache_canBeEvicted\<close> answers wrongly.\<close>

fun misuse :: "thread \<Rightarrow> bool \<Rightarrow> bool" where
  "misuse (Evict_test False v) dirty = (getState v \<noteq> Marked \<and> (dirty \<or> getState v = Locked))"
| "misuse _ dirty = False"

text \<open>What the caller of a thread may ask for next, with the word after it: starting an operation,
  releasing, downgrading, checking, upgrading or dropping a guard; the cache asks whether a candidate can
  be evicted or drops it, and calls \<open>vmcache_release_evicted\<close> when the eviction is over.\<close>

fun asks :: "thread \<Rightarrow> u64 \<Rightarrow> (thread \<times> u64) list" where
  "asks Idle c = [(FixX_load, c), (FixS_load, c), (GuardO_load, c), (Policy_load, c)]"
| "asks HoldX c = [(Idle, unlockX c), (HoldS, downgradeLock c)]"
| "asks HoldS c = [(UnlockS_load, c)]"
| "asks (HoldO v) c = [(Check_load v, c), (UpX_load v, c), (UpS v, c), (Idle, c)]"
| "asks Restart c = [(Idle, c)]"
| "asks (Cand b) c = [(Evict_load b, c), (if b then UnlockS_load else Idle, c)]"
| "asks HoldE c = [(Idle, unlockXEvicted c)]"
| "asks p c = []"

text \<open>The threads that own the page exclusively or share it.\<close>

definition excl :: "thread \<Rightarrow> bool" where
  "excl p = (p = FixX_fault \<or> p = GotX \<or> p = HoldX \<or> p = FixS_fault \<or> p = GuardO_fault \<or> p = HoldE)"

fun shared :: "thread \<Rightarrow> bool" where
  "shared HoldS = True"
| "shared UnlockS_load = True"
| "shared (UnlockS_cas _) = True"
| "shared (Cand b) = b"
| "shared (Evict_load b) = b"
| "shared (Evict_test b _) = b"
| "shared (Evict_clear b _) = b"
| "shared (Evict_cas b _) = b"
| "shared (Evict_unlockS b _) = b"
| "shared (Evict_unlockS_cas b _ _) = b"
| "shared (Evict_last b _) = b"
| "shared Leaked = True"
| "shared _ = False"

text \<open>One step of one thread: it goes on by itself, or its caller asks for something.\<close>

definition moved :: "page_sys \<Rightarrow> nat \<Rightarrow> thread \<Rightarrow> u64 \<Rightarrow> bool \<Rightarrow> bool \<Rightarrow> page_sys" where
  "moved s t p c d m = \<lparr>lword = c, pdirty = d, th = (th s)(t := p),
     ended = ended s + (if excl (th s t) \<and> \<not> excl p then 1 else 0), misused = misused s \<or> m\<rparr>"

inductive page_step :: "page_sys \<Rightarrow> page_sys \<Rightarrow> bool" where
  go: "turn strong (pdirty s) (th s t) (lword s) = (p, c) \<Longrightarrow>
       page_step s (moved s t p c (dirty_after disk (th s t) (pdirty s)) (misuse (th s t) (pdirty s)))"
| ask: "(p, c) \<in> set (asks (th s t) (lword s)) \<Longrightarrow> page_step s (moved s t p c (pdirty s) False)"

inductive page_reach :: "page_sys \<Rightarrow> bool" where
  start: "page_reach page_start"
| step: "page_reach s \<Longrightarrow> page_step s s' \<Longrightarrow> page_reach s'"

section \<open>The latch invariant\<close>

text \<open>The word, the exclusive and the sharing threads and the number of sections ended.\<close>

definition latch :: "u64 \<Rightarrow> nat set \<Rightarrow> nat set \<Rightarrow> nat \<Rightarrow> bool" where
  "latch c X S n =
     (unat (version_of c) = n \<and> finite S
      \<and> (if getState c = Locked then (\<exists>t. X = {t}) \<and> S = {}
         else X = {} \<and> card S = (if getState c \<le> MaxShared then unat (getState c) else 0)))"

lemma latch_free: "latch c X S n \<Longrightarrow> getState c \<in> {Unlocked, Marked, Evicted} \<Longrightarrow> X = {} \<and> S = {}"
  by (auto simp: latch_def state_defs)

lemma latch_lock: "latch c X S n \<Longrightarrow> getState c \<in> {Unlocked, Marked, Evicted} \<Longrightarrow> latch (sameVersion c Locked) (insert t X) S n"
  using latch_free [of c X S n] by (auto simp: latch_def state_defs)

lemma latch_state: "latch c X S n \<Longrightarrow> getState c \<in> {Unlocked, Marked, Evicted} \<Longrightarrow> s \<in> {Unlocked, Marked, Evicted} \<Longrightarrow>
    latch (sameVersion c s) X S n"
  by (auto simp: latch_def state_defs)

lemma latch_share:
  "latch c X S n \<Longrightarrow> t \<notin> S \<Longrightarrow> getState c < MaxShared \<Longrightarrow> latch (sameVersion c (getState c + 1)) X (insert t S) n"
  "latch c X S n \<Longrightarrow> getState c = Marked \<Longrightarrow> latch (sameVersion c 1) X (insert t S) n"
proof -
  assume a: "latch c X S n" "t \<notin> S" "getState c < MaxShared"
  have b: "unat (getState c) < 252" using a(3) by (simp add: MaxShared_def word_less_nat_alt)
  then have u: "unat (getState c + 1) = unat (getState c) + 1" by (simp add: unat_word_ariths)
  then have "getState c + 1 \<le> MaxShared" "getState c + 1 \<noteq> Locked" "getState c + 1 < 256" "getState c \<noteq> Locked" "getState c \<le> MaxShared"
    using b by (auto simp: state_defs word_le_nat_alt word_less_nat_alt)
  then show "latch (sameVersion c (getState c + 1)) X (insert t S) n"
    using a(1,2) u by (auto simp: latch_def)
next
  assume "latch c X S n" "getState c = Marked"
  then show "latch (sameVersion c 1) X (insert t S) n" by (auto simp: latch_def state_defs)
qed

lemma latch_unshare:
  assumes "latch c X S n" "t \<in> S"
  shows "latch (sameVersion c (getState c - 1)) X (S - {t}) n" "1 \<le> getState c" "getState c \<le> MaxShared"
proof -
  have c: "card S \<noteq> 0" using assms by (auto simp: latch_def split: if_splits)
  then have s: "getState c \<noteq> Locked" "getState c \<le> MaxShared" "card S = unat (getState c)" "X = {}"
    using assms by (auto simp: latch_def split: if_splits)
  then show "1 \<le> getState c" using c by (simp add: word_le_nat_alt)
  then have u: "unat (getState c - 1) = unat (getState c) - 1" by (simp add: unat_sub)
  have "unat (getState c) \<le> 252" using s(2) by (simp add: MaxShared_def word_le_nat_alt)
  then have "getState c - 1 \<le> MaxShared" "getState c - 1 \<noteq> Locked" "getState c - 1 < 256"
    using u by (auto simp: state_defs word_le_nat_alt word_less_nat_alt)
  then show "latch (sameVersion c (getState c - 1)) X (S - {t}) n"
    using assms s u by (auto simp: latch_def)
  show "getState c \<le> MaxShared" by (rule s)
qed

lemma latch_release:
  assumes "latch c X S n" "t \<in> X" "n < 2 ^ 56 - 1"
  shows "s \<in> {Unlocked, Evicted} \<Longrightarrow> latch (nextVersion c s) (X - {t}) S (n + 1)"
    and "latch (nextVersion c 1) (X - {t}) (insert t S) (n + 1)"
proof -
  have l: "X = {t}" "S = {}" "unat (version_of c) = n" using assms(1,2) by (auto simp: latch_def split: if_splits)
  then show "s \<in> {Unlocked, Evicted} \<Longrightarrow> latch (nextVersion c s) (X - {t}) S (n + 1)"
    using assms(3) by (auto simp: latch_def state_defs)
  show "latch (nextVersion c 1) (X - {t}) (insert t S) (n + 1)"
    using l assms(3) by (auto simp: latch_def state_defs)
qed

lemma latch_upgrade:
  assumes "latch c X S n" "t \<in> S" "getState c = 1"
  shows "latch (sameVersion c Locked) (insert t X) (S - {t}) n"
proof -
  have "card S = 1" using assms(1,3) by (auto simp: latch_def state_defs)
  then have "S = {t}" using assms(2) by (auto simp: card_1_singleton_iff)
  then show ?thesis using assms(1,3) by (auto simp: latch_def state_defs)
qed

section \<open>Every step keeps the latch invariant\<close>

text \<open>What a step of thread \<open>t\<close> from \<open>p\<close> to \<open>p'\<close>, with the word before and after, must do.\<close>

definition sound :: "thread \<Rightarrow> u64 \<Rightarrow> thread \<Rightarrow> u64 \<Rightarrow> bool" where
  "sound p c p' c' = (\<forall>X S n t. latch c X S n \<longrightarrow> (t \<in> X \<longleftrightarrow> excl p) \<longrightarrow> (t \<in> S \<longleftrightarrow> shared p) \<longrightarrow>
     (excl p \<and> \<not> excl p' \<longrightarrow> n < 2 ^ 56 - 1) \<longrightarrow>
     latch c' (if excl p' then insert t X else X - {t}) (if shared p' then insert t S else S - {t})
       (if excl p \<and> \<not> excl p' then n + 1 else n))"

lemma soundI:
  assumes "\<And>X S n t. latch c X S n \<Longrightarrow> (t \<in> X \<longleftrightarrow> excl p) \<Longrightarrow> (t \<in> S \<longleftrightarrow> shared p) \<Longrightarrow>
     (excl p \<and> \<not> excl p' \<Longrightarrow> n < 2 ^ 56 - 1) \<Longrightarrow>
     latch c' (if excl p' then insert t X else X - {t}) (if shared p' then insert t S else S - {t})
       (if excl p \<and> \<not> excl p' then n + 1 else n)"
  shows "sound p c p' c'"
  unfolding sound_def using assms by blast

lemma soundD:
  "sound p c p' c' \<Longrightarrow> latch c X S n \<Longrightarrow> (t \<in> X \<longleftrightarrow> excl p) \<Longrightarrow> (t \<in> S \<longleftrightarrow> shared p) \<Longrightarrow>
   (excl p \<Longrightarrow> \<not> excl p' \<Longrightarrow> n < 2 ^ 56 - 1) \<Longrightarrow>
   latch c' (if excl p' then insert t X else X - {t}) (if shared p' then insert t S else S - {t})
     (if excl p \<and> \<not> excl p' then n + 1 else n)"
  unfolding sound_def by blast

lemma sound_same: "excl p = excl p' \<Longrightarrow> shared p = shared p' \<Longrightarrow> sound p c p' c"
  by (rule soundI) (auto simp: insert_absorb)

lemma sound_lock:
  "\<not> excl p \<Longrightarrow> \<not> shared p \<Longrightarrow> excl p' \<Longrightarrow> \<not> shared p' \<Longrightarrow> getState c = Unlocked \<or> getState c = Marked \<or> getState c = Evicted
   \<Longrightarrow> sound p c p' (sameVersion c Locked)"
  by (rule soundI) (auto intro: latch_lock)

lemma sound_state:
  "\<not> excl p \<Longrightarrow> \<not> shared p \<Longrightarrow> \<not> excl p' \<Longrightarrow> \<not> shared p' \<Longrightarrow> getState c = Unlocked \<or> getState c = Marked \<or> getState c = Evicted
   \<Longrightarrow> s = Unlocked \<or> s = Marked \<or> s = Evicted \<Longrightarrow> sound p c p' (sameVersion c s)"
  by (rule soundI) (auto intro: latch_state)

lemma sound_share:
  "\<not> excl p \<Longrightarrow> \<not> shared p \<Longrightarrow> \<not> excl p' \<Longrightarrow> shared p' \<Longrightarrow> tryLockS c v = (True, c') \<Longrightarrow> sound p c p' c'"
  by (rule soundI) (auto simp: tryLockS_def cas_def Let_def split: if_splits intro: latch_share)

lemma sound_unshare:
  "\<not> excl p \<Longrightarrow> shared p \<Longrightarrow> \<not> excl p' \<Longrightarrow> \<not> shared p' \<Longrightarrow> sound p c p' (sameVersion c (getState c - 1))"
  by (rule soundI) (auto dest: latch_unshare(1))

lemma sound_release:
  "excl p \<Longrightarrow> \<not> shared p \<Longrightarrow> \<not> excl p' \<Longrightarrow> \<not> shared p' \<Longrightarrow> s = Unlocked \<or> s = Evicted \<Longrightarrow>
   sound p c p' (nextVersion c s)"
proof (rule soundI, goal_cases)
  case (1 X S n t)
  then show ?case using latch_release(1) [of c X S n t s] by auto
qed

lemma sound_downgrade:
  "excl p \<Longrightarrow> \<not> shared p \<Longrightarrow> \<not> excl p' \<Longrightarrow> shared p' \<Longrightarrow> sound p c p' (nextVersion c 1)"
proof (rule soundI, goal_cases)
  case (1 X S n t)
  then show ?case using latch_release(2) [of c X S n t] by auto
qed

lemma sound_upgrade:
  "\<not> excl p \<Longrightarrow> shared p \<Longrightarrow> excl p' \<Longrightarrow> \<not> shared p' \<Longrightarrow> getState c = 1 \<Longrightarrow> sound p c p' (sameVersion c Locked)"
  by (rule soundI) (auto intro: latch_upgrade)

lemma tryLockS_fail: "tryLockS c v = (False, c') \<Longrightarrow> c' = c"
  by (auto simp: tryLockS_def cas_def Let_def split: if_splits)

lemmas cas_defs = tryLockX_def tryMark_def unlockS_turn_def cas_weak_def cas_def

lemma shared_simps [simp]:
  "\<not> excl Idle" "excl GotX" "excl HoldX" "excl HoldE" "excl FixX_fault" "excl FixS_fault" "excl GuardO_fault"
  "\<not> excl FixX_load" "\<not> excl (FixX_test v)" "\<not> excl FixS_load" "\<not> excl (FixS_test v)" "\<not> excl HoldS"
  "\<not> excl UnlockS_load" "\<not> excl (UnlockS_cas v)" "\<not> excl GuardO_load" "\<not> excl (GuardO_test v)" "\<not> excl (HoldO v)"
  "\<not> excl (Check_load v)" "\<not> excl (Check_test v w)" "\<not> excl Restart" "\<not> excl (UpX_load v)" "\<not> excl (UpX_test v w)"
  "\<not> excl (UpS v)" "\<not> excl Policy_load" "\<not> excl (Policy_test v)" "\<not> excl (Policy_share v)" "\<not> excl (Cand b)" "\<not> excl (Evict_load b)"
  "\<not> excl (Evict_test b v)" "\<not> excl (Evict_clear b v)" "\<not> excl (Evict_cas b v)" "\<not> excl (Evict_unlockS b v)"
  "\<not> excl (Evict_unlockS_cas b v w)" "\<not> excl (Evict_last b v)" "\<not> excl Leaked" "\<not> excl Crashed"
  by (auto simp: excl_def)

text \<open>What a thread that evicts knows of the word it has loaded, unless the cache has asked a wrong question.\<close>

fun thread_ok :: "thread \<Rightarrow> bool" where
  "thread_ok (Evict_test True v) = (getState v \<noteq> Marked \<and> getState v \<noteq> Locked)"
| "thread_ok (Evict_clear b v) = (b \<and> getState v \<noteq> Locked)"
| "thread_ok (Evict_cas b v) = (b \<and> getState v \<noteq> Locked)"
| "thread_ok (Evict_unlockS b v) = (b \<and> getState v \<noteq> Locked)"
| "thread_ok (Evict_unlockS_cas b v _) = (b \<and> getState v \<noteq> Locked)"
| "thread_ok (Evict_last _ v) = (getState v \<noteq> Locked)"
| "thread_ok _ = True"

lemma turn_sound:
  assumes "turn w d p c = (p', c')" "thread_ok p"
  shows "sound p c p' c'"
proof (cases p)
  case (FixX_test v)
  then show ?thesis using assms(1)
    by (auto simp: turn_def cas_defs Let_def split: if_splits intro!: sound_same sound_lock)
next
  case (FixS_test v)
  then show ?thesis using assms(1)
    by (auto simp: turn_def cas_defs Let_def split: if_splits prod.splits intro!: sound_same sound_lock intro: sound_share dest: tryLockS_fail)
next
  case (UnlockS_cas v)
  then show ?thesis using assms(1)
    by (auto simp: turn_def cas_defs Let_def split: if_splits intro!: sound_same sound_unshare)
next
  case (GuardO_test v)
  then show ?thesis using assms(1)
    by (auto simp: turn_def cas_defs Let_def split: if_splits intro!: sound_same sound_lock intro: sound_state)
next
  case (Check_test w v)
  then show ?thesis using assms(1)
    by (auto simp: turn_def cas_defs Let_def split: if_splits intro!: sound_same intro: sound_state)
next
  case (UpX_test w v)
  then show ?thesis using assms(1)
    by (auto simp: turn_def cas_defs Let_def split: if_splits intro!: sound_same sound_lock)
next
  case (UpS v)
  then show ?thesis using assms(1)
    by (auto simp: turn_def Let_def split: if_splits prod.splits intro!: sound_same intro: sound_share dest: tryLockS_fail)
next
  case (Policy_test v)
  then show ?thesis using assms(1)
    by (auto simp: turn_def cas_defs Let_def split: if_splits prod.splits intro!: sound_same intro: sound_state)
next
  case (Policy_share v)
  then show ?thesis using assms(1)
    by (auto simp: turn_def Let_def split: if_splits prod.splits intro!: sound_same intro: sound_share dest: tryLockS_fail)
next
  case (Evict_test b v)
  then show ?thesis using assms
    by (cases b) (auto simp: turn_def cas_defs Let_def split: if_splits intro!: sound_same intro: sound_lock)
next
  case (Evict_cas b v)
  then show ?thesis using assms
    by (auto simp: turn_def cas_defs Let_def split: if_splits intro!: sound_same intro: sound_upgrade)
next
  case (Evict_unlockS_cas b v old)
  then show ?thesis using assms
    by (auto simp: turn_def cas_defs Let_def split: if_splits intro!: sound_same sound_unshare)
next
  case (Evict_last b v)
  then show ?thesis using assms by (auto simp: turn_def split: if_splits intro!: sound_same)
qed (use assms(1) in \<open>auto simp: turn_def unlockX_def split: if_splits intro!: sound_same sound_release\<close>)

lemma asks_sound: "(p', c') \<in> set (asks p c) \<Longrightarrow> sound p c p' c'"
  by (cases p) (auto simp: unlockX_def unlockXEvicted_def downgradeLock_def split: if_splits
      intro!: sound_same sound_release sound_downgrade)

text \<open>The threads that hold the page.\<close>

definition owners :: "page_sys \<Rightarrow> nat set" where
  "owners s = {t. excl (th s t)}"

definition sharers :: "page_sys \<Rightarrow> nat set" where
  "sharers s = {t. shared (th s t)}"

definition page_inv :: "page_sys \<Rightarrow> bool" where
  "page_inv s = (latch (lword s) (owners s) (sharers s) (ended s) \<and> (\<forall>t. thread_ok (th s t)))"

lemma getState_ps_init: "getState ps_init = Evicted" "version_of ps_init = 0"
  by (simp_all add: ps_init_def Evicted_def) (simp add: version_of_def)

lemma page_inv_start: "page_inv page_start"
  by (simp add: page_inv_def page_start_def latch_def owners_def sharers_def getState_ps_init)
    (simp add: state_defs)

lemma moved_simps [simp]:
  "lword (moved s t p c d m) = c" "pdirty (moved s t p c d m) = d" "th (moved s t p c d m) = (th s)(t := p)"
  "ended (moved s t p c d m) = ended s + (if excl (th s t) \<and> \<not> excl p then 1 else 0)" "misused (moved s t p c d m) = (misused s \<or> m)"
  by (simp_all add: moved_def)

lemma owners_moved: "owners (moved s t p c d m) = (if excl p then insert t (owners s) else owners s - {t})"
  by (auto simp: owners_def)

lemma sharers_moved: "sharers (moved s t p c d m) = (if shared p then insert t (sharers s) else sharers s - {t})"
  by (auto simp: sharers_def)

lemma sound_step:
  assumes "sound (th s t) (lword s) p c" "page_inv s" "thread_ok p" "ended (moved s t p c d m) < 2 ^ 56"
  shows "page_inv (moved s t p c d m)"
proof -
  have l: "latch (lword s) (owners s) (sharers s) (ended s)" using assms(2) by (simp add: page_inv_def)
  have "latch c (if excl p then insert t (owners s) else owners s - {t})
      (if shared p then insert t (sharers s) else sharers s - {t})
      (if excl (th s t) \<and> \<not> excl p then ended s + 1 else ended s)"
    by (rule soundD [OF assms(1) l]) (use assms(4) in \<open>auto simp: owners_def sharers_def\<close>)
  moreover have "ended s + (if excl (th s t) \<and> \<not> excl p then 1 else 0)
      = (if excl (th s t) \<and> \<not> excl p then ended s + 1 else ended s)" by simp
  ultimately show ?thesis
    using assms(2,3) by (simp add: page_inv_def owners_moved sharers_moved)
qed

text \<open>A thread that holds the shared latch does not find the page marked or locked.\<close>

lemma shared_not_marked:
  "page_inv s \<Longrightarrow> shared (th s t) \<Longrightarrow> getState (lword s) \<noteq> Marked \<and> getState (lword s) \<noteq> Locked"
  using latch_unshare(3) [of "lword s" "owners s" "sharers s" "ended s" t]
  by (auto simp: page_inv_def sharers_def state_defs)

lemma turn_thread_ok:
  assumes "turn w d p c = (p', c')" "thread_ok p" "\<not> misuse p d" "shared p \<Longrightarrow> getState c \<noteq> Marked \<and> getState c \<noteq> Locked"
  shows "thread_ok p'"
proof (cases p)
  case (Evict_load b)
  then show ?thesis using assms by (cases b) (auto simp: turn_def)
next
  case (Evict_test b v)
  then show ?thesis using assms by (cases b) (auto simp: turn_def Let_def split: if_splits prod.splits)
qed (use assms in \<open>auto simp: turn_def Let_def split: if_splits prod.splits\<close>)

lemma asks_thread_ok: "(p', c') \<in> set (asks p c) \<Longrightarrow> thread_ok p'"
  by (cases p) (auto split: if_splits)

lemma page_step_inv:
  assumes "page_step s s'" "page_inv s" "ended s' < 2 ^ 56" "\<not> misused s'"
  shows "page_inv s'"
  using assms
proof (cases rule: page_step.cases)
  case (go w t p c disk)
  have ok: "thread_ok (th s t)" using assms(2) by (simp add: page_inv_def)
  have "\<not> misuse (th s t) (pdirty s)" using assms(4) go(1) by simp
  then have "thread_ok p" by (rule turn_thread_ok [OF go(2) ok]) (rule shared_not_marked [OF assms(2)])
  then show ?thesis using assms(2,3) turn_sound [OF go(2) ok] unfolding go(1) by (intro sound_step)
next
  case (ask p c t)
  show ?thesis using assms(2,3) asks_sound [OF ask(2)] asks_thread_ok [OF ask(2)] unfolding ask(1) by (intro sound_step)
qed

lemma page_step_mono: "page_step s s' \<Longrightarrow> ended s \<le> ended s' \<and> (misused s \<longrightarrow> misused s')"
  by (cases rule: page_step.cases) auto

lemma page_reach_inv: "page_reach s \<Longrightarrow> ended s < 2 ^ 56 \<Longrightarrow> \<not> misused s \<Longrightarrow> page_inv s"
proof (induction rule: page_reach.induct)
  case start
  show ?case by (rule page_inv_start)
next
  case (step s s')
  then show ?case using page_step_mono [OF step(2)] page_step_inv [OF step(2)] by fastforce
qed

text \<open>Runs of any length between two states.\<close>

inductive page_run :: "page_sys \<Rightarrow> page_sys \<Rightarrow> bool" where
  refl: "page_run s s"
| more: "page_run s s' \<Longrightarrow> page_step s' s'' \<Longrightarrow> page_run s s''"

lemma page_run_reach: "page_run s s' \<Longrightarrow> page_reach s \<Longrightarrow> page_reach s'"
  by (induction rule: page_run.induct) (auto intro: page_reach.step)

lemma page_run_mono: "page_run s s' \<Longrightarrow> ended s \<le> ended s' \<and> (misused s \<longrightarrow> misused s')"
proof (induction rule: page_run.induct)
  case (more s s' s'')
  then show ?case using page_step_mono [OF more(2)] by auto
qed simp

section \<open>Schedules\<close>

text \<open>A run from a list of actions: thread \<open>t\<close> goes on by itself, where \<open>w\<close> is the flag of a page read in and no weak exchange
  fails without reason, or its caller asks for the \<open>k\<close>-th of the things it may ask for.\<close>

datatype action = Go bool nat | Ask nat nat

fun act :: "action \<Rightarrow> page_sys \<Rightarrow> page_sys" where
  "act (Go w t) s =
     (let (p, c) = turn True (pdirty s) (th s t) (lword s)
      in moved s t p c (dirty_after w (th s t) (pdirty s)) (misuse (th s t) (pdirty s)))"
| "act (Ask k t) s = (let (p, c) = asks (th s t) (lword s) ! k in moved s t p c (pdirty s) False)"

fun act_ok :: "action \<Rightarrow> page_sys \<Rightarrow> bool" where
  "act_ok (Go w t) s = True"
| "act_ok (Ask k t) s = (k < length (asks (th s t) (lword s)))"

fun sched :: "action list \<Rightarrow> page_sys \<Rightarrow> page_sys option" where
  "sched [] s = Some s"
| "sched (a # as) s = (if act_ok a s then sched as (act a s) else None)"

lemma act_step: "act_ok a s \<Longrightarrow> page_step s (act a s)"
proof (cases a)
  case (Go w t)
  obtain p c where r: "turn True (pdirty s) (th s t) (lword s) = (p, c)" by fastforce
  from page_step.go [OF r] show ?thesis unfolding Go act.simps r Let_def prod.case .
next
  case (Ask k t)
  assume ok: "act_ok a s"
  obtain p c where r: "asks (th s t) (lword s) ! k = (p, c)" by fastforce
  then have "(p, c) \<in> set (asks (th s t) (lword s))" using ok Ask by (metis act_ok.simps(2) nth_mem)
  from page_step.ask [OF this] show ?thesis unfolding Ask act.simps r Let_def prod.case .
qed

lemma sched_reach: "sched as s = Some s' \<Longrightarrow> page_reach s \<Longrightarrow> page_reach s'"
  by (induction "as" arbitrary: s) (auto split: if_splits intro: page_reach.step act_step)

lemma sched_run: "sched as s = Some s' \<Longrightarrow> page_run s0 s \<Longrightarrow> page_run s0 s'"
  by (induction "as" arbitrary: s) (auto split: if_splits intro: page_run.more act_step)

text \<open>Thread 0 reads the page in, shares it and releases it: the page is unlocked and clean, at version 1.\<close>

lemma getState_word [simp]:
  "getState 0xff00000000000000 = 255" "getState 0xfd00000000000000 = 253" "getState 1 = 0" "getState 0x100000000000001 = 1"
  "getState 0x200000000000001 = 2" "getState 0xfe00000000000001 = 254" "getState 0xfd00000000000001 = 253"
  by (simp_all add: getState_def)

lemmas run_defs = turn_def cas_defs tryLockS_def Let_def sameVersion_def nextVersion_def state_defs unlockX_def moved_def

definition unlocked_1 :: page_sys where
  "unlocked_1 = \<lparr>lword = 1, pdirty = False, th = (\<lambda>_. Idle), ended = 1, misused = False\<rparr>"

lemma unlocked_1_reach: "page_reach unlocked_1"
proof -
  have "sched [Ask 1 0, Go False 0, Go False 0, Go False 0, Go False 0, Go False 0, Ask 0 0, Go False 0, Go False 0] page_start = Some unlocked_1"
    by (simp add: page_start_def unlocked_1_def run_defs ps_init_def fun_upd_idem_iff)
  then show ?thesis using sched_reach page_reach.start by blast
qed

text \<open>Then threads 1 and 2 share it.\<close>

definition two_readers :: page_sys where
  "two_readers = unlocked_1\<lparr>lword := 0x200000000000001, th := (\<lambda>_. Idle)(1 := HoldS, 2 := HoldS)\<rparr>"

lemma two_readers_reach: "page_reach two_readers"
proof -
  have "sched [Ask 1 1, Go False 1, Go False 1, Ask 1 2, Go False 2, Go False 2] unlocked_1 = Some two_readers"
    by (simp add: two_readers_def unlocked_1_def run_defs fun_upd_twist)
  then show ?thesis using sched_reach unlocked_1_reach by blast
qed

section \<open>Properties\<close>

text \<open>C8. However the loops of \<open>fixX\<close>, \<open>fixS\<close>, the guards and the eviction interleave at one page, until \<open>2 ^ 56\<close> exclusive
  sections have ended or the cache has asked to evict a page that its candidate does not share although it is dirty or latched
  exclusively: at most one thread owns the page exclusively, and then no thread shares it; the state is
  Locked exactly if some thread owns it; at most 252 threads share it, and while the state is a count it
  is their number; the version counts the exclusive sections that ended.\<close>

theorem latch_mutual_exclusion:
  assumes "page_reach s" "ended s < 2 ^ 56" "\<not> misused s"
  shows "card (owners s) \<le> 1 \<and> (owners s = {} \<or> sharers s = {}) \<and> (getState (lword s) = Locked \<longleftrightarrow> owners s \<noteq> {})
    \<and> card (sharers s) \<le> 252 \<and> (sharers s = {} \<or> card (sharers s) = unat (getState (lword s)))
    \<and> unat (version_of (lword s)) = ended s"
proof -
  have l: "latch (lword s) (owners s) (sharers s) (ended s)"
    using page_reach_inv [OF assms] by (simp add: page_inv_def)
  show ?thesis
  proof (cases "getState (lword s) = Locked")
    case True
    then show ?thesis using l by (auto simp: latch_def)
  next
    case False
    have "unat (getState (lword s)) \<le> 252" if "getState (lword s) \<le> MaxShared"
      using that by (simp add: MaxShared_def word_le_nat_alt)
    then show ?thesis using l False by (auto simp: latch_def split: if_splits)
  qed
qed

lemma latch_mutual_exclusion_witness:
  "owners two_readers = {} \<and> card (sharers two_readers) = 2 \<and> unat (version_of (lword two_readers)) = 1"
proof -
  have "1 \<in> sharers two_readers" by (simp add: sharers_def two_readers_def)
  then show ?thesis using latch_mutual_exclusion [OF two_readers_reach]
    by (auto simp: two_readers_def unlocked_1_def state_defs)
qed

text \<open>C20. An optimistic reader whose check succeeds has read a page that nobody changed: if a thread got
  the version \<open>w\<close> of its guard in state \<open>s\<close>, and later, in \<open>s'\<close>, the check of \<open>w\<close> loads a word with which
  it passes, then no exclusive section ended in between and none is open, as long as fewer than \<open>2 ^ 56\<close> sections have ended and
  the cache has not asked to evict a page that its candidate does not share although it is dirty or latched exclusively.\<close>

theorem optimistic_read_valid:
  assumes "page_reach s" "guardO_turn strong (GuardO_test v) (lword s) = (HoldO w, c)" "v = lword s"
    "page_run s s'" "ended s' < 2 ^ 56" "\<not> misused s'" "check_turn strong' (Check_test w (lword s')) (lword s') = (HoldO w, c')"
  shows "ended s' = ended s \<and> owners s = {} \<and> owners s' = {}"
proof -
  have r': "page_reach s'" using assms(1,4) page_run_reach by blast
  have e: "ended s < 2 ^ 56" "\<not> misused s" using page_run_mono [OF assms(4)] assms(5,6) by auto
  note i = page_reach_inv [OF assms(1) e] and i' = page_reach_inv [OF r' assms(5,6)]
  have w: "version_of w = version_of (lword s)" "getState (lword s) \<noteq> Locked" "getState w \<noteq> Locked"
    using assms(2) unfolding assms(3) by (auto simp: cas_defs state_defs Let_def split: if_splits prod.splits)
  have shift: "push_bit 8 a = push_bit 8 b \<Longrightarrow> version_of a = version_of b" for a b :: u64
    unfolding shift_out [symmetric] by simp
  have w': "version_of w = version_of (lword s')" "getState (lword s') \<noteq> Locked"
    using assms(7) w(3) by (auto simp: state_defs dest: shift split: if_splits)
  have "ended s = ended s'"
    using i i' w(1) w'(1) by (simp add: page_inv_def latch_def)
  moreover have "owners s = {}" using i w(2) by (simp add: page_inv_def latch_def)
  moreover have "owners s' = {}" using i' w'(2) by (simp add: page_inv_def latch_def)
  ultimately show ?thesis by simp
qed

lemma optimistic_read_valid_witness:
  "owners two_readers = {} \<and> ended two_readers = ended unlocked_1"
proof -
  have "page_run unlocked_1 two_readers"
    by (rule sched_run [OF _ page_run.refl, of "[Ask 1 1, Go False 1, Go False 1, Ask 1 2, Go False 2, Go False 2]"])
      (simp add: two_readers_def unlocked_1_def run_defs fun_upd_twist)
  then show ?thesis
    using optimistic_read_valid [OF unlocked_1_reach, of True 1 1 1 two_readers True "lword two_readers"]
    by (simp add: two_readers_def unlocked_1_def state_defs)
qed

text \<open>C19. Two flaws of \<open>vmcache_canBeEvicted\<close>. Its last case answers yes for a clean page that another
  thread has just locked, so that the cache and that thread both own the page, and the release after the
  eviction unlocks the latch of the other. And for a page found dirty and unlocked it calls \<open>unlockS\<close> on a
  latch that nobody shares, which turns the state 0 into 255, Evicted, while the page is in memory with
  changes whose flag has just been cleared.\<close>

theorem canBeEvicted_flaws:
  "(\<exists>s. page_reach s \<and> owners s = {1, 2})
   \<and> (\<exists>v c. getState v = Unlocked \<and> vmcache_canBeEvicted True v v = (False, False, c) \<and> getState c = Evicted)"
proof
  let ?s = "unlocked_1\<lparr>lword := 0xfd00000000000001, th := (\<lambda>_. Idle)(1 := HoldE, 2 := GotX), misused := True\<rparr>"
  have "sched [Ask 3 1, Go False 1, Go False 1, Ask 3 1, Go False 1, Go False 1,
      Ask 0 2, Go False 2, Go False 2, Ask 0 1, Go False 1, Go False 1, Go False 1] unlocked_1 = Some ?s"
    by (simp add: unlocked_1_def run_defs fun_upd_twist fun_upd_idem_iff fun_eq_iff)
  then have "page_reach ?s" using sched_reach unlocked_1_reach by blast
  moreover have "owners ?s = {1, 2}" by (auto simp: owners_def)
  ultimately show "\<exists>s. page_reach s \<and> owners s = {1, 2}" by blast
  have "getState 0 = 0" "sameVersion 0 (- 1) = 0xff00000000000000" by (simp_all add: getState_def sameVersion_def mask_eq_exp_minus_1)
  then show "\<exists>v c. getState v = Unlocked \<and> vmcache_canBeEvicted True v v = (False, False, c) \<and> getState c = Evicted"
    by (intro exI [of _ 0] exI [of _ "0xff00000000000000"]) (simp add: vmcache_canBeEvicted_def state_defs)
qed

text \<open>C29. The version wraps into the state: releasing the exclusive latch at version 2^56 - 1 leaves version
  0 and the state 1, a shared latch that nobody holds, so that no thread can lock the page exclusively
  afterwards.\<close>

theorem unlockX_wraps_into_state:
  assumes "unat (version_of v) = 2 ^ 56 - 1"
  shows "getState (unlockX v) = 1 \<and> version_of (unlockX v) = 0"
proof -
  have "version_of v = 0xffffffffffffff" using assms by (simp add: word_unat_eq_iff)
  then have "unlockX v = 0x100000000000000" by (simp add: unlockX_def nextVersion_def shift_out Unlocked_def)
  then show ?thesis by (simp add: getState_def version_of_def)
qed

lemma unlockX_wraps_into_state_witness: "getState (unlockX 0xfdffffffffffffff) = 1"
  using unlockX_wraps_into_state [of "0xfdffffffffffffff"] by (simp add: version_of_def)

end
