(* ===== verification/Rte.thy ===== *)
theory Rte
  imports Prelude
begin

text \<open>
  Copying and comparing bytes with vector instructions: the part of \<open>rte_string.hh\<close> that is compiled with
  the flags of the Makefile (\<open>-mavx2\<close>), \<open>rte_memcpy\<close> and \<open>rte_memcmp\<close>, which the buffer manager and the
  B-tree use for every key and payload. Vectors are lists of their bytes. A pointer is an offset from the
  start of its buffer, and an access outside the buffer is \<open>None\<close>; source and destination do not overlap,
  as the functions demand, and always advance together, so that one offset serves both.
\<close>

section \<open>Memory accesses\<close>

text \<open>Loading and storing \<open>k\<close> bytes at an offset.\<close>

definition load :: "nat \<Rightarrow> u8 list \<Rightarrow> int \<Rightarrow> u8 list option" where
  "load k a i = (if 0 \<le> i \<and> nat i + k \<le> length a then Some (take k (drop (nat i) a)) else None)"

definition store :: "u8 list \<Rightarrow> int \<Rightarrow> u8 list \<Rightarrow> u8 list option" where
  "store a i v =
     (if 0 \<le> i \<and> nat i + length v \<le> length a
      then Some (take (nat i) a @ v @ drop (nat i + length v) a) else None)"

text \<open>A copy of \<open>k\<close> bytes through a register.\<close>

definition mov :: "nat \<Rightarrow> u8 list \<Rightarrow> u8 list \<Rightarrow> int \<Rightarrow> u8 list option" where
  "mov k dst src i = do { x \<leftarrow> load k src i; store dst i x }"

section \<open>Copying\<close>

definition rte_mov16 :: "u8 list \<Rightarrow> u8 list \<Rightarrow> int \<Rightarrow> u8 list option" where
  "rte_mov16 dst src i = mov 16 dst src i"

definition rte_mov32 :: "u8 list \<Rightarrow> u8 list \<Rightarrow> int \<Rightarrow> u8 list option" where
  "rte_mov32 dst src i = mov 32 dst src i"

definition rte_mov64 :: "u8 list \<Rightarrow> u8 list \<Rightarrow> int \<Rightarrow> u8 list option" where
  "rte_mov64 dst src i = do {
     dst \<leftarrow> rte_mov32 dst src (i + 0 * 32);
     rte_mov32 dst src (i + 1 * 32) }"

definition rte_mov128 :: "u8 list \<Rightarrow> u8 list \<Rightarrow> int \<Rightarrow> u8 list option" where
  "rte_mov128 dst src i = do {
     dst \<leftarrow> rte_mov32 dst src (i + 0 * 32);
     dst \<leftarrow> rte_mov32 dst src (i + 1 * 32);
     dst \<leftarrow> rte_mov32 dst src (i + 2 * 32);
     rte_mov32 dst src (i + 3 * 32) }"

fun rte_mov128blocks :: "u8 list \<Rightarrow> u8 list \<Rightarrow> int \<Rightarrow> nat \<Rightarrow> u8 list option" where
  "rte_mov128blocks dst src i n =
     (if n \<ge> 128
      then do {
        ymm0 \<leftarrow> load 32 src (i + 0 * 32);
        ymm1 \<leftarrow> load 32 src (i + 1 * 32);
        ymm2 \<leftarrow> load 32 src (i + 2 * 32);
        ymm3 \<leftarrow> load 32 src (i + 3 * 32);
        dst \<leftarrow> store dst (i + 0 * 32) ymm0;
        dst \<leftarrow> store dst (i + 1 * 32) ymm1;
        dst \<leftarrow> store dst (i + 2 * 32) ymm2;
        dst \<leftarrow> store dst (i + 3 * 32) ymm3;
        rte_mov128blocks dst src (i + 128) (n - 128) }
      else Some dst)"

declare rte_mov128blocks.simps [simp del]

text \<open>Fewer than 16 bytes, by the bits of the length: the same lines in both variants.\<close>

definition copy_below_16 :: "u8 list \<Rightarrow> u8 list \<Rightarrow> nat \<Rightarrow> u8 list option" where
  "copy_below_16 dst src n = do {
     let i = 0;
     (dst, i) \<leftarrow> (if n AND 0x01 \<noteq> 0 then do { d \<leftarrow> mov 1 dst src i; Some (d, i + 1) } else Some (dst, i));
     (dst, i) \<leftarrow> (if n AND 0x02 \<noteq> 0 then do { d \<leftarrow> mov 2 dst src i; Some (d, i + 2) } else Some (dst, i));
     (dst, i) \<leftarrow> (if n AND 0x04 \<noteq> 0 then do { d \<leftarrow> mov 4 dst src i; Some (d, i + 4) } else Some (dst, i));
     (if n AND 0x08 \<noteq> 0 then mov 8 dst src i else Some dst) }"

text \<open>From the label \<open>COPY_BLOCK_128_BACK31\<close> on.\<close>

definition copy_block_128_back31 :: "u8 list \<Rightarrow> u8 list \<Rightarrow> int \<Rightarrow> nat \<Rightarrow> u8 list option" where
  "copy_block_128_back31 dst src i n = do {
     (dst, i, n) \<leftarrow> (if n \<ge> 64 then do { d \<leftarrow> rte_mov64 dst src i; Some (d, i + 64, n - 64) } else Some (dst, i, n));
     (if n > 32 then do { dst \<leftarrow> rte_mov32 dst src i; rte_mov32 dst src (i - 32 + int n) }
      else if n > 0 then rte_mov32 dst src (i - 32 + int n)
      else Some dst) }"

text \<open>The first argument is the address of the destination.\<close>

definition rte_memcpy_generic :: "nat \<Rightarrow> u8 list \<Rightarrow> u8 list \<Rightarrow> nat \<Rightarrow> u8 list option" where
  "rte_memcpy_generic dstu dst src n =
     (if n < 16 then copy_below_16 dst src n
      else if n \<le> 32 then do { dst \<leftarrow> rte_mov16 dst src 0; rte_mov16 dst src (0 - 16 + int n) }
      else if n \<le> 48 then do {
        dst \<leftarrow> rte_mov16 dst src 0;
        dst \<leftarrow> rte_mov16 dst src (0 + 16);
        rte_mov16 dst src (0 - 16 + int n) }
      else if n \<le> 64 then do { dst \<leftarrow> rte_mov32 dst src 0; rte_mov32 dst src (0 - 32 + int n) }
      else if n \<le> 256 then do {
        (dst, i, n) \<leftarrow> (if n \<ge> 128 then do { d \<leftarrow> rte_mov128 dst src 0; Some (d, 128, n - 128) } else Some (dst, 0, n));
        copy_block_128_back31 dst src i n }
      else do {
        let dstofss = dstu AND 0x1F;
        (dst, i, n) \<leftarrow>
          (if dstofss > 0
           then (let dstofss = 32 - dstofss
                 in do { d \<leftarrow> rte_mov32 dst src 0; Some (d, int dstofss, n - dstofss) })
           else Some (dst, 0, n));
        dst \<leftarrow> rte_mov128blocks dst src i n;
        let bits = n;
        let n = n AND 127;
        let bits = bits - n;
        copy_block_128_back31 dst src (i + int bits) n })"

text \<open>The loop over blocks of 64 bytes in \<open>rte_memcpy_aligned\<close>.\<close>

fun copy_64_blocks :: "u8 list \<Rightarrow> u8 list \<Rightarrow> int \<Rightarrow> nat \<Rightarrow> (u8 list \<times> int \<times> nat) option" where
  "copy_64_blocks dst src i n =
     (if n \<ge> 64 then do { dst \<leftarrow> rte_mov64 dst src i; copy_64_blocks dst src (i + 64) (n - 64) }
      else Some (dst, i, n))"

declare copy_64_blocks.simps [simp del]

definition rte_memcpy_aligned :: "u8 list \<Rightarrow> u8 list \<Rightarrow> nat \<Rightarrow> u8 list option" where
  "rte_memcpy_aligned dst src n =
     (if n < 16 then copy_below_16 dst src n
      else if n \<le> 32 then do { dst \<leftarrow> rte_mov16 dst src 0; rte_mov16 dst src (0 - 16 + int n) }
      else if n \<le> 64 then do { dst \<leftarrow> rte_mov32 dst src 0; rte_mov32 dst src (0 - 32 + int n) }
      else do {
        (dst, i, n) \<leftarrow> copy_64_blocks dst src 0 n;
        rte_mov64 dst src (i - 64 + int n) })"

definition rte_memcpy :: "nat \<Rightarrow> nat \<Rightarrow> u8 list \<Rightarrow> u8 list \<Rightarrow> nat \<Rightarrow> u8 list option" where
  "rte_memcpy dstu srcu dst src n =
     (if (dstu OR srcu) AND 0x1F = 0 then rte_memcpy_aligned dst src n else rte_memcpy_generic dstu dst src n)"

section \<open>Comparing\<close>

text \<open>The first different bit of two masks of 32 bits, or -1; the loop counts \<open>i\<close> up from the argument.\<close>

function cmpffd_loop :: "u32 \<Rightarrow> nat \<Rightarrow> int" where
  "cmpffd_loop pos i =
     (if i < 32 then (if pos AND push_bit i 1 \<noteq> 0 then int i else cmpffd_loop pos (i + 1)) else - 1)"
  by pat_completeness auto
termination by (relation "measure (\<lambda>(_, i). 32 - i)") auto

declare cmpffd_loop.simps [simp del]

definition rte_cmpffd :: "u32 \<Rightarrow> u32 \<Rightarrow> int" where
  "rte_cmpffd x y = cmpffd_loop (x XOR y) 0"

text \<open>The first different byte, on the bytes of two words in memory order.\<close>

fun rte_cmpffdb :: "u8 list \<Rightarrow> u8 list \<Rightarrow> nat \<Rightarrow> int" where
  "rte_cmpffdb (x # xs) (y # ys) (Suc n) = (if x \<noteq> y then uint x - uint y else rte_cmpffdb xs ys n)"
| "rte_cmpffdb _ _ _ = 0"

text \<open>The vector instructions: exclusive or, comparison of signed bytes, the mask of the sign bits, the test
  for zero.\<close>

definition vxor :: "u8 list \<Rightarrow> u8 list \<Rightarrow> u8 list" where
  "vxor a b = map2 (XOR) a b"

definition cmpgt_epi8 :: "u8 list \<Rightarrow> u8 list \<Rightarrow> u8 list" where
  "cmpgt_epi8 a b = map2 (\<lambda>x y. if sint x > sint y then 0xff else 0) a b"

definition movemask_epi8 :: "u8 list \<Rightarrow> u32" where
  "movemask_epi8 a = horner_sum of_bool 2 (map (\<lambda>x. bit x 7) a)"

definition testz :: "u8 list \<Rightarrow> bool" where
  "testz a = list_all (\<lambda>x. x = 0) a"

text \<open>The words of 8 bytes extracted from a vector are lists of their bytes too.\<close>

definition rte_cmp16 :: "u8 list \<Rightarrow> u8 list \<Rightarrow> int \<Rightarrow> int option" where
  "rte_cmp16 src_1 src_2 i = do {
     xmm0 \<leftarrow> load 16 src_1 i;
     xmm1 \<leftarrow> load 16 src_2 i;
     let xmm2 = vxor xmm0 xmm1;
     Some (if \<not> testz xmm2
           then
             let mm11 = take 8 xmm0; mm12 = drop 8 xmm0; mm21 = take 8 xmm1; mm22 = drop 8 xmm1
             in if mm11 = mm21 then rte_cmpffdb mm12 mm22 8 else rte_cmpffdb mm11 mm21 8
           else 0) }"

text \<open>Fewer than 16 bytes, by the bits of the length: a word of \<open>k\<close> bytes, and the jump to \<open>exit_k\<close> if it
  differs.\<close>

definition cmp_word :: "nat \<Rightarrow> bool \<Rightarrow> u8 list \<Rightarrow> u8 list \<Rightarrow> int \<Rightarrow> (int \<Rightarrow> int option) \<Rightarrow> int option" where
  "cmp_word k present a b i cont =
     (if present
      then do {
        x \<leftarrow> load k a i;
        y \<leftarrow> load k b i;
        (if x \<noteq> y then Some (rte_cmpffdb x y k) else cont (i + int k)) }
      else cont i)"

definition rte_memcmp_regular :: "u8 list \<Rightarrow> u8 list \<Rightarrow> nat \<Rightarrow> int option" where
  "rte_memcmp_regular a b n =
     cmp_word 8 (n AND 0x08 \<noteq> 0) a b 0 (\<lambda>i.
     cmp_word 4 (n AND 0x04 \<noteq> 0) a b i (\<lambda>i.
     cmp_word 2 (n AND 0x02 \<noteq> 0) a b i (\<lambda>i.
     cmp_word 1 (n AND 0x01 \<noteq> 0) a b i (\<lambda>i. Some 0))))"

text \<open>The two halves of a comparison of \<open>2 * h\<close> bytes with vectors of \<open>h\<close> bytes: \<open>rte_cmp32\<close> and
  \<open>rte_cmp64\<close> have the same lines for the two register sizes.\<close>

definition cmp_halves :: "nat \<Rightarrow> u8 list \<Rightarrow> u8 list \<Rightarrow> int \<Rightarrow> int option" where
  "cmp_halves h src_1 src_2 i = do {
     mm11 \<leftarrow> load h src_1 i;
     mm12 \<leftarrow> load h src_1 (i + int h);
     mm21 \<leftarrow> load h src_2 i;
     mm22 \<leftarrow> load h src_2 (i + int h);
     let mm1 = vxor mm11 mm21;
     let mm2 = vxor mm12 mm22;
     let mm = map2 (OR) mm1 mm2;
     (if \<not> testz mm
      then
        let (mm11, mm21, mm1, s) =
              (if testz mm1 then (mm12, mm22, mm2, i + int h) else (mm11, mm21, mm1, i));
            mm_cmp = vxor mm1 (cmpgt_epi8 mm11 mm21);
            mm_rcmp = vxor mm1 (cmpgt_epi8 mm21 mm11);
            cmp_b = rte_cmpffd (movemask_epi8 mm_cmp) (movemask_epi8 mm_rcmp)
        in if cmp_b = - 1 then Some 0
           else do {
             x \<leftarrow> load 1 src_1 (s + cmp_b);
             y \<leftarrow> load 1 src_2 (s + cmp_b);
             Some (uint (hd x) - uint (hd y)) }
      else Some 0) }"

definition rte_cmp32 :: "u8 list \<Rightarrow> u8 list \<Rightarrow> int \<Rightarrow> int option" where
  "rte_cmp32 src_1 src_2 i = cmp_halves 16 src_1 src_2 i"

definition rte_cmp64 :: "u8 list \<Rightarrow> u8 list \<Rightarrow> int \<Rightarrow> int option" where
  "rte_cmp64 src_1 src_2 i = cmp_halves 32 src_1 src_2 i"

text \<open>A comparison, returned if it found a difference.\<close>

definition or_else :: "int option \<Rightarrow> int option \<Rightarrow> int option" where
  "or_else p q = do { ret \<leftarrow> p; (if ret \<noteq> 0 then Some ret else q) }"

definition rte_cmp48 :: "u8 list \<Rightarrow> u8 list \<Rightarrow> int \<Rightarrow> int option" where
  "rte_cmp48 a b i = or_else (rte_cmp32 a b (i + 0 * 32)) (rte_cmp16 a b (i + 1 * 32))"

definition rte_cmp128 :: "u8 list \<Rightarrow> u8 list \<Rightarrow> int \<Rightarrow> int option" where
  "rte_cmp128 a b i = or_else (rte_cmp64 a b (i + 0 * 64)) (rte_cmp64 a b (i + 1 * 64))"

definition rte_cmp256 :: "u8 list \<Rightarrow> u8 list \<Rightarrow> int \<Rightarrow> int option" where
  "rte_cmp256 a b i =
     or_else (rte_cmp64 a b (i + 0 * 64))
       (or_else (rte_cmp64 a b (i + 1 * 64))
         (or_else (rte_cmp64 a b (i + 2 * 64)) (rte_cmp64 a b (i + 3 * 64))))"

text \<open>From the label \<open>CMP_BLOCK_LESS_THAN_512\<close> on: at most 512 bytes at offset \<open>i\<close>.\<close>

definition cmp_block_32 :: "u8 list \<Rightarrow> u8 list \<Rightarrow> int \<Rightarrow> nat \<Rightarrow> int option" where
  "cmp_block_32 a b i n =
     (if n > 32 then or_else (rte_cmp32 a b i) (rte_cmp32 a b (i - 32 + int n))
      else if n > 0 then rte_cmp32 a b (i - 32 + int n)
      else Some 0)"

definition cmp_block_64 :: "u8 list \<Rightarrow> u8 list \<Rightarrow> int \<Rightarrow> nat \<Rightarrow> int option" where
  "cmp_block_64 a b i n =
     (if n \<ge> 64 then or_else (rte_cmp64 a b i) (cmp_block_32 a b (i + 64) (n - 64)) else cmp_block_32 a b i n)"

definition cmp_block_128 :: "u8 list \<Rightarrow> u8 list \<Rightarrow> int \<Rightarrow> nat \<Rightarrow> int option" where
  "cmp_block_128 a b i n =
     (if n \<ge> 128 then or_else (rte_cmp128 a b i) (cmp_block_64 a b (i + 128) (n - 128)) else cmp_block_64 a b i n)"

definition cmp_block_less_than_512 :: "u8 list \<Rightarrow> u8 list \<Rightarrow> int \<Rightarrow> nat \<Rightarrow> int option" where
  "cmp_block_less_than_512 a b i n =
     (if n \<ge> 256 then or_else (rte_cmp256 a b i) (cmp_block_128 a b (i + 256) (n - 256)) else cmp_block_128 a b i n)"

text \<open>The loop over 512 bytes, and the jump back to the label.\<close>

fun cmp_512_blocks :: "u8 list \<Rightarrow> u8 list \<Rightarrow> int \<Rightarrow> nat \<Rightarrow> int option" where
  "cmp_512_blocks a b i n =
     (if n > 512
      then or_else (rte_cmp256 a b (i + 0 * 256))
             (or_else (rte_cmp256 a b (i + 1 * 256)) (cmp_512_blocks a b (i + 512) (n - 512)))
      else cmp_block_less_than_512 a b i n)"

declare cmp_512_blocks.simps [simp del]

definition rte_memcmp :: "u8 list \<Rightarrow> u8 list \<Rightarrow> nat \<Rightarrow> int option" where
  "rte_memcmp a b n =
     (if n < 16 then rte_memcmp_regular a b n
      else if n \<le> 32 then or_else (rte_cmp16 a b 0) (rte_cmp16 a b (0 - 16 + int n))
      else if n \<le> 48 then or_else (rte_cmp32 a b 0) (rte_cmp16 a b (0 - 16 + int n))
      else if n \<le> 64
      then or_else (rte_cmp32 a b 0) (or_else (rte_cmp16 a b (0 + 32)) (rte_cmp16 a b (0 - 16 + int n)))
      else if n \<le> 96
      then or_else (rte_cmp64 a b 0) (or_else (rte_cmp16 a b (0 + 64)) (rte_cmp16 a b (0 - 16 + int n)))
      else if n \<le> 128
      then or_else (rte_cmp64 a b 0)
             (or_else (rte_cmp32 a b (0 + 64))
               (or_else (rte_cmp16 a b (0 + 96)) (rte_cmp16 a b (0 - 16 + int n))))
      else if n \<le> 512 then cmp_block_less_than_512 a b 0 n
      else cmp_512_blocks a b 0 n)"

section \<open>Copies\<close>

text \<open>The destination with its first \<open>m\<close> bytes copied.\<close>

definition copied :: "u8 list \<Rightarrow> u8 list \<Rightarrow> nat \<Rightarrow> u8 list" where
  "copied src dst m = take m src @ drop m dst"

lemma copied_0: "copied src dst 0 = dst"
  by (simp add: copied_def)

lemma length_copied: "m \<le> length src \<Longrightarrow> m \<le> length dst \<Longrightarrow> length (copied src dst m) = length dst"
  by (simp add: copied_def)

text \<open>A move that starts within the copied part and ends at or after its end extends it.\<close>

lemma store_copied:
  assumes "i = int j" "e = j + k" "j \<le> m" "m \<le> e" "e \<le> length src" "e \<le> length dst" "x = take k (drop j src)"
  shows "store (copied src dst m) i x = Some (copied src dst e)"
proof -
  have x: "length x = k" using assms by simp
  have "take j (copied src dst m) = take j src" using assms by (simp add: copied_def min_def)
  moreover have "drop e (copied src dst m) = drop e dst" using assms by (simp add: copied_def)
  moreover have "take j src @ x = take e src" using assms by (simp add: take_add)
  ultimately have "take j (copied src dst m) @ x @ drop e (copied src dst m) = copied src dst e"
    unfolding copied_def [of src dst e] by (metis append_assoc)
  moreover have "length (copied src dst m) = length dst" using assms by (intro length_copied) simp_all
  ultimately show ?thesis using assms(1,2,6) x by (simp add: store_def)
qed

lemma mov_copied:
  assumes "i = int j" "e = j + k" "j \<le> m" "m \<le> e" "e \<le> length src" "e \<le> length dst"
  shows "mov k (copied src dst m) src i = Some (copied src dst e)"
  using store_copied [OF assms refl] assms by (simp add: mov_def load_def)

lemma mov64_copied:
  assumes "i = int j" "e = j + 64" "j \<le> m" "m \<le> e" "e \<le> length src" "e \<le> length dst"
  shows "rte_mov64 (copied src dst m) src i = Some (copied src dst e)"
proof (cases "m \<le> j + 32")
  case True
  then show ?thesis
    using assms mov_copied [of i j "j + 32" 32 m src dst] mov_copied [of "i + 32" "j + 32" e 32 "j + 32" src dst]
    by (simp add: rte_mov64_def rte_mov32_def)
next
  case False
  text \<open>The first half is written over with the same bytes.\<close>
  have same: "mov 32 (copied src dst m) src i = Some (copied src dst m)"
  proof -
    have "take j (copied src dst m) @ take 32 (drop j src) = take (j + 32) (copied src dst m)"
      using assms False by (simp add: copied_def take_add drop_take min_def)
    then have "take j (copied src dst m) @ take 32 (drop j src) @ drop (j + 32) (copied src dst m) = copied src dst m"
      by (metis append_assoc append_take_drop_id)
    then show ?thesis using assms False length_copied [of m src dst] by (simp add: mov_def load_def store_def)
  qed
  then show ?thesis
    using assms False mov_copied [of "i + 32" "j + 32" e 32 m src dst] by (simp add: rte_mov64_def rte_mov32_def)
qed

lemma mov128_copied:
  assumes "i = int j" "e = j + 128" "e \<le> length src" "e \<le> length dst"
  shows "rte_mov128 (copied src dst j) src i = Some (copied src dst e)"
  using assms mov_copied [of i j "j + 32" 32 j src dst] mov_copied [of "i + 32" "j + 32" "j + 64" 32 "j + 32" src dst]
    mov_copied [of "i + 64" "j + 64" "j + 96" 32 "j + 64" src dst] mov_copied [of "i + 96" "j + 96" e 32 "j + 96" src dst]
  by (simp add: rte_mov128_def rte_mov32_def)

lemma load_at: "i = int j \<Longrightarrow> j + k \<le> length a \<Longrightarrow> load k a i = Some (take k (drop j a))"
  by (simp add: load_def)

lemma mov128blocks_step:
  assumes "i = int j" "j + 128 \<le> length src" "j + 128 \<le> length dst" "j \<le> m" "m \<le> j + 32" "128 \<le> n"
  shows "rte_mov128blocks (copied src dst m) src i n
    = rte_mov128blocks (copied src dst (j + 128)) src (int (j + 128)) (n - 128)"
proof -
  have l: "load 32 src i = Some (take 32 (drop j src))" "load 32 src (i + 32) = Some (take 32 (drop (j + 32) src))"
    "load 32 src (i + 64) = Some (take 32 (drop (j + 64) src))" "load 32 src (i + 96) = Some (take 32 (drop (j + 96) src))"
    using assms by (simp_all add: load_at)
  have s: "store (copied src dst m) i (take 32 (drop j src)) = Some (copied src dst (j + 32))"
    "store (copied src dst (j + 32)) (i + 32) (take 32 (drop (j + 32) src)) = Some (copied src dst (j + 64))"
    "store (copied src dst (j + 64)) (i + 64) (take 32 (drop (j + 64) src)) = Some (copied src dst (j + 96))"
    "store (copied src dst (j + 96)) (i + 96) (take 32 (drop (j + 96) src)) = Some (copied src dst (j + 128))"
    using assms by (intro store_copied [OF _ _ _ _ _ _ refl]; simp)+
  show ?thesis using assms(6) by (subst rte_mov128blocks.simps) (simp add: l s assms(1) [symmetric])
qed

lemma mov128blocks_copied:
  "j + n \<le> length src \<Longrightarrow> j + n \<le> length dst \<Longrightarrow> j \<le> m \<Longrightarrow> m \<le> j + 32 \<Longrightarrow> 32 \<le> n \<or> m = j \<Longrightarrow> n \<ge> 128 \<or> m = j \<Longrightarrow>
   rte_mov128blocks (copied src dst m) src (int j) n = Some (copied src dst (j + (n - n mod 128)))"
proof (induction n arbitrary: j m rule: less_induct)
  case (less n)
  show ?case
  proof (cases "128 \<le> n")
    case True
    then have "rte_mov128blocks (copied src dst m) src (int j) n
        = rte_mov128blocks (copied src dst (j + 128)) src (int (j + 128)) (n - 128)"
      using less.prems by (intro mov128blocks_step) auto
    also have "\<dots> = Some (copied src dst (j + 128 + (n - 128 - (n - 128) mod 128)))"
      using less.prems True by (intro less.IH) auto
    also have "j + 128 + (n - 128 - (n - 128) mod 128) = j + (n - n mod 128)"
    proof -
      have "(n - 128) mod 128 = n mod 128" using True by (simp add: le_mod_geq)
      moreover have "(n - 128) mod 128 \<le> n - 128" by simp
      ultimately show ?thesis using True by linarith
    qed
    finally show ?thesis .
  next
    case False
    then show ?thesis using less.prems by (subst rte_mov128blocks.simps) simp
  qed
qed

lemma copy_64_blocks_copied:
  "j + n \<le> length src \<Longrightarrow> j + n \<le> length dst \<Longrightarrow>
   copy_64_blocks (copied src dst j) src (int j) n
     = Some (copied src dst (j + (n - n mod 64)), int (j + (n - n mod 64)), n mod 64)"
proof (induction n arbitrary: j rule: less_induct)
  case (less n)
  show ?case
  proof (cases "64 \<le> n")
    case True
    then have "copy_64_blocks (copied src dst j) src (int j) n
        = copy_64_blocks (copied src dst (j + 64)) src (int (j + 64)) (n - 64)"
      using less.prems mov64_copied [of "int j" j "j + 64" j src dst] by (subst copy_64_blocks.simps) simp
    also have "\<dots> = Some (copied src dst (j + 64 + (n - 64 - (n - 64) mod 64)),
        int (j + 64 + (n - 64 - (n - 64) mod 64)), (n - 64) mod 64)"
      using less.prems True by (intro less.IH) simp_all
    also have "j + 64 + (n - 64 - (n - 64) mod 64) = j + (n - n mod 64)"
    proof -
      have "(n - 64) mod 64 = n mod 64" using True by (simp add: le_mod_geq)
      moreover have "(n - 64) mod 64 \<le> n - 64" by simp
      ultimately show ?thesis using True by linarith
    qed
    finally show ?thesis using True by (simp add: le_mod_geq)
  next
    case False
    then show ?thesis by (subst copy_64_blocks.simps) simp
  qed
qed

lemma copy_block_copied:
  assumes i: "i = int j" "j \<le> m" "m \<le> j + 32" "32 \<le> j" "n < 128" "j + n \<le> length src" "j + n \<le> length dst" "m \<le> j + n"
  shows "copy_block_128_back31 (copied src dst m) src i n = Some (copied src dst (j + n))"
proof -
  define k where "k = (if 64 \<le> n then j + 64 else j)"
  define r where "r = (if 64 \<le> n then n - 64 else n)"
  define m' where "m' = (if 64 \<le> n then j + 64 else m)"
  have r: "r < 64" "k + r = j + n" "m' \<le> k + 32" "k \<le> m'" "32 \<le> k" "m' \<le> k + r" "k + r \<le> length src" "k + r \<le> length dst"
    using assms by (auto simp: r_def k_def m'_def)
  have head: "copy_block_128_back31 (copied src dst m) src i n =
    (if r > 32 then do { dst \<leftarrow> rte_mov32 (copied src dst m') src (int k); rte_mov32 dst src (int k - 32 + int r) }
     else if r > 0 then rte_mov32 (copied src dst m') src (int k - 32 + int r)
     else Some (copied src dst m'))"
    using assms mov64_copied [of i j "j + 64" m src dst]
    by (simp add: copy_block_128_back31_def k_def r_def m'_def)
  have off: "int k - 32 + int r = int (k + r - 32)" using r(5) by (simp add: of_nat_diff)
  have fin: "mov 32 (copied src dst q) src (int k - 32 + int r) = Some (copied src dst (k + r))"
    if "k + r - 32 \<le> q" "q \<le> k + r" for q
    using that r(5,7,8) by (intro mov_copied [where j = "k + r - 32"]) (use off in simp_all)
  consider "r > 32" | "0 < r" "r \<le> 32" | "r = 0" by linarith
  then show ?thesis
  proof cases
    case 1
    have "mov 32 (copied src dst m') src (int k) = Some (copied src dst (k + 32))"
      using r 1 by (intro mov_copied) auto
    then show ?thesis using 1 head fin [of "k + 32"] r(1,2) by (simp add: rte_mov32_def)
  next
    case 2
    then show ?thesis using head fin [of m'] r by (simp add: rte_mov32_def)
  next
    case 3
    then show ?thesis using head r by simp
  qed
qed

lemma copy_below_16_copied:
  assumes "n < 16" "n \<le> length src" "n \<le> length dst"
  shows "copy_below_16 dst src n = Some (copied src dst n)"
proof -
  define o1 o2 o3 where "o1 = (if n AND 1 \<noteq> 0 then 1 else 0 :: nat)" "o2 = o1 + (if n AND 2 \<noteq> 0 then 2 else 0)"
    "o3 = o2 + (if n AND 4 \<noteq> 0 then 4 else 0)"
  note od = this
  have "list_all (\<lambda>n::nat. (if n AND 1 \<noteq> 0 then 1 else 0) + (if n AND 2 \<noteq> 0 then 2 else 0)
      + (if n AND 4 \<noteq> 0 then 4 else 0) + (if n AND 8 \<noteq> 0 then 8 else 0) = n) [0..<16]" by code_simp
  then have n: "n = o3 + (if n AND 8 \<noteq> 0 then 8 else 0)"
    using assms(1) unfolding od by (auto simp: list_all_iff)
  have step: "mov k (copied src dst j) src (int j) = Some (copied src dst (j + k))" if "j + k \<le> n" for j k
    using that assms by (intro mov_copied) auto
  have le: "o3 \<le> n" "o2 \<le> o3" "o1 \<le> o2" using n od by auto
  have 1: "(if n AND 0x01 \<noteq> 0 then do { d \<leftarrow> mov 1 dst src 0; Some (d, 0 + 1) } else Some (dst, 0))
      = Some (copied src dst o1, int o1)"
    using step [of 0 1] le od(1) by (auto simp: copied_0)
  have 2: "(if n AND 0x02 \<noteq> 0 then do { d \<leftarrow> mov 2 (copied src dst o1) src (int o1); Some (d, int o1 + 2) }
      else Some (copied src dst o1, int o1)) = Some (copied src dst o2, int o2)"
    using step [of o1 2] le od(2) by auto
  have 3: "(if n AND 0x04 \<noteq> 0 then do { d \<leftarrow> mov 4 (copied src dst o2) src (int o2); Some (d, int o2 + 4) }
      else Some (copied src dst o2, int o2)) = Some (copied src dst o3, int o3)"
    using step [of o2 4] le od(3) by auto
  have 4: "(if n AND 0x08 \<noteq> 0 then mov 8 (copied src dst o3) src (int o3) else Some (copied src dst o3))
      = Some (copied src dst n)"
    using step [of o3 8] n by (auto split: if_splits)
  show ?thesis unfolding copy_below_16_def Let_def 1 Option.bind.bind_lunit prod.case 2 3 4 ..
qed

lemma memcpy_aligned_copied:
  assumes "n \<le> length src" "n \<le> length dst"
  shows "rte_memcpy_aligned dst src n = Some (copied src dst n)"
proof -
  have mv: "mov k (copied src dst m) src i = Some (copied src dst n)"
    if "i = int (n - k)" "k \<le> n" "n - k \<le> m" "m \<le> n" for k m i
    using that assms by (intro mov_copied [where j = "n - k"]) auto
  have m0: "mov k dst src 0 = Some (copied src dst k)" if "k \<le> n" for k
    using mov_copied [of 0 0 k k 0 src dst] that assms by (simp add: copied_0)
  consider "n < 16" | "16 \<le> n" "n \<le> 32" | "32 < n" "n \<le> 64" | "64 < n" by linarith
  then show ?thesis
  proof cases
    case 1
    then show ?thesis using assms copy_below_16_copied by (simp add: rte_memcpy_aligned_def)
  next
    case 2
    then show ?thesis using m0 [of 16] mv [of "- 16 + int n" 16 16]
      by (simp add: rte_memcpy_aligned_def rte_mov16_def of_nat_diff)
  next
    case 3
    then show ?thesis using m0 [of 32] mv [of "- 32 + int n" 32 32]
      by (simp add: rte_memcpy_aligned_def rte_mov32_def of_nat_diff)
  next
    case 4
    define q where "q = n - n mod 64"
    have q: "q + n mod 64 = n" "64 \<le> q"
    proof -
      show "q + n mod 64 = n" by (simp add: q_def)
      have "n div 64 \<ge> 1" using 4 by simp
      then show "64 \<le> q" unfolding q_def by (simp add: minus_mod_eq_mult_div)
    qed
    have "rte_mov64 (copied src dst q) src (int q - 64 + int (n mod 64)) = Some (copied src dst n)"
      using q assms by (intro mov64_copied [where j = "n - 64"]) auto
    then show ?thesis
      using 4 copy_64_blocks_copied [of 0 n src dst] assms
      by (simp add: rte_memcpy_aligned_def copied_0 q_def [symmetric])
  qed
qed

lemma memcpy_generic_copied:
  assumes "n \<le> length src" "n \<le> length dst"
  shows "rte_memcpy_generic dstu dst src n = Some (copied src dst n)"
proof -
  have mv: "mov k (copied src dst m) src i = Some (copied src dst n)"
    if "i = int (n - k)" "k \<le> n" "n - k \<le> m" "m \<le> n" for k m i
    using that assms by (intro mov_copied [where j = "n - k"]) auto
  have m0: "mov k dst src 0 = Some (copied src dst k)" if "k \<le> n" for k
    using mov_copied [of 0 0 k k 0 src dst] that assms by (simp add: copied_0)
  consider "n < 16" | "16 \<le> n" "n \<le> 32" | "32 < n" "n \<le> 48" | "48 < n" "n \<le> 64" | "64 < n" "n < 128"
    | "128 \<le> n" "n \<le> 256" | "256 < n" by linarith
  then show ?thesis
  proof cases
    case 1
    then show ?thesis using assms copy_below_16_copied by (simp add: rte_memcpy_generic_def)
  next
    case 2
    then show ?thesis using m0 [of 16] mv [of "- 16 + int n" 16 16]
      by (simp add: rte_memcpy_generic_def rte_mov16_def of_nat_diff)
  next
    case 3
    have "mov 16 (copied src dst 16) src 16 = Some (copied src dst 32)"
      using 3 assms by (intro mov_copied [where j = 16]) auto
    then show ?thesis using 3 m0 [of 16] mv [of "- 16 + int n" 16 32]
      by (simp add: rte_memcpy_generic_def rte_mov16_def of_nat_diff)
  next
    case 4
    then show ?thesis using m0 [of 32] mv [of "- 32 + int n" 32 32]
      by (simp add: rte_memcpy_generic_def rte_mov32_def of_nat_diff)
  next
    case 5
    have a: "rte_mov64 (copied src dst 0) src 0 = Some (copied src dst 64)"
      using 5 assms by (intro mov64_copied [where j = 0]) auto
    have b: "copy_block_128_back31 (copied src dst 64) src 64 (n - 64) = Some (copied src dst (64 + (n - 64)))"
      using 5 assms by (intro copy_block_copied) auto
    have "copy_block_128_back31 dst src 0 n = copy_block_128_back31 (copied src dst 64) src 64 (n - 64)"
      using a 5 by (simp add: copy_block_128_back31_def copied_0)
    then show ?thesis using 5 b by (simp add: rte_memcpy_generic_def)
  next
    case 6
    have a: "rte_mov128 dst src 0 = Some (copied src dst 128)"
      using mov128_copied [of 0 0 128 src dst] 6 assms by (simp add: copied_0)
    show ?thesis
    proof (cases "n = 256")
      case True
      have "rte_mov64 (copied src dst 128) src 128 = Some (copied src dst 192)"
        "mov 32 (copied src dst 192) src 192 = Some (copied src dst 224)"
        "mov 32 (copied src dst 224) src 224 = Some (copied src dst 256)"
        using True assms by (intro mov64_copied [where j = 128] mov_copied [where j = 192] mov_copied [where j = 224]; simp)+
      then show ?thesis using a True
        by (simp add: rte_memcpy_generic_def copy_block_128_back31_def rte_mov32_def)
    next
      case False
      then have "copy_block_128_back31 (copied src dst 128) src 128 (n - 128) = Some (copied src dst (128 + (n - 128)))"
        using 6 assms by (intro copy_block_copied) auto
      then show ?thesis using a 6 by (simp add: rte_memcpy_generic_def)
    qed
  next
    case 7
    define f where "f = (if dstu AND 31 > 0 then 32 - (dstu AND 31) else 0)"
    define m where "m = (if dstu AND 31 > 0 then 32 else 0 :: nat)"
    define n' where "n' = n - f"
    have f: "f \<le> 32" "f \<le> m" "m \<le> 32" "m \<le> f + 32" "f + n' = n" "224 \<le> n'"
      using 7 by (auto simp: f_def m_def n'_def)
    have n128: "n' AND 127 = n' mod 128" using take_bit_eq_mask [of 7 n'] by (simp add: take_bit_eq_mod mask_eq_exp_minus_1)
    have n'm: "n' mod 128 < 128" "n' mod 128 \<le> n'" by simp_all
    define q where "q = f + (n' - n' mod 128)"
    have q: "q + n' mod 128 = n" "32 \<le> q" using f n'm unfolding q_def by linarith+
    have a: "rte_mov128blocks (copied src dst m) src (int f) n' = Some (copied src dst q)"
      using f assms unfolding q_def by (intro mov128blocks_copied) auto
    have b: "copy_block_128_back31 (copied src dst q) src (int q) (n' mod 128) = Some (copied src dst n)"
      using copy_block_copied [of "int q" q q "n' mod 128" src dst] q assms by simp
    have "rte_memcpy_generic dstu dst src n = do {
        d \<leftarrow> rte_mov128blocks (copied src dst m) src (int f) n';
        copy_block_128_back31 d src (int f + int (n' - n' mod 128)) (n' mod 128) }"
      using 7 m0 [of 32] n128
      by (auto simp: rte_memcpy_generic_def f_def m_def n'_def copied_0 rte_mov32_def Let_def)
    moreover have "int f + int (n' - n' mod 128) = int q" by (simp add: q_def)
    ultimately show ?thesis using a b by (simp only: Option.bind.bind_lunit)
  qed
qed

text \<open>C21. \<open>rte_memcpy\<close> copies exactly \<open>n\<close> bytes, whatever the alignment of the two buffers and the path
  taken (single words, overlapping moves, blocks of 64 or 128 bytes, the aligning first move), and touches
  nothing outside the first \<open>n\<close> bytes of the two buffers.\<close>

theorem rte_memcpy_copies:
  assumes "n \<le> length src" "n \<le> length dst"
  shows "rte_memcpy dstu srcu dst src n = Some (take n src @ drop n dst)"
  using memcpy_aligned_copied [OF assms] memcpy_generic_copied [OF assms, of dstu]
  by (simp add: rte_memcpy_def copied_def)

lemma rte_memcpy_copies_witness:
  "rte_memcpy 7 0 (replicate 700 0) (replicate 650 1) 645 = Some (replicate 645 1 @ replicate 55 0)"
  using rte_memcpy_copies [of 645 "replicate 650 1" "replicate 700 0" 7 0] by (simp del: replicate.simps)

section \<open>Comparisons\<close>

text \<open>The difference of the first two different bytes among \<open>k\<close> bytes at position \<open>j\<close>, or 0.\<close>

abbreviation dc :: "u8 list \<Rightarrow> u8 list \<Rightarrow> nat \<Rightarrow> nat \<Rightarrow> int" where
  "dc a b j k \<equiv> rte_cmpffdb (drop j a) (drop j b) k"

lemma cmpffdb_0 [simp]: "rte_cmpffdb a b 0 = 0"
  by (cases a; cases b) auto

lemma cmpffdb_add:
  "k \<le> length a \<Longrightarrow> k \<le> length b \<Longrightarrow>
   rte_cmpffdb a b (k + m) = (if rte_cmpffdb a b k \<noteq> 0 then rte_cmpffdb a b k else rte_cmpffdb (drop k a) (drop k b) m)"
proof (induction k arbitrary: a b)
  case (Suc k)
  then obtain x xs y ys where "a = x # xs" "b = y # ys" by (metis Suc_le_length_iff)
  then show ?case using Suc by (auto simp: word_uint_eq_iff [symmetric])
qed simp

lemma cmpffdb_zero:
  "k \<le> length a \<Longrightarrow> k \<le> length b \<Longrightarrow> rte_cmpffdb a b k = 0 \<longleftrightarrow> take k a = take k b"
proof (induction k arbitrary: a b)
  case (Suc k)
  then obtain x xs y ys where "a = x # xs" "b = y # ys" by (metis Suc_le_length_iff)
  then show ?case using Suc by (auto simp: word_uint_eq_iff [symmetric])
qed simp

lemma cmpffdb_take: "k \<le> length a \<Longrightarrow> k \<le> length b \<Longrightarrow> rte_cmpffdb (take k a) (take k b) k = rte_cmpffdb a b k"
proof (induction k arbitrary: a b)
  case (Suc k)
  then obtain x xs y ys where "a = x # xs" "b = y # ys" by (metis Suc_le_length_iff)
  then show ?case using Suc by auto
qed simp

lemma cmpffdb_nth:
  "i < k \<Longrightarrow> k \<le> length a \<Longrightarrow> k \<le> length b \<Longrightarrow> \<forall>i' < i. a ! i' = b ! i' \<Longrightarrow> a ! i \<noteq> b ! i \<Longrightarrow>
   rte_cmpffdb a b k = uint (a ! i) - uint (b ! i)"
proof (induction k arbitrary: a b i)
  case (Suc k)
  then obtain x xs y ys where l: "a = x # xs" "b = y # ys" by (metis Suc_le_length_iff)
  show ?case
  proof (cases i)
    case 0
    then show ?thesis using Suc.prems l by simp
  next
    case (Suc i')
    have "x = y" using Suc.prems(4) l Suc by force
    moreover have "\<forall>j < i'. xs ! j = ys ! j" using Suc.prems(4) l Suc by force
    ultimately show ?thesis using Suc.IH [of i' xs ys] Suc.prems l Suc by simp
  qed
qed simp

text \<open>Everything before position \<open>m\<close> being equal, \<open>Q\<close> compares the \<open>n\<close> bytes from there.\<close>

definition compares :: "u8 list \<Rightarrow> u8 list \<Rightarrow> nat \<Rightarrow> nat \<Rightarrow> int option \<Rightarrow> bool" where
  "compares a b m n Q = (m + n \<le> length a \<longrightarrow> m + n \<le> length b \<longrightarrow> dc a b 0 m = 0 \<longrightarrow> Q = Some (dc a b m n))"

lemma compares_or_else:
  assumes "compares a b m k P" "compares a b (m + k) (n - k) Q" "k \<le> n"
  shows "compares a b m n (or_else P Q)"
  unfolding compares_def
proof (intro impI)
  assume l: "m + n \<le> length a" "m + n \<le> length b" and z: "dc a b 0 m = 0"
  have p: "P = Some (dc a b m k)" using assms(1,3) l z by (simp add: compares_def)
  have n: "dc a b m n = (if dc a b m k \<noteq> 0 then dc a b m k else dc a b (m + k) (n - k))"
    using cmpffdb_add [of k "drop m a" "drop m b" "n - k"] assms(3) l by (simp add: add.commute)
  have "dc a b 0 (m + k) = (if dc a b 0 m \<noteq> 0 then dc a b 0 m else dc a b m k)"
    using cmpffdb_add [of m a b k] l assms(3) by simp
  then show "or_else P Q = Some (dc a b m n)"
    using assms(2,3) l z n p by (auto simp: compares_def or_else_def)
qed

lemma compares_at:
  assumes "j + k \<le> length a \<Longrightarrow> j + k \<le> length b \<Longrightarrow> Q = Some (dc a b j k)" "j \<le> m" "m \<le> j + k" "n = j + k - m"
  shows "compares a b m n Q"
  unfolding compares_def
proof (intro impI)
  assume l: "m + n \<le> length a" "m + n \<le> length b" and z: "dc a b 0 m = 0"
  then have "take m a = take m b" using cmpffdb_zero [of m a b] by simp
  then have "take (m - j) (drop j a) = take (m - j) (drop j b)" by (metis drop_take)
  then have "dc a b j (m - j) = 0" using cmpffdb_zero [of "m - j" "drop j a" "drop j b"] l assms by simp
  moreover have "k = (m - j) + n" using assms by simp
  ultimately show "Q = Some (dc a b m n)"
    using cmpffdb_add [of "m - j" "drop j a" "drop j b" n] l assms by simp
qed

lemma compares_0: "compares a b m 0 (Some 0)"
  by (simp add: compares_def)

lemma compares_start: "compares a b 0 n Q \<Longrightarrow> n \<le> length a \<Longrightarrow> n \<le> length b \<Longrightarrow> Q = Some (rte_cmpffdb a b n)"
  by (simp add: compares_def)

section \<open>One vector\<close>

lemma length_v [simp]: "length (vxor a b) = min (length a) (length b)" "length (cmpgt_epi8 a b) = min (length a) (length b)"
  by (simp_all add: vxor_def cmpgt_epi8_def)

lemma xor_eq_0_iff: "(x :: u8) XOR y = 0 \<longleftrightarrow> x = y"
  by (auto simp: bit_eq_iff bit_xor_iff)

lemma testz_vxor: "length a = length b \<Longrightarrow> testz (vxor a b) \<longleftrightarrow> a = b"
  by (induction a b rule: list_induct2) (simp_all add: testz_def vxor_def xor_eq_0_iff)

lemma cmpffd_loop_bit:
  "cmpffd_loop pos i = (if i < 32 then (if bit pos i then int i else cmpffd_loop pos (i + 1)) else - 1)"
  by (subst cmpffd_loop.simps) (simp only: bit_iff_and_push_bit_not_eq_0)

lemma cmpffd_loop_found:
  "i + d < 32 \<Longrightarrow> bit pos (i + d) \<Longrightarrow> \<forall>j < d. \<not> bit pos (i + j) \<Longrightarrow> cmpffd_loop pos i = int (i + d)"
proof (induction d arbitrary: i)
  case 0
  then show ?case by (subst cmpffd_loop_bit) simp
next
  case (Suc d)
  have "\<not> bit pos i" using Suc.prems(3) by force
  moreover have "cmpffd_loop pos (i + 1) = int (i + 1 + d)"
    using Suc.prems by (intro Suc.IH) auto
  ultimately show ?case
    using Suc.prems(1) by (subst cmpffd_loop_bit) simp
qed

lemma bit_movemask: "i < length a \<Longrightarrow> length a \<le> 32 \<Longrightarrow> bit (movemask_epi8 a) i \<longleftrightarrow> bit (a ! i) 7"
  by (simp add: movemask_epi8_def bit_horner_sum_bit_word_iff)

lemma cmpffd_first:
  assumes "length a = length b" "length a \<le> 32" "i < length a" "a ! i \<noteq> b ! i" "\<forall>i' < i. a ! i' = b ! i'"
  shows "rte_cmpffd (movemask_epi8 (vxor (vxor a b) (cmpgt_epi8 a b))) (movemask_epi8 (vxor (vxor a b) (cmpgt_epi8 b a))) = int i"
proof -
  have b: "bit (movemask_epi8 (vxor (vxor a b) (cmpgt_epi8 a b)) XOR movemask_epi8 (vxor (vxor a b) (cmpgt_epi8 b a))) k
      \<longleftrightarrow> a ! k \<noteq> b ! k" if "k < length a" for k
  proof -
    have "sint (a ! k) = sint (b ! k) \<longleftrightarrow> a ! k = b ! k" by (rule signed_word_eqI [THEN iffI]) auto
    then show ?thesis
      using that assms(1,2) by (auto simp: bit_movemask bit_xor_iff vxor_def cmpgt_epi8_def)
  qed
  show ?thesis
    unfolding rte_cmpffd_def
    using cmpffd_loop_found [of 0 i] assms b by (simp add: less_trans)
qed

lemma first_diff:
  assumes "length a = length b" "a \<noteq> b"
  obtains i where "i < length a" "a ! i \<noteq> b ! i" "\<forall>i' < i. a ! i' = b ! i'"
proof -
  define P where "P i = (i < length a \<and> a ! i \<noteq> b ! i)" for i
  have "\<exists>i. P i" using assms by (auto simp: P_def list_eq_iff_nth_eq)
  then obtain i where "P i" "\<forall>i' < i. \<not> P i'" using exists_least_iff [of P] by blast
  then show ?thesis by (intro that [of i]) (auto simp: P_def)
qed

lemma cmp16_at:
  assumes "i = int j" "j + 16 \<le> length a" "j + 16 \<le> length b"
  shows "rte_cmp16 a b i = Some (dc a b j 16)"
proof -
  define x y where "x = take 16 (drop j a)" "y = take 16 (drop j b)"
  note xy = this
  have l: "length x = 16" "length y = 16" using assms by (simp_all add: xy)
  have v: "rte_cmpffdb x y 16 = dc a b j 16" using assms by (simp add: xy cmpffdb_take)
  have s: "rte_cmpffdb x y 16 = (if rte_cmpffdb x y 8 \<noteq> 0 then rte_cmpffdb x y 8 else rte_cmpffdb (drop 8 x) (drop 8 y) 8)"
    using cmpffdb_add [of 8 x y 8] l by simp
  have z: "rte_cmpffdb x y 8 = 0 \<longleftrightarrow> take 8 x = take 8 y" "rte_cmpffdb (take 8 x) (take 8 y) 8 = rte_cmpffdb x y 8"
    using l by (simp_all add: cmpffdb_zero cmpffdb_take)
  have "x = y \<Longrightarrow> rte_cmpffdb x y 16 = 0" using l by (simp add: cmpffdb_zero)
  moreover have "load 16 a i = Some x" "load 16 b i = Some y" using assms by (simp_all add: load_at xy)
  ultimately show ?thesis
    using s z l testz_vxor [of x y] by (auto simp: rte_cmp16_def v [symmetric] Let_def)
qed

lemma testz_or: "length a = length b \<Longrightarrow> testz (map2 (OR) a b) \<longleftrightarrow> testz a \<and> testz b"
  by (induction a b rule: list_induct2) (auto simp: testz_def or_eq_0_iff)

text \<open>A comparison of two halves of \<open>h\<close> bytes.\<close>

lemma cmp_half:
  assumes "i = int j" "j + h \<le> length a" "j + h \<le> length b" "h \<le> 32"
    "x = take h (drop j a)" "y = take h (drop j b)" "x \<noteq> y"
  shows "(let mm1 = vxor x y; mm_cmp = vxor mm1 (cmpgt_epi8 x y); mm_rcmp = vxor mm1 (cmpgt_epi8 y x);
            cmp_b = rte_cmpffd (movemask_epi8 mm_cmp) (movemask_epi8 mm_rcmp)
          in if cmp_b = - 1 then Some 0
             else do { x \<leftarrow> load 1 a (i + cmp_b); y \<leftarrow> load 1 b (i + cmp_b); Some (uint (hd x) - uint (hd y)) })
    = Some (dc a b j h)"
proof -
  have l: "length x = h" "length y = h" using assms by simp_all
  obtain k where k: "k < h" "x ! k \<noteq> y ! k" "\<forall>k' < k. x ! k' = y ! k'" using first_diff [of x y] l assms(7) by metis
  have c: "rte_cmpffd (movemask_epi8 (vxor (vxor x y) (cmpgt_epi8 x y))) (movemask_epi8 (vxor (vxor x y) (cmpgt_epi8 y x))) = int k"
    using cmpffd_first [of x y k] l assms(4) k by simp
  have "dc a b j h = uint (drop j a ! k) - uint (drop j b ! k)"
  proof (rule cmpffdb_nth [OF k(1)])
    show "\<forall>k' < k. drop j a ! k' = drop j b ! k'" using k(1,3) unfolding assms(5,6) by simp
    show "drop j a ! k \<noteq> drop j b ! k" using k(1,2) unfolding assms(5,6) by simp
  qed (use assms in simp_all)
  moreover have "load 1 a (i + int k) = Some [drop j a ! k]" "load 1 b (i + int k) = Some [drop j b ! k]"
    using assms k(1) by (simp_all add: load_at [where j = "j + k"] take_Suc_conv_app_nth [of 0] nth_via_drop hd_drop_conv_nth take_Suc)
  ultimately show ?thesis unfolding Let_def c by simp
qed

lemma cmp_halves_at:
  assumes "i = int j" "j + 2 * h \<le> length a" "j + 2 * h \<le> length b" "h \<le> 32"
  shows "cmp_halves h a b i = Some (dc a b j (2 * h))"
proof -
  define x1 y1 x2 y2 where "x1 = take h (drop j a)" "y1 = take h (drop j b)"
    "x2 = take h (drop (j + h) a)" "y2 = take h (drop (j + h) b)"
  note d = this
  have l: "length x1 = h" "length y1 = h" "length x2 = h" "length y2 = h" using assms by (simp_all add: d)
  have ld: "load h a i = Some x1" "load h b i = Some y1" "load h a (i + int h) = Some x2" "load h b (i + int h) = Some y2"
    using assms by (simp_all add: load_at [where j = j] load_at [where j = "j + h"] d)
  have s: "dc a b j (2 * h) = (if dc a b j h \<noteq> 0 then dc a b j h else dc a b (j + h) h)"
    using cmpffdb_add [of h "drop j a" "drop j b" h] assms by (simp add: mult_2 add.commute)
  have z: "dc a b j h = 0 \<longleftrightarrow> x1 = y1" "dc a b (j + h) h = 0 \<longleftrightarrow> x2 = y2"
    using assms by (simp_all add: cmpffdb_zero d)
  have t: "testz (map2 (OR) (vxor x1 y1) (vxor x2 y2)) \<longleftrightarrow> x1 = y1 \<and> x2 = y2" "testz (vxor x1 y1) \<longleftrightarrow> x1 = y1"
    using l by (simp_all add: testz_or testz_vxor)
  have la: "j + h \<le> length a" "j + h + h \<le> length a" and lb: "j + h \<le> length b" "j + h + h \<le> length b"
    and ih: "i + int h = int (j + h)" using assms by simp_all
  consider "x1 \<noteq> y1" | "x1 = y1" "x2 \<noteq> y2" | "x1 = y1" "x2 = y2" by blast
  then show ?thesis
  proof cases
    case 1
    have "cmp_halves h a b i = Some (dc a b j h)"
      using cmp_half [OF assms(1) la(1) lb(1) assms(4) d(1,2) 1] 1 by (simp add: cmp_halves_def ld t)
    then show ?thesis using 1 s z by simp
  next
    case 2
    have t': "\<not> testz (map2 (OR) (vxor x1 y1) (vxor x2 y2))" "testz (vxor x1 y1)" using t 2 by blast+
    have "cmp_halves h a b i = Some (dc a b (j + h) h)"
      using cmp_half [OF ih la(2) lb(2) assms(4) d(3,4) 2(2)] t' by (simp add: cmp_halves_def ld)
    then show ?thesis using 2 s z by simp
  next
    case 3
    then have "testz (map2 (OR) (vxor x1 y1) (vxor x2 y2))" using t by blast
    then have "cmp_halves h a b i = Some 0" by (simp add: cmp_halves_def ld)
    then show ?thesis using 3 s z by simp
  qed
qed

lemma cmp32_at: "i = int j \<Longrightarrow> j + 32 \<le> length a \<Longrightarrow> j + 32 \<le> length b \<Longrightarrow> rte_cmp32 a b i = Some (dc a b j 32)"
  using cmp_halves_at [of i j 16 a b] by (simp add: rte_cmp32_def)

lemma cmp64_at: "i = int j \<Longrightarrow> j + 64 \<le> length a \<Longrightarrow> j + 64 \<le> length b \<Longrightarrow> rte_cmp64 a b i = Some (dc a b j 64)"
  using cmp_halves_at [of i j 32 a b] by (simp add: rte_cmp64_def)

section \<open>The whole comparison\<close>

lemma compares_at_start:
  assumes "\<And>j. j + k \<le> length a \<Longrightarrow> j + k \<le> length b \<Longrightarrow> P (int j) = Some (dc a b j k)"
  shows "compares a b m k (P (int m))"
  by (rule compares_at [of m k]) (simp_all add: assms)

lemmas compares_16 = compares_at [OF cmp16_at]
lemmas compares_32 = compares_at [OF cmp32_at]
lemmas compares_64 = compares_at [OF cmp64_at]

lemma compares_64s:
  "i = int m \<Longrightarrow> compares a b m 128 (rte_cmp128 a b i)"
  "i = int m \<Longrightarrow> compares a b m 256 (rte_cmp256 a b i)"
  unfolding rte_cmp128_def rte_cmp256_def
  by (rule compares_or_else [where k = 64] compares_64 [where j = m] compares_64 [where j = "m + 64"]
      compares_64 [where j = "m + 64 + 64"] compares_64 [where j = "m + 64 + 64 + 64"] | simp)+

lemma compares_block_32:
  "i = int m \<Longrightarrow> 32 \<le> m \<Longrightarrow> n \<le> 64 \<Longrightarrow> compares a b m n (cmp_block_32 a b i n)"
proof -
  assume a: "i = int m" "32 \<le> m" "n \<le> 64"
  have off: "i - 32 + int n = int (m + n - 32)" using a by (simp add: of_nat_diff)
  consider "32 < n" | "0 < n" "n \<le> 32" | "n = 0" by linarith
  then show ?thesis
  proof cases
    case 1
    then have "cmp_block_32 a b i n = or_else (rte_cmp32 a b i) (rte_cmp32 a b (i - 32 + int n))"
      by (simp add: cmp_block_32_def)
    moreover have "compares a b m 32 (rte_cmp32 a b i)" using a(1) by (rule compares_32) simp_all
    moreover have "compares a b (m + 32) (n - 32) (rte_cmp32 a b (i - 32 + int n))"
      using off by (rule compares_32) (use a 1 in simp_all)
    ultimately show ?thesis using 1 by (simp add: compares_or_else)
  next
    case 2
    then have "cmp_block_32 a b i n = rte_cmp32 a b (i - 32 + int n)" by (simp add: cmp_block_32_def)
    moreover have "compares a b m n (rte_cmp32 a b (i - 32 + int n))"
      using off by (rule compares_32) (use a 2 in simp_all)
    ultimately show ?thesis by simp
  next
    case 3
    then show ?thesis by (simp add: cmp_block_32_def compares_0)
  qed
qed

lemma compares_block_64:
  assumes "i = int m" "32 \<le> m \<or> 64 \<le> n" "n \<le> 128"
  shows "compares a b m n (cmp_block_64 a b i n)"
proof (cases "64 \<le> n")
  case True
  have "compares a b m n (or_else (rte_cmp64 a b i) (cmp_block_32 a b (i + 64) (n - 64)))"
    using True assms by (intro compares_or_else [where k = 64] compares_64 [OF assms(1)] compares_block_32) simp_all
  then show ?thesis using True by (simp add: cmp_block_64_def)
next
  case False
  then show ?thesis using assms compares_block_32 [of i m n a b] by (simp add: cmp_block_64_def)
qed

lemma compares_block_128:
  assumes "i = int m" "32 \<le> m \<or> 64 \<le> n" "n \<le> 256"
  shows "compares a b m n (cmp_block_128 a b i n)"
proof (cases "128 \<le> n")
  case True
  have "compares a b m n (or_else (rte_cmp128 a b i) (cmp_block_64 a b (i + 128) (n - 128)))"
    using True assms by (intro compares_or_else [where k = 128] compares_64s [OF assms(1)] compares_block_64) simp_all
  then show ?thesis using True by (simp add: cmp_block_128_def)
next
  case False
  then show ?thesis using assms compares_block_64 [of i m n a b] by (simp add: cmp_block_128_def)
qed

lemma compares_block_512:
  assumes "i = int m" "32 \<le> m \<or> 64 \<le> n" "n \<le> 512"
  shows "compares a b m n (cmp_block_less_than_512 a b i n)"
proof (cases "256 \<le> n")
  case True
  have "compares a b m n (or_else (rte_cmp256 a b i) (cmp_block_128 a b (i + 256) (n - 256)))"
    using True assms by (intro compares_or_else [where k = 256] compares_64s [OF assms(1)] compares_block_128) simp_all
  then show ?thesis using True by (simp add: cmp_block_less_than_512_def)
next
  case False
  then show ?thesis using assms compares_block_128 [of i m n a b] by (simp add: cmp_block_less_than_512_def)
qed

lemma compares_512_blocks:
  "32 \<le> m \<or> 512 < n \<Longrightarrow> compares a b m n (cmp_512_blocks a b (int m) n)"
proof (induction n arbitrary: m rule: less_induct)
  case (less n)
  show ?case
  proof (cases "512 < n")
    case True
    have "compares a b (m + 256 + 256) (n - 256 - 256) (cmp_512_blocks a b (int (m + 256 + 256)) (n - 256 - 256))"
      using True by (intro less.IH) simp_all
    then have "compares a b m n (or_else (rte_cmp256 a b (int m)) (or_else (rte_cmp256 a b (int m + 256))
        (cmp_512_blocks a b (int m + 512) (n - 512))))"
      using True by (intro compares_or_else [where k = 256] compares_64s) (simp_all add: add.commute)
    then show ?thesis using True by (subst cmp_512_blocks.simps) simp
  next
    case False
    then show ?thesis using less.prems by (subst cmp_512_blocks.simps) (simp add: compares_block_512)
  qed
qed

lemma memcmp_regular_compares:
  assumes "n < 16" "n \<le> length a" "n \<le> length b"
  shows "rte_memcmp_regular a b n = Some (rte_cmpffdb a b n)"
proof -
  have w: "compares a b m r (cmp_word k c a b (int m) cont)"
    if c: "c \<Longrightarrow> k \<le> r" "c \<Longrightarrow> compares a b (m + k) (r - k) (cont (int (m + k)))" "\<not> c \<Longrightarrow> compares a b m r (cont (int m))"
    for k c m r cont
  proof (cases c)
    case True
    have "cmp_word k c a b (int m) cont = or_else (Some (dc a b m k)) (cont (int (m + k)))"
      if "m + k \<le> length a" "m + k \<le> length b"
      using that True cmpffdb_zero [of k "drop m a" "drop m b"]
      by (auto simp: cmp_word_def load_at or_else_def cmpffdb_take add.commute)
    moreover have "compares a b m r (or_else (Some (dc a b m k)) (cont (int (m + k))))"
      by (rule compares_or_else [OF compares_at [where j = m]]) (use True c in auto)
    ultimately show ?thesis using True c(1) by (auto simp: compares_def)
  next
    case False
    then show ?thesis using c(3) by (simp add: cmp_word_def)
  qed
  have "list_all (\<lambda>n::nat. (n AND 1 \<noteq> 0 \<longrightarrow> 1 \<le> n mod 2 \<and> n mod 2 - 1 = 0) \<and> (\<not> n AND 1 \<noteq> 0 \<longrightarrow> n mod 2 = 0)
      \<and> (n AND 2 \<noteq> 0 \<longrightarrow> 2 \<le> n mod 4 \<and> n mod 4 - 2 = n mod 2) \<and> (\<not> n AND 2 \<noteq> 0 \<longrightarrow> n mod 4 = n mod 2)
      \<and> (n AND 4 \<noteq> 0 \<longrightarrow> 4 \<le> n mod 8 \<and> n mod 8 - 4 = n mod 4) \<and> (\<not> n AND 4 \<noteq> 0 \<longrightarrow> n mod 8 = n mod 4)
      \<and> (n AND 8 \<noteq> 0 \<longrightarrow> 8 \<le> n \<and> n - 8 = n mod 8) \<and> (\<not> n AND 8 \<noteq> 0 \<longrightarrow> n = n mod 8)) [0..<16]" by code_simp
  moreover have "n \<in> set [0..<16]" using assms(1) by simp
  ultimately have e: "n AND 1 \<noteq> 0 \<Longrightarrow> 1 \<le> n mod 2 \<and> n mod 2 - 1 = 0" "\<not> n AND 1 \<noteq> 0 \<Longrightarrow> n mod 2 = 0"
    "n AND 2 \<noteq> 0 \<Longrightarrow> 2 \<le> n mod 4 \<and> n mod 4 - 2 = n mod 2" "\<not> n AND 2 \<noteq> 0 \<Longrightarrow> n mod 4 = n mod 2"
    "n AND 4 \<noteq> 0 \<Longrightarrow> 4 \<le> n mod 8 \<and> n mod 8 - 4 = n mod 4" "\<not> n AND 4 \<noteq> 0 \<Longrightarrow> n mod 8 = n mod 4"
    "n AND 8 \<noteq> 0 \<Longrightarrow> 8 \<le> n \<and> n - 8 = n mod 8" "\<not> n AND 8 \<noteq> 0 \<Longrightarrow> n = n mod 8"
    unfolding list_all_iff by blast+
  have s1: "compares a b m (n mod 2) (cmp_word 1 (n AND 1 \<noteq> 0) a b (int m) (\<lambda>i. Some 0))" for m
  proof (rule w)
    show "n AND 1 \<noteq> 0 \<Longrightarrow> compares a b (m + 1) (n mod 2 - 1) (Some 0)" using e(1) compares_0 by metis
    show "\<not> n AND 1 \<noteq> 0 \<Longrightarrow> compares a b m (n mod 2) (Some 0)" using e(2) compares_0 by metis
  qed (use e in blast)
  have s2: "compares a b m (n mod 4) (cmp_word 2 (n AND 2 \<noteq> 0) a b (int m) (\<lambda>i. cmp_word 1 (n AND 1 \<noteq> 0) a b i (\<lambda>i. Some 0)))"
    (is "compares a b m _ (cmp_word 2 _ a b (int m) ?k)") for m
  proof (rule w)
    show "n AND 2 \<noteq> 0 \<Longrightarrow> compares a b (m + 2) (n mod 4 - 2) (?k (int (m + 2)))" using e(3) s1 by metis
    show "\<not> n AND 2 \<noteq> 0 \<Longrightarrow> compares a b m (n mod 4) (?k (int m))" using e(4) s1 by metis
  qed (use e in blast)
  have s3: "compares a b m (n mod 8) (cmp_word 4 (n AND 4 \<noteq> 0) a b (int m) (\<lambda>i. cmp_word 2 (n AND 2 \<noteq> 0) a b i
      (\<lambda>i. cmp_word 1 (n AND 1 \<noteq> 0) a b i (\<lambda>i. Some 0))))" (is "compares a b m _ (cmp_word 4 _ a b (int m) ?k)") for m
  proof (rule w)
    show "n AND 4 \<noteq> 0 \<Longrightarrow> compares a b (m + 4) (n mod 8 - 4) (?k (int (m + 4)))" using e(5) s2 by metis
    show "\<not> n AND 4 \<noteq> 0 \<Longrightarrow> compares a b m (n mod 8) (?k (int m))" using e(6) s2 by metis
  qed (use e in blast)
  have "compares a b 0 n (cmp_word 8 (n AND 8 \<noteq> 0) a b (int 0) (\<lambda>i. cmp_word 4 (n AND 4 \<noteq> 0) a b i (\<lambda>i.
      cmp_word 2 (n AND 2 \<noteq> 0) a b i (\<lambda>i. cmp_word 1 (n AND 1 \<noteq> 0) a b i (\<lambda>i. Some 0)))))"
    (is "compares a b 0 n (cmp_word 8 _ a b (int 0) ?k)")
  proof (rule w)
    show "n AND 8 \<noteq> 0 \<Longrightarrow> compares a b (0 + 8) (n - 8) (?k (int (0 + 8)))" using e(7) s3 by metis
    show "\<not> n AND 8 \<noteq> 0 \<Longrightarrow> compares a b 0 n (?k (int 0))" using e(8) s3 by metis
  qed (use e in blast)
  from compares_start [OF this assms(2,3)] show ?thesis
    by (simp add: rte_memcmp_regular_def)
qed

text \<open>How many bytes are compared: for lengths from 65 to 79 and from 97 to 111 the block of 16 bytes after
  the first 64 or 96 reaches beyond the end.\<close>

definition memcmp_span :: "nat \<Rightarrow> nat" where
  "memcmp_span n = (if 64 < n \<and> n < 80 then 80 else if 96 < n \<and> n < 112 then 112 else n)"

text \<open>A second look at bytes that are known to be equal.\<close>

lemma compares_again:
  assumes "j + k \<le> length a \<Longrightarrow> j + k \<le> length b \<Longrightarrow> Q = Some (dc a b j k)" "j + k \<le> m"
  shows "compares a b m 0 Q"
  unfolding compares_def
proof (intro impI)
  assume l: "m + 0 \<le> length a" "m + 0 \<le> length b" and z: "dc a b 0 m = 0"
  then have "take m a = take m b" using cmpffdb_zero [of m a b] by simp
  then have "take k (drop j (take m a)) = take k (drop j (take m b))" by simp
  then have "take k (drop j a) = take k (drop j b)" using assms(2) min.absorb1 [of k "m - j"] by (simp add: drop_take)
  then have "dc a b j k = 0" using cmpffdb_zero [of k "drop j a" "drop j b"] l assms(2) by simp
  then show "Q = Some (dc a b m 0)" using assms l by simp
qed

lemma memcmp_cmpffdb:
  assumes "memcmp_span n \<le> length a" "memcmp_span n \<le> length b"
  shows "rte_memcmp a b n = Some (rte_cmpffdb a b (memcmp_span n))"
proof -
  have off: "0 - 16 + int n = int (n - 16)" if "16 \<le> n" using that by (simp add: of_nat_diff)
  have last: "compares a b m (n - m) (rte_cmp16 a b (0 - 16 + int n))" if "16 \<le> n" "n - 16 \<le> m" "m \<le> n" for m
    using off [OF that(1)] by (rule compares_16) (use that in simp_all)
  have again: "compares a b m 0 (rte_cmp16 a b (0 - 16 + int n))" if "16 \<le> n" "n \<le> m" for m
    by (rule compares_again [OF cmp16_at [OF off [OF that(1)]]]) (use that in simp_all)
  consider "n < 16" | "16 \<le> n" "n \<le> 32" | "32 < n" "n \<le> 48" | "48 < n" "n \<le> 64" | "64 < n" "n \<le> 96"
    | "96 < n" "n \<le> 128" | "128 < n" "n \<le> 512" | "512 < n" by linarith
  then show ?thesis
  proof cases
    case 1
    then show ?thesis using memcmp_regular_compares assms by (simp add: rte_memcmp_def memcmp_span_def)
  next
    case 2
    have "compares a b 0 n (or_else (rte_cmp16 a b 0) (rte_cmp16 a b (0 - 16 + int n)))"
      by (rule compares_or_else [where k = 16], rule compares_16 [where j = 0]) (use 2 last [of 16] in simp_all)
    from compares_start [OF this] show ?thesis using assms 2 by (simp add: rte_memcmp_def memcmp_span_def)
  next
    case 3
    have "compares a b 0 n (or_else (rte_cmp32 a b 0) (rte_cmp16 a b (0 - 16 + int n)))"
      by (rule compares_or_else [where k = 32], rule compares_32 [where j = 0]) (use 3 last [of 32] in simp_all)
    from compares_start [OF this] show ?thesis using assms 3 by (simp add: rte_memcmp_def memcmp_span_def)
  next
    case 4
    have t32: "compares a b 32 (n - 32) (or_else (rte_cmp16 a b (0 + 32)) (rte_cmp16 a b (0 - 16 + int n)))"
      by (rule compares_or_else [where k = 16], rule compares_16 [where j = 32]) (use 4 last [of 48] in simp_all)
    have "compares a b 0 n (or_else (rte_cmp32 a b 0) (or_else (rte_cmp16 a b (0 + 32)) (rte_cmp16 a b (0 - 16 + int n))))"
      by (rule compares_or_else [where k = 32], rule compares_32 [where j = 0]) (use 4 t32 in simp_all)
    from compares_start [OF this] show ?thesis using assms 4 by (simp add: rte_memcmp_def memcmp_span_def)
  next
    case 5
    define e where "e = (if n < 80 then 80 else n)"
    have e: "memcmp_span n = e" "64 < e" "80 \<le> e" using 5 by (simp_all add: memcmp_span_def e_def)
    have t0: "compares a b 80 (e - 80) (rte_cmp16 a b (0 - 16 + int n))"
      using 5 last [of 80] again [of 80] by (auto simp: e_def)
    have t: "compares a b 64 (e - 64) (or_else (rte_cmp16 a b (0 + 64)) (rte_cmp16 a b (0 - 16 + int n)))"
      by (rule compares_or_else [where k = 16], rule compares_16 [where j = 64]) (use e t0 in simp_all)
    have "compares a b 0 e (or_else (rte_cmp64 a b 0) (or_else (rte_cmp16 a b (0 + 64)) (rte_cmp16 a b (0 - 16 + int n))))"
      by (rule compares_or_else [where k = 64], rule compares_64 [where j = 0]) (use e t in simp_all)
    from compares_start [OF this] show ?thesis using assms 5 e by (simp add: rte_memcmp_def)
  next
    case 6
    define e where "e = (if n < 112 then 112 else n)"
    have e: "memcmp_span n = e" "112 \<le> e" using 6 by (simp_all add: memcmp_span_def e_def)
    have t0: "compares a b 112 (e - 112) (rte_cmp16 a b (0 - 16 + int n))"
      using 6 last [of 112] again [of 112] by (auto simp: e_def)
    have t: "compares a b 96 (e - 96) (or_else (rte_cmp16 a b (0 + 96)) (rte_cmp16 a b (0 - 16 + int n)))"
      by (rule compares_or_else [where k = 16], rule compares_16 [where j = 96]) (use e t0 in simp_all)
    have t64: "compares a b 64 (e - 64) (or_else (rte_cmp32 a b (0 + 64))
        (or_else (rte_cmp16 a b (0 + 96)) (rte_cmp16 a b (0 - 16 + int n))))"
      by (rule compares_or_else [where k = 32], rule compares_32 [where j = 64]) (use e t in simp_all)
    have "compares a b 0 e (or_else (rte_cmp64 a b 0) (or_else (rte_cmp32 a b (0 + 64))
        (or_else (rte_cmp16 a b (0 + 96)) (rte_cmp16 a b (0 - 16 + int n)))))"
      by (rule compares_or_else [where k = 64], rule compares_64 [where j = 0]) (use e t64 in simp_all)
    from compares_start [OF this] show ?thesis using assms 6 e by (simp add: rte_memcmp_def)
  next
    case 7
    then have "compares a b 0 n (cmp_block_less_than_512 a b 0 n)" by (intro compares_block_512) simp_all
    from compares_start [OF this] show ?thesis using assms 7 by (simp add: rte_memcmp_def memcmp_span_def)
  next
    case 8
    then have "compares a b 0 n (cmp_512_blocks a b (int 0) n)" by (intro compares_512_blocks) simp
    from compares_start [OF this] show ?thesis using assms 8 by (simp add: rte_memcmp_def memcmp_span_def)
  qed
qed

text \<open>The order of byte strings that the comparison decides: lexicographic, a prefix first.\<close>

fun bytes_less :: "u8 list \<Rightarrow> u8 list \<Rightarrow> bool" where
  "bytes_less [] ys = (ys \<noteq> [])"
| "bytes_less (x # xs) [] = False"
| "bytes_less (x # xs) (y # ys) = (x < y \<or> x = y \<and> bytes_less xs ys)"

lemma cmpffdb_less:
  "length a = length b \<Longrightarrow> rte_cmpffdb a b (length a) < 0 \<longleftrightarrow> bytes_less a b"
  by (induction a b rule: list_induct2) (auto simp: word_less_def)

lemma cmpffdb_greater:
  "length a = length b \<Longrightarrow> 0 < rte_cmpffdb a b (length a) \<longleftrightarrow> bytes_less b a"
  by (induction a b rule: list_induct2) (auto simp: word_less_def)

text \<open>C22. \<open>rte_memcmp\<close> compares the first \<open>n\<close> bytes of two buffers, for any \<open>n\<close> but 65 to 79 and 97 to 111,
  without reading a byte beyond them: the result is negative, zero or positive exactly if those of the
  first are lexicographically less than, equal to or greater than those of the second as unsigned bytes,
  although the vector instructions compare signed bytes and blocks overlap.\<close>

theorem rte_memcmp_orders:
  assumes "n \<le> length a" "n \<le> length b" "\<not> (64 < n \<and> n < 80)" "\<not> (96 < n \<and> n < 112)"
  shows "\<exists>r. rte_memcmp a b n = Some r \<and> (r < 0 \<longleftrightarrow> bytes_less (take n a) (take n b))
    \<and> (r = 0 \<longleftrightarrow> take n a = take n b) \<and> (0 < r \<longleftrightarrow> bytes_less (take n b) (take n a))"
proof -
  have s: "memcmp_span n = n" using assms(3,4) by (auto simp: memcmp_span_def)
  have l: "length (take n a) = length (take n b)" "length (take n a) = n" using assms by simp_all
  have "rte_cmpffdb (take n a) (take n b) n = rte_cmpffdb a b n" using assms(1,2) by (rule cmpffdb_take)
  then show ?thesis
    using memcmp_cmpffdb [of n a b] s assms(1,2) cmpffdb_less [OF l(1)] cmpffdb_greater [OF l(1)]
      cmpffdb_zero [OF assms(1,2)] l(2) by simp
qed

lemma rte_memcmp_orders_witness:
  "\<exists>r. rte_memcmp (replicate 700 7 @ [200]) (replicate 700 7 @ [5]) 701 = Some r \<and> 0 < r"
proof -
  have "take 701 (replicate 700 7 @ [200 :: u8]) = replicate 700 7 @ [200]"
    "take 701 (replicate 700 7 @ [5 :: u8]) = replicate 700 7 @ [5]" by (simp_all del: replicate.simps)
  moreover have "bytes_less (replicate n 7 @ [5]) (replicate n 7 @ [200])" for n by (induction n) simp_all
  ultimately show ?thesis
    using rte_memcmp_orders [of 701 "replicate 700 7 @ [200]" "replicate 700 7 @ [5]"] by (auto simp del: replicate.simps)
qed

text \<open>C23. For lengths from 65 to 79 and from 97 to 111 \<open>rte_memcmp\<close> compares 80 and 112 bytes: strings whose
  first \<open>n\<close> bytes are equal compare as different if the bytes that follow them in memory differ.\<close>

theorem rte_memcmp_overrun:
  assumes "64 < n \<and> n < 80 \<and> m = 80 \<or> 96 < n \<and> n < 112 \<and> m = 112" "m \<le> length a" "m \<le> length b"
    "take m a \<noteq> take m b"
  shows "\<exists>r. rte_memcmp a b n = Some r \<and> r \<noteq> 0"
proof -
  have "memcmp_span n = m" using assms(1) by (auto simp: memcmp_span_def)
  then show ?thesis using memcmp_cmpffdb [of n a b] cmpffdb_zero [OF assms(2,3)] assms by simp
qed

lemma rte_memcmp_overrun_witness:
  "\<exists>r. rte_memcmp (replicate 65 7 @ replicate 15 1) (replicate 65 7 @ replicate 15 2) 65 = Some r \<and> r \<noteq> 0"
  using rte_memcmp_overrun [of 65 80 "replicate 65 7 @ replicate 15 1" "replicate 65 7 @ replicate 15 2"]
  by (simp del: replicate.simps)

end
