(* ===== verification/BTreeNode.thy ===== *)
theory BTreeNode
  imports Rte
begin

text \<open>
  The nodes of the B-tree of \<open>integrated_vmcache.cpp\<close>: slotted pages of 4096 bytes with a header, an array
  of slots that grows from the front and a heap of keys and payloads that grows from the back, the two
  fences with the prefix that all keys of the node share, and the hint, 16 key heads for the search.

  The array of slots and the heap overlap in a union; here they are two lists, and the invariant keeps the
  slots in use below the first byte of the heap in use (\<open>dataOffset\<close>). Numbers of type \<open>u16\<close> and \<open>unsigned\<close>
  are naturals with their wrap-around written out. Memory that a constructor leaves uninitialised has the
  contents of an arbitrary node. \<open>None\<close> is a read or write outside the page, the slots or a key.
\<close>

section \<open>Data\<close>

definition pageSize :: nat where "pageSize = 4096"

definition add16 :: "nat \<Rightarrow> nat \<Rightarrow> nat" where "add16 a b = (a + b) mod 65536"
definition sub16 :: "nat \<Rightarrow> nat \<Rightarrow> nat" where "sub16 a b = (a + (65536 - b mod 65536)) mod 65536"
definition sub32 :: "nat \<Rightarrow> nat \<Rightarrow> nat" where "sub32 a b = (a + (4294967296 - b mod 4294967296)) mod 4294967296"

record fence =
  f_offset :: nat
  f_len :: nat

record slot =
  offset :: nat
  keyLen :: nat
  payloadLen :: nat
  slot_head :: nat

text \<open>\<open>nextLeafNode\<close> shares its place with \<open>upperInnerNode\<close>.\<close>

record btree_node =
  dirty :: bool
  upperInnerNode :: nat
  lowerFence :: fence
  upperFence :: fence
  count :: nat
  isLeaf :: bool
  spaceUsed :: nat
  dataOffset :: nat
  prefixLen :: nat
  hint :: "nat list"
  slots :: "slot list"
  heap :: "u8 list"

definition underFullSize :: nat where "underFullSize = pageSize div 2 + pageSize div 4"
definition noNeighbour :: nat where "noNeighbour = 2 ^ 64 - 1"
definition hintCount :: nat where "hintCount = 16"

text \<open>Sizes of the header and of a slot, and how many slots there is room for.\<close>

definition headerSize :: nat where "headerSize = 104"
definition slotSize :: nat where "slotSize = 10"
definition slotCount :: nat where "slotCount = (pageSize - headerSize) div slotSize"
definition maxKVSize :: nat where "maxKVSize = (pageSize - headerSize - 2 * slotSize) div 4"

lemma node_consts [simp]:
  "pageSize = 4096" "underFullSize = 3072" "noNeighbour = 18446744073709551615" "hintCount = 16"
  "headerSize = 104" "slotSize = 10" "slotCount = 399" "maxKVSize = 993"
  by (simp_all add: pageSize_def underFullSize_def noNeighbour_def hintCount_def headerSize_def slotSize_def
      slotCount_def maxKVSize_def)

definition hasRightNeighbour :: "btree_node \<Rightarrow> bool" where
  "hasRightNeighbour n = (upperInnerNode n \<noteq> noNeighbour)"

definition hasLowerFence :: "btree_node \<Rightarrow> bool" where
  "hasLowerFence n = (f_len (lowerFence n) \<noteq> 0)"

text \<open>The constructor on uninitialised memory.\<close>

definition btree_new :: "btree_node \<Rightarrow> bool \<Rightarrow> btree_node" where
  "btree_new uninit leaf =
     uninit\<lparr>dirty := True, upperInnerNode := noNeighbour, lowerFence := \<lparr>f_offset = 0, f_len = 0\<rparr>,
       upperFence := \<lparr>f_offset = 0, f_len = 0\<rparr>, count := 0, isLeaf := leaf, spaceUsed := 0,
       dataOffset := pageSize, prefixLen := 0\<rparr>"

section \<open>Bytes\<close>

definition custom_memcmp :: "u8 list \<Rightarrow> u8 list \<Rightarrow> nat \<Rightarrow> int option" where
  "custom_memcmp ptr1 ptr2 num = rte_memcmp ptr1 ptr2 num"

text \<open>Copying to a position of a page. Pages are aligned, so that the position stands for the address of
  the destination; that of the source is taken as 0.\<close>

definition custom_memcpy :: "u8 list \<Rightarrow> nat \<Rightarrow> u8 list \<Rightarrow> nat \<Rightarrow> u8 list option" where
  "custom_memcpy page dest src cnt =
     (if dest \<le> length page
      then (case rte_memcpy dest 0 (drop dest page) src cnt of
              None \<Rightarrow> None
            | Some d \<Rightarrow> Some (take dest page @ d))
      else None)"

text \<open>Loading a number and swapping its bytes reads it with the most significant byte first.\<close>

definition big_endian :: "u8 list \<Rightarrow> nat" where
  "big_endian bs = foldl (\<lambda>a b. a * 256 + unat b) 0 bs"

definition little_endian :: "u8 list \<Rightarrow> nat" where
  "little_endian bs = big_endian (rev bs)"

text \<open>The 8 bytes of a page number in memory.\<close>

definition pid_bytes :: "nat \<Rightarrow> u8 list" where
  "pid_bytes pid = map (\<lambda>k. of_nat (pid div 256 ^ k)) [0..<8]"

definition head :: "u8 list \<Rightarrow> nat" where
  "head key =
     (case key of
        [] \<Rightarrow> 0
      | [a] \<Rightarrow> unat a * 2 ^ 24
      | [a, b] \<Rightarrow> big_endian [a, b] * 2 ^ 16
      | [a, b, c] \<Rightarrow> big_endian [a, b] * 2 ^ 16 + unat c * 2 ^ 8
      | a # b # c # d # _ \<Rightarrow> big_endian [a, b, c, d])"

text \<open>A span of the page.\<close>

definition span :: "btree_node \<Rightarrow> nat \<Rightarrow> nat \<Rightarrow> u8 list option" where
  "span n off len = (if off + len \<le> length (heap n) then Some (take len (drop off (heap n))) else None)"

definition getLowerFence :: "btree_node \<Rightarrow> u8 list option" where
  "getLowerFence n = span n (f_offset (lowerFence n)) (f_len (lowerFence n))"

definition getUpperFence :: "btree_node \<Rightarrow> u8 list option" where
  "getUpperFence n = span n (f_offset (upperFence n)) (f_len (upperFence n))"

text \<open>A pointer into the page is the list of the bytes from there.\<close>

definition getPrefix :: "btree_node \<Rightarrow> u8 list" where
  "getPrefix n = drop (f_offset (lowerFence n)) (heap n)"

definition getKey :: "btree_node \<Rightarrow> nat \<Rightarrow> u8 list" where
  "getKey n slotId = drop (offset (slots n ! slotId)) (heap n)"

definition getPayload :: "btree_node \<Rightarrow> nat \<Rightarrow> u8 list option" where
  "getPayload n slotId =
     (let s = slots n ! slotId in span n (offset s + keyLen s) (payloadLen s))"

definition getChild :: "btree_node \<Rightarrow> nat \<Rightarrow> nat option" where
  "getChild n slotId =
     (let s = slots n ! slotId in map_option little_endian (span n (offset s + keyLen s) 8))"

section \<open>Space\<close>

definition slotEnd :: "nat \<Rightarrow> nat" where
  "slotEnd cnt = headerSize + slotSize * cnt"

definition freeSpace :: "btree_node \<Rightarrow> nat" where
  "freeSpace n = sub32 (dataOffset n) (slotEnd (count n))"

definition freeSpaceAfterCompaction :: "btree_node \<Rightarrow> nat" where
  "freeSpaceAfterCompaction n = sub32 (sub32 pageSize (slotEnd (count n))) (spaceUsed n)"

definition spaceNeeded :: "btree_node \<Rightarrow> nat \<Rightarrow> nat \<Rightarrow> nat" where
  "spaceNeeded n klen plen = (slotSize + sub32 klen (prefixLen n) + plen) mod 4294967296"

definition hasSpaceFor :: "btree_node \<Rightarrow> nat \<Rightarrow> nat \<Rightarrow> bool" where
  "hasSpaceFor n klen plen = (spaceNeeded n klen plen \<le> freeSpaceAfterCompaction n)"

section \<open>The hint\<close>

definition makeHint :: "btree_node \<Rightarrow> btree_node" where
  "makeHint n =
     (let dist = count n div (hintCount + 1)
      in n\<lparr>hint := map (\<lambda>i. slot_head (slots n ! (dist * (i + 1)))) [0..<hintCount]\<rparr>)"

definition updateHint :: "btree_node \<Rightarrow> nat \<Rightarrow> btree_node" where
  "updateHint n slotId =
     (let dist = count n div (hintCount + 1);
          begin = (if count n > hintCount * 2 + 1 \<and> (count n - 1) div (hintCount + 1) = dist \<and> slotId div dist > 1
                   then slotId div dist - 1 else 0)
      in n\<lparr>hint := map (\<lambda>i. if begin \<le> i then slot_head (slots n ! (dist * (i + 1))) else hint n ! i) [0..<hintCount]\<rparr>)"

text \<open>The first position from \<open>pos\<close> on whose hint satisfies the condition, or \<open>hintCount\<close>.\<close>

function hint_pos :: "(nat \<Rightarrow> bool) \<Rightarrow> nat list \<Rightarrow> nat \<Rightarrow> nat" where
  "hint_pos stop h pos = (if pos < hintCount \<and> \<not> stop (h ! pos) then hint_pos stop h (pos + 1) else pos)"
  by pat_completeness auto
termination by (relation "measure (\<lambda>(_, _, pos). hintCount - pos)") auto

declare hint_pos.simps [simp del]

definition searchHint :: "btree_node \<Rightarrow> nat \<Rightarrow> nat \<Rightarrow> nat \<Rightarrow> nat \<times> nat" where
  "searchHint n keyHead lowerOut upperOut =
     (if count n > hintCount * 2
      then
        let dist = upperOut div (hintCount + 1);
            pos = hint_pos (\<lambda>h. h \<ge> keyHead) (hint n) 0;
            pos2 = hint_pos (\<lambda>h. h \<noteq> keyHead) (hint n) pos
        in (pos * dist, if pos2 < hintCount then (pos2 + 1) * dist else upperOut)
      else (lowerOut, upperOut))"

section \<open>Searching\<close>

text \<open>The binary search between \<open>lower\<close> and \<open>upper\<close> for what follows the prefix.\<close>

function bin_search :: "btree_node \<Rightarrow> u8 list \<Rightarrow> nat \<Rightarrow> nat \<Rightarrow> (nat \<times> bool) option" where
  "bin_search n key lower upper =
     (if lower < upper
      then
        let mid = (upper - lower) div 2 + lower; s = slots n ! mid
        in if head key < slot_head s then bin_search n key lower mid
           else if head key > slot_head s then bin_search n key (mid + 1) upper
           else
             (case custom_memcmp key (getKey n mid) (min (length key) (keyLen s)) of
                None \<Rightarrow> None
              | Some cmp \<Rightarrow>
                  if cmp < 0 then bin_search n key lower mid
                  else if cmp > 0 then bin_search n key (mid + 1) upper
                  else if length key < keyLen s then bin_search n key lower mid
                  else if length key > keyLen s then bin_search n key (mid + 1) upper
                  else Some (mid, True))
      else Some (lower, False))"
  by pat_completeness auto
termination by (relation "measure (\<lambda>(_, _, lower, upper). upper - lower)") auto

declare bin_search.simps [simp del]

definition lowerBound :: "btree_node \<Rightarrow> u8 list \<Rightarrow> (nat \<times> bool) option" where
  "lowerBound n skey =
     (case custom_memcmp skey (getPrefix n) (min (length skey) (prefixLen n)) of
        None \<Rightarrow> None
      | Some cmp \<Rightarrow>
          if cmp < 0 then Some (0, False)
          else if cmp > 0 then Some (count n, False)
          else if length skey < prefixLen n then Some (0, False)
          else
            let key = drop (prefixLen n) skey;
                (lower, upper) = searchHint n (head key) 0 (count n)
            in bin_search n key lower upper)"

definition lookupInner :: "btree_node \<Rightarrow> u8 list \<Rightarrow> nat option" where
  "lookupInner n key = do {
     (pos, found) \<leftarrow> lowerBound n key;
     (if pos = count n then Some (upperInnerNode n) else getChild n pos) }"

section \<open>Storing and copying\<close>

definition memmove_slots :: "slot list \<Rightarrow> nat \<Rightarrow> nat \<Rightarrow> nat \<Rightarrow> slot list option" where
  "memmove_slots xs dst src cnt =
     (if dst + cnt \<le> length xs \<and> src + cnt \<le> length xs
      then Some (take dst xs @ take cnt (drop src xs) @ drop (dst + cnt) xs) else None)"

definition set_slot :: "btree_node \<Rightarrow> nat \<Rightarrow> slot \<Rightarrow> btree_node option" where
  "set_slot n i s = (if i < length (slots n) then Some (n\<lparr>slots := (slots n)[i := s]\<rparr>) else None)"

definition storeKeyValue :: "btree_node \<Rightarrow> nat \<Rightarrow> u8 list \<Rightarrow> u8 list \<Rightarrow> btree_node option" where
  "storeKeyValue n slotId skey payload =
     (if length skey < prefixLen n then None
      else do {
        let key = drop (prefixLen n) skey;
        let klen = length skey - prefixLen n;
        let space = klen + length payload;
        let off = sub16 (dataOffset n) space;
        n \<leftarrow> set_slot n slotId \<lparr>offset = off, keyLen = klen mod 65536, payloadLen = length payload mod 65536,
                               slot_head = head key\<rparr>;
        h \<leftarrow> custom_memcpy (heap n) off key klen;
        h \<leftarrow> custom_memcpy h (off + klen mod 65536) payload (length payload);
        Some (n\<lparr>dataOffset := off, spaceUsed := add16 (spaceUsed n) space, heap := h\<rparr>) })"

text \<open>One turn of the loop in \<open>copyKeyValueRange\<close> when the prefix grows by \<open>diff\<close>.\<close>

definition copy_shortened :: "btree_node \<Rightarrow> nat \<Rightarrow> btree_node \<Rightarrow> nat \<Rightarrow> nat \<Rightarrow> btree_node option" where
  "copy_shortened src diff dst dstSlot srcSlot = do {
     let s = slots src ! srcSlot;
     let newKeyLen = sub32 (keyLen s) diff;
     let space = (newKeyLen + payloadLen s) mod 4294967296;
     let off = sub16 (dataOffset dst) space;
     let key = drop diff (getKey src srcSlot);
     h \<leftarrow> custom_memcpy (heap dst) off key space;
     dst \<leftarrow> set_slot dst dstSlot \<lparr>offset = off, keyLen = newKeyLen mod 65536, payloadLen = payloadLen s,
                                  slot_head = head (take newKeyLen key)\<rparr>;
     Some (dst\<lparr>dataOffset := off, spaceUsed := add16 (spaceUsed dst) space, heap := h\<rparr>) }"

definition copyKeyValue :: "btree_node \<Rightarrow> btree_node \<Rightarrow> nat \<Rightarrow> nat \<Rightarrow> btree_node option" where
  "copyKeyValue src dst dstSlot srcSlot = do {
     let s = slots src ! srcSlot;
     p \<leftarrow> load (prefixLen src) (getPrefix src) 0;
     k \<leftarrow> load (keyLen s) (getKey src srcSlot) 0;
     v \<leftarrow> getPayload src srcSlot;
     storeKeyValue dst dstSlot (p @ k) v }"

fun copy_loop :: "(btree_node \<Rightarrow> nat \<Rightarrow> nat \<Rightarrow> btree_node option) \<Rightarrow> btree_node \<Rightarrow> nat \<Rightarrow> nat \<Rightarrow> nat \<Rightarrow> btree_node option" where
  "copy_loop f dst dstSlot srcSlot 0 = Some dst"
| "copy_loop f dst dstSlot srcSlot (Suc k) =
     (case f dst dstSlot srcSlot of
        None \<Rightarrow> None
      | Some dst' \<Rightarrow> copy_loop f dst' (dstSlot + 1) (srcSlot + 1) k)"

definition copyKeyValueRange :: "btree_node \<Rightarrow> btree_node \<Rightarrow> nat \<Rightarrow> nat \<Rightarrow> nat \<Rightarrow> btree_node option" where
  "copyKeyValueRange src dst dstSlot srcSlot srcCount = do {
     d \<leftarrow> (if prefixLen src \<le> prefixLen dst
           then copy_loop (copy_shortened src (prefixLen dst - prefixLen src)) dst dstSlot srcSlot srcCount
           else copy_loop (copyKeyValue src) dst dstSlot srcSlot srcCount);
     Some (d\<lparr>count := add16 (count d) srcCount\<rparr>) }"

text \<open>The fence and the node after it.\<close>

definition insertFence :: "btree_node \<Rightarrow> u8 list \<Rightarrow> (fence \<times> btree_node) option" where
  "insertFence n key = do {
     let off = sub16 (dataOffset n) (length key);
     h \<leftarrow> custom_memcpy (heap n) off key (length key);
     Some (\<lparr>f_offset = off, f_len = length key mod 65536\<rparr>,
           n\<lparr>dataOffset := off, spaceUsed := add16 (spaceUsed n) (length key), heap := h\<rparr>) }"

fun common_len :: "u8 list \<Rightarrow> u8 list \<Rightarrow> nat" where
  "common_len (a # as) (b # bs) = (if a = b then Suc (common_len as bs) else 0)"
| "common_len _ _ = 0"

definition setFences :: "btree_node \<Rightarrow> u8 list \<Rightarrow> u8 list \<Rightarrow> btree_node option" where
  "setFences n lower upper = do {
     (f, n) \<leftarrow> insertFence n lower;
     let n = n\<lparr>lowerFence := f\<rparr>;
     (f, n) \<leftarrow> insertFence n upper;
     Some (n\<lparr>upperFence := f, prefixLen := common_len lower upper\<rparr>) }"

definition copyNode :: "btree_node \<Rightarrow> btree_node \<Rightarrow> btree_node" where
  "copyNode dst src = src\<lparr>dirty := dirty dst\<rparr>"

section \<open>Changing a node\<close>

definition compactify :: "btree_node \<Rightarrow> btree_node \<Rightarrow> btree_node option" where
  "compactify uninit n = do {
     lf \<leftarrow> getLowerFence n;
     uf \<leftarrow> getUpperFence n;
     tmp \<leftarrow> setFences (btree_new uninit (isLeaf n)) lf uf;
     tmp \<leftarrow> copyKeyValueRange n tmp 0 0 (count n);
     let tmp = tmp\<lparr>upperInnerNode := upperInnerNode n\<rparr>;
     Some (makeHint (copyNode n tmp)) }"

definition insertInPage :: "btree_node \<Rightarrow> btree_node \<Rightarrow> u8 list \<Rightarrow> u8 list \<Rightarrow> btree_node option" where
  "insertInPage uninit n key payload = do {
     let needed = spaceNeeded n (length key) (length payload);
     n \<leftarrow> (if needed > freeSpace n then compactify uninit n else Some n);
     (slotId, found) \<leftarrow> lowerBound n key;
     sl \<leftarrow> memmove_slots (slots n) (slotId + 1) slotId (count n - slotId);
     n \<leftarrow> storeKeyValue (n\<lparr>slots := sl\<rparr>) slotId key payload;
     Some (updateHint (n\<lparr>count := add16 (count n) 1\<rparr>) slotId) }"

definition removeSlot :: "btree_node \<Rightarrow> nat \<Rightarrow> btree_node option" where
  "removeSlot n slotId = do {
     let s = slots n ! slotId;
     sl \<leftarrow> memmove_slots (slots n) slotId (slotId + 1) (count n - slotId - 1);
     Some (makeHint (n\<lparr>spaceUsed := sub16 (sub16 (spaceUsed n) (keyLen s)) (payloadLen s), slots := sl,
                       count := sub16 (count n) 1\<rparr>)) }"

definition removeInPage :: "btree_node \<Rightarrow> u8 list \<Rightarrow> (bool \<times> btree_node) option" where
  "removeInPage n key = do {
     (slotId, found) \<leftarrow> lowerBound n key;
     (if \<not> found then Some (False, n)
      else do { n \<leftarrow> removeSlot n slotId; Some (True, n) }) }"

text \<open>Overwriting the page number in a payload.\<close>

definition setChild :: "btree_node \<Rightarrow> nat \<Rightarrow> nat \<Rightarrow> btree_node option" where
  "setChild n slotId pid = do {
     let s = slots n ! slotId;
     h \<leftarrow> custom_memcpy (heap n) (offset s + keyLen s) (pid_bytes pid) 8;
     Some (n\<lparr>heap := h\<rparr>) }"

text \<open>Whether the nodes were merged, this node and the parent. The page number of this node is \<open>pid\<close>.\<close>

definition mergeNodes ::
    "btree_node \<Rightarrow> btree_node \<Rightarrow> nat \<Rightarrow> btree_node \<Rightarrow> btree_node \<Rightarrow> nat \<Rightarrow> (bool \<times> btree_node \<times> btree_node) option" where
  "mergeNodes uninit n slotId parent right pid =
     (if \<not> isLeaf n then Some (True, n, parent)
      else do {
        lf \<leftarrow> getLowerFence n;
        uf \<leftarrow> getUpperFence right;
        tmp \<leftarrow> setFences (btree_new uninit (isLeaf n)) lf uf;
        let leftGrow = sub32 (prefixLen n) (prefixLen tmp) * count n mod 4294967296;
        let rightGrow = sub32 (prefixLen right) (prefixLen tmp) * count right mod 4294967296;
        let spaceUpperBound = (spaceUsed n + spaceUsed right + slotEnd (count n + count right) + leftGrow + rightGrow)
              mod 4294967296;
        (if spaceUpperBound > pageSize then Some (False, n, parent)
         else do {
           tmp \<leftarrow> copyKeyValueRange n tmp 0 0 (count n);
           tmp \<leftarrow> copyKeyValueRange right tmp (count n) 0 (count right);
           parent \<leftarrow> setChild parent (slotId + 1) pid;
           parent \<leftarrow> removeSlot parent slotId;
           let tmp = (makeHint tmp)\<lparr>upperInnerNode := upperInnerNode right\<rparr>;
           Some (True, copyNode n tmp, parent) }) })"

text \<open>The node (now the left half), the new right node and the parent. \<open>newPid\<close> is the page allocated for the
  right node.\<close>

definition splitNode ::
    "btree_node \<Rightarrow> btree_node \<Rightarrow> btree_node \<Rightarrow> btree_node \<Rightarrow> btree_node \<Rightarrow> nat \<Rightarrow> u8 list \<Rightarrow> nat \<Rightarrow> nat
      \<Rightarrow> (btree_node \<times> btree_node \<times> btree_node) option" where
  "splitNode uninit newPage tmpPage n parent sepSlot sep leftPID newPid = do {
     lf \<leftarrow> getLowerFence n;
     uf \<leftarrow> getUpperFence n;
     nodeLeft \<leftarrow> setFences (btree_new uninit (isLeaf n)) lf sep;
     nodeRight \<leftarrow> setFences (btree_new newPage (isLeaf n)) sep uf;
     (oldParentSlot, found) \<leftarrow> lowerBound parent sep;
     parent \<leftarrow> (if oldParentSlot = count parent then Some (parent\<lparr>upperInnerNode := newPid\<rparr>)
                else setChild parent oldParentSlot newPid);
     parent \<leftarrow> insertInPage tmpPage parent sep (pid_bytes leftPID);
     (nodeLeft, nodeRight) \<leftarrow>
       (if isLeaf n
        then do {
          nodeLeft \<leftarrow> copyKeyValueRange n nodeLeft 0 0 (sepSlot + 1);
          nodeRight \<leftarrow> copyKeyValueRange n nodeRight 0 (count nodeLeft) (count n - count nodeLeft);
          Some (nodeLeft\<lparr>upperInnerNode := newPid\<rparr>, nodeRight\<lparr>upperInnerNode := upperInnerNode n\<rparr>) }
        else do {
          nodeLeft \<leftarrow> copyKeyValueRange n nodeLeft 0 0 sepSlot;
          nodeRight \<leftarrow> copyKeyValueRange n nodeRight 0 (count nodeLeft + 1) (count n - count nodeLeft - 1);
          c \<leftarrow> getChild n (count nodeLeft);
          Some (nodeLeft\<lparr>upperInnerNode := c\<rparr>, nodeRight\<lparr>upperInnerNode := upperInnerNode n\<rparr>) });
     Some (copyNode n (makeHint nodeLeft), makeHint nodeRight, parent) }"

section \<open>Separators\<close>

record sep_info =
  si_len :: nat
  si_slot :: nat
  si_isTruncated :: bool

definition commonPrefix :: "btree_node \<Rightarrow> nat \<Rightarrow> nat \<Rightarrow> nat" where
  "commonPrefix n slotA slotB =
     (let limit = min (keyLen (slots n ! slotA)) (keyLen (slots n ! slotB))
      in common_len (take limit (getKey n slotA)) (take limit (getKey n slotB)))"

text \<open>The loop that looks for the first slot with a shorter common prefix.\<close>

function sep_loop :: "btree_node \<Rightarrow> nat \<Rightarrow> nat \<Rightarrow> nat \<Rightarrow> nat" where
  "sep_loop n upper bestPrefixLen bestSlot =
     (if bestSlot < upper \<and> commonPrefix n bestSlot 0 = bestPrefixLen
      then sep_loop n upper bestPrefixLen (bestSlot + 1) else bestSlot)"
  by pat_completeness auto
termination by (relation "measure (\<lambda>(_, upper, _, b). upper - b)") auto

declare sep_loop.simps [simp del]

definition findSeparator :: "btree_node \<Rightarrow> bool \<Rightarrow> sep_info" where
  "findSeparator n splitOrdered =
     (if \<not> isLeaf n
      then (let slotId = count n div 2
            in \<lparr>si_len = prefixLen n + keyLen (slots n ! slotId), si_slot = slotId, si_isTruncated = False\<rparr>)
      else
        let bestSlot =
              (if splitOrdered then count n - 2
               else if count n > 16
               then
                 let lower = count n div 2 - count n div 16; upper = count n div 2;
                     bestPrefixLen = commonPrefix n lower 0
                 in if bestPrefixLen \<noteq> commonPrefix n (upper - 1) 0 then sep_loop n upper bestPrefixLen (lower + 1) else lower
               else (count n - 1) div 2);
            common = commonPrefix n bestSlot (bestSlot + 1)
        in if bestSlot + 1 < count n \<and> keyLen (slots n ! bestSlot) > common \<and> keyLen (slots n ! (bestSlot + 1)) > common + 1
           then \<lparr>si_len = prefixLen n + common + 1, si_slot = bestSlot, si_isTruncated = True\<rparr>
           else \<lparr>si_len = prefixLen n + keyLen (slots n ! bestSlot), si_slot = bestSlot, si_isTruncated = False\<rparr>)"

definition getSep :: "btree_node \<Rightarrow> sep_info \<Rightarrow> u8 list option" where
  "getSep n info = do {
     p \<leftarrow> load (prefixLen n) (getPrefix n) 0;
     k \<leftarrow> load (si_len info - prefixLen n) (getKey n (si_slot info + (if si_isTruncated info then 1 else 0))) 0;
     Some (p @ k) }"

section \<open>The order of keys\<close>

lemma bytes_less_irrefl [simp]: "\<not> bytes_less a a"
  by (induction a) auto

lemma bytes_less_trans: "bytes_less a b \<Longrightarrow> bytes_less b c \<Longrightarrow> bytes_less a c"
proof (induction a b arbitrary: c rule: bytes_less.induct)
  case (1 ys)
  then show ?case by (cases ys; cases c) auto
next
  case (3 x xs y ys)
  then show ?case by (cases c) auto
qed simp

lemma bytes_less_total: "bytes_less a b \<or> a = b \<or> bytes_less b a"
proof (induction a b rule: bytes_less.induct)
  case (1 ys)
  then show ?case by (cases ys) auto
qed auto

lemma bytes_less_asym: "bytes_less a b \<Longrightarrow> \<not> bytes_less b a"
  using bytes_less_trans bytes_less_irrefl by blast

lemma bytes_less_prefix [simp]: "bytes_less (p @ a) (p @ b) \<longleftrightarrow> bytes_less a b"
  by (induction p) auto

lemma bytes_less_extend: "bytes_less a (a @ b) \<longleftrightarrow> b \<noteq> []"
  by (induction a) auto

text \<open>A difference within the common length decides.\<close>

lemma cmpffdb_sign:
  "m \<le> length a \<Longrightarrow> m \<le> length b \<Longrightarrow> rte_cmpffdb a b m < 0 \<Longrightarrow> bytes_less (take m a @ a') (take m b @ b')"
  "m \<le> length a \<Longrightarrow> m \<le> length b \<Longrightarrow> 0 < rte_cmpffdb a b m \<Longrightarrow> bytes_less (take m b @ b') (take m a @ a')"
proof (induction m arbitrary: a b)
  case (Suc m)
  {
    case 1
    then obtain x xs y ys where "a = x # xs" "b = y # ys" by (metis Suc_le_length_iff)
    then show ?case using Suc.IH(1) [of xs ys] 1 by (auto simp: word_less_def split: if_splits)
  next
    case 2
    then obtain x xs y ys where "a = x # xs" "b = y # ys" by (metis Suc_le_length_iff)
    then show ?case using Suc.IH(2) [of xs ys] 2 by (auto simp: word_less_def split: if_splits)
  }
qed simp_all

lemma custom_memcmp_small:
  "m \<le> length a \<Longrightarrow> m \<le> length b \<Longrightarrow> m \<le> 64 \<Longrightarrow> custom_memcmp a b m = Some (rte_cmpffdb a b m)"
  using memcmp_cmpffdb [of m a b] by (simp add: custom_memcmp_def memcmp_span_def)

text \<open>Comparing a key with the stored key of length \<open>k\<close> at a pointer: first the common bytes, then the
  lengths.\<close>

lemma compare_stored:
  assumes "k \<le> length q" "length key \<le> 64"
  obtains cmp where "custom_memcmp key q (min (length key) k) = Some cmp"
    "cmp < 0 \<Longrightarrow> bytes_less key (take k q)" "0 < cmp \<Longrightarrow> bytes_less (take k q) key"
    "cmp = 0 \<Longrightarrow> length key < k \<Longrightarrow> bytes_less key (take k q)"
    "cmp = 0 \<Longrightarrow> k < length key \<Longrightarrow> bytes_less (take k q) key"
    "cmp = 0 \<Longrightarrow> length key = k \<Longrightarrow> key = take k q"
proof -
  define m where "m = min (length key) k"
  define cmp where "cmp = rte_cmpffdb key q m"
  have m: "m \<le> length key" "m \<le> k" "m \<le> length q" "m \<le> 64" using assms by (auto simp: m_def)
  have key: "take m key @ drop m key = key" by simp
  have st: "take m q @ drop m (take k q) = take k q"
    using m(2) by (metis append_take_drop_id min.absorb1 take_take)
  have z: "cmp = 0 \<longleftrightarrow> take m key = take m q" using m by (simp add: cmp_def cmpffdb_zero)
  show ?thesis
  proof (rule that [of cmp])
    show "custom_memcmp key q (min (length key) k) = Some cmp"
      using custom_memcmp_small [OF m(1,3,4)] by (simp add: cmp_def m_def)
    show "cmp < 0 \<Longrightarrow> bytes_less key (take k q)"
      using cmpffdb_sign(1) [OF m(1,3), of "drop m key" "drop m (take k q)"] key st by (simp add: cmp_def)
    show "0 < cmp \<Longrightarrow> bytes_less (take k q) key"
      using cmpffdb_sign(2) [OF m(1,3), of "drop m (take k q)" "drop m key"] key st by (simp add: cmp_def)
    show "bytes_less key (take k q)" if "cmp = 0" "length key < k"
    proof -
      have "m = length key" using that by (simp add: m_def)
      then have "take k q = key @ drop m (take k q)" using st z that(1) by simp
      moreover have "drop m (take k q) \<noteq> []" using that assms(1) \<open>m = length key\<close> by simp
      ultimately show ?thesis using bytes_less_extend by metis
    qed
    show "bytes_less (take k q) key" if "cmp = 0" "k < length key"
    proof -
      have "m = k" using that by (simp add: m_def)
      then have "key = take k q @ drop m key" using key z that(1) by metis
      moreover have "drop m key \<noteq> []" using that \<open>m = k\<close> by simp
      ultimately show ?thesis using bytes_less_extend by metis
    qed
    show "key = take k q" if "cmp = 0" "length key = k"
      using that z by (simp add: m_def)
  qed
qed

section \<open>Heads\<close>

text \<open>The first \<open>n\<close> bytes as a number, missing ones as 0.\<close>

fun be_pad :: "nat \<Rightarrow> u8 list \<Rightarrow> nat" where
  "be_pad 0 xs = 0"
| "be_pad (Suc n) [] = 0"
| "be_pad (Suc n) (x # xs) = unat x * 256 ^ n + be_pad n xs"

lemma head_be_pad: "head key = be_pad 4 key"
proof -
  have four: "(4 :: nat) = Suc (Suc (Suc (Suc 0)))" by simp
  have "be_pad 4 key = be_pad (Suc (Suc (Suc (Suc 0)))) key" by (subst four) (rule refl)
  then show ?thesis by (simp add: head_def big_endian_def split: list.split)
qed

lemma be_pad_less: "be_pad n xs < 256 ^ n"
proof (induction n xs rule: be_pad.induct)
  case (3 n x xs)
  have "unat x * 256 ^ n \<le> 255 * 256 ^ n" using unat_u8_le by (rule mult_right_mono) simp
  moreover have "be_pad n xs < 256 ^ n" by (rule 3)
  moreover have "be_pad (Suc n) (x # xs) = unat x * 256 ^ n + be_pad n xs" "256 ^ Suc n = 256 * (256 :: nat) ^ n" by simp_all
  ultimately show ?case by linarith
qed simp_all

lemma be_pad_mono: "bytes_less a b \<Longrightarrow> be_pad n a \<le> be_pad n b"
proof (induction n a arbitrary: b rule: be_pad.induct)
  case (3 n x xs)
  then obtain y ys where b: "b = y # ys" by (cases b) auto
  show ?case
  proof (cases "x = y")
    case True
    then show ?thesis using 3 b by simp
  next
    case False
    then have "unat x + 1 \<le> unat y" using 3(2) b by (simp add: word_less_nat_alt)
    then have "(unat x + 1) * 256 ^ n \<le> unat y * 256 ^ n" by (rule mult_right_mono) simp
    moreover have "be_pad (Suc n) (x # xs) = unat x * 256 ^ n + be_pad n xs" "be_pad (Suc n) b = unat y * 256 ^ n + be_pad n ys"
      "(unat x + 1) * 256 ^ n = unat x * 256 ^ n + (256 :: nat) ^ n" using b by simp_all
    ultimately show ?thesis using be_pad_less [of n xs] by linarith
  qed
qed simp_all

lemma head_mono: "bytes_less a b \<Longrightarrow> head a \<le> head b"
  by (simp add: head_be_pad be_pad_mono)

lemma head_less: "head a < head b \<Longrightarrow> bytes_less a b"
  using head_mono [of b a] bytes_less_total [of a b] by auto

section \<open>Searching a node\<close>

text \<open>The keys of a node: the prefix and what is stored for the slot.\<close>

definition suffix_at :: "btree_node \<Rightarrow> nat \<Rightarrow> u8 list" where
  "suffix_at n i = take (keyLen (slots n ! i)) (getKey n i)"

definition node_prefix :: "btree_node \<Rightarrow> u8 list" where
  "node_prefix n = take (prefixLen n) (getPrefix n)"

definition node_keys :: "btree_node \<Rightarrow> u8 list list" where
  "node_keys n = map (\<lambda>i. node_prefix n @ suffix_at n i) [0..<count n]"

text \<open>What the search relies on: slots and keys within the page, sorted keys of at most 64 bytes, the heads
  of the slots and, for more than 32 keys, the hint.\<close>

definition hint_ok :: "btree_node \<Rightarrow> bool" where
  "hint_ok n = (length (hint n) = 16
     \<and> (32 < count n \<longrightarrow> (\<forall>i < 16. hint n ! i = slot_head (slots n ! (count n div 17 * (i + 1))))))"

definition search_ok :: "btree_node \<Rightarrow> bool" where
  "search_ok n =
     (length (slots n) = slotCount \<and> count n \<le> slotCount \<and> hint_ok n
      \<and> prefixLen n \<le> length (getPrefix n) \<and> prefixLen n \<le> 64
      \<and> (\<forall>i < count n. keyLen (slots n ! i) \<le> length (getKey n i) \<and> slot_head (slots n ! i) = head (suffix_at n i))
      \<and> (\<forall>i j. i < j \<longrightarrow> j < count n \<longrightarrow> bytes_less (suffix_at n i) (suffix_at n j)))"

text \<open>The position \<open>p\<close> of a key suffix: the slots before are exactly the smaller ones.\<close>

definition is_rank :: "btree_node \<Rightarrow> u8 list \<Rightarrow> nat \<Rightarrow> bool" where
  "is_rank n key p = (p \<le> count n \<and> (\<forall>i < count n. i < p \<longleftrightarrow> bytes_less (suffix_at n i) key))"

lemma rank_exists:
  assumes "search_ok n"
  obtains p where "is_rank n key p"
proof -
  define p where "p = (LEAST p. p = count n \<or> \<not> bytes_less (suffix_at n p) key)"
  have at: "p = count n \<or> \<not> bytes_less (suffix_at n p) key" unfolding p_def by (rule LeastI [of _ "count n"]) simp
  have less: "bytes_less (suffix_at n i) key" if "i < p" for i
    using not_less_Least [OF that [unfolded p_def]] by simp
  have pc: "p \<le> count n" unfolding p_def by (rule Least_le) simp
  have "\<not> bytes_less (suffix_at n i) key" if "p \<le> i" "i < count n" for i
  proof (cases "i = p")
    case True
    then show ?thesis using at that by auto
  next
    case False
    then have "bytes_less (suffix_at n p) (suffix_at n i)" using assms that by (simp add: search_ok_def)
    moreover have "\<not> bytes_less (suffix_at n p) key" using at that by simp
    ultimately show ?thesis using bytes_less_trans by blast
  qed
  then have "(i < p) = bytes_less (suffix_at n i) key" if "i < count n" for i
    using less that by (cases "i < p") auto
  then have "is_rank n key p" using pc by (simp add: is_rank_def)
  then show ?thesis by (rule that)
qed

lemma is_rankD:
  "is_rank n key p \<Longrightarrow> i < count n \<Longrightarrow> bytes_less (suffix_at n i) key \<Longrightarrow> i < p"
  "is_rank n key p \<Longrightarrow> i < count n \<Longrightarrow> bytes_less key (suffix_at n i) \<Longrightarrow> p \<le> i \<and> suffix_at n i \<noteq> key"
  "is_rank n key p \<Longrightarrow> i < count n \<Longrightarrow> suffix_at n i = key \<Longrightarrow> p \<le> i"
  using bytes_less_asym by (fastforce simp: is_rank_def not_less [symmetric])+

lemma bin_search_rank:
  assumes ok: "search_ok n" and p: "is_rank n key p" and key: "length key \<le> 64"
  shows "lower \<le> p \<Longrightarrow> p \<le> upper \<Longrightarrow> upper \<le> count n \<Longrightarrow>
    bin_search n key lower upper = Some (p, p < upper \<and> suffix_at n p = key)"
proof (induction "upper - lower" arbitrary: lower upper rule: less_induct)
  case less
  show ?case
  proof (cases "lower < upper")
    case False
    then show ?thesis using less.prems by (subst bin_search.simps) simp
  next
    case True
    define mid where "mid = (upper - lower) div 2 + lower"
    let ?s = "slots n ! mid"
    have m: "lower \<le> mid" "mid < upper" "mid < count n" using True less.prems(3) by (auto simp: mid_def)
    have st: "keyLen ?s \<le> length (getKey n mid)" "slot_head ?s = head (suffix_at n mid)"
      using ok m(3) by (simp_all add: search_ok_def)
    have left: "bin_search n key lower mid = Some (p, p < upper \<and> suffix_at n p = key)"
      if l: "bytes_less key (suffix_at n mid)"
    proof -
      have "p \<le> mid" "suffix_at n mid \<noteq> key" using is_rankD(2) [OF p m(3) l] by simp_all
      moreover have "bin_search n key lower mid = Some (p, p < mid \<and> suffix_at n p = key)"
        using \<open>p \<le> mid\<close> m less.prems by (intro less.hyps) auto
      ultimately show ?thesis using m by (auto simp: le_less)
    qed
    have right: "bin_search n key (mid + 1) upper = Some (p, p < upper \<and> suffix_at n p = key)"
      if l: "bytes_less (suffix_at n mid) key"
      using is_rankD(1) [OF p m(3) l] m less.prems by (intro less.hyps) auto
    obtain cmp where c: "custom_memcmp key (getKey n mid) (min (length key) (keyLen ?s)) = Some cmp"
      "cmp < 0 \<Longrightarrow> bytes_less key (suffix_at n mid)" "0 < cmp \<Longrightarrow> bytes_less (suffix_at n mid) key"
      "cmp = 0 \<Longrightarrow> length key < keyLen ?s \<Longrightarrow> bytes_less key (suffix_at n mid)"
      "cmp = 0 \<Longrightarrow> keyLen ?s < length key \<Longrightarrow> bytes_less (suffix_at n mid) key"
      "cmp = 0 \<Longrightarrow> length key = keyLen ?s \<Longrightarrow> key = suffix_at n mid"
      using compare_stored [OF st(1) key] unfolding suffix_at_def by metis
    have unfold: "bin_search n key lower upper =
       (if head key < slot_head ?s then bin_search n key lower mid
        else if slot_head ?s < head key then bin_search n key (mid + 1) upper
        else if cmp < 0 then bin_search n key lower mid
        else if 0 < cmp then bin_search n key (mid + 1) upper
        else if length key < keyLen ?s then bin_search n key lower mid
        else if keyLen ?s < length key then bin_search n key (mid + 1) upper
        else Some (mid, True))"
      using True c(1) by (subst bin_search.simps) (simp add: Let_def mid_def [symmetric])
    have hl: "head key < slot_head ?s \<Longrightarrow> bytes_less key (suffix_at n mid)"
      and hr: "slot_head ?s < head key \<Longrightarrow> bytes_less (suffix_at n mid) key"
      using head_less unfolding st(2) by blast+
    show ?thesis
    proof (cases "key = suffix_at n mid")
      case True
      have "p = mid"
      proof (rule ccontr)
        assume "p \<noteq> mid"
        then have "p < mid" using is_rankD(3) [OF p m(3)] True by simp
        then have "bytes_less (suffix_at n p) key" using ok m(3) True by (simp add: search_ok_def)
        then show False using p \<open>p < mid\<close> m(3) unfolding is_rank_def by (metis less_irrefl less_trans)
      qed
      moreover have "\<not> bytes_less key (suffix_at n mid)" "\<not> bytes_less (suffix_at n mid) key" using True by simp_all
      then have "\<not> head key < slot_head ?s" "\<not> slot_head ?s < head key" "\<not> cmp < 0" "\<not> 0 < cmp"
        "\<not> length key < keyLen ?s" "\<not> keyLen ?s < length key"
        using hl hr c(2-5) by (blast, blast, blast, blast, (metis linorder_neqE)+)
      ultimately show ?thesis unfolding unfold using m(2) True by simp
    next
      case False
      then have "length key = keyLen ?s \<Longrightarrow> cmp \<noteq> 0" using c(6) by blast
      then show ?thesis unfolding unfold using left right hl hr c(2-5) by (smt (verit) linorder_neqE_nat)
    qed
  qed
qed

lemma search_ok_sorted: "search_ok n \<Longrightarrow> i < j \<Longrightarrow> j < count n \<Longrightarrow> bytes_less (suffix_at n i) (suffix_at n j)"
  by (simp add: search_ok_def)

lemma hint_pos_spec:
  "pos \<le> 16 \<Longrightarrow> pos \<le> hint_pos stop h pos \<and> hint_pos stop h pos \<le> 16
     \<and> (\<forall>i. pos \<le> i \<longrightarrow> i < hint_pos stop h pos \<longrightarrow> \<not> stop (h ! i))
     \<and> (hint_pos stop h pos < 16 \<longrightarrow> stop (h ! hint_pos stop h pos))"
proof (induction "16 - pos" arbitrary: pos)
  case 0
  then show ?case by (subst (1 2 3 4 5) hint_pos.simps) simp
next
  case (Suc d)
  have eq: "hint_pos stop h pos = (if pos < 16 \<and> \<not> stop (h ! pos) then hint_pos stop h (pos + 1) else pos)"
    by (subst hint_pos.simps) simp
  show ?case
  proof (cases "stop (h ! pos)")
    case True
    then show ?thesis using Suc.prems by (simp add: eq)
  next
    case False
    moreover have "pos < 16" using Suc(2) by linarith
    ultimately have e: "hint_pos stop h pos = hint_pos stop h (pos + 1)" by (simp add: eq)
    have ih: "pos + 1 \<le> hint_pos stop h (pos + 1) \<and> hint_pos stop h (pos + 1) \<le> 16
        \<and> (\<forall>i. pos + 1 \<le> i \<longrightarrow> i < hint_pos stop h (pos + 1) \<longrightarrow> \<not> stop (h ! i))
        \<and> (hint_pos stop h (pos + 1) < 16 \<longrightarrow> stop (h ! hint_pos stop h (pos + 1)))"
      using Suc by (intro Suc.hyps(1)) simp_all
    have "\<not> stop (h ! i)" if "pos \<le> i" "i < hint_pos stop h (pos + 1)" for i
      using that ih False by (cases "i = pos") auto
    then show ?thesis using ih unfolding e by auto
  qed
qed

lemma searchHint_rank:
  assumes ok: "search_ok n" and p: "is_rank n key p" and r: "searchHint n (head key) 0 (count n) = (lower, upper)"
  shows "lower \<le> p \<and> p \<le> upper \<and> upper \<le> count n \<and> (p = upper \<longrightarrow> p < count n \<longrightarrow> suffix_at n p \<noteq> key)"
proof (cases "count n > 32")
  case False
  then show ?thesis using p r by (simp add: searchHint_def is_rank_def)
next
  case True
  define dist where "dist = count n div 17"
  define a where "a = hint_pos (\<lambda>h. head key \<le> h) (hint n) 0"
  define b where "b = hint_pos (\<lambda>h. h \<noteq> head key) (hint n) a"
  have a: "a \<le> 16" "\<forall>i < a. hint n ! i < head key" "a < 16 \<longrightarrow> head key \<le> hint n ! a"
    using hint_pos_spec [of 0 "\<lambda>h. head key \<le> h" "hint n"] unfolding a_def by (simp_all add: not_le)
  have b: "a \<le> b" "b \<le> 16" "\<forall>i. a \<le> i \<longrightarrow> i < b \<longrightarrow> hint n ! i = head key" "b < 16 \<longrightarrow> hint n ! b \<noteq> head key"
    using hint_pos_spec [of a "\<lambda>h. h \<noteq> head key" "hint n"] a(1) unfolding b_def by simp_all
  have lu: "lower = a * dist" "upper = (if b < 16 then (b + 1) * dist else count n)"
    using r True by (simp_all add: searchHint_def Let_def dist_def a_def b_def split: if_splits)
  have d: "1 \<le> dist" "dist * 17 \<le> count n" using True by (simp_all add: dist_def)
  have pos: "dist * (i + 1) < count n" if "i < 16" for i
  proof -
    have "dist * (i + 1) \<le> dist * 16" using that by (intro mult_le_mono) auto
    then show ?thesis using d by linarith
  qed
  have h: "hint n ! i = head (suffix_at n (dist * (i + 1)))" if "i < 16" for i
    using ok True that pos [OF that] by (simp add: search_ok_def hint_ok_def dist_def)
  have mono: "hint n ! i \<le> hint n ! j" if "i < j" "j < 16" for i j
  proof -
    have "dist * (i + 1) < dist * (j + 1)" using that d(1) by simp
    then have "bytes_less (suffix_at n (dist * (i + 1))) (suffix_at n (dist * (j + 1)))"
      using ok pos [OF that(2)] by (simp only: search_ok_def)
    then show ?thesis using h that head_mono by simp
  qed
  have lower: "lower \<le> p"
  proof (cases a)
    case (Suc a')
    then have "bytes_less (suffix_at n (dist * (a' + 1))) key" using a(1,2) h [of a'] by (intro head_less) auto
    then have "dist * (a' + 1) < p" using is_rankD(1) [OF p pos [of a']] Suc a(1) by simp
    then show ?thesis using lu(1) Suc by (simp add: mult.commute)
  qed (simp add: lu)
  show ?thesis
  proof (cases "b < 16")
    case True
    have "head key \<le> hint n ! b"
    proof (cases "a = b")
      case True
      then show ?thesis using a(3) \<open>b < 16\<close> by simp
    next
      case False
      then have "a < b" using b(1) by simp
      then show ?thesis using mono [of a b] b(3) True by simp
    qed
    then have "head key < head (suffix_at n (dist * (b + 1)))" using b(4) h [OF True] True by simp
    then have "bytes_less key (suffix_at n (dist * (b + 1)))" by (rule head_less)
    from is_rankD(2) [OF p pos [OF True] this] show ?thesis
      using lower lu(2) True pos [OF True] by (auto simp: mult.commute)
  next
    case False
    then show ?thesis using lower lu(2) p by (simp add: is_rank_def)
  qed
qed

text \<open>The position of a whole key, and whether the key is there.\<close>

lemma lowerBound_rank:
  assumes ok: "search_ok n" and key: "length skey \<le> 64"
  obtains p where "lowerBound n skey = Some (p, skey \<in> set (node_keys n))" "p \<le> count n"
    "\<forall>i < count n. i < p \<longleftrightarrow> bytes_less (node_keys n ! i) skey"
    "skey \<in> set (node_keys n) \<Longrightarrow> p < count n \<and> node_keys n ! p = skey"
proof -
  let ?q = "node_prefix n"
  have q: "prefixLen n \<le> length (getPrefix n)" "length ?q = prefixLen n" using ok by (simp_all add: search_ok_def node_prefix_def)
  have nth: "node_keys n ! i = ?q @ suffix_at n i" if "i < count n" for i using that by (simp add: node_keys_def)
  have set_keys: "set (node_keys n) = {?q @ suffix_at n i | i. i < count n}" by (auto simp: node_keys_def)
  obtain cmp where c: "custom_memcmp skey (getPrefix n) (min (length skey) (prefixLen n)) = Some cmp"
    "cmp < 0 \<Longrightarrow> bytes_less skey ?q" "0 < cmp \<Longrightarrow> bytes_less ?q skey" "cmp = 0 \<Longrightarrow> length skey < prefixLen n \<Longrightarrow> bytes_less skey ?q"
    using compare_stored [OF q(1) key] unfolding node_prefix_def by metis
  have z: "cmp = 0 \<Longrightarrow> prefixLen n \<le> length skey \<Longrightarrow> take (prefixLen n) skey = ?q"
  proof -
    assume "cmp = 0" "prefixLen n \<le> length skey"
    moreover from this have "min (length skey) (prefixLen n) = prefixLen n" by (simp only: min.absorb2)
    moreover have "prefixLen n \<le> 64" using ok by (simp add: search_ok_def)
    ultimately show "take (prefixLen n) skey = ?q"
      using c(1) custom_memcmp_small [of "prefixLen n" skey "getPrefix n"] cmpffdb_zero [of "prefixLen n" skey "getPrefix n"] q(1)
      by (simp add: node_prefix_def)
  qed
  consider (before) "cmp < 0 \<or> cmp = 0 \<and> length skey < prefixLen n" | (after) "0 < cmp"
    | (inside) "cmp = 0" "prefixLen n \<le> length skey" by linarith
  then show ?thesis
  proof cases
    case before
    have l: "bytes_less skey (?q @ s)" for s
    proof -
      have "bytes_less skey ?q" using before c(2,4) by blast
      then show ?thesis using bytes_less_trans bytes_less_extend [of ?q s] by (cases "s = []") auto
    qed
    then have "skey \<notin> set (node_keys n)" using bytes_less_irrefl unfolding set_keys by fastforce
    moreover have "lowerBound n skey = Some (0, False)" using c(1) before by (auto simp: lowerBound_def)
    moreover have "\<not> bytes_less (node_keys n ! i) skey" if "i < count n" for i
      using l bytes_less_asym nth [OF that] by auto
    ultimately show ?thesis by (intro that [of 0]) auto
  next
    case after
    have l: "bytes_less (?q @ s) skey" for s
    proof -
      define m where "m = min (length skey) (prefixLen n)"
      have "rte_cmpffdb skey (getPrefix n) m = cmp" "m \<le> length skey" "m \<le> length (getPrefix n)" "m \<le> prefixLen n"
        using c(1) custom_memcmp_small [of m skey "getPrefix n"] q key by (auto simp: m_def)
      then have "bytes_less (take m (getPrefix n) @ drop m ?q @ s) (take m skey @ drop m skey)"
        using after cmpffdb_sign(2) [of m skey "getPrefix n" "drop m ?q @ s" "drop m skey"] by simp
      moreover have "take m (getPrefix n) @ drop m ?q = ?q"
        using \<open>m \<le> prefixLen n\<close> unfolding node_prefix_def by (metis append_take_drop_id min.absorb1 take_take)
      ultimately show ?thesis by (metis append_assoc append_take_drop_id)
    qed
    then have "skey \<notin> set (node_keys n)" using bytes_less_irrefl unfolding set_keys by fastforce
    moreover have "lowerBound n skey = Some (count n, False)" using c(1) after by (simp add: lowerBound_def)
    ultimately show ?thesis using l nth by (intro that [of "count n"]) auto
  next
    case inside
    define key where "key = drop (prefixLen n) skey"
    have sk: "skey = ?q @ key" using z [OF inside] unfolding key_def by (metis append_take_drop_id)
    have kl: "length key \<le> 64" using key by (simp add: key_def)
    obtain p where p: "is_rank n key p" using rank_exists [OF ok] .
    obtain lower upper where lu: "searchHint n (head key) 0 (count n) = (lower, upper)" by fastforce
    note hint = searchHint_rank [OF ok p lu]
    have "lowerBound n skey = Some (p, p < upper \<and> suffix_at n p = key)"
      using c(1) inside lu bin_search_rank [OF ok p kl] hint by (simp add: lowerBound_def key_def)
    moreover have "p < upper \<and> suffix_at n p = key \<longleftrightarrow> skey \<in> set (node_keys n)"
    proof
      assume "skey \<in> set (node_keys n)"
      then obtain i where i: "i < count n" "suffix_at n i = key" unfolding set_keys sk by auto
      have "\<not> i < p" using p i by (auto simp: is_rank_def)
      moreover have "\<not> p < i"
      proof
        assume "p < i"
        then have "bytes_less (suffix_at n p) key" using search_ok_sorted [OF ok] i by blast
        then show False using p \<open>p < i\<close> i(1) unfolding is_rank_def by (meson less_irrefl less_trans)
      qed
      ultimately have "p = i" by simp
      then show "p < upper \<and> suffix_at n p = key" using hint i by (auto simp: le_less)
    next
      assume "p < upper \<and> suffix_at n p = key"
      then show "skey \<in> set (node_keys n)" using hint unfolding set_keys sk by force
    qed
    ultimately show ?thesis
      using p hint nth by (intro that [of p]) (auto simp: sk is_rank_def)
  qed
qed

section \<open>Writing below the heap\<close>

lemma memcpy_copied: "n \<le> length src \<Longrightarrow> n \<le> length dst \<Longrightarrow> rte_memcpy a b dst src n = Some (copied src dst n)"
  by (simp add: rte_memcpy_def memcpy_aligned_copied memcpy_generic_copied)

lemma custom_memcpy_eq:
  "dest + cnt \<le> length page \<Longrightarrow> cnt \<le> length src \<Longrightarrow>
   custom_memcpy page dest src cnt = Some (take dest page @ take cnt src @ drop (dest + cnt) page)"
  by (simp add: custom_memcpy_def memcpy_copied copied_def add.commute)

text \<open>Pushing bytes in front of position \<open>d\<close>.\<close>

definition push :: "u8 list \<Rightarrow> nat \<Rightarrow> u8 list \<Rightarrow> u8 list" where
  "push h d x = take (d - length x) h @ x @ drop d h"

lemma length_push: "length x \<le> d \<Longrightarrow> d \<le> length h \<Longrightarrow> length (push h d x) = length h"
  by (simp add: push_def)

lemma drop_push: "length x \<le> d \<Longrightarrow> d \<le> length h \<Longrightarrow> d \<le> e \<Longrightarrow> drop e (push h d x) = drop e h"
  by (simp add: push_def)

lemma take_drop_push: "length x \<le> d \<Longrightarrow> d \<le> length h \<Longrightarrow> drop (d - length x) (push h d x) = x @ drop d h"
  by (simp add: push_def)

lemma custom_memcpy_push:
  "length x = k \<Longrightarrow> e + k = d \<Longrightarrow> d \<le> length h \<Longrightarrow> custom_memcpy h e x k = Some (push h d x)"
  by (auto simp: custom_memcpy_eq push_def)

lemma push_push:
  "length x + length y \<le> d \<Longrightarrow> d \<le> length h \<Longrightarrow> push h d (x @ y) = push (push h d y) (d - length y) x"
  by (simp add: push_def diff_diff_left add.commute min_def)

lemma sub16_le: "b \<le> a \<Longrightarrow> a < 65536 \<Longrightarrow> sub16 a b = a - b"
proof -
  assume a: "b \<le> a" "a < 65536"
  then have "a + (65536 - b mod 65536) = (a - b) + 65536" by simp
  then show ?thesis using a unfolding sub16_def by (simp only: mod_add_self2) simp
qed

lemma sub32_le: "b \<le> a \<Longrightarrow> a < 4294967296 \<Longrightarrow> sub32 a b = a - b"
proof -
  assume a: "b \<le> a" "a < 4294967296"
  then have "a + (4294967296 - b mod 4294967296) = (a - b) + 4294967296" by simp
  then show ?thesis using a unfolding sub32_def by (simp only: mod_add_self2) simp
qed

lemma add16_small: "a + b < 65536 \<Longrightarrow> add16 a b = a + b"
  by (simp add: add16_def)

text \<open>Two copies one after the other, as \<open>storeKeyValue\<close> makes them.\<close>

lemma memcpy_key_payload:
  assumes "length x + length y \<le> d" "d \<le> length h" "e = d - (length x + length y)"
  shows "do { h \<leftarrow> custom_memcpy h e x (length x); custom_memcpy h (e + length x) y (length y) } = Some (push h d (x @ y))"
proof -
  have 1: "custom_memcpy h e x (length x) = Some (take e h @ x @ drop (e + length x) h)"
    using assms by (subst custom_memcpy_eq) auto
  have 2: "custom_memcpy (take e h @ x @ drop (e + length x) h) (e + length x) y (length y)
      = Some (take e h @ x @ y @ drop d h)"
  proof -
    have l: "length (take e h) = e" "e + length x + length y = d" using assms by auto
    then show ?thesis using assms(2) by (subst custom_memcpy_eq) simp_all
  qed
  show ?thesis unfolding 1 Option.bind.bind_lunit 2 push_def by (simp add: assms(3))
qed

section \<open>Well-formed nodes\<close>

definition used_slots :: "btree_node \<Rightarrow> slot list" where
  "used_slots n = take (count n) (slots n)"

definition slot_suffix :: "u8 list \<Rightarrow> slot \<Rightarrow> u8 list" where
  "slot_suffix h s = take (keyLen s) (drop (offset s) h)"

definition slot_payload :: "u8 list \<Rightarrow> slot \<Rightarrow> u8 list" where
  "slot_payload h s = take (payloadLen s) (drop (offset s + keyLen s) h)"

definition slot_space :: "slot \<Rightarrow> nat" where
  "slot_space s = keyLen s + payloadLen s"

definition fence_key :: "u8 list \<Rightarrow> fence \<Rightarrow> u8 list" where
  "fence_key h f = take (f_len f) (drop (f_offset f) h)"

text \<open>The map that a node holds, in key order.\<close>

definition node_entries :: "btree_node \<Rightarrow> (u8 list \<times> u8 list) list" where
  "node_entries n = map (\<lambda>s. (node_prefix n @ slot_suffix (heap n) s, slot_payload (heap n) s)) (used_slots n)"

definition slot_ok :: "nat \<Rightarrow> u8 list \<Rightarrow> nat \<Rightarrow> slot \<Rightarrow> bool" where
  "slot_ok d h pre s =
     (d \<le> offset s \<and> offset s + keyLen s + payloadLen s \<le> length h
      \<and> slot_head s = head (slot_suffix h s) \<and> pre + keyLen s \<le> 64)"

definition fence_ok :: "nat \<Rightarrow> u8 list \<Rightarrow> fence \<Rightarrow> bool" where
  "fence_ok d h f = ((f_len f = 0 \<or> d \<le> f_offset f) \<and> f_offset f + f_len f \<le> length h \<and> f_len f \<le> 64)"

text \<open>Areas of the page that share no byte.\<close>

definition apart :: "nat \<times> nat \<Rightarrow> nat \<times> nat \<Rightarrow> bool" where
  "apart x y \<longleftrightarrow> snd x = 0 \<or> snd y = 0 \<or> fst x + snd x \<le> fst y \<or> fst y + snd y \<le> fst x"

definition region :: "slot \<Rightarrow> nat \<times> nat" where
  "region s = (offset s, slot_space s)"

definition fence_region :: "fence \<Rightarrow> nat \<times> nat" where
  "fence_region f = (f_offset f, f_len f)"

definition node_wf :: "btree_node \<Rightarrow> bool" where
  "node_wf n =
     (length (slots n) = 399 \<and> length (heap n) = 4096 \<and> slotEnd (count n) \<le> dataOffset n \<and> dataOffset n \<le> 4096
      \<and> hint_ok n \<and> fence_ok (dataOffset n) (heap n) (lowerFence n) \<and> fence_ok (dataOffset n) (heap n) (upperFence n)
      \<and> prefixLen n = common_len (fence_key (heap n) (lowerFence n)) (fence_key (heap n) (upperFence n))
      \<and> list_all (slot_ok (dataOffset n) (heap n) (prefixLen n)) (used_slots n)
      \<and> sorted_wrt bytes_less (map (slot_suffix (heap n)) (used_slots n))
      \<and> spaceUsed n = f_len (lowerFence n) + f_len (upperFence n) + sum_list (map slot_space (used_slots n))
      \<and> spaceUsed n \<le> 4096 - dataOffset n
      \<and> sorted_wrt apart (fence_region (lowerFence n) # fence_region (upperFence n) # map region (used_slots n)))"

lemma apart_sym: "apart x y \<longleftrightarrow> apart y x"
  by (auto simp: apart_def)

lemma apart_insert:
  "sorted_wrt apart (a # b # map region (xs @ ys)) \<Longrightarrow> \<forall>r\<in>set (a # b # map region (xs @ ys)). apart (region s) r \<Longrightarrow>
   sorted_wrt apart (a # b # map region (xs @ s # ys))"
  using apart_sym by (auto simp: sorted_wrt_append)

lemma apart_below:
  "offset s + slot_space s \<le> d \<Longrightarrow> slot_ok d h pre t \<Longrightarrow> apart (region s) (region t)"
  "offset s + slot_space s \<le> d \<Longrightarrow> fence_ok d h f \<Longrightarrow> apart (region s) (fence_region f)"
  by (auto simp: apart_def region_def fence_region_def slot_ok_def fence_ok_def)

lemma common_len_le: "common_len a b \<le> length a" "common_len a b \<le> length b"
  by (induction a b rule: common_len.induct) auto

lemma node_wf_bounds:
  assumes "node_wf n"
  shows "count n \<le> 399" "length (used_slots n) = count n" "prefixLen n \<le> 64" "prefixLen n \<le> f_len (lowerFence n)"
    "prefixLen n \<le> length (getPrefix n)" "length (node_prefix n) = prefixLen n"
proof -
  show c: "count n \<le> 399" using assms by (simp add: node_wf_def slotEnd_def)
  show "length (used_slots n) = count n" using assms c by (simp add: node_wf_def used_slots_def)
  show p: "prefixLen n \<le> f_len (lowerFence n)"
    using assms common_len_le(1) [of "fence_key (heap n) (lowerFence n)" "fence_key (heap n) (upperFence n)"]
    by (simp add: node_wf_def fence_key_def)
  then show "prefixLen n \<le> 64" "prefixLen n \<le> length (getPrefix n)" "length (node_prefix n) = prefixLen n"
    using assms by (auto simp: node_wf_def fence_ok_def getPrefix_def node_prefix_def)
qed

lemma used_nth: "node_wf n \<Longrightarrow> i < count n \<Longrightarrow> used_slots n ! i = slots n ! i"
  by (simp add: used_slots_def)

lemma suffix_at_slot: "suffix_at n i = slot_suffix (heap n) (slots n ! i)"
  by (simp add: suffix_at_def slot_suffix_def getKey_def)

lemma node_wf_search:
  assumes "node_wf n"
  shows "search_ok n" "node_keys n = map fst (node_entries n)"
proof -
  note b = node_wf_bounds [OF assms]
  have s: "slot_ok (dataOffset n) (heap n) (prefixLen n) (slots n ! i)" if "i < count n" for i
    using assms that b(2) used_nth [OF assms that] by (auto simp: node_wf_def list_all_length)
  have srt: "bytes_less (suffix_at n i) (suffix_at n j)" if "i < j" "j < count n" for i j
    using assms that b(2) used_nth [OF assms] by (auto simp: node_wf_def sorted_wrt_iff_nth_less suffix_at_slot)
  have k: "keyLen (slots n ! i) \<le> length (getKey n i) \<and> slot_head (slots n ! i) = head (suffix_at n i)" if "i < count n" for i
  proof -
    have "offset (slots n ! i) + keyLen (slots n ! i) + payloadLen (slots n ! i) \<le> length (heap n)"
      using s [OF that] by (simp add: slot_ok_def)
    then have "keyLen (slots n ! i) \<le> length (getKey n i)" unfolding getKey_def length_drop by linarith
    then show ?thesis using s [OF that] by (simp add: slot_ok_def suffix_at_slot)
  qed
  have "length (slots n) = 399" "hint_ok n" using assms by (simp_all add: node_wf_def)
  then show "search_ok n" using b k srt by (auto simp: search_ok_def)
  show "node_keys n = map fst (node_entries n)"
    using b(2) used_nth [OF assms] by (intro nth_equalityI) (auto simp: node_keys_def node_entries_def suffix_at_slot)
qed

section \<open>Insertion\<close>

lemma storeKeyValue_eq:
  assumes "skey = pre @ sfx" "length pre = prefixLen n" "slotId < length (slots n)"
    "length sfx + length payload \<le> dataOffset n" "dataOffset n \<le> 4096" "length (heap n) = 4096" "spaceUsed n \<le> 4096"
  shows "storeKeyValue n slotId skey payload = Some (n\<lparr>
     slots := (slots n)[slotId := \<lparr>offset = dataOffset n - (length sfx + length payload), keyLen = length sfx,
                                   payloadLen = length payload, slot_head = head sfx\<rparr>],
     dataOffset := dataOffset n - (length sfx + length payload),
     spaceUsed := spaceUsed n + (length sfx + length payload), heap := push (heap n) (dataOffset n) (sfx @ payload)\<rparr>)"
proof -
  define e where "e = dataOffset n - (length sfx + length payload)"
  have e: "sub16 (dataOffset n) (length sfx + length payload) = e" using assms by (simp add: sub16_le e_def)
  have sm: "length sfx mod 65536 = length sfx" "length payload mod 65536 = length payload" using assms by simp_all
  have a: "add16 (spaceUsed n) (length sfx + length payload) = spaceUsed n + (length sfx + length payload)"
    using assms by (intro add16_small) simp
  have k: "drop (prefixLen n) skey = sfx" "length skey - prefixLen n = length sfx" "\<not> length skey < prefixLen n"
    using assms(1,2) by simp_all
  have m: "do { h \<leftarrow> custom_memcpy (heap n) e sfx (length sfx); custom_memcpy h (e + length sfx) payload (length payload) }
      = Some (push (heap n) (dataOffset n) (sfx @ payload))"
    using assms by (intro memcpy_key_payload) (simp_all add: e_def)
  then obtain h1 where h1: "custom_memcpy (heap n) e sfx (length sfx) = Some h1"
    "custom_memcpy h1 (e + length sfx) payload (length payload) = Some (push (heap n) (dataOffset n) (sfx @ payload))"
    by (auto simp: bind_eq_Some_conv)
  show ?thesis
    using assms(3) h1 by (simp add: storeKeyValue_def k e sm a set_slot_def e_def [symmetric] Let_def)
qed

lemma insert_slots:
  assumes "length xs = 399" "c < 399" "p \<le> c"
  obtains sl where "memmove_slots xs (p + 1) p (c - p) = Some sl" "length sl = 399"
    "take (c + 1) (sl[p := s]) = take p xs @ s # drop p (take c xs)" "\<forall>i < p. sl[p := s] ! i = xs ! i"
proof -
  define sl where "sl = take (p + 1) xs @ take (c - p) (drop p xs) @ drop (p + 1 + (c - p)) xs"
  have m: "memmove_slots xs (p + 1) p (c - p) = Some sl" using assms by (simp add: memmove_slots_def sl_def)
  have tp: "take (Suc p) xs = take p xs @ [xs ! p]" using assms by (simp add: take_Suc_conv_app_nth)
  have u: "sl[p := s] = take p xs @ s # take (c - p) (drop p xs) @ drop (p + 1 + (c - p)) xs"
    using assms by (simp add: sl_def tp list_update_append)
  have "take (c + 1) (sl[p := s]) = take p xs @ s # take (c - p) (drop p xs)"
    using assms unfolding u by (simp add: take_Cons' )
  then have t: "take (c + 1) (sl[p := s]) = take p xs @ s # drop p (take c xs)" using assms by (simp add: drop_take)
  have "\<forall>i < p. sl[p := s] ! i = xs ! i" using assms unfolding u by (simp add: nth_append)
  then show ?thesis using m t assms by (intro that [of sl]) (auto simp: sl_def)
qed

lemma sorted_insert:
  assumes "sorted_wrt bytes_less L" "p \<le> length L" "\<forall>i < length L. i < p \<longleftrightarrow> bytes_less (L ! i) x" "x \<notin> set L"
  shows "sorted_wrt bytes_less (take p L @ x # drop p L)"
proof -
  have before: "bytes_less y x" if "y \<in> set (take p L)" for y
  proof -
    obtain i where "i < p" "y = L ! i" using \<open>y \<in> _\<close> by (auto simp: in_set_conv_nth)
    then show ?thesis using assms(2,3) by (meson less_le_trans)
  qed
  have after: "bytes_less x y" if "y \<in> set (drop p L)" for y
  proof -
    obtain i where i: "i < length L - p" "y = L ! (p + i)" using \<open>y \<in> _\<close> assms(2) by (auto simp: in_set_conv_nth)
    then have "p + i < length L" by simp
    then have "\<not> bytes_less y x" "y \<in> set L" using assms(3) i by auto
    then show ?thesis using assms(4) bytes_less_total by metis
  qed
  have s: "sorted_wrt bytes_less (take p L)" "sorted_wrt bytes_less (drop p L)"
    using assms(1) sorted_wrt_append [of bytes_less "take p L" "drop p L"] by simp_all
  have "bytes_less a b" if "a \<in> set (take p L)" "b \<in> set (drop p L)" for a b
    using before [OF that(1)] after [OF that(2)] bytes_less_trans by blast
  then show ?thesis using before after s by (auto simp: sorted_wrt_append)
qed

lemma updateHint_ok:
  assumes "hint_ok n" "hint m = hint n" "count m = count n + 1" "p \<le> count n" "\<forall>i < p. slots m ! i = slots n ! i"
  shows "hint_ok (updateHint m p)"
proof -
  define dist where "dist = count m div 17"
  define bgn where "bgn = (if count m > 33 \<and> (count m - 1) div 17 = dist \<and> p div dist > 1 then p div dist - 1 else 0)"
  have hint: "hint (updateHint m p) = map (\<lambda>i. if bgn \<le> i then slot_head (slots m ! (dist * (i + 1))) else hint m ! i) [0..<16]"
    and rest: "count (updateHint m p) = count m" "slots (updateHint m p) = slots m"
    by (simp_all add: updateHint_def Let_def dist_def bgn_def)
  have "hint m ! i = slot_head (slots m ! (dist * (i + 1)))" if i: "i < 16" "i < bgn" for i
  proof -
    have b: "count m > 33" "count n div 17 = dist" "bgn = p div dist - 1" "p div dist > 1"
      using i(2) assms(3) by (auto simp: bgn_def split: if_splits)
    have "i + 1 < p div dist" using i(2) b by linarith
    then have "dist * (i + 1) < dist * (p div dist)" using b(4) by (intro mult_less_mono2) (cases "dist = 0"; simp)+
    also have "\<dots> \<le> p" by simp
    finally have lt: "dist * (i + 1) < p" .
    have "hint n ! i = slot_head (slots n ! (dist * (i + 1)))"
      using assms(1,3) b i(1) unfolding hint_ok_def by simp
    then show ?thesis using assms(2,5) lt by simp
  qed
  then have "hint (updateHint m p) ! i = slot_head (slots m ! (dist * (i + 1)))" if "i < 16" for i
    using that unfolding hint by auto
  then show ?thesis unfolding hint_ok_def rest dist_def by (simp add: hint)
qed

text \<open>What does not change when bytes are pushed below \<open>d\<close>.\<close>

lemma slot_push:
  assumes "length x \<le> d" "d \<le> length h" "d \<le> offset s"
  shows "slot_suffix (push h d x) s = slot_suffix h s" "slot_payload (push h d x) s = slot_payload h s"
  using assms by (simp_all add: slot_suffix_def slot_payload_def drop_push)

lemma slot_ok_push:
  assumes "slot_ok d h pre s" "length x \<le> d" "d \<le> length h"
  shows "slot_ok (d - length x) (push h d x) pre s"
  using assms slot_push [of x d h s] by (auto simp: slot_ok_def length_push)

lemma fence_push:
  assumes "fence_ok d h f" "length x \<le> d" "d \<le> length h"
  shows "fence_ok (d - length x) (push h d x) f" "fence_key (push h d x) f = fence_key h f"
  using assms by (auto simp: fence_ok_def fence_key_def length_push drop_push)

text \<open>The part of \<open>insertInPage\<close> after the compaction.\<close>

definition insert_at :: "btree_node \<Rightarrow> nat \<Rightarrow> u8 list \<Rightarrow> u8 list \<Rightarrow> btree_node option" where
  "insert_at n slotId key payload = do {
     sl \<leftarrow> memmove_slots (slots n) (slotId + 1) slotId (count n - slotId);
     n \<leftarrow> storeKeyValue (n\<lparr>slots := sl\<rparr>) slotId key payload;
     Some (updateHint (n\<lparr>count := add16 (count n) 1\<rparr>) slotId) }"

lemma updateHint_fields [simp]:
  "dirty (updateHint n p) = dirty n" "upperInnerNode (updateHint n p) = upperInnerNode n"
  "lowerFence (updateHint n p) = lowerFence n" "upperFence (updateHint n p) = upperFence n"
  "count (updateHint n p) = count n" "isLeaf (updateHint n p) = isLeaf n" "spaceUsed (updateHint n p) = spaceUsed n"
  "dataOffset (updateHint n p) = dataOffset n" "prefixLen (updateHint n p) = prefixLen n"
  "slots (updateHint n p) = slots n" "heap (updateHint n p) = heap n"
  by (simp_all add: updateHint_def Let_def)

lemma makeHint_fields [simp]:
  "dirty (makeHint n) = dirty n" "upperInnerNode (makeHint n) = upperInnerNode n"
  "lowerFence (makeHint n) = lowerFence n" "upperFence (makeHint n) = upperFence n"
  "count (makeHint n) = count n" "isLeaf (makeHint n) = isLeaf n" "spaceUsed (makeHint n) = spaceUsed n"
  "dataOffset (makeHint n) = dataOffset n" "prefixLen (makeHint n) = prefixLen n"
  "slots (makeHint n) = slots n" "heap (makeHint n) = heap n"
  by (simp_all add: makeHint_def Let_def)

lemma insert_at_ok:
  assumes wf: "node_wf n" and key: "key = node_prefix n @ sfx" "length key \<le> 64" "key \<notin> set (node_keys n)"
    and room: "slotEnd (count n + 1) + (length sfx + length payload) \<le> dataOffset n"
    and p: "p \<le> count n" "\<forall>i < count n. i < p \<longleftrightarrow> bytes_less (node_keys n ! i) key"
  obtains n' where "insert_at n p key payload = Some n'" "node_wf n'"
    "node_entries n' = take p (node_entries n) @ (key, payload) # drop p (node_entries n)"
    "lowerFence n' = lowerFence n" "upperFence n' = upperFence n" "isLeaf n' = isLeaf n"
    "upperInnerNode n' = upperInnerNode n" "node_prefix n' = node_prefix n"
    "fence_key (heap n') (lowerFence n') = fence_key (heap n) (lowerFence n)"
    "fence_key (heap n') (upperFence n') = fence_key (heap n) (upperFence n)"
proof -
  note b = node_wf_bounds [OF wf]
  have w: "length (slots n) = 399" "length (heap n) = 4096" "slotEnd (count n) \<le> dataOffset n" "dataOffset n \<le> 4096"
    "hint_ok n" "fence_ok (dataOffset n) (heap n) (lowerFence n)" "fence_ok (dataOffset n) (heap n) (upperFence n)"
    "prefixLen n = common_len (fence_key (heap n) (lowerFence n)) (fence_key (heap n) (upperFence n))"
    "list_all (slot_ok (dataOffset n) (heap n) (prefixLen n)) (used_slots n)"
    "sorted_wrt bytes_less (map (slot_suffix (heap n)) (used_slots n))"
    "spaceUsed n = f_len (lowerFence n) + f_len (upperFence n) + sum_list (map slot_space (used_slots n))"
    "spaceUsed n \<le> 4096 - dataOffset n"
    "sorted_wrt apart (fence_region (lowerFence n) # fence_region (upperFence n) # map region (used_slots n))"
    using wf unfolding node_wf_def by blast+
  define sp where "sp = length sfx + length payload"
  define d where "d = dataOffset n - sp"
  define s where "s = \<lparr>offset = d, keyLen = length sfx, payloadLen = length payload, slot_head = head sfx\<rparr>"
  define h where "h = push (heap n) (dataOffset n) (sfx @ payload)"
  have x: "length (sfx @ payload) = sp" "length (sfx @ payload) \<le> dataOffset n" "dataOffset n \<le> length (heap n)" "d + sp = dataOffset n"
    using room w(2,4) by (simp_all add: sp_def d_def slotEnd_def)
  have cnt: "count n < 399" using room w(4) by (simp add: slotEnd_def)
  obtain sl where sl: "memmove_slots (slots n) (p + 1) p (count n - p) = Some sl" "length sl = 399"
    "take (count n + 1) (sl[p := s]) = take p (slots n) @ s # drop p (take (count n) (slots n))" "\<forall>i < p. sl[p := s] ! i = slots n ! i"
    using insert_slots [OF w(1) cnt p(1)] by metis
  let ?n1 = "n\<lparr>slots := sl[p := s], dataOffset := d, spaceUsed := spaceUsed n + sp, heap := h\<rparr>"
  have st: "storeKeyValue (n\<lparr>slots := sl\<rparr>) p key payload = Some ?n1"
    using storeKeyValue_eq [of key "node_prefix n" sfx "n\<lparr>slots := sl\<rparr>" p payload] key(1) b(6) sl(2) p(1) cnt x w
    by (simp add: sp_def [symmetric] s_def d_def h_def)
  define n' where "n' = updateHint (?n1\<lparr>count := count n + 1\<rparr>) p"
  have r: "insert_at n p key payload = Some n'"
    using sl(1) st cnt by (simp add: insert_at_def n'_def add16_def)
  have f: "slots n' = sl[p := s]" "heap n' = h" "dataOffset n' = d" "count n' = count n + 1" "prefixLen n' = prefixLen n"
    "lowerFence n' = lowerFence n" "upperFence n' = upperFence n" "spaceUsed n' = spaceUsed n + sp" "isLeaf n' = isLeaf n"
    "upperInnerNode n' = upperInnerNode n"
    by (simp_all add: n'_def)
  have used: "used_slots n' = take p (used_slots n) @ s # drop p (used_slots n)"
    using sl(3) p(1) by (simp add: used_slots_def f(1,4) min_def)
  have old: "slot_suffix h t = slot_suffix (heap n) t \<and> slot_payload h t = slot_payload (heap n) t \<and> slot_ok d h (prefixLen n) t"
    if "t \<in> set (used_slots n)" for t
  proof -
    have t: "slot_ok (dataOffset n) (heap n) (prefixLen n) t" using w(9) that by (simp add: list_all_iff)
    then have "dataOffset n \<le> offset t" by (simp add: slot_ok_def)
    then show ?thesis
      using slot_push [OF x(2,3)] slot_ok_push [OF t x(2,3)] x(1) by (simp add: h_def d_def)
  qed
  have dh: "drop d h = (sfx @ payload) @ drop (dataOffset n) (heap n)"
    using take_drop_push [OF x(2,3)] x(1) by (simp add: h_def d_def)
  have lh: "length h = 4096" using length_push [OF x(2,3)] w(2) by (simp add: h_def)
  have new: "slot_suffix h s = sfx" "slot_payload h s = payload"
  proof -
    show "slot_suffix h s = sfx" by (simp add: slot_suffix_def s_def dh)
    have "drop (d + length sfx) h = drop (length sfx) (drop d h)" by (simp add: add.commute)
    then show "slot_payload h s = payload" by (simp add: slot_payload_def s_def dh)
  qed
  have news: "slot_ok d h (prefixLen n) s"
    using new(1) x(4) w(4) lh key b(6) by (simp add: slot_ok_def s_def sp_def)
  have fence: "fence_ok d h (lowerFence n)" "fence_ok d h (upperFence n)" "fence_key h (lowerFence n) = fence_key (heap n) (lowerFence n)"
    "fence_key h (upperFence n) = fence_key (heap n) (upperFence n)"
    using fence_push [OF w(6) x(2,3)] fence_push [OF w(7) x(2,3)] x(1) by (simp_all add: h_def d_def)
  have pre: "node_prefix n' = node_prefix n"
    using w(6) x(2,3) drop_push [OF x(2,3), of "f_offset (lowerFence n)"] b(4)
    by (auto simp: node_prefix_def getPrefix_def f h_def fence_ok_def)
  have map_old: "map (slot_suffix h) (take p (used_slots n)) = take p (map (slot_suffix (heap n)) (used_slots n))"
    "map (slot_suffix h) (drop p (used_slots n)) = drop p (map (slot_suffix (heap n)) (used_slots n))"
    using old by (auto simp: take_map drop_map dest: in_set_takeD in_set_dropD intro!: map_cong)
  let ?L = "map (slot_suffix (heap n)) (used_slots n)"
  have keys: "node_keys n = map (\<lambda>s. node_prefix n @ slot_suffix (heap n) s) (used_slots n)"
    using node_wf_search(2) [OF wf] by (simp add: node_entries_def)
  have srt: "sorted_wrt bytes_less (take p ?L @ sfx # drop p ?L)"
  proof (rule sorted_insert)
    show "\<forall>i < length ?L. i < p \<longleftrightarrow> bytes_less (?L ! i) sfx" using p(2) b(2) by (simp add: keys key(1))
    show "sfx \<notin> set ?L" using key(3) unfolding keys key(1) by auto
  qed (use w(10) p(1) b(2) in simp_all)
  have hint: "hint_ok n'"
    unfolding n'_def using w(5) sl(4) p(1) by (intro updateHint_ok [of n]) simp_all
  have "node_wf n'"
    unfolding node_wf_def f used
  proof (intro conjI)
    show "list_all (slot_ok d h (prefixLen n)) (take p (used_slots n) @ s # drop p (used_slots n))"
      using old news by (auto simp: list_all_iff dest: in_set_takeD in_set_dropD)
    show "sorted_wrt bytes_less (map (slot_suffix h) (take p (used_slots n) @ s # drop p (used_slots n)))"
      using srt by (simp add: map_old new)
    have "sum_list (map slot_space (used_slots n)) = sum_list (map slot_space (take p (used_slots n))) + sum_list (map slot_space (drop p (used_slots n)))"
      by (metis append_take_drop_id map_append sum_list_append)
    then show "spaceUsed n + sp = f_len (lowerFence n) + f_len (upperFence n)
        + sum_list (map slot_space (take p (used_slots n) @ s # drop p (used_slots n)))"
      using w(11) by (simp add: slot_space_def s_def sp_def)
    show "slotEnd (count n + 1) \<le> d" using room x(4) unfolding sp_def by linarith
    show "prefixLen n = common_len (fence_key h (lowerFence n)) (fence_key h (upperFence n))" using w(8) fence by simp
    show "spaceUsed n + sp \<le> 4096 - d" using w(4,12) x(4) by linarith
    have "offset s + slot_space s \<le> dataOffset n" using x(4) by (simp add: s_def slot_space_def sp_def)
    then have "\<forall>r\<in>set (fence_region (lowerFence n) # fence_region (upperFence n) # map region (used_slots n)). apart (region s) r"
      using w(6,7,9) apart_below by (auto simp: list_all_iff)
    then show "sorted_wrt apart (fence_region (lowerFence n) # fence_region (upperFence n) #
        map region (take p (used_slots n) @ s # drop p (used_slots n)))"
      using w(13) by (intro apart_insert) simp_all
  qed (use sl(2) lh w(4) x(4) hint fence in simp_all)
  moreover have "node_entries n' = take p (node_entries n) @ (key, payload) # drop p (node_entries n)"
    unfolding node_entries_def used f pre
    using old new key(1) by (auto simp: take_map drop_map dest: in_set_takeD in_set_dropD)
  ultimately show ?thesis using r f pre fence by (intro that [of n']) simp_all
qed

section \<open>Copying slots and compaction\<close>

lemma slot_agree:
  assumes "drop d h' = drop d h" "d \<le> offset s"
  shows "slot_suffix h' s = slot_suffix h s" "slot_payload h' s = slot_payload h s"
proof -
  have "drop e h' = drop e h" if "d \<le> e" for e
    using arg_cong [OF assms(1), of "drop (e - d)"] that by simp
  then show "slot_suffix h' s = slot_suffix h s" "slot_payload h' s = slot_payload h s"
    using assms(2) by (simp_all add: slot_suffix_def slot_payload_def)
qed

text \<open>A slot \<open>t\<close> of the heap \<open>h'\<close> holds what \<open>s\<close> held in \<open>h\<close>, the key shortened by \<open>diff\<close>.\<close>

definition copied_slot :: "nat \<Rightarrow> u8 list \<Rightarrow> u8 list \<Rightarrow> nat \<Rightarrow> slot \<Rightarrow> slot \<Rightarrow> bool" where
  "copied_slot diff h h' d s t =
     (slot_suffix h' t = drop diff (slot_suffix h s) \<and> slot_payload h' t = slot_payload h s
      \<and> keyLen t = keyLen s - diff \<and> payloadLen t = payloadLen s \<and> slot_head t = head (slot_suffix h' t)
      \<and> d \<le> offset t \<and> offset t + keyLen t + payloadLen t \<le> length h')"

definition copy_fits :: "nat \<Rightarrow> slot \<Rightarrow> bool" where
  "copy_fits diff s = (diff \<le> keyLen s \<and> offset s + keyLen s + payloadLen s \<le> 4096)"

lemma copied_slot_push:
  assumes s: "copy_fits diff s" "length h = 4096" and sp: "sp = keyLen s - diff + payloadLen s"
    and d: "sp \<le> d" "d \<le> 4096" "length h1 = 4096"
    and t: "t = \<lparr>offset = d - sp, keyLen = keyLen s - diff, payloadLen = payloadLen s,
                 slot_head = head (take (keyLen s - diff) (drop diff (drop (offset s) h)))\<rparr>"
  shows "copied_slot diff h (push h1 d (take sp (drop diff (drop (offset s) h)))) (d - sp) s t"
proof -
  let ?x = "take sp (drop diff (drop (offset s) h))"
  let ?h = "push h1 d ?x"
  have f: "diff \<le> keyLen s" "offset s + keyLen s + payloadLen s \<le> 4096" using s(1) by (simp_all add: copy_fits_def)
  have x: "length ?x = sp" using f s(2) sp by simp
  have lx: "length ?x \<le> d" "d \<le> length h1" using d x by simp_all
  have dr: "drop (d - sp) ?h = ?x @ drop d h1" using take_drop_push [OF lx] x by simp
  have k: "slot_suffix h s = take (keyLen s) (drop (offset s) h)" by (simp add: slot_suffix_def)
  have suf: "slot_suffix ?h t = take (keyLen s - diff) (drop diff (drop (offset s) h))"
  proof -
    have "slot_suffix ?h t = take (keyLen s - diff) (drop (d - sp) ?h)" by (simp add: slot_suffix_def t)
    also have "\<dots> = take (keyLen s - diff) ?x" unfolding dr using x sp by simp
    also have "\<dots> = take (keyLen s - diff) (drop diff (drop (offset s) h))" using sp by (simp add: min_def)
    finally show ?thesis .
  qed
  have suf': "slot_suffix ?h t = drop diff (slot_suffix h s)" unfolding suf k by (simp add: drop_take)
  have "slot_payload ?h t = take (payloadLen s) (drop (keyLen s - diff) (drop (d - sp) ?h))"
    by (simp add: slot_payload_def t add.commute)
  also have "\<dots> = take (payloadLen s) (drop (keyLen s - diff) ?x)" using x sp unfolding dr by simp
  also have "drop (keyLen s - diff) ?x = take (payloadLen s) (drop (offset s + keyLen s) h)"
    using f(1) sp by (simp add: drop_take add.commute)
  finally have "slot_payload ?h t = slot_payload h s" by (simp add: slot_payload_def min_def)
  then show ?thesis
    using suf suf' d sp f(1) length_push [OF lx] by (simp add: copied_slot_def t)
qed

lemma copy_shortened_eq:
  assumes "copy_fits diff (slots src ! sS)" "length (heap src) = 4096" "length (heap dst) = 4096" "dS < length (slots dst)"
    "sp = keyLen (slots src ! sS) - diff + payloadLen (slots src ! sS)" "sp \<le> dataOffset dst" "dataOffset dst \<le> 4096"
    "spaceUsed dst + sp \<le> 4096"
  shows "copy_shortened src diff dst dS sS = Some (dst\<lparr>
     slots := (slots dst)[dS := \<lparr>offset = dataOffset dst - sp, keyLen = keyLen (slots src ! sS) - diff,
       payloadLen = payloadLen (slots src ! sS),
       slot_head = head (take (keyLen (slots src ! sS) - diff) (drop diff (drop (offset (slots src ! sS)) (heap src))))\<rparr>],
     dataOffset := dataOffset dst - sp, spaceUsed := spaceUsed dst + sp,
     heap := push (heap dst) (dataOffset dst) (take sp (drop diff (drop (offset (slots src ! sS)) (heap src))))\<rparr>)"
proof -
  let ?s = "slots src ! sS"
  have f: "diff \<le> keyLen ?s" "offset ?s + keyLen ?s + payloadLen ?s \<le> 4096" using assms(1) by (simp_all add: copy_fits_def)
  have k: "sub32 (keyLen ?s) diff = keyLen ?s - diff" using f by (intro sub32_le) simp_all
  have m: "(keyLen ?s - diff + payloadLen ?s) mod 4294967296 = sp" "(keyLen ?s - diff) mod 65536 = keyLen ?s - diff"
    using f assms(5) by simp_all
  have e: "sub16 (dataOffset dst) sp = dataOffset dst - sp" using assms by (intro sub16_le) simp_all
  have a: "add16 (spaceUsed dst) sp = spaceUsed dst + sp" using assms(8) by (intro add16_small) simp
  have x: "length (drop diff (getKey src sS)) \<ge> sp" using f assms(2,5) by (simp add: getKey_def)
  have c: "custom_memcpy (heap dst) (dataOffset dst - sp) (drop diff (getKey src sS)) sp
      = Some (push (heap dst) (dataOffset dst) (take sp (drop diff (drop (offset ?s) (heap src)))))"
    using assms(3,6,7) x by (subst custom_memcpy_eq) (simp_all add: push_def getKey_def min_def)
  show ?thesis
    using assms(4) c by (simp add: copy_shortened_def Let_def k m e a set_slot_def getKey_def)
qed

lemma copy_loop_ok:
  "\<forall>s \<in> set (map ((!) (slots src)) [sS..<sS + k]). copy_fits diff s \<Longrightarrow> length (heap src) = 4096 \<Longrightarrow>
   length (heap dst) = 4096 \<Longrightarrow> length (slots dst) = 399 \<Longrightarrow> dS + k \<le> 399 \<Longrightarrow>
   tot = sum_list (map (\<lambda>s. keyLen s - diff + payloadLen s) (map ((!) (slots src)) [sS..<sS + k])) \<Longrightarrow>
   tot \<le> dataOffset dst \<Longrightarrow> dataOffset dst \<le> 4096 \<Longrightarrow> spaceUsed dst + tot \<le> 4096 \<Longrightarrow>
   \<exists>sl h ts. copy_loop (copy_shortened src diff) dst dS sS k
       = Some (dst\<lparr>slots := sl, dataOffset := dataOffset dst - tot, spaceUsed := spaceUsed dst + tot, heap := h\<rparr>)
     \<and> length sl = 399 \<and> length h = 4096 \<and> drop (dataOffset dst) h = drop (dataOffset dst) (heap dst)
     \<and> take (dS + k) sl = take dS (slots dst) @ ts
     \<and> list_all2 (copied_slot diff (heap src) h (dataOffset dst - tot)) (map ((!) (slots src)) [sS..<sS + k]) ts
     \<and> list_all (\<lambda>t. offset t + slot_space t \<le> dataOffset dst) ts \<and> sorted_wrt apart (map region ts)"
proof (induction k arbitrary: dst dS sS tot)
  case 0
  then show ?case by (intro exI [of _ "slots dst"] exI [of _ "heap dst"] exI [of _ "[]"]) simp
next
  case (Suc k)
  let ?s = "slots src ! sS"
  define sp where "sp = keyLen ?s - diff + payloadLen ?s"
  define x where "x = take sp (drop diff (drop (offset ?s) (heap src)))"
  define t where "t = \<lparr>offset = dataOffset dst - sp, keyLen = keyLen ?s - diff, payloadLen = payloadLen ?s,
       slot_head = head (take (keyLen ?s - diff) (drop diff (drop (offset ?s) (heap src))))\<rparr>"
  define dst1 where "dst1 = dst\<lparr>slots := (slots dst)[dS := t], dataOffset := dataOffset dst - sp,
       spaceUsed := spaceUsed dst + sp, heap := push (heap dst) (dataOffset dst) x\<rparr>"
  have rng: "[sS..<sS + Suc k] = sS # [Suc sS..<Suc sS + k]" by (simp add: upt_rec)
  define tot1 where "tot1 = sum_list (map (\<lambda>s. keyLen s - diff + payloadLen s) (map ((!) (slots src)) [Suc sS..<Suc sS + k]))"
  have tot: "tot = sp + tot1" using Suc.prems(6) unfolding rng by (simp add: sp_def tot1_def)
  have fit: "copy_fits diff ?s" using Suc.prems(1) unfolding rng by simp
  have lx: "length x = sp" "length x \<le> dataOffset dst" "dataOffset dst \<le> length (heap dst)"
  proof -
    have "sp \<le> length (heap src) - offset ?s - diff"
      using fit Suc.prems(2) unfolding sp_def copy_fits_def by linarith
    then show "length x = sp" unfolding x_def length_take length_drop by (rule min.absorb2)
    then show "length x \<le> dataOffset dst" using Suc.prems(7) tot by simp
  qed (use Suc.prems in simp)
  have step: "copy_shortened src diff dst dS sS = Some dst1"
    unfolding dst1_def t_def x_def
    by (rule copy_shortened_eq) (use fit Suc.prems tot in \<open>simp_all add: sp_def\<close>)
  have d1: "slots dst1 = (slots dst)[dS := t]" "dataOffset dst1 = dataOffset dst - sp" "spaceUsed dst1 = spaceUsed dst + sp"
    "heap dst1 = push (heap dst) (dataOffset dst) x" by (simp_all add: dst1_def)
  have "\<exists>sl h ts. copy_loop (copy_shortened src diff) dst1 (Suc dS) (Suc sS) k
       = Some (dst1\<lparr>slots := sl, dataOffset := dataOffset dst1 - tot1, spaceUsed := spaceUsed dst1 + tot1, heap := h\<rparr>)
     \<and> length sl = 399 \<and> length h = 4096 \<and> drop (dataOffset dst1) h = drop (dataOffset dst1) (heap dst1)
     \<and> take (Suc dS + k) sl = take (Suc dS) (slots dst1) @ ts
     \<and> list_all2 (copied_slot diff (heap src) h (dataOffset dst1 - tot1)) (map ((!) (slots src)) [Suc sS..<Suc sS + k]) ts
     \<and> list_all (\<lambda>t. offset t + slot_space t \<le> dataOffset dst1) ts \<and> sorted_wrt apart (map region ts)"
    using Suc.prems tot lx length_push [OF lx(2,3)] unfolding rng
    by (intro Suc.IH) (simp_all add: d1 tot1_def)
  then obtain sl h ts where ih: "copy_loop (copy_shortened src diff) dst1 (Suc dS) (Suc sS) k
       = Some (dst1\<lparr>slots := sl, dataOffset := dataOffset dst1 - tot1, spaceUsed := spaceUsed dst1 + tot1, heap := h\<rparr>)"
     "length sl = 399" "length h = 4096" "drop (dataOffset dst1) h = drop (dataOffset dst1) (heap dst1)"
     "take (Suc dS + k) sl = take (Suc dS) (slots dst1) @ ts"
     "list_all2 (copied_slot diff (heap src) h (dataOffset dst1 - tot1)) (map ((!) (slots src)) [Suc sS..<Suc sS + k]) ts"
     "list_all (\<lambda>t. offset t + slot_space t \<le> dataOffset dst1) ts" "sorted_wrt apart (map region ts)"
    by blast
  have eq: "dataOffset dst1 - tot1 = dataOffset dst - tot" "spaceUsed dst1 + tot1 = spaceUsed dst + tot"
    using tot d1 by simp_all
  have c1: "copied_slot diff (heap src) (heap dst1) (dataOffset dst - sp) ?s t"
    unfolding d1 x_def by (rule copied_slot_push) (use fit Suc.prems tot in \<open>simp_all add: sp_def t_def\<close>)
  have c: "copied_slot diff (heap src) h (dataOffset dst - tot) ?s t"
  proof -
    have ofs: "offset t = dataOffset dst1" by (simp add: t_def d1)
    show ?thesis
      using c1 slot_agree [OF ih(4), of t] ofs ih(3) length_push [OF lx(2,3)] Suc.prems(3) tot
      by (simp add: copied_slot_def d1)
  qed
  have "drop (dataOffset dst) h = drop (dataOffset dst) (heap dst)"
  proof -
    have "drop (dataOffset dst) h = drop sp (drop (dataOffset dst1) h)" using Suc.prems(7) tot by (simp add: d1)
    also have "\<dots> = drop (dataOffset dst) (heap dst1)" unfolding ih(4) using Suc.prems(7) tot by (simp add: d1)
    also have "\<dots> = drop (dataOffset dst) (heap dst)" using drop_push [OF lx(2,3)] by (simp add: d1)
    finally show ?thesis .
  qed
  moreover have "take (dS + Suc k) sl = take dS (slots dst) @ t # ts"
  proof -
    have "take (Suc dS) (slots dst1) = take dS (slots dst) @ [t]"
      using Suc.prems(4,5) by (simp add: d1 take_Suc_conv_app_nth)
    then show ?thesis using ih(5) by simp
  qed
  moreover have "copy_loop (copy_shortened src diff) dst dS sS (Suc k)
      = Some (dst\<lparr>slots := sl, dataOffset := dataOffset dst - tot, spaceUsed := spaceUsed dst + tot, heap := h\<rparr>)"
    using step ih(1) unfolding eq by (simp add: dst1_def)
  moreover have "list_all2 (copied_slot diff (heap src) h (dataOffset dst - tot)) (map ((!) (slots src)) [sS..<sS + Suc k]) (t # ts)"
    unfolding rng using c ih(6) unfolding eq by simp
  moreover have "list_all (\<lambda>t. offset t + slot_space t \<le> dataOffset dst) (t # ts)"
  proof -
    have "offset t + slot_space t = dataOffset dst" using tot Suc.prems(7) by (simp add: t_def slot_space_def sp_def)
    then show ?thesis using ih(7) by (auto simp: list_all_iff d1)
  qed
  moreover have "sorted_wrt apart (map region (t # ts))"
    using ih(7,8) by (auto simp: list_all_iff region_def apart_def d1 t_def)
  ultimately show ?case using ih(2,3) by blast
qed

definition uninit_ok :: "btree_node \<Rightarrow> bool" where
  "uninit_ok u = (length (slots u) = 399 \<and> length (heap u) = 4096 \<and> length (hint u) = 16)"

lemma setFences_ok:
  assumes u: "uninit_ok u" and l: "length lf \<le> 64" "length uf \<le> 64"
  obtains h where "setFences (btree_new u leaf) lf uf = Some ((btree_new u leaf)\<lparr>
      lowerFence := \<lparr>f_offset = 4096 - length lf, f_len = length lf\<rparr>,
      upperFence := \<lparr>f_offset = 4096 - length lf - length uf, f_len = length uf\<rparr>,
      dataOffset := 4096 - length lf - length uf, spaceUsed := length lf + length uf,
      prefixLen := common_len lf uf, heap := h\<rparr>)" "length h = 4096"
    "take (length lf) (drop (4096 - length lf) h) = lf" "take (length uf) (drop (4096 - length lf - length uf) h) = uf"
proof -
  define h1 where "h1 = push (heap u) 4096 lf"
  define h where "h = push h1 (4096 - length lf) uf"
  have hu: "length (heap u) = 4096" using u by (simp add: uninit_ok_def)
  have l1: "length h1 = 4096" using length_push [of lf 4096 "heap u"] hu l by (simp add: h1_def)
  have l2: "length h = 4096" using length_push [of uf "4096 - length lf" h1] l1 l by (simp add: h_def)
  have c1: "custom_memcpy (heap u) (4096 - length lf) lf (length lf) = Some h1"
    unfolding h1_def by (rule custom_memcpy_push) (use hu l in simp_all)
  have c2: "custom_memcpy h1 (4096 - length lf - length uf) uf (length uf) = Some h"
    unfolding h_def by (rule custom_memcpy_push) (use l1 l in simp_all)
  have s: "sub16 4096 (length lf) = 4096 - length lf" "sub16 (4096 - length lf) (length uf) = 4096 - length lf - length uf"
    "add16 0 (length lf) = length lf" "add16 (length lf) (length uf) = length lf + length uf"
    "length lf mod 65536 = length lf" "length uf mod 65536 = length uf"
    using l by (simp_all add: sub16_le add16_small)
  have r: "setFences (btree_new u leaf) lf uf = Some ((btree_new u leaf)\<lparr>
      lowerFence := \<lparr>f_offset = 4096 - length lf, f_len = length lf\<rparr>,
      upperFence := \<lparr>f_offset = 4096 - length lf - length uf, f_len = length uf\<rparr>,
      dataOffset := 4096 - length lf - length uf, spaceUsed := length lf + length uf,
      prefixLen := common_len lf uf, heap := h\<rparr>)"
    using c1 c2 by (simp add: setFences_def insertFence_def btree_new_def s Let_def)
  have "drop (4096 - length lf) h1 = lf @ drop 4096 (heap u)"
    using take_drop_push [of lf 4096 "heap u"] hu l by (simp add: h1_def)
  moreover have "drop (4096 - length lf) h = drop (4096 - length lf) h1"
    using drop_push [of uf "4096 - length lf" h1 "4096 - length lf"] l1 l by (simp add: h_def)
  ultimately have "take (length lf) (drop (4096 - length lf) h) = lf" by simp
  moreover have "take (length uf) (drop (4096 - length lf - length uf) h) = uf"
    using take_drop_push [of uf "4096 - length lf" h1] l1 l by (simp add: h_def)
  ultimately show ?thesis using r l2 by (intro that)
qed

lemma makeHint_ok: "hint_ok (makeHint n)"
  by (simp add: hint_ok_def makeHint_def Let_def)

lemma node_prefix_fence:
  "prefixLen n \<le> f_len (lowerFence n) \<Longrightarrow> node_prefix n = take (prefixLen n) (fence_key (heap n) (lowerFence n))"
  by (simp add: node_prefix_def getPrefix_def fence_key_def min_def)

lemma getFence_ok:
  assumes "node_wf n"
  shows "getLowerFence n = Some (fence_key (heap n) (lowerFence n))" "getUpperFence n = Some (fence_key (heap n) (upperFence n))"
    "length (fence_key (heap n) (lowerFence n)) = f_len (lowerFence n)" "length (fence_key (heap n) (upperFence n)) = f_len (upperFence n)"
    "f_len (lowerFence n) \<le> 64" "f_len (upperFence n) \<le> 64"
proof -
  have f: "fence_ok (dataOffset n) (heap n) (lowerFence n)" "fence_ok (dataOffset n) (heap n) (upperFence n)"
    using assms unfolding node_wf_def by blast+
  then show "getLowerFence n = Some (fence_key (heap n) (lowerFence n))" "getUpperFence n = Some (fence_key (heap n) (upperFence n))"
    by (simp_all add: getLowerFence_def getUpperFence_def span_def fence_key_def fence_ok_def)
  show "f_len (lowerFence n) \<le> 64" "f_len (upperFence n) \<le> 64" using f by (simp_all add: fence_ok_def)
  have "f_len f \<le> length (heap n) - f_offset f" if "fence_ok (dataOffset n) (heap n) f" for f
    using that unfolding fence_ok_def by linarith
  then show "length (fence_key (heap n) (lowerFence n)) = f_len (lowerFence n)" "length (fence_key (heap n) (upperFence n)) = f_len (upperFence n)"
    using f by (simp_all add: fence_key_def)
qed

lemma copied_slots_same:
  assumes "list_all2 (copied_slot 0 h h' d) ss ts"
  shows "map (slot_suffix h') ts = map (slot_suffix h) ss" "map (slot_payload h') ts = map (slot_payload h) ss"
    "map slot_space ts = map slot_space ss" "map keyLen ts = map keyLen ss"
    "list_all (\<lambda>t. d \<le> offset t \<and> offset t + keyLen t + payloadLen t \<le> length h' \<and> slot_head t = head (slot_suffix h' t)) ts"
  using assms by (induction rule: list_all2_induct) (auto simp: copied_slot_def slot_space_def)

lemma compactify_ok:
  assumes wf: "node_wf n" and u: "uninit_ok u"
  obtains n' where "compactify u n = Some n'" "node_wf n'" "node_entries n' = node_entries n" "node_prefix n' = node_prefix n"
    "dataOffset n' = 4096 - spaceUsed n" "count n' = count n" "spaceUsed n' = spaceUsed n" "prefixLen n' = prefixLen n"
    "fence_key (heap n') (lowerFence n') = fence_key (heap n) (lowerFence n)"
    "fence_key (heap n') (upperFence n') = fence_key (heap n) (upperFence n)"
    "isLeaf n' = isLeaf n" "upperInnerNode n' = upperInnerNode n" "dirty n' = dirty n"
proof -
  note b = node_wf_bounds [OF wf] and fe = getFence_ok [OF wf]
  have w: "length (slots n) = 399" "length (heap n) = 4096" "slotEnd (count n) \<le> dataOffset n" "dataOffset n \<le> 4096"
    "prefixLen n = common_len (fence_key (heap n) (lowerFence n)) (fence_key (heap n) (upperFence n))"
    "list_all (slot_ok (dataOffset n) (heap n) (prefixLen n)) (used_slots n)"
    "sorted_wrt bytes_less (map (slot_suffix (heap n)) (used_slots n))"
    "spaceUsed n = f_len (lowerFence n) + f_len (upperFence n) + sum_list (map slot_space (used_slots n))"
    "spaceUsed n \<le> 4096 - dataOffset n"
    using wf unfolding node_wf_def by blast+
  define lf uf where "lf = fence_key (heap n) (lowerFence n)" "uf = fence_key (heap n) (upperFence n)"
  note fd = this
  have l: "length lf \<le> 64" "length uf \<le> 64" "length lf = f_len (lowerFence n)" "length uf = f_len (upperFence n)"
    using fe by (simp_all add: fd)
  obtain h0 where t0: "setFences (btree_new u (isLeaf n)) lf uf = Some ((btree_new u (isLeaf n))\<lparr>
      lowerFence := \<lparr>f_offset = 4096 - length lf, f_len = length lf\<rparr>,
      upperFence := \<lparr>f_offset = 4096 - length lf - length uf, f_len = length uf\<rparr>,
      dataOffset := 4096 - length lf - length uf, spaceUsed := length lf + length uf,
      prefixLen := common_len lf uf, heap := h0\<rparr>)" (is "_ = Some ?t0")
    and h0: "length h0 = 4096" "take (length lf) (drop (4096 - length lf) h0) = lf"
      "take (length uf) (drop (4096 - length lf - length uf) h0) = uf"
    using setFences_ok [OF u l(1,2), of "isLeaf n"] by metis
  define tot where "tot = sum_list (map slot_space (used_slots n))"
  have us: "map ((!) (slots n)) [0..<0 + count n] = used_slots n"
    using b(1) w(1) by (intro nth_equalityI) (simp_all add: used_slots_def)
  have sp: "length lf + length uf + tot = spaceUsed n" using w(8) l by (simp add: tot_def)
  have "\<exists>sl h ts. copy_loop (copy_shortened n 0) ?t0 0 0 (count n)
       = Some (?t0\<lparr>slots := sl, dataOffset := dataOffset ?t0 - tot, spaceUsed := spaceUsed ?t0 + tot, heap := h\<rparr>)
     \<and> length sl = 399 \<and> length h = 4096 \<and> drop (dataOffset ?t0) h = drop (dataOffset ?t0) (heap ?t0)
     \<and> take (0 + count n) sl = take 0 (slots ?t0) @ ts
     \<and> list_all2 (copied_slot 0 (heap n) h (dataOffset ?t0 - tot)) (map ((!) (slots n)) [0..<0 + count n]) ts
     \<and> list_all (\<lambda>t. offset t + slot_space t \<le> dataOffset ?t0) ts \<and> sorted_wrt apart (map region ts)"
  proof (rule copy_loop_ok, unfold us)
    show "\<forall>s \<in> set (used_slots n). copy_fits 0 s" using w(2,6) by (auto simp: list_all_iff slot_ok_def copy_fits_def)
    show "tot = sum_list (map (\<lambda>s. keyLen s - 0 + payloadLen s) (used_slots n))"
      by (simp add: tot_def slot_space_def [abs_def])
  qed (use u b(1) w sp h0 in \<open>auto simp: uninit_ok_def btree_new_def\<close>)
  then obtain sl h ts where c: "copy_loop (copy_shortened n 0) ?t0 0 0 (count n)
       = Some (?t0\<lparr>slots := sl, dataOffset := dataOffset ?t0 - tot, spaceUsed := spaceUsed ?t0 + tot, heap := h\<rparr>)"
     "length sl = 399" "length h = 4096" "drop (4096 - length lf - length uf) h = drop (4096 - length lf - length uf) h0"
     "take (count n) sl = ts" "list_all2 (copied_slot 0 (heap n) h (4096 - length lf - length uf - tot)) (used_slots n) ts"
     "list_all (\<lambda>t. offset t + slot_space t \<le> 4096 - length lf - length uf) ts" "sorted_wrt apart (map region ts)"
    unfolding us by auto
  define n' where "n' = makeHint (?t0\<lparr>slots := sl, dataOffset := 4096 - spaceUsed n, spaceUsed := spaceUsed n, heap := h,
     count := count n, upperInnerNode := upperInnerNode n, dirty := dirty n\<rparr>)"
  have d: "4096 - length lf - length uf - tot = 4096 - spaceUsed n" using sp by linarith
  have r: "compactify u n = Some n'"
    using c(1) t0 fe(1,2) w(5) sp b(1) d
    by (simp add: compactify_def fd [symmetric] copyKeyValueRange_def n'_def copyNode_def Let_def add16_def btree_new_def)
  have f: "slots n' = sl" "heap n' = h" "dataOffset n' = 4096 - spaceUsed n" "spaceUsed n' = spaceUsed n" "count n' = count n"
    "prefixLen n' = prefixLen n" "lowerFence n' = \<lparr>f_offset = 4096 - length lf, f_len = length lf\<rparr>"
    "upperFence n' = \<lparr>f_offset = 4096 - length lf - length uf, f_len = length uf\<rparr>" "isLeaf n' = isLeaf n"
    "upperInnerNode n' = upperInnerNode n" "dirty n' = dirty n"
    using w(5) by (simp_all add: n'_def fd btree_new_def)
  have used: "used_slots n' = ts" using c(5) by (simp add: used_slots_def f)
  have hfk: "fence_key h (lowerFence n') = lf" "fence_key h (upperFence n') = uf"
  proof -
    define k where "k = 4096 - length lf - length uf"
    have k: "length uf + k = 4096 - length lf" using l by (simp add: k_def)
    have eq: "drop k h = drop k h0" using c(4) by (simp only: k_def)
    have "drop (length uf + k) h = drop (length uf + k) h0"
      using arg_cong [OF eq, of "drop (length uf)"] by (simp only: drop_drop)
    then have "drop (4096 - length lf) h = drop (4096 - length lf) h0" unfolding k .
    then show "fence_key h (lowerFence n') = lf" using h0(2) by (simp only: fence_key_def f fence.simps)
    show "fence_key h (upperFence n') = uf" using h0(3) eq by (simp only: fence_key_def f fence.simps k_def)
  qed
  note same = copied_slots_same [OF c(6) [unfolded d]]
  have le: "spaceUsed n \<le> 4096" "length lf + length uf \<le> spaceUsed n" using w(9) sp by simp_all
  have pre: "node_prefix n' = node_prefix n"
    using node_prefix_fence [of n'] node_prefix_fence [OF b(4)] b(4) hfk(1) l(3) by (simp add: f fd)
  have "node_wf n'"
    unfolding node_wf_def used f(1-6) hfk
  proof (intro conjI)
    have "list_all (\<lambda>k. prefixLen n + k \<le> 64) (map keyLen (used_slots n))" using w(6) by (simp add: list_all_iff slot_ok_def)
    then have "list_all (\<lambda>t. prefixLen n + keyLen t \<le> 64) ts" unfolding same(4) [symmetric] by (simp add: list_all_iff)
    then show "list_all (slot_ok (4096 - spaceUsed n) h (prefixLen n)) ts"
      using same(5) by (auto simp: list_all_iff slot_ok_def)
    show "hint_ok n'" unfolding n'_def by (rule makeHint_ok)
    show "slotEnd (count n) \<le> 4096 - spaceUsed n" using w(3,4,9) by linarith
    show "fence_ok (4096 - spaceUsed n) h (lowerFence n')" "fence_ok (4096 - spaceUsed n) h (upperFence n')"
      using l le c(3) by (auto simp: fence_ok_def f)
    show "sorted_wrt apart (fence_region (lowerFence n') # fence_region (upperFence n') # map region ts)"
      using c(7,8) l by (auto simp: f fence_region_def region_def apart_def list_all_iff)
  qed (use c w l fd same f in \<open>simp_all add: tot_def\<close>)
  moreover have "node_entries n' = node_entries n"
  proof -
    have z: "node_entries m = map2 (\<lambda>s p. (node_prefix m @ s, p)) (map (slot_suffix (heap m)) (used_slots m)) (map (slot_payload (heap m)) (used_slots m))" for m
      by (simp add: node_entries_def zip_map1 zip_map2 zip_same_conv_map)
    show ?thesis unfolding z [of n'] z [of n] used f(2) same(1,2) pre ..
  qed
  ultimately show ?thesis using r f hfk pre by (intro that [of n']) (simp_all add: fd)
qed

section \<open>Insertion and removal\<close>

lemma freeSpace_eq:
  assumes "node_wf n"
  shows "freeSpace n = dataOffset n - slotEnd (count n)"
    "freeSpaceAfterCompaction n = 4096 - slotEnd (count n) - spaceUsed n"
    "slotEnd (count n) + spaceUsed n \<le> 4096"
proof -
  have w: "slotEnd (count n) \<le> dataOffset n" "dataOffset n \<le> 4096" "spaceUsed n \<le> 4096 - dataOffset n"
    using assms unfolding node_wf_def by blast+
  then show "slotEnd (count n) + spaceUsed n \<le> 4096" by linarith
  then show "freeSpaceAfterCompaction n = 4096 - slotEnd (count n) - spaceUsed n"
    by (simp add: freeSpaceAfterCompaction_def sub32_le)
  show "freeSpace n = dataOffset n - slotEnd (count n)" using w by (simp add: freeSpace_def sub32_le)
qed

lemma slotEnd_Suc: "slotEnd (c + 1) = slotEnd c + 10"
  by (simp add: slotEnd_def)

lemma spaceNeeded_eq:
  assumes "node_wf n" "key = node_prefix n @ sfx" "length key \<le> 64" "length payload \<le> 4096"
  shows "spaceNeeded n (length key) (length payload) = 10 + length sfx + length payload"
proof -
  have "length key = prefixLen n + length sfx" using assms(1,2) node_wf_bounds(6) by simp
  then have "sub32 (length key) (prefixLen n) = length sfx" using assms(3) by (simp add: sub32_le)
  then show ?thesis using assms(2,3,4) by (simp add: spaceNeeded_def)
qed

text \<open>The list of entries with a key put at its place.\<close>

definition put :: "u8 list \<Rightarrow> 'v \<Rightarrow> (u8 list \<times> 'v) list \<Rightarrow> (u8 list \<times> 'v) list" where
  "put k v es = filter (\<lambda>e. bytes_less (fst e) k) es @ (k, v) # filter (\<lambda>e. \<not> bytes_less (fst e) k) es"

lemma rank_split:
  assumes "p \<le> length es" "\<forall>i < length es. i < p \<longleftrightarrow> P (es ! i)"
  shows "take p es = filter P es" "drop p es = filter (\<lambda>e. \<not> P e) es"
proof -
  have t: "P x" if "x \<in> set (take p es)" for x
  proof -
    obtain i where "i < length (take p es)" "x = take p es ! i" using \<open>x \<in> _\<close> unfolding in_set_conv_nth by blast
    then have "i < p" "x = es ! i" by simp_all
    then show ?thesis using assms by (metis less_le_trans)
  qed
  have d: "\<not> P x" if "x \<in> set (drop p es)" for x
  proof -
    obtain i where "i < length es - p" "x = es ! (p + i)" using \<open>x \<in> _\<close> assms(1) by (auto simp: in_set_conv_nth)
    moreover from this have "p + i < length es" by linarith
    ultimately show ?thesis using assms(2) by (metis not_add_less1)
  qed
  have e: "filter Q es = filter Q (take p es) @ filter Q (drop p es)" for Q
    by (metis append_take_drop_id filter_append)
  show "take p es = filter P es" "drop p es = filter (\<lambda>e. \<not> P e) es"
    unfolding e using t d by (auto simp: filter_id_conv filter_empty_conv)
qed

lemma insertInPage_ok:
  assumes wf: "node_wf n" and u: "uninit_ok u" and key: "key = node_prefix n @ sfx" "length key \<le> 64" "key \<notin> set (node_keys n)"
    and len: "length payload \<le> 4096" and room: "hasSpaceFor n (length key) (length payload)"
  obtains n' where "insertInPage u n key payload = Some n'" "node_wf n'"
    "node_entries n' = put key payload (node_entries n)"
    "fence_key (heap n') (lowerFence n') = fence_key (heap n) (lowerFence n)"
    "fence_key (heap n') (upperFence n') = fence_key (heap n) (upperFence n)"
    "isLeaf n' = isLeaf n" "upperInnerNode n' = upperInnerNode n" "node_prefix n' = node_prefix n"
proof -
  let ?need = "10 + length sfx + length payload"
  have need: "spaceNeeded n (length key) (length payload) = ?need" by (rule spaceNeeded_eq [OF wf key(1,2) len])
  note free = freeSpace_eq [OF wf]
  obtain m where m: "(if ?need > freeSpace n then compactify u n else Some n) = Some m" "node_wf m" "node_entries m = node_entries n"
    "node_prefix m = node_prefix n" "count m = count n" "slotEnd (count m + 1) + (length sfx + length payload) \<le> dataOffset m"
    "fence_key (heap m) (lowerFence m) = fence_key (heap n) (lowerFence n)"
    "fence_key (heap m) (upperFence m) = fence_key (heap n) (upperFence n)" "isLeaf m = isLeaf n" "upperInnerNode m = upperInnerNode n"
  proof (cases "?need > freeSpace n")
    case True
    obtain n' where n': "compactify u n = Some n'" "node_wf n'" "node_entries n' = node_entries n" "node_prefix n' = node_prefix n"
      "dataOffset n' = 4096 - spaceUsed n" "count n' = count n"
      "fence_key (heap n') (lowerFence n') = fence_key (heap n) (lowerFence n)"
      "fence_key (heap n') (upperFence n') = fence_key (heap n) (upperFence n)" "isLeaf n' = isLeaf n" "upperInnerNode n' = upperInnerNode n"
      using compactify_ok [OF wf u] by metis
    have "?need \<le> 4096 - slotEnd (count n) - spaceUsed n" using room by (simp only: hasSpaceFor_def need free)
    then have "slotEnd (count n' + 1) + (length sfx + length payload) \<le> dataOffset n'"
      using free(3) unfolding n'(5,6) slotEnd_Suc by linarith
    then show ?thesis using True n' by (intro that [of n']) simp_all
  next
    case False
    have "slotEnd (count n) \<le> dataOffset n" using wf unfolding node_wf_def by blast
    then have "slotEnd (count n + 1) + (length sfx + length payload) \<le> dataOffset n"
      using False free(1) unfolding slotEnd_Suc by linarith
    then show ?thesis using False wf by (intro that [of n]) simp_all
  qed
  have keys: "node_keys m = map fst (node_entries n)" "node_keys n = map fst (node_entries n)"
    using node_wf_search(2) [OF m(2)] node_wf_search(2) [OF wf] m(3) by simp_all
  obtain p where p: "lowerBound m key = Some (p, key \<in> set (node_keys m))" "p \<le> count m"
    "\<forall>i < count m. i < p \<longleftrightarrow> bytes_less (node_keys m ! i) key"
    using lowerBound_rank [OF node_wf_search(1) [OF m(2)] key(2)] by metis
  obtain n' where n': "insert_at m p key payload = Some n'" "node_wf n'"
    "node_entries n' = take p (node_entries m) @ (key, payload) # drop p (node_entries m)"
    "lowerFence n' = lowerFence m" "upperFence n' = upperFence m" "isLeaf n' = isLeaf m"
    "upperInnerNode n' = upperInnerNode m" "node_prefix n' = node_prefix m"
    "fence_key (heap n') (lowerFence n') = fence_key (heap m) (lowerFence m)"
    "fence_key (heap n') (upperFence n') = fence_key (heap m) (upperFence m)"
    using insert_at_ok [OF m(2) _ key(2) _ m(6) p(2,3)] key(1,3) m(4) keys by metis
  have ne: "length (node_entries n) = count m" using keys(1) by (metis length_map map_nth node_keys_def length_upt minus_nat.diff_0)
  have split: "node_entries n' = put key payload (node_entries n)"
    using rank_split [of p "node_entries n" "\<lambda>e. bytes_less (fst e) key"] p(2,3) ne unfolding n'(3) m(3) put_def
    by (simp add: keys)
  have "insertInPage u n key payload = Some n'"
    using n'(1) m(1) p(1) by (simp add: insertInPage_def need Let_def insert_at_def)
  then show ?thesis using n' m split by (intro that [of n']) simp_all
qed

lemma remove_slots:
  assumes "length xs = 399" "c \<le> 399" "i < c"
  obtains sl where "memmove_slots xs i (i + 1) (c - i - 1) = Some sl" "length sl = 399"
    "take (c - 1) sl = take i (take c xs) @ drop (i + 1) (take c xs)"
proof -
  define sl where "sl = take i xs @ take (c - i - 1) (drop (i + 1) xs) @ drop (i + (c - i - 1)) xs"
  have m: "memmove_slots xs i (i + 1) (c - i - 1) = Some sl" using assms by (simp add: memmove_slots_def sl_def)
  have t: "take (c - 1) sl = take i xs @ take (c - i - 1) (drop (i + 1) xs)"
    using assms by (simp add: sl_def)
  have "take i xs @ take (c - i - 1) (drop (i + 1) xs) = take i (take c xs) @ drop (i + 1) (take c xs)"
    using assms by (simp add: drop_take min_def)
  then show ?thesis using m t assms by (intro that [of sl]) (simp_all add: sl_def)
qed

lemma removeSlot_ok:
  assumes wf: "node_wf n" and i: "i < count n"
  obtains n' where "removeSlot n i = Some n'" "node_wf n'"
    "node_entries n' = take i (node_entries n) @ drop (i + 1) (node_entries n)"
    "count n' = count n - 1" "lowerFence n' = lowerFence n" "upperFence n' = upperFence n" "heap n' = heap n"
    "isLeaf n' = isLeaf n" "upperInnerNode n' = upperInnerNode n" "node_prefix n' = node_prefix n"
    "spaceUsed n' = spaceUsed n - slot_space (slots n ! i)"
proof -
  note b = node_wf_bounds [OF wf]
  have w: "length (slots n) = 399" "length (heap n) = 4096" "slotEnd (count n) \<le> dataOffset n" "dataOffset n \<le> 4096"
    "fence_ok (dataOffset n) (heap n) (lowerFence n)" "fence_ok (dataOffset n) (heap n) (upperFence n)"
    "prefixLen n = common_len (fence_key (heap n) (lowerFence n)) (fence_key (heap n) (upperFence n))"
    "list_all (slot_ok (dataOffset n) (heap n) (prefixLen n)) (used_slots n)"
    "sorted_wrt bytes_less (map (slot_suffix (heap n)) (used_slots n))"
    "spaceUsed n = f_len (lowerFence n) + f_len (upperFence n) + sum_list (map slot_space (used_slots n))"
    "spaceUsed n \<le> 4096 - dataOffset n"
    "sorted_wrt apart (fence_region (lowerFence n) # fence_region (upperFence n) # map region (used_slots n))"
    using wf unfolding node_wf_def by blast+
  let ?U = "take i (used_slots n) @ drop (i + 1) (used_slots n)"
  have U: "used_slots n = take i (used_slots n) @ slots n ! i # drop (i + 1) (used_slots n)"
    using i b(2) used_nth [OF wf i] by (metis Suc_eq_plus1 id_take_nth_drop)
  have sum: "sum_list (map slot_space (used_slots n)) = slot_space (slots n ! i) + sum_list (map slot_space ?U)"
    by (subst U) simp
  obtain sl where sl: "memmove_slots (slots n) i (i + 1) (count n - i - 1) = Some sl" "length sl = 399"
    "take (count n - 1) sl = ?U"
    using remove_slots [OF w(1) b(1) i] unfolding used_slots_def by metis
  have sp: "sub16 (sub16 (spaceUsed n) (keyLen (slots n ! i))) (payloadLen (slots n ! i)) = spaceUsed n - slot_space (slots n ! i)"
    "slot_space (slots n ! i) \<le> spaceUsed n" "spaceUsed n \<le> 4096"
    using w(10,11) sum unfolding slot_space_def by (simp_all add: sub16_le)
  have c: "sub16 (count n) 1 = count n - 1" using i b(1) by (simp add: sub16_le)
  define m where "m = n\<lparr>spaceUsed := spaceUsed n - slot_space (slots n ! i), slots := sl, count := count n - 1\<rparr>"
  define n' where "n' = makeHint m"
  have r: "removeSlot n i = Some n'" using sl(1) sp(1) c by (simp add: removeSlot_def n'_def m_def Let_def)
  have f: "slots n' = sl" "heap n' = heap n" "dataOffset n' = dataOffset n" "count n' = count n - 1"
    "spaceUsed n' = spaceUsed n - slot_space (slots n ! i)"
    "prefixLen n' = prefixLen n" "lowerFence n' = lowerFence n" "upperFence n' = upperFence n" "isLeaf n' = isLeaf n"
    "upperInnerNode n' = upperInnerNode n" by (simp_all add: n'_def m_def)
  have used: "used_slots n' = ?U" using sl(3) by (simp add: used_slots_def f)
  have "node_wf n'"
    unfolding node_wf_def used f
  proof (intro conjI)
    show "list_all (slot_ok (dataOffset n) (heap n) (prefixLen n)) ?U"
      using w(8) by (auto simp: list_all_iff dest: in_set_takeD in_set_dropD)
    show "sorted_wrt bytes_less (map (slot_suffix (heap n)) ?U)"
      using w(9) by (subst (asm) U) (simp add: sorted_wrt_append)
    show "hint_ok n'" unfolding n'_def by (rule makeHint_ok)
    show "slotEnd (count n - 1) \<le> dataOffset n" using w(3) by (simp add: slotEnd_def)
    show "spaceUsed n - slot_space (slots n ! i) = f_len (lowerFence n) + f_len (upperFence n) + sum_list (map slot_space ?U)"
      using w(10) sum by simp
    show "spaceUsed n - slot_space (slots n ! i) \<le> 4096 - dataOffset n" using w(11) by simp
    show "sorted_wrt apart (fence_region (lowerFence n) # fence_region (upperFence n) # map region ?U)"
      using w(12) by (subst (asm) U) (simp add: sorted_wrt_append)
  qed (use sl(2) w in simp_all)
  moreover have "node_entries n' = take i (node_entries n) @ drop (i + 1) (node_entries n)"
    unfolding node_entries_def used by (simp add: f node_prefix_def getPrefix_def take_map drop_map)
  ultimately show ?thesis using r f by (intro that [of n']) (simp_all add: node_prefix_def getPrefix_def)
qed

text \<open>The list of entries without a key.\<close>

definition remove_key :: "u8 list \<Rightarrow> (u8 list \<times> 'v) list \<Rightarrow> (u8 list \<times> 'v) list" where
  "remove_key k es = filter (\<lambda>e. fst e \<noteq> k) es"

lemma remove_key_at:
  assumes "distinct (map fst es)" "i < length es" "fst (es ! i) = k"
  shows "take i es @ drop (i + 1) es = remove_key k es"
proof -
  have es: "es = take i es @ es ! i # drop (i + 1) es" using assms(2) by (metis Suc_eq_plus1 id_take_nth_drop)
  have "distinct (map fst (take i es @ es ! i # drop (i + 1) es))" using assms(1) es by metis
  then have "k \<notin> fst ` set (take i es)" "k \<notin> fst ` set (drop (i + 1) es)"
    using assms(3) by auto
  then have "filter (\<lambda>e. fst e \<noteq> k) (take i es) = take i es" "filter (\<lambda>e. fst e \<noteq> k) (drop (i + 1) es) = drop (i + 1) es"
    by (auto simp: filter_id_conv)
  then show ?thesis unfolding remove_key_def using assms(3) by (subst es) simp
qed

lemma sorted_distinct: "sorted_wrt bytes_less ks \<Longrightarrow> distinct ks"
  by (induction ks) auto

lemma entries_sorted:
  assumes "node_wf n"
  shows "sorted_wrt bytes_less (map fst (node_entries n))" "length (node_entries n) = count n"
proof -
  have "sorted_wrt bytes_less (map (slot_suffix (heap n)) (used_slots n))" using assms unfolding node_wf_def by blast
  then show "sorted_wrt bytes_less (map fst (node_entries n))" by (simp add: node_entries_def sorted_wrt_map)
  show "length (node_entries n) = count n" using node_wf_bounds(2) [OF assms] by (simp add: node_entries_def)
qed

lemma removeInPage_ok:
  assumes wf: "node_wf n" and key: "length key \<le> 64"
  obtains n' where "removeInPage n key = Some (key \<in> set (node_keys n), n')" "node_wf n'"
    "node_entries n' = remove_key key (node_entries n)" "lowerFence n' = lowerFence n" "upperFence n' = upperFence n"
    "heap n' = heap n" "isLeaf n' = isLeaf n" "upperInnerNode n' = upperInnerNode n"
proof -
  note keys = node_wf_search(2) [OF wf]
  obtain p where p: "lowerBound n key = Some (p, key \<in> set (node_keys n))" "p \<le> count n"
    "key \<in> set (node_keys n) \<Longrightarrow> p < count n \<and> node_keys n ! p = key"
    using lowerBound_rank [OF node_wf_search(1) [OF wf] key] by metis
  show ?thesis
  proof (cases "key \<in> set (node_keys n)")
    case True
    then obtain n' where n': "removeSlot n p = Some n'" "node_wf n'"
      "node_entries n' = take p (node_entries n) @ drop (p + 1) (node_entries n)"
      "lowerFence n' = lowerFence n" "upperFence n' = upperFence n" "heap n' = heap n"
      "isLeaf n' = isLeaf n" "upperInnerNode n' = upperInnerNode n"
      using removeSlot_ok [OF wf, of p] p(3) by metis
    have "take p (node_entries n) @ drop (p + 1) (node_entries n) = remove_key key (node_entries n)"
      using p(3) [OF True] entries_sorted [OF wf]
      by (intro remove_key_at) (auto intro: sorted_distinct simp: keys)
    then show ?thesis using n' p(1) True by (intro that [of n']) (simp_all add: removeInPage_def)
  next
    case False
    then have "remove_key key (node_entries n) = node_entries n"
      unfolding remove_key_def keys by (auto simp: filter_id_conv)
    then show ?thesis using wf p(1) False by (intro that [of n]) (simp_all add: removeInPage_def)
  qed
qed

end
