(* ===== verification/LeafMap.thy ===== *)
theory LeafMap
  imports BTreeNode
begin

text \<open>
  A leaf of the B-tree as a map from keys to payloads: the contract of a sorted store as a locale, which
  the node operations of \<open>BTreeNode\<close> meet, and the properties of the operations.
\<close>

section \<open>Fresh nodes\<close>

lemma fresh_root_ok: "uninit_ok u \<Longrightarrow> node_wf (btree_new u leaf)" "node_entries (btree_new u leaf) = []"
  by (simp_all add: node_wf_def btree_new_def uninit_ok_def slotEnd_def hint_ok_def fence_ok_def fence_key_def used_slots_def
      node_entries_def fence_region_def apart_def)

lemma fresh_node_ok:
  assumes u: "uninit_ok u" and l: "length lf \<le> 64" "length uf \<le> 64"
  obtains n where "setFences (btree_new u leaf) lf uf = Some n" "node_wf n" "node_entries n = []"
    "fence_key (heap n) (lowerFence n) = lf" "fence_key (heap n) (upperFence n) = uf" "isLeaf n = leaf"
    "prefixLen n = common_len lf uf" "freeSpaceAfterCompaction n = 3992 - (length lf + length uf)"
proof -
  obtain h where h: "setFences (btree_new u leaf) lf uf = Some ((btree_new u leaf)\<lparr>
      lowerFence := \<lparr>f_offset = 4096 - length lf, f_len = length lf\<rparr>,
      upperFence := \<lparr>f_offset = 4096 - length lf - length uf, f_len = length uf\<rparr>,
      dataOffset := 4096 - length lf - length uf, spaceUsed := length lf + length uf,
      prefixLen := common_len lf uf, heap := h\<rparr>)" (is "_ = Some ?n") "length h = 4096"
    "take (length lf) (drop (4096 - length lf) h) = lf" "take (length uf) (drop (4096 - length lf - length uf) h) = uf"
    using setFences_ok [OF u l] by metis
  have k: "fence_key h \<lparr>f_offset = 4096 - length lf, f_len = length lf\<rparr> = lf"
    "fence_key h \<lparr>f_offset = 4096 - length lf - length uf, f_len = length uf\<rparr> = uf"
    unfolding fence_key_def fence.simps by (rule h(3,4))+
  have f: "slots ?n = slots u" "heap ?n = h" "dataOffset ?n = 4096 - length lf - length uf" "count ?n = 0"
    "spaceUsed ?n = length lf + length uf" "lowerFence ?n = \<lparr>f_offset = 4096 - length lf, f_len = length lf\<rparr>"
    "upperFence ?n = \<lparr>f_offset = 4096 - length lf - length uf, f_len = length uf\<rparr>" "prefixLen ?n = common_len lf uf"
    "hint ?n = hint u" "isLeaf ?n = leaf" by (simp_all add: btree_new_def)
  have "node_wf ?n"
    unfolding node_wf_def used_slots_def hint_ok_def f k using u l h(2)
    by (auto simp: uninit_ok_def slotEnd_def fence_ok_def fence_region_def apart_def)
  moreover have "freeSpaceAfterCompaction ?n = 3992 - (length lf + length uf)"
    using freeSpace_eq(2) [OF calculation] l by (simp only: f slotEnd_def) simp
  ultimately show ?thesis using h(1) f k by (intro that [of ?n]) (simp_all add: node_entries_def used_slots_def)
qed

section \<open>A leaf as a map\<close>

text \<open>What \<open>BTree::lookup\<close> does with the leaf it has found: \<open>Some None\<close> when the key is not there.\<close>

definition leaf_lookup :: "btree_node \<Rightarrow> u8 list \<Rightarrow> u8 list option option" where
  "leaf_lookup n key = do {
     (pos, found) \<leftarrow> lowerBound n key;
     (if \<not> found then Some None else do { v \<leftarrow> getPayload n pos; Some (Some v) }) }"

text \<open>The key begins with the prefix of the node and there is room.\<close>

definition node_fits :: "btree_node \<Rightarrow> btree_node \<Rightarrow> u8 list \<Rightarrow> u8 list \<Rightarrow> bool" where
  "node_fits u n key payload =
     (uninit_ok u \<and> length key \<le> 64 \<and> length payload \<le> 4096 \<and> take (prefixLen n) key = node_prefix n
      \<and> hasSpaceFor n (length key) (length payload))"

text \<open>The contract of a sorted store: \<open>entries\<close> is its contents in key order.\<close>

locale sorted_store =
  fixes inv :: "'n \<Rightarrow> bool"
    and entries :: "'n \<Rightarrow> (u8 list \<times> u8 list) list"
    and key_ok :: "u8 list \<Rightarrow> bool"
    and fits :: "'n \<Rightarrow> u8 list \<Rightarrow> u8 list \<Rightarrow> bool"
    and get :: "'n \<Rightarrow> u8 list \<Rightarrow> u8 list option option"
    and ins :: "'n \<Rightarrow> u8 list \<Rightarrow> u8 list \<Rightarrow> 'n option"
    and del :: "'n \<Rightarrow> u8 list \<Rightarrow> (bool \<times> 'n) option"
  assumes inv_sorted: "inv n \<Longrightarrow> sorted_wrt bytes_less (map fst (entries n))"
    and fits_key: "fits n k v \<Longrightarrow> key_ok k"
    and get_entries: "inv n \<Longrightarrow> key_ok k \<Longrightarrow> get n k = Some (map_of (entries n) k)"
    and ins_entries: "inv n \<Longrightarrow> fits n k v \<Longrightarrow> k \<notin> fst ` set (entries n) \<Longrightarrow>
      \<exists>n'. ins n k v = Some n' \<and> inv n' \<and> entries n' = put k v (entries n)"
    and del_entries: "inv n \<Longrightarrow> key_ok k \<Longrightarrow>
      \<exists>n'. del n k = Some (k \<in> fst ` set (entries n), n') \<and> inv n' \<and> entries n' = remove_key k (entries n)"

lemma map_of_filter_other: "\<forall>e. \<not> P e \<longrightarrow> fst e \<noteq> k \<Longrightarrow> map_of (filter P es) k = map_of es k"
  by (induction es) auto

lemma map_of_filter_none: "\<forall>e. P e \<longrightarrow> fst e \<noteq> k \<Longrightarrow> map_of (filter P es) k = None"
  by (induction es) auto

lemma map_of_put:
  assumes "k \<notin> fst ` set es"
  shows "map_of (put k v es) = (map_of es)(k \<mapsto> v)"
proof (rule ext)
  fix x
  consider "x = k" | "x \<noteq> k" "bytes_less x k" | "x \<noteq> k" "\<not> bytes_less x k" by blast
  then show "map_of (put k v es) x = ((map_of es)(k \<mapsto> v)) x"
  proof cases
    case 1
    then have "map_of (filter (\<lambda>e. bytes_less (fst e) k) es) x = None" by (intro map_of_filter_none) auto
    then show ?thesis using 1 by (simp add: put_def map_add_def)
  next
    case 2
    then have "map_of (filter (\<lambda>e. bytes_less (fst e) k) es) x = map_of es x" by (intro map_of_filter_other) auto
    moreover from 2 have "map_of (filter (\<lambda>e. \<not> bytes_less (fst e) k) es) x = None" by (intro map_of_filter_none) auto
    ultimately show ?thesis using 2 by (simp add: put_def map_add_def split: option.split)
  next
    case 3
    then have "map_of (filter (\<lambda>e. \<not> bytes_less (fst e) k) es) x = map_of es x" by (intro map_of_filter_other) auto
    moreover from 3 have "map_of (filter (\<lambda>e. bytes_less (fst e) k) es) x = None" by (intro map_of_filter_none) auto
    ultimately show ?thesis using 3 by (simp add: put_def map_add_def split: option.split)
  qed
qed

lemma map_of_remove: "map_of (remove_key k es) = (map_of es)(k := None)"
  by (rule ext, induction es) (auto simp: remove_key_def)

lemma remove_put: "k \<notin> fst ` set es \<Longrightarrow> sorted_wrt bytes_less (map fst es) \<Longrightarrow> remove_key k (put k v es) = es"
proof -
  assume k: "k \<notin> fst ` set es" and s: "sorted_wrt bytes_less (map fst es)"
  have "filter (\<lambda>e. bytes_less (fst e) k) es @ filter (\<lambda>e. \<not> bytes_less (fst e) k) es = es"
    using s
  proof (induction es)
    case (Cons e es)
    show ?case
    proof (cases "bytes_less (fst e) k")
      case False
      have "\<not> bytes_less (fst x) k" if "x \<in> set es" for x
        using False Cons.prems that bytes_less_trans by fastforce
      then show ?thesis using False by (simp add: filter_empty_conv filter_id_conv)
    qed (use Cons in simp)
  qed simp
  moreover have "filter (\<lambda>e. fst e \<noteq> k) (filter P es) = filter P es" for P
    unfolding filter_id_conv using k by force
  ultimately show ?thesis by (simp add: remove_key_def put_def del: filter_filter)
qed

context sorted_store begin

text \<open>A key put into the store is found with its payload, and the other keys as before.\<close>

lemma ins_get:
  assumes "inv n" "fits n k v" "k \<notin> fst ` set (entries n)" "key_ok k'"
  shows "\<exists>n'. ins n k v = Some n' \<and> get n' k' = Some (if k' = k then Some v else map_of (entries n) k')"
  using ins_entries [OF assms(1-3)] get_entries assms map_of_put by fastforce

text \<open>Removing it again gives back the contents.\<close>

lemma ins_del:
  assumes "inv n" "fits n k v" "k \<notin> fst ` set (entries n)"
  shows "\<exists>n' n''. ins n k v = Some n' \<and> del n' k = Some (True, n'') \<and> entries n'' = entries n"
proof -
  obtain n' where n': "ins n k v = Some n'" "inv n'" "entries n' = put k v (entries n)" using ins_entries [OF assms] by blast
  have "k \<in> fst ` set (entries n')" unfolding n'(3) put_def by force
  then show ?thesis
    using del_entries [OF n'(2) fits_key [OF assms(2)]] n' remove_put [OF assms(3) inv_sorted [OF assms(1)]] by auto
qed

text \<open>A removed key is not found, and the other keys as before.\<close>

lemma del_get:
  assumes "inv n" "key_ok k" "key_ok k'"
  shows "\<exists>b n'. del n k = Some (b, n') \<and> get n' k' = Some (if k' = k then None else map_of (entries n) k')"
  using del_entries [OF assms(1,2)] get_entries [OF _ assms(3)] map_of_remove [of k "entries n"] by fastforce

end

section \<open>The node operations meet the contract\<close>

lemma entry_nth:
  assumes "node_wf n" "i < count n"
  shows "node_entries n ! i = (node_keys n ! i, slot_payload (heap n) (slots n ! i))"
  using assms node_wf_bounds(2) [OF assms(1)] used_nth [OF assms] node_wf_search(2) [OF assms(1)]
  by (simp add: node_entries_def)

lemma leaf_lookup_ok:
  assumes wf: "node_wf n" and key: "length key \<le> 64"
  shows "leaf_lookup n key = Some (map_of (node_entries n) key)"
proof -
  note keys = node_wf_search(2) [OF wf]
  obtain p where p: "lowerBound n key = Some (p, key \<in> set (node_keys n))"
    "key \<in> set (node_keys n) \<Longrightarrow> p < count n \<and> node_keys n ! p = key"
    using lowerBound_rank [OF node_wf_search(1) [OF wf] key] by metis
  show ?thesis
  proof (cases "key \<in> set (node_keys n)")
    case True
    then have i: "p < count n" "node_keys n ! p = key" using p(2) by simp_all
    have "list_all (slot_ok (dataOffset n) (heap n) (prefixLen n)) (used_slots n)" using wf unfolding node_wf_def by blast
    then have "slot_ok (dataOffset n) (heap n) (prefixLen n) (slots n ! p)"
      using i(1) used_nth [OF wf i(1)] node_wf_bounds(2) [OF wf] by (metis list_all_length)
    then have pay: "getPayload n p = Some (slot_payload (heap n) (slots n ! p))"
      by (simp add: getPayload_def span_def slot_payload_def slot_ok_def Let_def)
    have "(key, slot_payload (heap n) (slots n ! p)) \<in> set (node_entries n)"
      using entry_nth [OF wf i(1)] i entries_sorted(2) [OF wf] by (metis nth_mem)
    then have "map_of (node_entries n) key = Some (slot_payload (heap n) (slots n ! p))"
      using sorted_distinct [OF entries_sorted(1) [OF wf]] by (simp add: map_of_eq_Some_iff)
    then show ?thesis using p(1) True pay by (simp add: leaf_lookup_def)
  next
    case False
    then have "map_of (node_entries n) key = None" by (simp add: keys map_of_eq_None_iff)
    then show ?thesis using p(1) False by (simp add: leaf_lookup_def)
  qed
qed

lemma node_fitsD:
  assumes "node_fits u n key payload"
  shows "uninit_ok u" "length key \<le> 64" "length payload \<le> 4096" "hasSpaceFor n (length key) (length payload)"
    "key = node_prefix n @ drop (prefixLen n) key"
proof -
  show "uninit_ok u" "length key \<le> 64" "length payload \<le> 4096" "hasSpaceFor n (length key) (length payload)"
    using assms unfolding node_fits_def by blast+
  have "take (prefixLen n) key = node_prefix n" using assms unfolding node_fits_def by blast
  then show "key = node_prefix n @ drop (prefixLen n) key" by (metis append_take_drop_id)
qed

lemma node_insert:
  assumes "node_wf n" "node_fits u n key payload" "key \<notin> fst ` set (node_entries n)"
  obtains n' where "insertInPage u n key payload = Some n'" "node_wf n'"
    "node_entries n' = put key payload (node_entries n)"
    "fence_key (heap n') (lowerFence n') = fence_key (heap n) (lowerFence n)"
    "fence_key (heap n') (upperFence n') = fence_key (heap n) (upperFence n)"
    "isLeaf n' = isLeaf n" "upperInnerNode n' = upperInnerNode n" "node_prefix n' = node_prefix n"
proof -
  have "key \<notin> set (node_keys n)" using assms(3) node_wf_search(2) [OF assms(1)] by simp
  then show ?thesis
    using insertInPage_ok [OF assms(1) node_fitsD(1) [OF assms(2)] node_fitsD(5) [OF assms(2)] node_fitsD(2) [OF assms(2)] _
        node_fitsD(3) [OF assms(2)] node_fitsD(4) [OF assms(2)]] that by metis
qed

interpretation leaf: sorted_store node_wf node_entries "\<lambda>k. length k \<le> 64" "node_fits u" leaf_lookup "insertInPage u" removeInPage for u
proof
  fix n k v assume "node_wf n" "node_fits u n k v" "k \<notin> fst ` set (node_entries n)"
  then show "\<exists>n'. insertInPage u n k v = Some n' \<and> node_wf n' \<and> node_entries n' = put k v (node_entries n)"
    using node_insert by metis
next
  fix n and k :: "u8 list" assume a: "node_wf n" "length k \<le> 64"
  show "\<exists>n'. removeInPage n k = Some (k \<in> fst ` set (node_entries n), n') \<and> node_wf n' \<and> node_entries n' = remove_key k (node_entries n)"
    using removeInPage_ok [OF a] node_wf_search(2) [OF a(1)] by (metis list.set_map)
qed (use entries_sorted(1) leaf_lookup_ok node_fitsD(2) in blast)+

lemma lowerBound_position:
  assumes "node_wf n" "length key \<le> 64"
  shows "lowerBound n key =
    Some (length (filter (\<lambda>e. bytes_less (fst e) key) (node_entries n)), key \<in> fst ` set (node_entries n))"
proof -
  note keys = node_wf_search(2) [OF assms(1)]
  obtain p where p: "lowerBound n key = Some (p, key \<in> set (node_keys n))" "p \<le> count n"
    "\<forall>i < count n. i < p \<longleftrightarrow> bytes_less (node_keys n ! i) key"
    using lowerBound_rank [OF node_wf_search(1) [OF assms(1)] assms(2)] by metis
  have l: "length (node_entries n) = count n" by (rule entries_sorted [OF assms(1)])
  have "take p (node_entries n) = filter (\<lambda>e. bytes_less (fst e) key) (node_entries n)"
    using p(2,3) l by (intro rank_split) (simp_all add: keys)
  then have "length (filter (\<lambda>e. bytes_less (fst e) key) (node_entries n)) = p"
    using p(2) l by (metis length_take min.absorb2)
  then show ?thesis using p(1) keys by simp
qed

section \<open>A leaf with two keys\<close>

definition blank_node :: btree_node where
  "blank_node = \<lparr>dirty = False, upperInnerNode = 0, lowerFence = \<lparr>f_offset = 0, f_len = 0\<rparr>,
     upperFence = \<lparr>f_offset = 0, f_len = 0\<rparr>, count = 0, isLeaf = False, spaceUsed = 0, dataOffset = 0, prefixLen = 0,
     hint = replicate 16 0, slots = replicate 399 \<lparr>offset = 0, keyLen = 0, payloadLen = 0, slot_head = 0\<rparr>,
     heap = replicate 4096 0\<rparr>"

definition leaf0 :: btree_node where "leaf0 = btree_new blank_node True"
definition leaf1 :: btree_node where "leaf1 = the (insertInPage blank_node leaf0 [5, 1] [11])"
definition leaf2 :: btree_node where "leaf2 = the (insertInPage blank_node leaf1 [3] [12])"

lemma blank_ok: "uninit_ok blank_node"
  by (simp add: uninit_ok_def blank_node_def)

lemma spaceUsed_entries:
  assumes "node_wf n"
  shows "spaceUsed n = length (fence_key (heap n) (lowerFence n)) + length (fence_key (heap n) (upperFence n))
    + (\<Sum>e\<leftarrow>node_entries n. length (fst e) - prefixLen n + length (snd e))"
proof -
  have w: "spaceUsed n = f_len (lowerFence n) + f_len (upperFence n) + sum_list (map slot_space (used_slots n))"
    "list_all (slot_ok (dataOffset n) (heap n) (prefixLen n)) (used_slots n)"
    using assms unfolding node_wf_def by blast+
  have "slot_space s = length (node_prefix n @ slot_suffix (heap n) s) - prefixLen n + length (slot_payload (heap n) s)"
    if "s \<in> set (used_slots n)" for s
  proof -
    have "offset s + keyLen s + payloadLen s \<le> length (heap n)" using w(2) that by (simp add: list_all_iff slot_ok_def)
    then have "length (slot_suffix (heap n) s) = keyLen s" "length (slot_payload (heap n) s) = payloadLen s"
      by (simp_all add: slot_suffix_def slot_payload_def)
    then show ?thesis using node_wf_bounds(6) [OF assms] by (simp add: slot_space_def)
  qed
  then have "map slot_space (used_slots n) = map (\<lambda>e. length (fst e) - prefixLen n + length (snd e)) (node_entries n)"
    by (simp add: node_entries_def)
  then show ?thesis using w(1) getFence_ok(3,4) [OF assms] by simp
qed

lemma fits_unprefixed:
  assumes "node_wf n" "fence_key (heap n) (lowerFence n) = []" "fence_key (heap n) (upperFence n) = []"
    "length key \<le> 64" "length payload \<le> 64" "length (node_entries n) \<le> 100"
    "(\<Sum>e\<leftarrow>node_entries n. length (fst e) + length (snd e)) \<le> 1000"
  shows "node_fits blank_node n key payload"
proof -
  have z: "prefixLen n = 0" using assms(1,2) by (simp add: node_wf_def)
  have "spaceNeeded n (length key) (length payload) \<le> 138"
    using assms(4,5) z by (simp add: spaceNeeded_def sub32_def)
  moreover have "freeSpaceAfterCompaction n = 4096 - slotEnd (count n) - spaceUsed n" by (rule freeSpace_eq [OF assms(1)])
  moreover have "spaceUsed n \<le> 1000" "count n \<le> 100"
    using spaceUsed_entries [OF assms(1)] assms(2,3,6,7) z entries_sorted(2) [OF assms(1)] by simp_all
  ultimately have "hasSpaceFor n (length key) (length payload)"
    by (simp add: hasSpaceFor_def slotEnd_def)
  then show ?thesis using assms(4,5) z blank_ok by (simp add: node_fits_def node_prefix_def)
qed

definition unfenced :: "btree_node \<Rightarrow> (u8 list \<times> u8 list) list \<Rightarrow> bool" where
  "unfenced n es = (node_wf n \<and> fence_key (heap n) (lowerFence n) = [] \<and> fence_key (heap n) (upperFence n) = [] \<and> node_entries n = es)"

lemma unfenced_insert:
  assumes "unfenced n es" "length key \<le> 64" "length payload \<le> 64" "length es \<le> 100"
    "(\<Sum>e\<leftarrow>es. length (fst e) + length (snd e)) \<le> 1000" "key \<notin> fst ` set es"
  shows "node_fits blank_node n key payload" "unfenced (the (insertInPage blank_node n key payload)) (put key payload es)"
proof -
  show f: "node_fits blank_node n key payload"
    using assms by (intro fits_unprefixed) (simp_all add: unfenced_def)
  show "unfenced (the (insertInPage blank_node n key payload)) (put key payload es)"
    using node_insert [OF _ f] assms(1,6) unfolding unfenced_def by (metis option.sel)
qed

lemma leaf_nodes:
  "unfenced leaf0 []" "unfenced leaf1 [([5, 1], [11])]" "unfenced leaf2 [([3], [12]), ([5, 1], [11])]"
proof -
  show l0: "unfenced leaf0 []"
    using fresh_root_ok(1) [OF blank_ok, of True] fresh_root_ok(2) [of blank_node True] by (simp add: unfenced_def leaf0_def fence_key_def btree_new_def)
  show l1: "unfenced leaf1 [([5, 1], [11])]"
    using unfenced_insert(2) [OF l0, of "[5, 1]" "[11]"] by (simp add: leaf1_def put_def)
  show "unfenced leaf2 [([3], [12]), ([5, 1], [11])]"
    using unfenced_insert(2) [OF l1, of "[3]" "[12]"] by (simp add: leaf2_def put_def)
qed

lemma leaf2_facts:
  "node_wf leaf2" "node_entries leaf2 = [([3], [12]), ([5, 1], [11])]" "node_fits blank_node leaf2 [4, 4] [13]"
  using leaf_nodes(3) unfenced_insert(1) [OF leaf_nodes(3), of "[4, 4]" "[13]"] by (simp_all add: unfenced_def)

section \<open>Properties\<close>

text \<open>C7. In a well-formed node of keys of at most 64 bytes \<open>lowerBound\<close>, with the prefix, the hint and the heads,
  stays within the page and returns how many keys of the node are smaller and whether the key is one of them.\<close>

theorem lowerBound_counts:
  assumes "node_wf n" "length key \<le> 64"
  shows "lowerBound n key =
    Some (length (filter (\<lambda>e. bytes_less (fst e) key) (node_entries n)), key \<in> fst ` set (node_entries n))"
  by (rule lowerBound_position [OF assms])

theorem lowerBound_counts_witness:
  "lowerBound leaf2 [4] = Some (1, False) \<and> lowerBound leaf2 [5, 1] = Some (1, True)"
  using lowerBound_counts [OF leaf2_facts(1), of "[4]"] lowerBound_counts [OF leaf2_facts(1), of "[5, 1]"]
  by (simp add: leaf2_facts(2))

text \<open>C1. Inserting a new key for which there is room, compacting the node first if need be, always succeeds, keeps
  the node well-formed and its fences, and puts the key with its payload at its place in the order.\<close>

theorem insertInPage_inserts:
  assumes "node_wf n" "node_fits u n key payload" "key \<notin> fst ` set (node_entries n)"
  shows "\<exists>n'. insertInPage u n key payload = Some n' \<and> node_wf n' \<and> node_entries n' = put key payload (node_entries n)
    \<and> getLowerFence n' = getLowerFence n \<and> getUpperFence n' = getUpperFence n \<and> isLeaf n' = isLeaf n
    \<and> upperInnerNode n' = upperInnerNode n"
  using node_insert [OF assms] getFence_ok(1,2) [OF assms(1)] getFence_ok(1,2) by metis

theorem insertInPage_inserts_witness:
  "\<exists>n'. insertInPage blank_node leaf2 [4, 4] [13] = Some n' \<and> node_wf n'
     \<and> node_entries n' = [([3], [12]), ([4, 4], [13]), ([5, 1], [11])]"
  using insertInPage_inserts [OF leaf2_facts(1,3)] by (auto simp: leaf2_facts(2) put_def)

text \<open>C16. Removing a key says whether it was there, keeps the node well-formed and the other entries.\<close>

theorem removeInPage_removes:
  assumes "node_wf n" "length key \<le> 64"
  shows "\<exists>n'. removeInPage n key = Some (key \<in> fst ` set (node_entries n), n') \<and> node_wf n'
    \<and> node_entries n' = remove_key key (node_entries n) \<and> getLowerFence n' = getLowerFence n
    \<and> getUpperFence n' = getUpperFence n \<and> isLeaf n' = isLeaf n \<and> upperInnerNode n' = upperInnerNode n"
proof -
  obtain n' where "removeInPage n key = Some (key \<in> set (node_keys n), n')" "node_wf n'"
    "node_entries n' = remove_key key (node_entries n)" "lowerFence n' = lowerFence n" "upperFence n' = upperFence n"
    "heap n' = heap n" "isLeaf n' = isLeaf n" "upperInnerNode n' = upperInnerNode n"
    using removeInPage_ok [OF assms] by metis
  then show ?thesis by (simp add: node_wf_search(2) [OF assms(1)] getLowerFence_def getUpperFence_def span_def)
qed

theorem removeInPage_removes_witness:
  "\<exists>n'. removeInPage leaf2 [3] = Some (True, n') \<and> node_wf n' \<and> node_entries n' = [([5, 1], [11])]"
  using removeInPage_removes [OF leaf2_facts(1), of "[3]"] by (auto simp: leaf2_facts(2) remove_key_def)

text \<open>C9. Compacting a node keeps its entries, fences and links, and all the space that was free after removals
  and moves becomes free between slots and heap, as the assertion at the end of \<open>compactify\<close> says.\<close>

theorem compactify_keeps:
  assumes "node_wf n" "uninit_ok u"
  shows "\<exists>n'. compactify u n = Some n' \<and> node_wf n' \<and> node_entries n' = node_entries n
    \<and> freeSpace n' = freeSpaceAfterCompaction n \<and> freeSpaceAfterCompaction n' = freeSpaceAfterCompaction n
    \<and> getLowerFence n' = getLowerFence n \<and> getUpperFence n' = getUpperFence n \<and> isLeaf n' = isLeaf n
    \<and> upperInnerNode n' = upperInnerNode n \<and> dirty n' = dirty n"
proof -
  obtain n' where n': "compactify u n = Some n'" "node_wf n'" "node_entries n' = node_entries n"
    "dataOffset n' = 4096 - spaceUsed n" "count n' = count n" "spaceUsed n' = spaceUsed n"
    "fence_key (heap n') (lowerFence n') = fence_key (heap n) (lowerFence n)"
    "fence_key (heap n') (upperFence n') = fence_key (heap n) (upperFence n)"
    "isLeaf n' = isLeaf n" "upperInnerNode n' = upperInnerNode n" "dirty n' = dirty n"
    using compactify_ok [OF assms] by metis
  have "freeSpace n' = freeSpaceAfterCompaction n" "freeSpaceAfterCompaction n' = freeSpaceAfterCompaction n"
    using freeSpace_eq [OF assms(1)] freeSpace_eq [OF n'(2)] n'(4-6) by simp_all
  moreover have "getLowerFence n' = getLowerFence n" "getUpperFence n' = getUpperFence n"
    using getFence_ok(1,2) [OF assms(1)] getFence_ok(1,2) [OF n'(2)] n'(7,8) by simp_all
  ultimately show ?thesis using n' by blast
qed

theorem compactify_keeps_witness:
  "\<exists>n'. compactify blank_node leaf2 = Some n' \<and> node_wf n' \<and> node_entries n' = [([3], [12]), ([5, 1], [11])]"
  using compactify_keeps [OF leaf2_facts(1) blank_ok] by (auto simp: leaf2_facts(2))

text \<open>C40. A key inserted into a leaf is looked up with its payload, every other key as before, and removing it again
  gives back the entries of the leaf.\<close>

theorem insert_lookup_remove:
  assumes "node_wf n" "node_fits u n k v" "k \<notin> fst ` set (node_entries n)" "length k' \<le> 64"
  shows "\<exists>n' n''. insertInPage u n k v = Some n' \<and> leaf_lookup n' k = Some (Some v)
    \<and> leaf_lookup n' k' = (if k' = k then Some (Some v) else leaf_lookup n k')
    \<and> removeInPage n' k = Some (True, n'') \<and> node_entries n'' = node_entries n"
  using leaf.ins_get [OF assms(1-4)] leaf.ins_get [OF assms(1-3) node_fitsD(2) [OF assms(2)]]
    leaf.ins_del [OF assms(1-3)] leaf.get_entries [OF assms(1,4)] by auto

theorem insert_lookup_remove_witness:
  "\<exists>n'. insertInPage blank_node leaf2 [4, 4] [13] = Some n' \<and> leaf_lookup n' [4, 4] = Some (Some [13])
     \<and> leaf_lookup n' [3] = leaf_lookup leaf2 [3]"
  using insert_lookup_remove [OF leaf2_facts(1,3), of "[3]"] by (auto simp: leaf2_facts(2))

end
