(* ===== verification/Bfs.thy ===== *)
theory Bfs
  imports Prelude "HOL-Library.Multiset"
begin

text \<open>
  The parallel breadth-first search of \<open>bfs/bfs_kernel.hpp\<close> with the bitmap of \<open>utility/bitmap.hpp\<close> and the
  parts of \<open>run_bfs.cpp\<close> that prepare and evaluate it. Each worker of a level is a small machine whose
  atomic steps are the accesses to shared memory: the compare-and-swap on a level, the load and the store of
  a word of the bitmap, and the append to the next frontier under the mutex. A round runs the workers in any
  interleaving, given as the list of the workers that step.

  Levels, of type \<open>uint16_t\<close>, are naturals with their wrap-around written out. \<open>None\<close> is an access outside an
  array, a finished worker that is asked to step, or a schedule that stops too early.
\<close>

section \<open>The bitmap\<close>

definition bitmap_size :: "nat \<Rightarrow> nat" where
  "bitmap_size sz = (if sz = 0 then 0 else (sz - 1) div 64 + 1)"

definition bitmap_global_pos :: "nat \<Rightarrow> nat" where
  "bitmap_global_pos pos = drop_bit 6 pos"

definition bitmap_local_pos :: "nat \<Rightarrow> nat" where
  "bitmap_local_pos pos = pos AND 63"

definition bitmap_get_bit :: "u64 list \<Rightarrow> nat \<Rightarrow> bool option" where
  "bitmap_get_bit bitmap pos = do {
     w \<leftarrow> rd bitmap (bitmap_global_pos pos);
     Some (w AND push_bit (bitmap_local_pos pos) 1 \<noteq> 0) }"

text \<open>\<open>set_bit\<close> is a load, an OR and a store.\<close>

definition set_word :: "u64 list \<Rightarrow> nat \<Rightarrow> u64 \<Rightarrow> u64 list option" where
  "set_word bitmap pos w =
     (if bitmap_global_pos pos < length bitmap
      then Some (bitmap[bitmap_global_pos pos := w OR push_bit (bitmap_local_pos pos) 1]) else None)"

definition bitmap_set_bit :: "u64 list \<Rightarrow> nat \<Rightarrow> u64 list option" where
  "bitmap_set_bit bitmap pos = do { w \<leftarrow> rd bitmap (bitmap_global_pos pos); set_word bitmap pos w }"

section \<open>The graph and the search\<close>

record graph =
  g_index :: "nat list"
  g_edges :: "nat list"

definition k_infinite_level :: nat where "k_infinite_level = 65535"

definition init_bfs :: "nat \<Rightarrow> nat list \<times> u64 list" where
  "init_bfs num_vertices = (replicate num_vertices k_infinite_level, replicate (bitmap_size num_vertices) 0)"

text \<open>Where a worker is: before the test of the outer loop, before that of the inner loop, inside \<open>set_bit\<close>
  before the load and before the store (with the loaded word), before the append, or at the end.\<close>

datatype pc = Outer nat | Inner nat nat | BitLoad nat nat | BitStore nat nat u64 | Flush | Finished

record worker =
  w_pc :: pc
  w_end :: nat
  w_local :: "nat list"

record shared =
  level :: "nat list"
  visited_filter :: "u64 list"
  next_frontier :: "nat list"
  workers :: "worker list"

definition cas_level :: "nat list \<Rightarrow> nat \<Rightarrow> nat \<Rightarrow> (bool \<times> nat list) option" where
  "cas_level lv trg new = do {
     old \<leftarrow> rd lv trg;
     (if old = k_infinite_level then Some (True, lv[trg := new mod 65536]) else Some (False, lv)) }"

definition bfs_level_worker :: "graph \<Rightarrow> nat \<Rightarrow> nat list \<Rightarrow> worker \<Rightarrow> shared \<Rightarrow> (worker \<times> shared) option" where
  "bfs_level_worker g current_level frontier w s =
     (case w_pc w of
        Outer i \<Rightarrow>
          if i < w_end w
          then do { src \<leftarrow> rd frontier i; j \<leftarrow> rd (g_index g) src; Some (w\<lparr>w_pc := Inner i j\<rparr>, s) }
          else Some (w\<lparr>w_pc := (if w_local w \<noteq> [] then Flush else Finished)\<rparr>, s)
      | Inner i j \<Rightarrow> do {
          src \<leftarrow> rd frontier i;
          stop \<leftarrow> rd (g_index g) (src + 1);
          (if j < stop
           then do {
             trg \<leftarrow> rd (g_edges g) j;
             (won, lv) \<leftarrow> cas_level (level s) trg (current_level + 1);
             Some (w\<lparr>w_pc := (if won then BitLoad i j else Inner i (j + 1))\<rparr>, s\<lparr>level := lv\<rparr>) }
           else Some (w\<lparr>w_pc := Outer (i + 1)\<rparr>, s)) }
      | BitLoad i j \<Rightarrow> do {
          trg \<leftarrow> rd (g_edges g) j;
          x \<leftarrow> rd (visited_filter s) (bitmap_global_pos trg);
          Some (w\<lparr>w_pc := BitStore i j x\<rparr>, s) }
      | BitStore i j x \<Rightarrow> do {
          trg \<leftarrow> rd (g_edges g) j;
          vf \<leftarrow> set_word (visited_filter s) trg x;
          Some (w\<lparr>w_pc := Inner i (j + 1), w_local := w_local w @ [trg]\<rparr>, s\<lparr>visited_filter := vf\<rparr>) }
      | Flush \<Rightarrow> Some (w\<lparr>w_pc := Finished, w_local := []\<rparr>, s\<lparr>next_frontier := next_frontier s @ w_local w\<rparr>)
      | Finished \<Rightarrow> None)"

definition bfs_step :: "graph \<Rightarrow> nat \<Rightarrow> nat list \<Rightarrow> nat \<Rightarrow> shared \<Rightarrow> shared option" where
  "bfs_step g current_level frontier t s = do {
     w \<leftarrow> rd (workers s) t;
     (w, s) \<leftarrow> bfs_level_worker g current_level frontier w s;
     Some (s\<lparr>workers := (workers s)[t := w]\<rparr>) }"

fun run_schedule :: "graph \<Rightarrow> nat \<Rightarrow> nat list \<Rightarrow> nat list \<Rightarrow> shared \<Rightarrow> shared option" where
  "run_schedule g c fr [] s = Some s"
| "run_schedule g c fr (t # ts) s = (case bfs_step g c fr t s of None \<Rightarrow> None | Some s' \<Rightarrow> run_schedule g c fr ts s')"

text \<open>The workers that are created for a frontier.\<close>

definition chunk_size :: "nat \<Rightarrow> nat \<Rightarrow> nat" where
  "chunk_size num_threads frontier_size = (frontier_size + num_threads - 1) div num_threads"

definition start_workers :: "nat \<Rightarrow> nat \<Rightarrow> worker list" where
  "start_workers num_threads frontier_size =
     (let chunk = chunk_size num_threads frontier_size
      in map (\<lambda>i. \<lparr>w_pc = Outer (i * chunk), w_end = min (i * chunk + chunk) frontier_size, w_local = []\<rparr>)
           (filter (\<lambda>i. i * chunk < min (i * chunk + chunk) frontier_size) [0..<num_threads]))"

definition all_joined :: "shared \<Rightarrow> bool" where
  "all_joined s = list_all (\<lambda>w. w_pc w = Finished) (workers s)"

text \<open>The loop over the levels, one schedule for each round. Returns the last level and the arrays. Without
  threads the size of a chunk is a division by 0.\<close>

fun bfs_rounds ::
    "graph \<Rightarrow> nat \<Rightarrow> nat list list \<Rightarrow> nat list \<Rightarrow> u64 list \<Rightarrow> nat list \<Rightarrow> nat \<Rightarrow> (nat \<times> nat list \<times> u64 list) option" where
  "bfs_rounds g num_threads scheds lv vf frontier current_level =
     (if frontier = [] then Some (current_level, lv, vf)
      else if num_threads = 0 then None
      else case scheds of
        [] \<Rightarrow> None
      | sched # rest \<Rightarrow> do {
          s \<leftarrow> run_schedule g current_level frontier sched
            \<lparr>level = lv, visited_filter = vf, next_frontier = [], workers = start_workers num_threads (length frontier)\<rparr>;
          (if \<not> all_joined s then None
           else if next_frontier s = [] then Some (current_level, level s, visited_filter s)
           else bfs_rounds g num_threads rest (level s) (visited_filter s) (next_frontier s)
             ((current_level + 1) mod 65536)) })"

declare bfs_rounds.simps [simp del]

definition run_bfs ::
    "graph \<Rightarrow> nat \<Rightarrow> nat list list \<Rightarrow> nat list \<Rightarrow> u64 list \<Rightarrow> nat \<Rightarrow> (nat \<times> nat list \<times> u64 list) option" where
  "run_bfs g num_threads scheds lv vf root =
     (if root < length lv
      then do { vf \<leftarrow> bitmap_set_bit vf root; bfs_rounds g num_threads scheds (lv[root := 0]) vf [root] 0 }
      else None)"

section \<open>The program around the search\<close>

text \<open>The first vertex with an edge. \<open>None\<close> is also the call of \<open>abort\<close> when there is none. The difference is
  unsigned, and positive if it is not 0.\<close>

fun find_root_loop :: "nat \<Rightarrow> nat list \<Rightarrow> nat \<Rightarrow> nat option" where
  "find_root_loop 0 ix src = None"
| "find_root_loop (Suc k) ix src = do {
     a \<leftarrow> rd ix src; b \<leftarrow> rd ix (src + 1);
     (if b \<noteq> a then Some src else find_root_loop k ix (src + 1)) }"

definition find_bfs_root :: "nat \<Rightarrow> nat list \<Rightarrow> nat list \<Rightarrow> (nat \<times> nat list) option" where
  "find_bfs_root num_vertices ix lv = do {
     src \<leftarrow> find_root_loop num_vertices ix 0;
     (if src < length lv then Some (src, lv[src := 0]) else None) }"

text \<open>How many vertices there are on each level, or the first level above the maximum.\<close>

fun count_loop :: "nat \<Rightarrow> nat list \<Rightarrow> nat list \<Rightarrow> nat + nat list" where
  "count_loop max_level [] cnt = Inr cnt"
| "count_loop max_level (l # lv) cnt =
     (if l = k_infinite_level then count_loop max_level lv cnt
      else if l > max_level then Inl l
      else count_loop max_level lv (cnt[l := cnt ! l + 1]))"

definition count_level :: "nat \<Rightarrow> nat list \<Rightarrow> nat + nat list" where
  "count_level max_level lv = count_loop max_level lv (replicate (max_level + 1) 0)"

definition bfs_main :: "graph \<Rightarrow> nat \<Rightarrow> nat \<Rightarrow> nat list list \<Rightarrow> (nat \<times> nat list \<times> u64 list \<times> (nat + nat list)) option" where
  "bfs_main g num_vertices num_threads scheds = do {
     let (lv, vf) = init_bfs num_vertices;
     (root, lv) \<leftarrow> find_bfs_root num_vertices (g_index g) lv;
     (max_level, lv, vf) \<leftarrow> run_bfs g num_threads scheds lv vf root;
     Some (max_level, lv, vf, count_level max_level lv) }"

section \<open>Distances\<close>

definition edge :: "graph \<Rightarrow> nat \<Rightarrow> nat \<Rightarrow> bool" where
  "edge g u v \<longleftrightarrow> (\<exists>j. g_index g ! u \<le> j \<and> j < g_index g ! (u + 1) \<and> v = g_edges g ! j)"

inductive walk :: "graph \<Rightarrow> nat \<Rightarrow> nat \<Rightarrow> nat \<Rightarrow> bool" for g root where
  walk_root: "walk g root 0 root"
| walk_edge: "walk g root k u \<Longrightarrow> edge g u v \<Longrightarrow> walk g root (Suc k) v"

inductive_cases walk_SucE: "walk g root (Suc k) v"

definition is_dist :: "graph \<Rightarrow> nat \<Rightarrow> nat \<Rightarrow> nat \<Rightarrow> bool" where
  "is_dist g root v d \<longleftrightarrow> walk g root d v \<and> (\<forall>k < d. \<not> walk g root k v)"

text \<open>The arrays of a graph with \<open>n\<close> vertices.\<close>

definition graph_ok :: "graph \<Rightarrow> nat \<Rightarrow> bool" where
  "graph_ok g n \<longleftrightarrow> length (g_index g) = n + 1 \<and> (\<forall>u < n. g_index g ! u \<le> g_index g ! (u + 1))
     \<and> (\<forall>u \<le> n. g_index g ! u \<le> length (g_edges g)) \<and> list_all (\<lambda>v. v < n) (g_edges g)"

lemma graph_okD:
  assumes "graph_ok g n"
  shows "length (g_index g) = n + 1" "u < n \<Longrightarrow> g_index g ! u \<le> g_index g ! (u + 1)"
    "u < n \<Longrightarrow> j < g_index g ! (u + 1) \<Longrightarrow> j < length (g_edges g)"
    "u < n \<Longrightarrow> j < g_index g ! (u + 1) \<Longrightarrow> g_edges g ! j < n"
proof -
  show "length (g_index g) = n + 1" "u < n \<Longrightarrow> g_index g ! u \<le> g_index g ! (u + 1)" using assms by (simp_all add: graph_ok_def)
  show l: "u < n \<Longrightarrow> j < g_index g ! (u + 1) \<Longrightarrow> j < length (g_edges g)"
  proof -
    assume "u < n" "j < g_index g ! (u + 1)"
    moreover have "g_index g ! (u + 1) \<le> length (g_edges g)" using assms \<open>u < n\<close> by (simp add: graph_ok_def)
    ultimately show ?thesis by linarith
  qed
  show "u < n \<Longrightarrow> j < g_index g ! (u + 1) \<Longrightarrow> g_edges g ! j < n"
    using l assms by (simp add: graph_ok_def list_all_length)
qed

lemma edge_less: "graph_ok g n \<Longrightarrow> u < n \<Longrightarrow> edge g u v \<Longrightarrow> v < n"
  using graph_okD(4) by (auto simp: edge_def)

lemma walk_less: "walk g root k v \<Longrightarrow> graph_ok g n \<Longrightarrow> root < n \<Longrightarrow> v < n"
  by (induction rule: walk.induct) (auto intro: edge_less)

lemma is_dist_unique: "is_dist g root v d \<Longrightarrow> is_dist g root v e \<Longrightarrow> d = e"
  unfolding is_dist_def by (meson linorder_neqE_nat)

lemma walk_has_dist: "walk g root k v \<Longrightarrow> \<exists>d \<le> k. is_dist g root v d"
proof (induction k rule: less_induct)
  case (less k)
  show ?case
  proof (cases "\<exists>j < k. walk g root j v")
    case True
    then obtain j where "j < k" "walk g root j v" by blast
    then show ?thesis using less.IH by (meson le_trans less_imp_le)
  next
    case False
    then show ?thesis using less.prems by (auto simp: is_dist_def)
  qed
qed

lemma is_dist_0: "is_dist g root v 0 \<longleftrightarrow> v = root"
  by (auto simp: is_dist_def intro: walk_root elim: walk.cases)

text \<open>A vertex on level \<open>d + 1\<close> is a neighbour of one on level \<open>d\<close>, and the neighbours of level \<open>d\<close> are on
  level \<open>d + 1\<close> or below.\<close>

lemma is_dist_Suc:
  "is_dist g root v (Suc d) \<longleftrightarrow> (\<exists>u. is_dist g root u d \<and> edge g u v) \<and> (\<forall>k \<le> d. \<not> is_dist g root v k)"
proof
  assume a: "is_dist g root v (Suc d)"
  then have "walk g root (Suc d) v" by (simp add: is_dist_def)
  then obtain u where u: "walk g root d u" "edge g u v" by (rule walk_SucE)
  obtain e where e: "e \<le> d" "is_dist g root u e" using walk_has_dist [OF u(1)] by blast
  then have "walk g root (Suc e) v" using u(2) by (auto simp: is_dist_def intro: walk_edge)
  then have "\<not> Suc e < Suc d" using a by (auto simp: is_dist_def)
  then show "(\<exists>u. is_dist g root u d \<and> edge g u v) \<and> (\<forall>k \<le> d. \<not> is_dist g root v k)"
    using e u(2) a is_dist_unique by (metis Suc_n_not_le_n le_antisym not_less_eq not_less)
next
  assume a: "(\<exists>u. is_dist g root u d \<and> edge g u v) \<and> (\<forall>k \<le> d. \<not> is_dist g root v k)"
  then obtain u where "is_dist g root u d" "edge g u v" by blast
  then have "walk g root (Suc d) v" by (auto simp: is_dist_def intro: walk_edge)
  moreover have "\<not> walk g root k v" if "k < Suc d" for k
    using walk_has_dist [of g root k v] a that by (meson le_trans less_Suc_eq_le)
  ultimately show "is_dist g root v (Suc d)" by (simp add: is_dist_def)
qed

section \<open>The invariant of a round\<close>

definition settled :: "graph \<Rightarrow> nat list \<Rightarrow> nat \<Rightarrow> bool" where
  "settled g lv u \<longleftrightarrow> (\<forall>v. edge g u v \<longrightarrow> lv ! v \<noteq> k_infinite_level)"

definition passed :: "graph \<Rightarrow> nat list \<Rightarrow> nat \<Rightarrow> nat \<Rightarrow> bool" where
  "passed g lv u j \<longleftrightarrow> (\<forall>j'. g_index g ! u \<le> j' \<longrightarrow> j' < j \<longrightarrow> lv ! (g_edges g ! j') \<noteq> k_infinite_level)"

text \<open>A worker for the vertices \<open>[st, e)\<close> of the frontier has settled those it has left behind.\<close>

definition worker_ok :: "graph \<Rightarrow> nat list \<Rightarrow> nat list \<Rightarrow> nat \<times> nat \<Rightarrow> worker \<Rightarrow> bool" where
  "worker_ok g fr lv b w \<longleftrightarrow>
     w_end w = snd b \<and> snd b \<le> length fr
     \<and> (case w_pc w of
          Outer i \<Rightarrow> i \<le> snd b \<and> (\<forall>k. fst b \<le> k \<longrightarrow> k < i \<longrightarrow> settled g lv (fr ! k))
        | Inner i j \<Rightarrow> i < snd b \<and> (\<forall>k. fst b \<le> k \<longrightarrow> k < i \<longrightarrow> settled g lv (fr ! k))
            \<and> g_index g ! (fr ! i) \<le> j \<and> passed g lv (fr ! i) j
        | BitLoad i j \<Rightarrow> i < snd b \<and> (\<forall>k. fst b \<le> k \<longrightarrow> k < i \<longrightarrow> settled g lv (fr ! k))
            \<and> g_index g ! (fr ! i) \<le> j \<and> j < g_index g ! (fr ! i + 1) \<and> passed g lv (fr ! i) (j + 1)
        | BitStore i j x \<Rightarrow> i < snd b \<and> (\<forall>k. fst b \<le> k \<longrightarrow> k < i \<longrightarrow> settled g lv (fr ! k))
            \<and> g_index g ! (fr ! i) \<le> j \<and> j < g_index g ! (fr ! i + 1) \<and> passed g lv (fr ! i) (j + 1)
        | Flush \<Rightarrow> (\<forall>k. fst b \<le> k \<longrightarrow> k < snd b \<longrightarrow> settled g lv (fr ! k))
        | Finished \<Rightarrow> w_local w = [] \<and> (\<forall>k. fst b \<le> k \<longrightarrow> k < snd b \<longrightarrow> settled g lv (fr ! k)))"

text \<open>The vertices a worker has discovered and not yet published.\<close>

definition claims :: "graph \<Rightarrow> worker \<Rightarrow> nat multiset" where
  "claims g w = mset (w_local w)
     + (case w_pc w of BitLoad i j \<Rightarrow> {#g_edges g ! j#} | BitStore i j x \<Rightarrow> {#g_edges g ! j#} | _ \<Rightarrow> {#})"

definition discovered :: "nat \<Rightarrow> nat list \<Rightarrow> nat list \<Rightarrow> nat set" where
  "discovered n lv0 lv = {v. v < n \<and> lv ! v \<noteq> lv0 ! v}"

definition levels_ok :: "graph \<Rightarrow> nat \<Rightarrow> nat \<Rightarrow> nat list \<Rightarrow> nat list \<Rightarrow> nat list \<Rightarrow> bool" where
  "levels_ok g n c fr lv0 lv \<longleftrightarrow> length lv = n
     \<and> (\<forall>v < n. lv ! v \<noteq> lv0 ! v \<longrightarrow> lv0 ! v = k_infinite_level \<and> lv ! v = c + 1 \<and> (\<exists>u \<in> set fr. edge g u v))"

definition round_inv :: "graph \<Rightarrow> nat \<Rightarrow> nat \<Rightarrow> nat list \<Rightarrow> nat list \<Rightarrow> (nat \<times> nat) list \<Rightarrow> shared \<Rightarrow> bool" where
  "round_inv g n c fr lv0 bs s \<longleftrightarrow>
     levels_ok g n c fr lv0 (level s) \<and> length (visited_filter s) = bitmap_size n
     \<and> mset (next_frontier s) + sum_list (map (claims g) (workers s)) = mset_set (discovered n lv0 (level s))
     \<and> list_all2 (worker_ok g fr (level s)) bs (workers s)"

lemma sum_list_update_add:
  fixes f :: "'a \<Rightarrow> 'b::cancel_comm_monoid_add"
  shows "t < length xs \<Longrightarrow> sum_list (map f (xs[t := x])) + f (xs ! t) = sum_list (map f xs) + f x"
  by (induction xs arbitrary: t) (auto simp: ac_simps split: nat.split)

lemma bitmap_pos_less: "v < n \<Longrightarrow> bitmap_global_pos v < bitmap_size n"
  by (auto simp: bitmap_global_pos_def bitmap_size_def drop_bit_eq_div div_le_mono less_Suc_eq_le)

text \<open>A level that is not infinite stays so, and what was settled stays settled.\<close>

definition grown :: "nat list \<Rightarrow> nat list \<Rightarrow> bool" where
  "grown lv lv' \<longleftrightarrow> (\<forall>v. lv ! v \<noteq> k_infinite_level \<longrightarrow> lv' ! v \<noteq> k_infinite_level)"

lemma worker_ok_grown:
  assumes "worker_ok g fr lv b w" "grown lv lv'"
  shows "worker_ok g fr lv' b w"
proof -
  have "settled g lv u \<Longrightarrow> settled g lv' u" "passed g lv u j \<Longrightarrow> passed g lv' u j" for u j
    using assms(2) by (auto simp: settled_def passed_def grown_def)
  then show ?thesis using assms(1) unfolding worker_ok_def by (auto split: pc.splits)
qed

lemma passed_settled: "passed g lv u (g_index g ! (u + 1)) \<Longrightarrow> settled g lv u"
  by (auto simp: passed_def settled_def edge_def)

section \<open>Every step keeps the invariant and does some of the work\<close>

definition outer_work :: "graph \<Rightarrow> nat list \<Rightarrow> nat \<Rightarrow> nat \<Rightarrow> nat" where
  "outer_work g fr i e = 2 + (\<Sum>k\<leftarrow>[i..<e]. 2 + 3 * (g_index g ! (fr ! k + 1) - g_index g ! (fr ! k)))"

definition work :: "graph \<Rightarrow> nat list \<Rightarrow> worker \<Rightarrow> nat" where
  "work g fr w =
     (case w_pc w of
        Outer i \<Rightarrow> outer_work g fr i (w_end w)
      | Inner i j \<Rightarrow> 1 + 3 * (g_index g ! (fr ! i + 1) - j) + outer_work g fr (i + 1) (w_end w)
      | BitLoad i j \<Rightarrow> 3 * (g_index g ! (fr ! i + 1) - j) + outer_work g fr (i + 1) (w_end w)
      | BitStore i j x \<Rightarrow> 3 * (g_index g ! (fr ! i + 1) - j) - 1 + outer_work g fr (i + 1) (w_end w)
      | Flush \<Rightarrow> 1
      | Finished \<Rightarrow> 0)"

definition round_work :: "graph \<Rightarrow> nat list \<Rightarrow> shared \<Rightarrow> nat" where
  "round_work g fr s = sum_list (map (work g fr) (workers s))"

lemma outer_work_less:
  "i < e \<Longrightarrow> outer_work g fr i e = 2 + 3 * (g_index g ! (fr ! i + 1) - g_index g ! (fr ! i)) + outer_work g fr (i + 1) e"
  by (simp add: outer_work_def upt_rec [of i e])

lemma mset_balance:
  fixes A :: "'a multiset"
  assumes "A + w + D = N + v + D'" "S' + v = S + w" "N + S = D"
  shows "A + S' = D'"
proof (rule multiset_eqI)
  fix x
  have "count A x + count w x + count D x = count N x + count v x + count D' x" "count S' x + count v x = count S x + count w x"
    "count N x + count S x = count D x"
    using arg_cong [OF assms(1), of "\<lambda>m. count m x"] arg_cong [OF assms(2), of "\<lambda>m. count m x"]
      arg_cong [OF assms(3), of "\<lambda>m. count m x"] by simp_all
  then show "count (A + S') x = count D' x" by simp
qed

lemma round_inv_update:
  assumes inv: "round_inv g n c fr lv0 bs s" and t: "t < length (workers s)"
    and new: "levels_ok g n c fr lv0 lv" "length vf = bitmap_size n" "grown (level s) lv" "worker_ok g fr lv (bs ! t) w"
    and m: "mset nx + claims g w + mset_set (discovered n lv0 (level s))
      = mset (next_frontier s) + claims g (workers s ! t) + mset_set (discovered n lv0 lv)"
  shows "round_inv g n c fr lv0 bs \<lparr>level = lv, visited_filter = vf, next_frontier = nx, workers = (workers s)[t := w]\<rparr>"
proof -
  have i: "mset (next_frontier s) + sum_list (map (claims g) (workers s)) = mset_set (discovered n lv0 (level s))"
    "list_all2 (worker_ok g fr (level s)) bs (workers s)" using inv by (simp_all add: round_inv_def)
  have len: "length bs = length (workers s)" using i(2) by (rule list_all2_lengthD)
  have w: "worker_ok g fr lv (bs ! k) ((workers s)[t := w] ! k)" if "k < length bs" for k
  proof (cases "k = t")
    case False
    then have "worker_ok g fr (level s) (bs ! k) (workers s ! k)" using i(2) that by (simp add: list_all2_conv_all_nth)
    then show ?thesis using worker_ok_grown new(3) False by simp
  qed (use new(4) t in simp)
  have "sum_list (map (claims g) ((workers s)[t := w])) + claims g (workers s ! t) = sum_list (map (claims g) (workers s)) + claims g w"
    by (rule sum_list_update_add [OF t])
  from mset_balance [OF m this i(1)]
  have "mset nx + sum_list (map (claims g) ((workers s)[t := w])) = mset_set (discovered n lv0 lv)" .
  then show ?thesis using new(1,2) w len by (simp add: round_inv_def list_all2_conv_all_nth)
qed

lemma round_work_update:
  assumes "t < length (workers s)" "work g fr w < work g fr (workers s ! t)" "workers s' = (workers s)[t := w]"
  shows "round_work g fr s' < round_work g fr s"
  using sum_list_update_add [OF assms(1), of "work g fr" w] assms(2,3) by (simp add: round_work_def)

lemma bfs_step_ok:
  assumes g: "graph_ok g n" and fr: "set fr \<subseteq> {..<n}" and c: "c + 1 < 65535"
    and inv: "round_inv g n c fr lv0 bs s" and t: "t < length (workers s)" and run: "w_pc (workers s ! t) \<noteq> Finished"
  obtains s' where "bfs_step g c fr t s = Some s'" "round_inv g n c fr lv0 bs s'" "round_work g fr s' < round_work g fr s"
proof -
  note result = that
  let ?w = "workers s ! t"
  have i: "levels_ok g n c fr lv0 (level s)" "length (visited_filter s) = bitmap_size n" "worker_ok g fr (level s) (bs ! t) ?w"
    using inv t by (simp_all add: round_inv_def list_all2_conv_all_nth)
  have e: "w_end ?w = snd (bs ! t)" "snd (bs ! t) \<le> length fr" using i(3) by (simp_all add: worker_ok_def)
  have src: "fr ! i < n" if "i < snd (bs ! t)" for i using that e fr by (meson less_le_trans nth_mem subsetD lessThan_iff)
  have len: "length (level s) = n" using i(1) by (simp add: levels_ok_def)
  have same: "grown (level s) (level s)" by (simp add: grown_def)
  have finish: ?thesis
    if r: "bfs_level_worker g c fr ?w s = Some (w, s\<lparr>level := lv, visited_filter := vf, next_frontier := nx\<rparr>)"
      and new: "levels_ok g n c fr lv0 lv" "length vf = bitmap_size n" "grown (level s) lv" "worker_ok g fr lv (bs ! t) w"
      and m: "mset nx + claims g w + mset_set (discovered n lv0 (level s))
        = mset (next_frontier s) + claims g ?w + mset_set (discovered n lv0 lv)"
      and less: "work g fr w < work g fr ?w" for w lv vf nx
  proof -
    let ?s = "\<lparr>level = lv, visited_filter = vf, next_frontier = nx, workers = (workers s)[t := w]\<rparr>"
    have "bfs_step g c fr t s = Some ?s" using r t by (simp add: bfs_step_def rd_def)
    then show ?thesis
      using round_inv_update [OF inv t new m] round_work_update [OF t less, of ?s] by (intro result) simp_all
  qed
  show ?thesis
  proof (cases "w_pc ?w")
    case pc: (Outer i)
    show ?thesis
    proof (cases "i < snd (bs ! t)")
      case True
      have "bfs_level_worker g c fr ?w s = Some (?w\<lparr>w_pc := Inner i (g_index g ! (fr ! i))\<rparr>, s)"
        using pc True e src [OF True] graph_okD(1) [OF g] by (simp add: bfs_level_worker_def rd_def)
      then show ?thesis
        using i pc True same e outer_work_less [of i "snd (bs ! t)" g fr]
        by (intro finish [where w = "?w\<lparr>w_pc := Inner i (g_index g ! (fr ! i))\<rparr>" and lv = "level s" and vf = "visited_filter s" and nx = "next_frontier s"])
          (auto simp: worker_ok_def passed_def claims_def work_def)
    next
      case False
      then show ?thesis
        using i pc same e
        by (intro finish [where w = "?w\<lparr>w_pc := (if w_local ?w \<noteq> [] then Flush else Finished)\<rparr>" and lv = "level s" and vf = "visited_filter s" and nx = "next_frontier s"])
          (auto simp: bfs_level_worker_def worker_ok_def claims_def work_def outer_work_def)
    qed
  next
    case pc: (Inner i j)
    have ok: "i < snd (bs ! t)" "\<forall>k. fst (bs ! t) \<le> k \<longrightarrow> k < i \<longrightarrow> settled g (level s) (fr ! k)" "passed g (level s) (fr ! i) j"
      "g_index g ! (fr ! i) \<le> j"
      using i(3) pc by (simp_all add: worker_ok_def)
    have rds: "rd fr i = Some (fr ! i)" "rd (g_index g) (fr ! i + 1) = Some (g_index g ! (fr ! i + 1))"
      using ok(1) e src [OF ok(1)] graph_okD(1) [OF g] by (simp_all add: rd_def)
    show ?thesis
    proof (cases "j < g_index g ! (fr ! i + 1)")
      case False
      then have "settled g (level s) (fr ! i)" using ok(3) by (auto simp: passed_def settled_def edge_def)
      then show ?thesis
        using i pc same e ok False rds
        by (intro finish [where w = "?w\<lparr>w_pc := Outer (i + 1)\<rparr>" and lv = "level s" and vf = "visited_filter s" and nx = "next_frontier s"])
          (auto simp: bfs_level_worker_def worker_ok_def claims_def work_def less_Suc_eq)
    next
      case True
      let ?v = "g_edges g ! j"
      have v: "j < length (g_edges g)" "?v < n" using graph_okD(3,4) [OF g src [OF ok(1)] True] by simp_all
      have rdv: "rd (g_edges g) j = Some ?v" "rd (level s) ?v = Some (level s ! ?v)" using v len by (simp_all add: rd_def)
      show ?thesis
      proof (cases "level s ! ?v = k_infinite_level")
        case False
        have "passed g (level s) (fr ! i) (j + 1)" using ok(3) False by (auto simp: passed_def less_Suc_eq)
        then show ?thesis
          using i pc same e ok True False rds rdv
          by (intro finish [where w = "?w\<lparr>w_pc := Inner i (j + 1)\<rparr>" and lv = "level s" and vf = "visited_filter s" and nx = "next_frontier s"])
            (auto simp: bfs_level_worker_def worker_ok_def claims_def work_def cas_level_def)
      next
        case inf: True
        let ?lv = "(level s)[?v := c + 1]"
        have fin: "finite (discovered n lv0 (level s))" by (simp add: discovered_def)
        have lv0: "lv0 ! ?v = k_infinite_level" 
        proof (cases "level s ! ?v = lv0 ! ?v")
          case False
          then show ?thesis using i(1) v(2) unfolding levels_ok_def by blast
        qed (use inf in simp)
        have cinf: "c + 1 \<noteq> k_infinite_level" using c by (simp add: k_infinite_level_def)
        have nth: "?lv ! x = (if x = ?v then c + 1 else level s ! x)" for x using v(2) len by (cases "x = ?v") auto
        have disc: "discovered n lv0 ?lv = insert ?v (discovered n lv0 (level s))" "?v \<notin> discovered n lv0 (level s)"
          using v(2) lv0 inf cinf unfolding discovered_def nth by (auto split: if_splits)
        have "edge g (fr ! i) ?v" "fr ! i \<in> set fr" using ok(1,4) True e by (auto simp: edge_def)
        then have lev: "levels_ok g n c fr lv0 ?lv" 
          using i(1) lv0 unfolding levels_ok_def nth length_list_update by (metis (no_types))
        have grow: "grown (level s) ?lv" using cinf unfolding grown_def nth by simp
        have "worker_ok g fr (level s) (bs ! t) ?w" by (rule i(3))
        then have old: "worker_ok g fr ?lv (bs ! t) ?w" using grow by (rule worker_ok_grown)
        have "passed g ?lv (fr ! i) j" using old pc by (simp add: worker_ok_def)
        moreover have "?lv ! ?v \<noteq> k_infinite_level" using cinf unfolding nth by simp
        ultimately have "passed g ?lv (fr ! i) (j + 1)"
          unfolding passed_def Suc_eq_plus1 [symmetric] less_Suc_eq by blast
        then have wok: "worker_ok g fr ?lv (bs ! t) (?w\<lparr>w_pc := BitLoad i j\<rparr>)"
          using old pc True by (simp add: worker_ok_def)
        have run: "bfs_level_worker g c fr ?w s
            = Some (?w\<lparr>w_pc := BitLoad i j\<rparr>, s\<lparr>level := ?lv, visited_filter := visited_filter s, next_frontier := next_frontier s\<rparr>)"
          using pc True rds rdv inf c by (simp add: bfs_level_worker_def cas_level_def)
        show ?thesis
        proof (rule finish [OF run lev i(2) grow wok])
          show "work g fr (?w\<lparr>w_pc := BitLoad i j\<rparr>) < work g fr ?w" using pc by (simp add: work_def)
          show "mset (next_frontier s) + claims g (?w\<lparr>w_pc := BitLoad i j\<rparr>) + mset_set (discovered n lv0 (level s))
              = mset (next_frontier s) + claims g ?w + mset_set (discovered n lv0 ?lv)"
            unfolding disc(1) using pc disc(2) fin by (simp add: claims_def)
        qed
      qed
    qed
  next
    case pc: (BitLoad i j)
    have ok: "i < snd (bs ! t)" "j < g_index g ! (fr ! i + 1)" using i(3) pc by (simp_all add: worker_ok_def)
    let ?v = "g_edges g ! j"
    have v: "j < length (g_edges g)" "?v < n" using graph_okD(3,4) [OF g src [OF ok(1)] ok(2)] by simp_all
    let ?x = "visited_filter s ! bitmap_global_pos ?v"
    have "rd (g_edges g) j = Some ?v" "rd (visited_filter s) (bitmap_global_pos ?v) = Some ?x"
      using v i(2) bitmap_pos_less by (simp_all add: rd_def)
    then show ?thesis
      using i pc e ok same
      by (intro finish [where w = "?w\<lparr>w_pc := BitStore i j ?x\<rparr>" and lv = "level s" and vf = "visited_filter s" and nx = "next_frontier s"])
        (auto simp: bfs_level_worker_def worker_ok_def claims_def work_def)
  next
    case pc: (BitStore i j x)
    have ok: "i < snd (bs ! t)" "j < g_index g ! (fr ! i + 1)" using i(3) pc by (simp_all add: worker_ok_def)
    let ?v = "g_edges g ! j"
    have v: "j < length (g_edges g)" "?v < n" using graph_okD(3,4) [OF g src [OF ok(1)] ok(2)] by simp_all
    obtain vf where "rd (g_edges g) j = Some ?v" "set_word (visited_filter s) ?v x = Some vf" "length vf = bitmap_size n"
      using v i(2) bitmap_pos_less by (simp add: rd_def set_word_def)
    then show ?thesis
      using i pc e ok same
      by (intro finish [where w = "?w\<lparr>w_pc := Inner i (j + 1), w_local := w_local ?w @ [?v]\<rparr>" and lv = "level s" and vf = vf
            and nx = "next_frontier s"]) (auto simp: bfs_level_worker_def worker_ok_def claims_def work_def)
  next
    case Flush
    then show ?thesis
      using i same e
      by (intro finish [where w = "?w\<lparr>w_pc := Finished, w_local := []\<rparr>" and lv = "level s" and vf = "visited_filter s" and nx = "next_frontier s @ w_local ?w"])
        (auto simp: bfs_level_worker_def worker_ok_def claims_def work_def)
  qed (use run in simp)
qed

section \<open>A whole round\<close>

definition worker_bounds :: "nat \<Rightarrow> nat \<Rightarrow> (nat \<times> nat) list" where
  "worker_bounds k m = map (\<lambda>i. (i * chunk_size k m, min (i * chunk_size k m + chunk_size k m) m))
     (filter (\<lambda>i. i * chunk_size k m < min (i * chunk_size k m + chunk_size k m) m) [0..<k])"

lemma start_workers_bounds: "start_workers k m = map (\<lambda>b. \<lparr>w_pc = Outer (fst b), w_end = snd b, w_local = []\<rparr>) (worker_bounds k m)"
  by (simp add: start_workers_def worker_bounds_def Let_def)

lemma chunk_size_covers:
  assumes "0 < k" "0 < m"
  shows "0 < chunk_size k m" "m \<le> k * chunk_size k m"
proof -
  have d: "k * chunk_size k m + (m + k - 1) mod k = m + k - 1" by (simp add: chunk_size_def)
  have "(m + k - 1) mod k < k" using assms(1) by simp
  with d show "m \<le> k * chunk_size k m" using assms by linarith
  then show "0 < chunk_size k m" using assms(2) by (cases "chunk_size k m") auto
qed

text \<open>Every position of the frontier belongs to a worker.\<close>

lemma worker_bounds_cover:
  assumes "0 < k" "i < m"
  obtains b where "b \<in> set (worker_bounds k m)" "fst b \<le> i" "i < snd b"
proof -
  let ?c = "chunk_size k m"
  have c: "0 < ?c" "m \<le> k * ?c" using chunk_size_covers [of k m] assms by simp_all
  define q where "q = i div ?c"
  have "q * ?c + i mod ?c = i" unfolding q_def by (rule div_mult_mod_eq)
  moreover have "i mod ?c < ?c" using c(1) by simp
  ultimately have q: "q * ?c \<le> i" "i < q * ?c + ?c" by linarith+
  have "q * ?c < k * ?c" using q(1) assms(2) c(2) by linarith
  then have "q < k" by simp
  then have "(q * ?c, min (q * ?c + ?c) m) \<in> set (worker_bounds k m)" using q assms(2) by (auto simp: worker_bounds_def)
  then show ?thesis by (rule that) (use q assms(2) in simp_all)
qed

lemma worker_bounds_le: "b \<in> set (worker_bounds k m) \<Longrightarrow> fst b \<le> snd b \<and> snd b \<le> m"
  by (auto simp: worker_bounds_def)

definition round_start :: "nat \<Rightarrow> nat list \<Rightarrow> u64 list \<Rightarrow> nat list \<Rightarrow> shared" where
  "round_start k lv vf fr = \<lparr>level = lv, visited_filter = vf, next_frontier = [], workers = start_workers k (length fr)\<rparr>"

lemma claims_zero: "\<forall>w \<in> set ws. claims g w = {#} \<Longrightarrow> sum_list (map (claims g) ws) = {#}"
  by (induction ws) simp_all

lemma round_start_inv:
  assumes "length lv = n" "length vf = bitmap_size n"
  shows "round_inv g n c fr lv (worker_bounds k (length fr)) (round_start k lv vf fr)"
proof -
  have "sum_list (map (claims g) (start_workers k (length fr))) = {#}"
    unfolding start_workers_bounds by (rule claims_zero) (auto simp: claims_def)
  moreover have "list_all2 (worker_ok g fr lv) (worker_bounds k (length fr)) (start_workers k (length fr))"
    unfolding start_workers_bounds list_all2_map2 list_all2_same using worker_bounds_le by (auto simp: worker_ok_def)
  ultimately show ?thesis using assms by (simp add: round_inv_def round_start_def levels_ok_def discovered_def)
qed

lemma run_schedule_ok:
  assumes g: "graph_ok g n" and fr: "set fr \<subseteq> {..<n}" and c: "c + 1 < 65535"
  shows "round_inv g n c fr lv0 bs s \<Longrightarrow> run_schedule g c fr ts s = Some s' \<Longrightarrow>
    round_inv g n c fr lv0 bs s' \<and> length ts + round_work g fr s' \<le> round_work g fr s"
proof (induction ts arbitrary: s)
  case (Cons t ts)
  obtain s1 where s1: "bfs_step g c fr t s = Some s1" "run_schedule g c fr ts s1 = Some s'"
    using Cons.prems(2) by (auto split: option.splits)
  obtain w where w: "rd (workers s) t = Some w" "bfs_level_worker g c fr w s \<noteq> None" using s1(1) by (auto simp: bfs_step_def bind_eq_Some_conv)
  then have t: "t < length (workers s)" "w = workers s ! t" by (auto simp: rd_Some_iff)
  have "w_pc (workers s ! t) \<noteq> Finished" using w(2) t(2) by (auto simp: bfs_level_worker_def)
  then have "round_inv g n c fr lv0 bs s1 \<and> round_work g fr s1 < round_work g fr s"
    using bfs_step_ok [OF g fr c Cons.prems(1) t(1)] s1(1) by (metis option.inject)
  then show ?case using Cons.IH [of s1] s1(2) by auto
qed simp

lemma run_schedule_append:
  "run_schedule g c fr (ts @ us) s = (case run_schedule g c fr ts s of None \<Rightarrow> None | Some s' \<Rightarrow> run_schedule g c fr us s')"
  by (induction ts arbitrary: s) (auto split: option.splits)

text \<open>As long as a worker is not finished it can step, so that every round can be completed.\<close>

lemma round_completes:
  assumes g: "graph_ok g n" and fr: "set fr \<subseteq> {..<n}" and c: "c + 1 < 65535"
  shows "round_inv g n c fr lv0 bs s \<Longrightarrow> \<exists>ts s'. run_schedule g c fr ts s = Some s' \<and> all_joined s'"
proof (induction "round_work g fr s" arbitrary: s rule: less_induct)
  case less
  show ?case
  proof (cases "all_joined s")
    case True
    then show ?thesis by (intro exI [of _ "[]"] exI [of _ s]) simp
  next
    case False
    then obtain t where t: "t < length (workers s)" "w_pc (workers s ! t) \<noteq> Finished"
      by (auto simp: all_joined_def list_all_length)
    obtain s1 where s1: "bfs_step g c fr t s = Some s1" "round_inv g n c fr lv0 bs s1" "round_work g fr s1 < round_work g fr s"
      using bfs_step_ok [OF g fr c less.prems t] by blast
    obtain ts s' where "run_schedule g c fr ts s1 = Some s'" "all_joined s'" using less.hyps [OF s1(3,2)] by blast
    then show ?thesis using s1(1) by (intro exI [of _ "t # ts"] exI [of _ s']) simp
  qed
qed

lemma round_joined:
  assumes inv: "round_inv g n c fr lv0 (worker_bounds k (length fr)) s" and j: "all_joined s" and k: "0 < k"
  shows "levels_ok g n c fr lv0 (level s)" "length (visited_filter s) = bitmap_size n"
    "distinct (next_frontier s)" "set (next_frontier s) = discovered n lv0 (level s)" "\<And>u. u \<in> set fr \<Longrightarrow> settled g (level s) u"
proof -
  have i: "mset (next_frontier s) + sum_list (map (claims g) (workers s)) = mset_set (discovered n lv0 (level s))"
    "list_all2 (worker_ok g fr (level s)) (worker_bounds k (length fr)) (workers s)" using inv by (simp_all add: round_inv_def)
  show "levels_ok g n c fr lv0 (level s)" "length (visited_filter s) = bitmap_size n" using inv by (simp_all add: round_inv_def)
  have fin: "finite (discovered n lv0 (level s))" by (simp add: discovered_def)
  have z: "claims g w = {#}" if "w \<in> set (workers s)" for w
  proof -
    have "w_pc w = Finished" using j that by (simp add: all_joined_def list_all_iff)
    moreover have "\<exists>b. worker_ok g fr (level s) b w"
      using i(2) that unfolding in_set_conv_nth list_all2_conv_all_nth by metis
    ultimately show ?thesis by (auto simp: worker_ok_def claims_def)
  qed
  then have "sum_list (map (claims g) (workers s)) = {#}" by (intro claims_zero) blast
  then have m: "mset (next_frontier s) = mset_set (discovered n lv0 (level s))" using i(1) by simp
  then show "set (next_frontier s) = discovered n lv0 (level s)" using fin by (metis finite_set_mset_mset_set set_mset_mset)
  show "distinct (next_frontier s)"
    unfolding distinct_count_atmost_1 using m fin by (simp add: count_mset_set' flip: set_mset_mset)
  show "settled g (level s) u" if "u \<in> set fr" for u
  proof -
    obtain p where p: "p < length fr" "fr ! p = u" using \<open>u \<in> set fr\<close> by (auto simp: in_set_conv_nth)
    obtain b where b: "b \<in> set (worker_bounds k (length fr))" "fst b \<le> p" "p < snd b" using worker_bounds_cover [OF k p(1)] .
    then obtain x where x: "x < length (worker_bounds k (length fr))" "worker_bounds k (length fr) ! x = b" by (auto simp: in_set_conv_nth)
    then have "worker_ok g fr (level s) b (workers s ! x)" "x < length (workers s)" using i(2) by (auto simp: list_all2_conv_all_nth)
    moreover from this have "w_pc (workers s ! x) = Finished" using j by (simp add: all_joined_def list_all_length)
    ultimately show ?thesis using b p(2) by (auto simp: worker_ok_def)
  qed
qed

section \<open>Levels and distances\<close>

definition levels_upto :: "graph \<Rightarrow> nat \<Rightarrow> nat \<Rightarrow> nat \<Rightarrow> nat list \<Rightarrow> bool" where
  "levels_upto g n root c lv \<longleftrightarrow> length lv = n
     \<and> (\<forall>v < n. \<forall>d. lv ! v = d \<and> d \<noteq> k_infinite_level \<longleftrightarrow> is_dist g root v d \<and> d \<le> c)"

lemma levels_upto_inf:
  "levels_upto g n root c lv \<Longrightarrow> v < n \<Longrightarrow> lv ! v = k_infinite_level \<longleftrightarrow> (\<forall>d \<le> c. \<not> is_dist g root v d)"
  unfolding levels_upto_def by metis

lemma round_levels:
  assumes g: "graph_ok g n" and root: "root < n" and c: "c + 1 < 65535" and lv: "levels_upto g n root c lv0"
    and fr: "set fr = {v. is_dist g root v c}"
    and r: "levels_ok g n c fr lv0 lv" "\<And>u. u \<in> set fr \<Longrightarrow> settled g lv u"
  shows "levels_upto g n root (c + 1) lv" "discovered n lv0 lv = {v. is_dist g root v (c + 1)}"
proof -
  have cinf: "c + 1 \<noteq> k_infinite_level" using c by (simp add: k_infinite_level_def)
  have len: "length lv = n" using r(1) by (simp add: levels_ok_def)
  have less: "v < n" if "is_dist g root v d" for v d
    using that walk_less [OF _ g root] by (auto simp: is_dist_def)
  have new: "lv ! v \<noteq> lv0 ! v \<longleftrightarrow> is_dist g root v (c + 1)" if v: "v < n" for v
  proof
    assume ne: "lv ! v \<noteq> lv0 ! v"
    then have a: "lv0 ! v = k_infinite_level" "\<exists>u \<in> set fr. edge g u v" using r(1) v unfolding levels_ok_def by blast+
    have "\<forall>d \<le> c. \<not> is_dist g root v d" using levels_upto_inf [OF lv v] a(1) by simp
    moreover have "\<exists>u. is_dist g root u c \<and> edge g u v" using a(2) fr by blast
    ultimately show "is_dist g root v (c + 1)" unfolding Suc_eq_plus1 [symmetric] is_dist_Suc by blast
  next
    assume "is_dist g root v (c + 1)"
    then have a: "\<exists>u. is_dist g root u c \<and> edge g u v" "\<forall>d \<le> c. \<not> is_dist g root v d"
      unfolding Suc_eq_plus1 [symmetric] is_dist_Suc by blast+
    have "lv0 ! v = k_infinite_level" using levels_upto_inf [OF lv v] a(2) by simp
    moreover have "lv ! v \<noteq> k_infinite_level" using a(1) r(2) fr by (auto simp: settled_def)
    ultimately show "lv ! v \<noteq> lv0 ! v" by simp
  qed
  show "discovered n lv0 lv = {v. is_dist g root v (c + 1)}" using new less by (auto simp: discovered_def)
  have "lv ! v = d \<and> d \<noteq> k_infinite_level \<longleftrightarrow> is_dist g root v d \<and> d \<le> c + 1" if v: "v < n" for v d
  proof (cases "lv ! v = lv0 ! v")
    case True
    then have "\<not> is_dist g root v (c + 1)" using new [OF v] by simp
    then show ?thesis using lv v True unfolding levels_upto_def by (metis le_Suc_eq Suc_eq_plus1)
  next
    case False
    then have "is_dist g root v (c + 1)" "lv ! v = c + 1" using new [OF v] r(1) v unfolding levels_ok_def by blast+
    then show ?thesis using cinf is_dist_unique by (metis le_refl)
  qed
  then show "levels_upto g n root (c + 1) lv" using len by (simp add: levels_upto_def)
qed

section \<open>The whole search\<close>

lemma dist_less_n:
  assumes "graph_ok g n" "root < n" "is_dist g root v d"
  shows "d < n"
proof -
  have ex: "\<exists>u. is_dist g root u k" if "k \<le> d" for k
    using that assms(3)
  proof (induction "d - k" arbitrary: k)
    case (Suc m)
    then obtain u where u: "is_dist g root u (Suc k)" using Suc(1) [of "Suc k"] by (metis Suc_diff_Suc Suc_leI diff_Suc_Suc diff_le_self le_neq_implies_less Suc_inject zero_less_Suc zero_less_diff)
    then show ?case using is_dist_Suc by blast
  qed auto
  define f where "f k = (SOME u. is_dist g root u k)" for k
  have f: "is_dist g root (f k) k" if "k \<le> d" for k unfolding f_def using someI_ex [OF ex [OF that]] .
  have "inj_on f {..d}" using f is_dist_unique by (metis atMost_iff inj_onI)
  moreover have "f ` {..d} \<subseteq> {..<n}"
    using f walk_less [OF _ assms(1,2)] by (auto simp: is_dist_def)
  ultimately have "card {..d} \<le> card {..<n}" by (metis card_inj_on_le finite_lessThan)
  then show ?thesis by simp
qed

definition depth_ok :: "graph \<Rightarrow> nat \<Rightarrow> bool" where
  "depth_ok g root \<longleftrightarrow> (\<forall>v d. is_dist g root v d \<longrightarrow> d < 65534)"

text \<open>What holds at the start of every round of the loop.\<close>

definition loop_inv :: "graph \<Rightarrow> nat \<Rightarrow> nat \<Rightarrow> nat \<Rightarrow> nat list \<Rightarrow> u64 list \<Rightarrow> nat list \<Rightarrow> bool" where
  "loop_inv g n root c lv vf fr \<longleftrightarrow> levels_upto g n root c lv \<and> length vf = bitmap_size n
     \<and> set fr = {v. is_dist g root v c} \<and> fr \<noteq> []"

lemma loop_invD:
  assumes "loop_inv g n root c lv vf fr" "graph_ok g n" "root < n" "depth_ok g root"
  shows "set fr \<subseteq> {..<n}" "c + 1 < 65535" "round_inv g n c fr lv (worker_bounds k (length fr)) (round_start k lv vf fr)"
    "\<exists>v. is_dist g root v c"
proof -
  have i: "set fr = {v. is_dist g root v c}" "fr \<noteq> []" "length lv = n" "length vf = bitmap_size n"
    using assms(1) by (simp_all add: loop_inv_def levels_upto_def)
  show "set fr \<subseteq> {..<n}" using i(1) walk_less [OF _ assms(2,3)] by (auto simp: is_dist_def)
  show ex: "\<exists>v. is_dist g root v c" using i(1,2) by (metis ex_in_conv mem_Collect_eq set_empty)
  show "c + 1 < 65535" using ex assms(4) by (auto simp: depth_ok_def)
  show "round_inv g n c fr lv (worker_bounds k (length fr)) (round_start k lv vf fr)" by (rule round_start_inv [OF i(3,4)])
qed

lemma round_next:
  assumes inv: "loop_inv g n root c lv vf fr" and g: "graph_ok g n" "root < n" "depth_ok g root" and k: "0 < k"
    and r: "run_schedule g c fr ts (round_start k lv vf fr) = Some s" "all_joined s"
  shows "levels_upto g n root (c + 1) (level s)" "set (next_frontier s) = {v. is_dist g root v (c + 1)}"
    "length (visited_filter s) = bitmap_size n"
    "next_frontier s \<noteq> [] \<Longrightarrow> loop_inv g n root (c + 1) (level s) (visited_filter s) (next_frontier s)"
proof -
  note d = loop_invD [OF inv g]
  have ri: "round_inv g n c fr lv (worker_bounds k (length fr)) s" using run_schedule_ok [OF g(1) d(1,2) d(3) r(1)] by blast
  note j = round_joined [OF ri r(2) k]
  have i: "levels_upto g n root c lv" "set fr = {v. is_dist g root v c}" using inv by (simp_all add: loop_inv_def)
  show l: "levels_upto g n root (c + 1) (level s)" by (rule round_levels(1) [OF g(1,2) d(2) i j(1,5)])
  show n: "set (next_frontier s) = {v. is_dist g root v (c + 1)}" using round_levels(2) [OF g(1,2) d(2) i j(1,5)] j(4) by simp
  show "length (visited_filter s) = bitmap_size n" by (rule j(2))
  then show "next_frontier s \<noteq> [] \<Longrightarrow> loop_inv g n root (c + 1) (level s) (visited_filter s) (next_frontier s)"
    using l n by (simp add: loop_inv_def)
qed

lemma bfs_rounds_unfold:
  "fr \<noteq> [] \<Longrightarrow> 0 < k \<Longrightarrow> bfs_rounds g k (ts # rest) lv vf fr c = do {
     s \<leftarrow> run_schedule g c fr ts (round_start k lv vf fr);
     (if \<not> all_joined s then None
      else if next_frontier s = [] then Some (c, level s, visited_filter s)
      else bfs_rounds g k rest (level s) (visited_filter s) (next_frontier s) ((c + 1) mod 65536)) }"
  by (subst bfs_rounds.simps) (simp add: round_start_def)

definition search_done :: "graph \<Rightarrow> nat \<Rightarrow> nat \<Rightarrow> nat \<Rightarrow> nat list \<Rightarrow> bool" where
  "search_done g n root m lv \<longleftrightarrow> length lv = n \<and> m < 65534 \<and> (\<forall>v d. is_dist g root v d \<longrightarrow> d \<le> m) \<and> (\<exists>v. is_dist g root v m)
     \<and> (\<forall>v < n. \<forall>d. lv ! v = d \<and> d \<noteq> k_infinite_level \<longleftrightarrow> is_dist g root v d)"

lemma search_doneI:
  assumes "levels_upto g n root (m + 1) lv" "{v. is_dist g root v (m + 1)} = {}" "m < 65534" "\<exists>v. is_dist g root v m"
  shows "search_done g n root m lv"
proof -
  have le: "d \<le> m" if "is_dist g root v d" for v d
    using that
  proof (induction d arbitrary: v)
    case (Suc d)
    then obtain u where "is_dist g root u d" using is_dist_Suc by blast
    then have "d \<le> m" by (rule Suc.IH)
    moreover have "d \<noteq> m" using Suc.prems assms(2) by auto
    ultimately show ?case by simp
  qed simp
  then have "is_dist g root v d \<and> d \<le> m + 1 \<longleftrightarrow> is_dist g root v d" for v d by (meson le_SucI le_add1 le_trans)
  then show ?thesis using assms(1,3,4) le by (simp add: search_done_def levels_upto_def)
qed

lemma bfs_rounds_ok:
  assumes g: "graph_ok g n" "root < n" "depth_ok g root" and k: "0 < k"
  shows "loop_inv g n root c lv vf fr \<Longrightarrow> bfs_rounds g k scheds lv vf fr c = Some (m, lv', vf') \<Longrightarrow> search_done g n root m lv'"
proof (induction scheds arbitrary: c lv vf fr)
  case Nil
  then have "fr \<noteq> []" by (simp add: loop_inv_def)
  then show ?case using Nil k by (simp add: bfs_rounds.simps)
next
  case (Cons ts rest)
  have fr: "fr \<noteq> []" using Cons.prems(1) by (simp add: loop_inv_def)
  note eq = Cons.prems(2) [unfolded bfs_rounds_unfold [OF fr k]]
  obtain s where s: "run_schedule g c fr ts (round_start k lv vf fr) = Some s" "all_joined s"
    using eq by (cases "run_schedule g c fr ts (round_start k lv vf fr)") (auto split: if_splits)
  note n = round_next [OF Cons.prems(1) g k s]
  have c: "c + 1 < 65535" "\<exists>v. is_dist g root v c" by (rule loop_invD [OF Cons.prems(1) g])+
  show ?case
  proof (cases "next_frontier s = []")
    case True
    then have "m = c" "lv' = level s" using eq s by simp_all
    moreover have "{v. is_dist g root v (c + 1)} = {}" using n(2) True by simp
    ultimately show ?thesis using search_doneI [of g n root c "level s"] n(1) c by simp
  next
    case False
    have "(c + 1) mod 65536 = c + 1" using c by simp
    then have "bfs_rounds g k rest (level s) (visited_filter s) (next_frontier s) (c + 1) = Some (m, lv', vf')"
      using eq s False by simp
    then show ?thesis by (rule Cons.IH [OF n(4) [OF False]])
  qed
qed

lemma bfs_rounds_exist:
  assumes g: "graph_ok g n" "root < n" "depth_ok g root" and k: "0 < k"
  shows "loop_inv g n root c lv vf fr \<Longrightarrow> \<exists>scheds r. bfs_rounds g k scheds lv vf fr c = Some r"
proof (induction "65535 - c" arbitrary: c lv vf fr rule: less_induct)
  case less
  have fr: "fr \<noteq> []" using less.prems by (simp add: loop_inv_def)
  note d = loop_invD [OF less.prems g]
  obtain ts s where s: "run_schedule g c fr ts (round_start k lv vf fr) = Some s" "all_joined s"
    using round_completes [OF g(1) d(1,2) d(3)] by blast
  show ?case
  proof (cases "next_frontier s = []")
    case True
    then show ?thesis using s bfs_rounds_unfold [OF fr k, of g ts "[]"] by (intro exI [of _ "[ts]"]) simp
  next
    case False
    have "65535 - (c + 1) < 65535 - c" using d(2) by linarith
    then obtain scheds r where "bfs_rounds g k scheds (level s) (visited_filter s) (next_frontier s) (c + 1) = Some r"
      using less.hyps round_next(4) [OF less.prems g k s False] by blast
    then show ?thesis using s d(2) False bfs_rounds_unfold [OF fr k, of g ts scheds] by (intro exI [of _ "ts # scheds"] exI [of _ r]) simp
  qed
qed

lemma start_loop_inv:
  assumes "graph_ok g n" "root < n" "length vf = bitmap_size n"
  shows "loop_inv g n root 0 ((replicate n k_infinite_level)[root := 0]) vf [root]"
proof -
  have "levels_upto g n root 0 ((replicate n k_infinite_level)[root := 0])"
    using assms(2) by (auto simp: levels_upto_def nth_list_update is_dist_0 k_infinite_level_def intro!: gr0I)
  then show ?thesis using assms(3) by (auto simp: loop_inv_def is_dist_0)
qed

lemma bitmap_set_bit_ok:
  assumes "v < n" "length vf = bitmap_size n"
  obtains vf' where "bitmap_set_bit vf v = Some vf'" "length vf' = bitmap_size n"
  using bitmap_pos_less [OF assms(1)] assms(2) by (simp add: bitmap_set_bit_def set_word_def rd_def)

lemma find_root_loop_less: "find_root_loop k ix src = Some r \<Longrightarrow> r < src + k"
  by (induction k ix src rule: find_root_loop.induct) (auto split: if_splits simp: bind_eq_Some_conv)

lemma count_loop_ok:
  assumes "m < 65535"
  shows "\<forall>l \<in> set lv. l = k_infinite_level \<or> l \<le> m \<Longrightarrow> length cnt = m + 1 \<Longrightarrow>
    count_loop m lv cnt = Inr (map (\<lambda>d. cnt ! d + count_list lv d) [0..<m + 1])"
proof (induction lv arbitrary: cnt)
  case Nil
  then show ?case by (simp add: list_eq_iff_nth_eq del: upt_Suc)
next
  case (Cons l lv)
  show ?case
  proof (cases "l = k_infinite_level")
    case True
    then show ?thesis using Cons assms by (auto simp: k_infinite_level_def)
  next
    case False
    then have "l \<le> m" using Cons.prems by auto
    then show ?thesis using Cons False by (auto simp: nth_list_update)
  qed
qed

lemma count_list_card: "count_list xs y = card {i. i < length xs \<and> xs ! i = y}"
  by (simp add: count_list_eq_length_filter length_filter_conv_card eq_commute)

section \<open>Properties\<close>

text \<open>C17. On a graph whose vertices are less than 65534 edges away from the root the program can run to its end,
  and whenever it does, whatever the number of threads and the interleaving of the workers in each round, the
  level of every vertex is its distance from the root (65535 if it cannot be reached), the value returned is
  the largest distance, and \<open>count_level\<close> reports for every level the number of vertices at that distance.\<close>

theorem bfs_main_levels:
  assumes g: "graph_ok g n" and r: "find_root_loop n (g_index g) 0 = Some root" and d: "depth_ok g root" and k: "0 < k"
  shows "(\<exists>scheds. bfs_main g n k scheds \<noteq> None) \<and>
    (\<forall>scheds m lv vf cnt. bfs_main g n k scheds = Some (m, lv, vf, cnt) \<longrightarrow>
       (\<forall>v < n. \<forall>d. lv ! v = d \<and> d \<noteq> 65535 \<longleftrightarrow> is_dist g root v d)
       \<and> (\<forall>v d. is_dist g root v d \<longrightarrow> d \<le> m) \<and> (\<exists>v. is_dist g root v m)
       \<and> cnt = Inr (map (\<lambda>d. card {v. is_dist g root v d}) [0..<m + 1]))"
proof -
  have root: "root < n" using find_root_loop_less [OF r] by simp
  obtain vf0 where vf0: "bitmap_set_bit (replicate (bitmap_size n) 0) root = Some vf0" "length vf0 = bitmap_size n"
    using bitmap_set_bit_ok [OF root, of "replicate (bitmap_size n) 0"] by auto
  let ?lv0 = "(replicate n k_infinite_level)[root := 0]"
  have main: "bfs_main g n k scheds = map_option (\<lambda>(m, lv, vf). (m, lv, vf, count_level m lv)) (bfs_rounds g k scheds ?lv0 vf0 [root] 0)" for scheds
    using r root vf0 by (cases "bfs_rounds g k scheds ?lv0 vf0 [root] 0")
      (auto simp: bfs_main_def init_bfs_def find_bfs_root_def run_bfs_def)
  note inv = start_loop_inv [OF g root vf0(2)]
  have "(\<forall>v < n. \<forall>d. lv ! v = d \<and> d \<noteq> 65535 \<longleftrightarrow> is_dist g root v d) \<and> (\<forall>v d. is_dist g root v d \<longrightarrow> d \<le> m)
       \<and> (\<exists>v. is_dist g root v m) \<and> cnt = Inr (map (\<lambda>d. card {v. is_dist g root v d}) [0..<m + 1])"
    if run: "bfs_main g n k scheds = Some (m, lv, vf, cnt)" for scheds m lv vf cnt
  proof -
    have rounds: "bfs_rounds g k scheds ?lv0 vf0 [root] 0 = Some (m, lv, vf)" "cnt = count_level m lv"
      using run unfolding main by auto
    have s: "search_done g n root m lv" by (rule bfs_rounds_ok [OF g root d k inv rounds(1)])
    have lv: "length lv = n" "m < 65534" "\<forall>v d. is_dist g root v d \<longrightarrow> d \<le> m" "\<exists>v. is_dist g root v m"
      "\<forall>v < n. \<forall>d. lv ! v = d \<and> d \<noteq> k_infinite_level \<longleftrightarrow> is_dist g root v d" using s by (simp_all add: search_done_def)
    have "l = k_infinite_level \<or> l \<le> m" if "l \<in> set lv" for l
      using that lv(1,3,5) unfolding in_set_conv_nth by blast
    then have "count_loop m lv (replicate (m + 1) 0) = Inr (map (\<lambda>d. replicate (m + 1) 0 ! d + count_list lv d) [0..<m + 1])"
      using lv(2) by (intro count_loop_ok) auto
    moreover have "replicate (m + 1) (0 :: nat) ! d + count_list lv d = count_list lv d" if "d < m + 1" for d
      using that by (simp only: nth_replicate add_0)
    ultimately have c: "cnt = Inr (map (\<lambda>d. count_list lv d) [0..<m + 1])"
      unfolding rounds(2) count_level_def by (simp del: upt_Suc replicate_Suc cong: map_cong)
    have "count_list lv d = card {v. is_dist g root v d}" if "d \<le> m" for d
    proof -
      have "{i. i < length lv \<and> lv ! i = d} = {v. is_dist g root v d}"
      proof -
        have "is_dist g root v d \<Longrightarrow> v < n" for v using walk_less [OF _ g root] by (auto simp: is_dist_def)
        moreover have "d \<noteq> k_infinite_level" using that lv(2) by (simp add: k_infinite_level_def)
        ultimately show ?thesis unfolding lv(1) using lv(5) by blast
      qed
      then show ?thesis by (simp add: count_list_card)
    qed
    then show ?thesis using c lv(3-5) by (simp add: k_infinite_level_def del: upt_Suc)
  qed
  moreover obtain scheds res where "bfs_rounds g k scheds ?lv0 vf0 [root] 0 = Some res"
    using bfs_rounds_exist [OF g root d k inv] by blast
  then have "bfs_main g n k scheds \<noteq> None" unfolding main by simp
  ultimately show ?thesis by blast
qed

text \<open>Running small examples.\<close>

lemma list_update_numeral: "(x # xs)[numeral k := y] = x # xs[pred_numeral k := y]"
  by (simp add: numeral_eq_Suc)

lemma upt_2: "[0..<2] = [0, Suc 0]"
  by (simp add: upt_rec)

lemmas run_eval = upt_2 round_start_def start_workers_def chunk_size_def bfs_step_def bfs_level_worker_def rd_def Let_def all_joined_def
  cas_level_def k_infinite_level_def bitmap_get_bit_def set_word_def bitmap_global_pos_def bitmap_local_pos_def list_update_numeral

definition diamond :: graph where "diamond = \<lparr>g_index = [0, 2, 3, 4, 4], g_edges = [1, 2, 3, 3]\<rparr>"

lemma diamond_ok: "graph_ok diamond 4" "find_root_loop 4 (g_index diamond) 0 = Some 0" "depth_ok diamond 0"
proof -
  show g: "graph_ok diamond 4" by (simp add: graph_ok_def diamond_def less_Suc_eq numeral_eq_Suc le_Suc_eq)
  show "find_root_loop 4 (g_index diamond) 0 = Some 0" by (simp add: diamond_def numeral_eq_Suc)
  show "depth_ok diamond 0" using dist_less_n [OF g, of 0] by (fastforce simp: depth_ok_def)
qed

theorem bfs_main_levels_witness:
  "\<exists>scheds m lv vf cnt. bfs_main diamond 4 2 scheds = Some (m, lv, vf, cnt) \<and> lv ! 0 = 0 \<and> lv ! 1 = 1"
proof -
  have "(0 :: nat) < 2" by simp
  note b = bfs_main_levels [OF diamond_ok this]
  obtain scheds m lv vf cnt where r: "bfs_main diamond 4 2 scheds = Some (m, lv, vf, cnt)" using conjunct1 [OF b] by fast
  then have l: "\<forall>v < 4. \<forall>d. lv ! v = d \<and> d \<noteq> 65535 \<longleftrightarrow> is_dist diamond 0 v d" using conjunct2 [OF b] by blast
  have "is_dist diamond 0 0 0" by (simp add: is_dist_0)
  moreover have "edge diamond 0 1" unfolding edge_def by (intro exI [of _ 0]) (simp add: diamond_def)
  then have "is_dist diamond 0 1 (Suc 0)" unfolding is_dist_Suc using is_dist_0 by auto
  ultimately have "lv ! 0 = 0" "lv ! 1 = 1" using l [rule_format, of 0 0] l [rule_format, of 1 1] by simp_all
  then show ?thesis using r by blast
qed

text \<open>C18. A round never blocks: after any number of steps of any interleaving of its workers, every worker that has
  not finished can take its next step without leaving an array, the number of steps taken is at most the work
  the round began with, and the round can be brought to its end.\<close>

theorem bfs_round_live:
  assumes "graph_ok g n" "root < n" "depth_ok g root" "loop_inv g n root c lv vf fr" "0 < k"
    and "run_schedule g c fr ts (round_start k lv vf fr) = Some s"
  shows "length ts \<le> round_work g fr (round_start k lv vf fr)
    \<and> (\<forall>t < length (workers s). w_pc (workers s ! t) \<noteq> Finished \<longrightarrow> bfs_step g c fr t s \<noteq> None)
    \<and> (\<exists>us s'. run_schedule g c fr (ts @ us) (round_start k lv vf fr) = Some s' \<and> all_joined s')"
proof -
  note d = loop_invD [OF assms(4,1-3)]
  have i: "round_inv g n c fr lv (worker_bounds k (length fr)) s" "length ts \<le> round_work g fr (round_start k lv vf fr)"
    using run_schedule_ok [OF assms(1) d(1,2) d(3) assms(6)] by simp_all
  have "bfs_step g c fr t s \<noteq> None" if "t < length (workers s)" "w_pc (workers s ! t) \<noteq> Finished" for t
    using bfs_step_ok [OF assms(1) d(1,2) i(1) that] by (metis option.distinct(1))
  moreover obtain us s' where "run_schedule g c fr us s = Some s'" "all_joined s'"
    using round_completes [OF assms(1) d(1,2) i(1)] by blast
  then have "run_schedule g c fr (ts @ us) (round_start k lv vf fr) = Some s'" "all_joined s'"
    using assms(6) by (simp_all add: run_schedule_append)
  ultimately show ?thesis using i(2) by blast
qed

theorem bfs_round_live_witness:
  "\<exists>us s'. run_schedule diamond 0 [0] ([0, 0] @ us) (round_start 2 [0, 65535, 65535, 65535] [1] [0]) = Some s' \<and> all_joined s'"
proof -
  have four: "(4 :: nat) = Suc (Suc (Suc (Suc 0)))" by simp
  have lv: "(replicate 4 k_infinite_level)[0 := 0] = [0, 65535, 65535, 65535]"
    unfolding four k_infinite_level_def by simp
  have i: "loop_inv diamond 4 0 0 [0, 65535, 65535, 65535] [1] [0]"
    using start_loop_inv [OF diamond_ok(1), of 0 "[1]"] unfolding lv by (simp add: bitmap_size_def)
  have "run_schedule diamond 0 [0] [0, 0] (round_start 2 [0, 65535, 65535, 65535] [1] [0]) \<noteq> None"
    by (simp add: run_eval diamond_def)
  then obtain s where s: "run_schedule diamond 0 [0] [0, 0] (round_start 2 [0, 65535, 65535, 65535] [1] [0]) = Some s" by blast
  show ?thesis using bfs_round_live [OF diamond_ok(1) _ diamond_ok(3) i _ s] by simp
qed

definition two_paths :: graph where "two_paths = \<lparr>g_index = [0, 2, 3, 4, 4, 4], g_edges = [1, 2, 3, 4]\<rparr>"

text \<open>Two limits of the search: when two workers set bits of the same word of the bitmap at the same time, one of
  the bits can be lost although its vertex got a level; and a vertex found in the round of level 65534 gets
  level 65535, which is the mark of a vertex not found.\<close>

theorem bfs_limits:
  "(\<exists>ts s. run_schedule two_paths 1 [1, 2] ts (round_start 2 [0, 1, 1, 65535, 65535] [7] [1, 2]) = Some s \<and> all_joined s
      \<and> level s = [0, 1, 1, 2, 2] \<and> bitmap_get_bit (visited_filter s) 3 = Some False \<and> bitmap_get_bit (visited_filter s) 4 = Some True)
   \<and> cas_level [0, 65535] 1 (65534 + 1) = Some (True, [0, 65535])"
proof
  let ?r = "run_schedule two_paths 1 [1, 2] [0, 0, 0, 1, 1, 1, 0, 1, 0, 1, 0, 1, 0, 1] (round_start 2 [0, 1, 1, 65535, 65535] [7] [1, 2])"
  have "case ?r of None \<Rightarrow> False | Some s \<Rightarrow> all_joined s \<and> level s = [0, 1, 1, 2, 2]
      \<and> bitmap_get_bit (visited_filter s) 3 = Some False \<and> bitmap_get_bit (visited_filter s) 4 = Some True"
    by (simp add: run_eval two_paths_def)
  then show "\<exists>ts s. run_schedule two_paths 1 [1, 2] ts (round_start 2 [0, 1, 1, 65535, 65535] [7] [1, 2]) = Some s \<and> all_joined s
      \<and> level s = [0, 1, 1, 2, 2] \<and> bitmap_get_bit (visited_filter s) 3 = Some False \<and> bitmap_get_bit (visited_filter s) 4 = Some True"
    by (cases ?r) (simp_all only: option.case, blast)
  show "cas_level [0, 65535] 1 (65534 + 1) = Some (True, [0, 65535])"
    by (simp add: cas_level_def rd_def k_infinite_level_def)
qed

end
