(* ===== verification/Schema.thy ===== *)
theory Schema
  imports BTreeNode "HOL-Library.Product_Lexorder"
begin

text \<open>
  The types and tables of the TPC-C benchmark (\<open>tpcc/Types.hpp\<close>, \<open>tpcc/Schema.hpp\<close>): strings of bounded
  length, the fields as bytes whose order is that of the fields, and for each table its record and the
  bytes of its key, which are the keys of the B-tree.

  \<open>Integer\<close> and \<open>Timestamp\<close> are integers in the range of their types (\<open>int_ok\<close>, \<open>ts_ok\<close>). A \<open>Varchar\<close> is the
  list of its bytes up to its length; its capacity is an argument of the operations, and exceeding it is
  \<open>None\<close>, as the assertions are not compiled. \<open>Numeric\<close>, a \<open>double\<close>, is the type variable of the records.
\<close>

type_synonym varchar = "u8 list"

definition int_ok :: "int \<Rightarrow> bool" where "int_ok x \<longleftrightarrow> - (2 ^ 31) \<le> x \<and> x < 2 ^ 31"
definition ts_ok :: "int \<Rightarrow> bool" where "ts_ok x \<longleftrightarrow> - (2 ^ 63) \<le> x \<and> x < 2 ^ 63"

definition minInteger :: int where "minInteger = - (2 ^ 31)"
definition maxInteger :: int where "maxInteger = 2 ^ 31 - 1"

section \<open>Varchar\<close>

text \<open>From a string literal.\<close>

definition vc_of :: "nat \<Rightarrow> varchar \<Rightarrow> varchar option" where
  "vc_of maxLength str = (if length str \<le> maxLength then Some str else None)"

definition vc_append :: "nat \<Rightarrow> varchar \<Rightarrow> u8 \<Rightarrow> varchar option" where
  "vc_append maxLength v x = (if length v < maxLength then Some (v @ [x]) else None)"

definition vc_concat :: "nat \<Rightarrow> varchar \<Rightarrow> varchar \<Rightarrow> varchar option" where
  "vc_concat maxLength v other = (if length v + length other \<le> maxLength then Some (v @ other) else None)"

text \<open>\<open>memcmp\<close> of the standard library, as the difference at the first byte that differs.\<close>

fun memcmp :: "u8 list \<Rightarrow> u8 list \<Rightarrow> nat \<Rightarrow> int" where
  "memcmp (a # as) (b # bs) (Suc n) = (if a = b then memcmp as bs n else uint a - uint b)"
| "memcmp _ _ _ = 0"

definition vc_eq :: "varchar \<Rightarrow> varchar \<Rightarrow> bool" where
  "vc_eq a b \<longleftrightarrow> length a = length b \<and> memcmp a b (length a) = 0"

definition vc_less :: "varchar \<Rightarrow> varchar \<Rightarrow> bool" where
  "vc_less a b =
     (let cmp = memcmp a b (if length a < length b then length a else length b)
      in if cmp \<noteq> 0 then cmp < 0 else length a < length b)"

section \<open>Folding fields\<close>

text \<open>Storing and loading a number in memory, and the exchange of its bytes.\<close>

definition store32 :: "u32 \<Rightarrow> u8 list" where
  "store32 w = map (\<lambda>k. ucast (drop_bit (8 * k) w)) [0, 1, 2, 3]"

definition store64 :: "u64 \<Rightarrow> u8 list" where
  "store64 w = map (\<lambda>k. ucast (drop_bit (8 * k) w)) [0, 1, 2, 3, 4, 5, 6, 7]"

definition load32 :: "u8 list \<Rightarrow> u32 option" where
  "load32 p = (case p of
     a # b # c # d # _ \<Rightarrow> Some (ucast a OR push_bit 8 (ucast b) OR push_bit 16 (ucast c) OR push_bit 24 (ucast d)) | _ \<Rightarrow> None)"

definition load64 :: "u8 list \<Rightarrow> u64 option" where
  "load64 p = (case p of
     a # b # c # d # e # f # g # h # _ \<Rightarrow>
       Some (ucast a OR push_bit 8 (ucast b) OR push_bit 16 (ucast c) OR push_bit 24 (ucast d)
         OR push_bit 32 (ucast e) OR push_bit 40 (ucast f) OR push_bit 48 (ucast g) OR push_bit 56 (ucast h)) | _ \<Rightarrow> None)"

definition bswap32 :: "u32 \<Rightarrow> u32" where
  "bswap32 w = push_bit 24 (w AND 0xff) OR push_bit 8 (w AND 0xff00) OR (drop_bit 8 w AND 0xff00) OR drop_bit 24 w"

definition bswap64 :: "u64 \<Rightarrow> u64" where
  "bswap64 w = push_bit 56 (w AND 0xff) OR push_bit 40 (w AND 0xff00) OR push_bit 24 (w AND 0xff0000)
     OR push_bit 8 (w AND 0xff000000) OR (drop_bit 8 w AND 0xff000000) OR (drop_bit 24 w AND 0xff0000)
     OR (drop_bit 40 w AND 0xff00) OR drop_bit 56 w"

definition fold_Integer :: "int \<Rightarrow> u8 list" where
  "fold_Integer x = store32 (bswap32 (word_of_int x XOR push_bit 31 1))"

definition fold_Timestamp :: "int \<Rightarrow> u8 list" where
  "fold_Timestamp x = store64 (bswap64 (word_of_int x XOR push_bit 63 1))"

definition fold_u64 :: "u64 \<Rightarrow> u8 list" where
  "fold_u64 x = store64 (bswap64 x)"

definition fold_Varchar :: "varchar \<Rightarrow> u8 list" where
  "fold_Varchar x = x @ [0]"

text \<open>Reading returns the field and the rest of the input.\<close>

definition unfold_Integer :: "u8 list \<Rightarrow> (int \<times> u8 list) option" where
  "unfold_Integer p = do { w \<leftarrow> load32 p; Some (sint (bswap32 w XOR push_bit 31 1), drop 4 p) }"

definition unfold_Timestamp :: "u8 list \<Rightarrow> (int \<times> u8 list) option" where
  "unfold_Timestamp p = do { w \<leftarrow> load64 p; Some (sint (bswap64 w XOR push_bit 63 1), drop 8 p) }"

definition unfold_u64 :: "u8 list \<Rightarrow> (u64 \<times> u8 list) option" where
  "unfold_u64 p = do { w \<leftarrow> load64 p; Some (bswap64 w, drop 8 p) }"

definition unfold_Varchar :: "nat \<Rightarrow> u8 list \<Rightarrow> (varchar \<times> u8 list) option" where
  "unfold_Varchar len p =
     (let l = length (takeWhile (\<lambda>c. c \<noteq> 0) p)
      in if l < length p \<and> l \<le> len then Some (take l p, drop (l + 1) p) else None)"

section \<open>Tables\<close>

text \<open>The keys are tuples in the order of the fields.\<close>

type_synonym warehouse_key = int
type_synonym district_key = "int \<times> int"
type_synonym customer_key = "int \<times> int \<times> int"
type_synonym customer_wdl_key = "int \<times> int \<times> varchar \<times> varchar"
type_synonym history_key = "int \<times> int"
type_synonym neworder_key = "int \<times> int \<times> int"
type_synonym order_key = "int \<times> int \<times> int"
type_synonym order_wdc_key = "int \<times> int \<times> int \<times> int"
type_synonym orderline_key = "int \<times> int \<times> int \<times> int"
type_synonym item_key = int
type_synonym stock_key = "int \<times> int"

record 'f warehouse_t =
  w_name :: varchar
  w_street_1 :: varchar
  w_street_2 :: varchar
  w_city :: varchar
  w_state :: varchar
  w_zip :: varchar
  w_tax :: 'f
  w_ytd :: 'f

record 'f district_t =
  d_name :: varchar
  d_street_1 :: varchar
  d_street_2 :: varchar
  d_city :: varchar
  d_state :: varchar
  d_zip :: varchar
  d_tax :: 'f
  d_ytd :: 'f
  d_next_o_id :: int

record 'f customer_t =
  c_first :: varchar
  c_middle :: varchar
  c_last :: varchar
  c_street_1 :: varchar
  c_street_2 :: varchar
  c_city :: varchar
  c_state :: varchar
  c_zip :: varchar
  c_phone :: varchar
  c_since :: int
  c_credit :: varchar
  c_credit_lim :: 'f
  c_discount :: 'f
  c_balance :: 'f
  c_ytd_payment :: 'f
  c_payment_cnt :: 'f
  c_delivery_cnt :: 'f
  c_data :: varchar

record customer_wdl_t =
  cw_c_id :: int

record 'f history_t =
  h_c_id :: int
  h_c_d_id :: int
  h_c_w_id :: int
  h_d_id :: int
  h_w_id :: int
  h_date :: int
  h_amount :: 'f
  h_data :: varchar

record 'f order_t =
  o_c_id :: int
  o_entry_d :: int
  o_carrier_id :: int
  o_ol_cnt :: 'f
  o_all_local :: 'f

record 'f orderline_t =
  ol_i_id :: int
  ol_supply_w_id :: int
  ol_delivery_d :: int
  ol_quantity :: 'f
  ol_amount :: 'f
  ol_dist_info :: varchar

record 'f item_t =
  i_im_id :: int
  i_name :: varchar
  i_price :: 'f
  i_data :: varchar

record 'f stock_t =
  s_quantity :: 'f
  s_dist_01 :: varchar
  s_dist_02 :: varchar
  s_dist_03 :: varchar
  s_dist_04 :: varchar
  s_dist_05 :: varchar
  s_dist_06 :: varchar
  s_dist_07 :: varchar
  s_dist_08 :: varchar
  s_dist_09 :: varchar
  s_dist_10 :: varchar
  s_ytd :: 'f
  s_order_cnt :: 'f
  s_remote_cnt :: 'f
  s_data :: varchar

definition foldKey_warehouse :: "warehouse_key \<Rightarrow> u8 list" where
  "foldKey_warehouse k = fold_Integer k"
definition unfoldKey_warehouse :: "u8 list \<Rightarrow> (warehouse_key \<times> u8 list) option" where
  "unfoldKey_warehouse p = unfold_Integer p"
definition maxFoldLength_warehouse :: nat where "maxFoldLength_warehouse = 0 + 4"

definition foldKey_district :: "district_key \<Rightarrow> u8 list" where
  "foldKey_district = (\<lambda>(w, d). fold_Integer w @ fold_Integer d)"
definition unfoldKey_district :: "u8 list \<Rightarrow> (district_key \<times> u8 list) option" where
  "unfoldKey_district p = do { (w, p) \<leftarrow> unfold_Integer p; (d, p) \<leftarrow> unfold_Integer p; Some ((w, d), p) }"
definition maxFoldLength_district :: nat where "maxFoldLength_district = 0 + 4 + 4"

definition foldKey_customer :: "customer_key \<Rightarrow> u8 list" where
  "foldKey_customer = (\<lambda>(w, d, c). fold_Integer w @ fold_Integer d @ fold_Integer c)"
definition unfoldKey_customer :: "u8 list \<Rightarrow> (customer_key \<times> u8 list) option" where
  "unfoldKey_customer p = do { (w, p) \<leftarrow> unfold_Integer p; (d, p) \<leftarrow> unfold_Integer p; (c, p) \<leftarrow> unfold_Integer p; Some ((w, d, c), p) }"
definition maxFoldLength_customer :: nat where "maxFoldLength_customer = 0 + 4 + 4 + 4"

definition foldKey_customer_wdl :: "customer_wdl_key \<Rightarrow> u8 list" where
  "foldKey_customer_wdl = (\<lambda>(w, d, l, f). fold_Integer w @ fold_Integer d @ fold_Varchar l @ fold_Varchar f)"
definition unfoldKey_customer_wdl :: "u8 list \<Rightarrow> (customer_wdl_key \<times> u8 list) option" where
  "unfoldKey_customer_wdl p = do { (w, p) \<leftarrow> unfold_Integer p; (d, p) \<leftarrow> unfold_Integer p;
     (l, p) \<leftarrow> unfold_Varchar 16 p; (f, p) \<leftarrow> unfold_Varchar 16 p; Some ((w, d, l, f), p) }"
definition maxFoldLength_customer_wdl :: nat where "maxFoldLength_customer_wdl = 0 + 4 + 4 + 18 + 18"

definition foldKey_history :: "history_key \<Rightarrow> u8 list" where
  "foldKey_history = (\<lambda>(t, h). fold_Integer t @ fold_Integer h)"
definition unfoldKey_history :: "u8 list \<Rightarrow> (history_key \<times> u8 list) option" where
  "unfoldKey_history p = do { (t, p) \<leftarrow> unfold_Integer p; (h, p) \<leftarrow> unfold_Integer p; Some ((t, h), p) }"
definition maxFoldLength_history :: nat where "maxFoldLength_history = 0 + 4 + 4"

definition foldKey_neworder :: "neworder_key \<Rightarrow> u8 list" where
  "foldKey_neworder = (\<lambda>(w, d, i). fold_Integer w @ fold_Integer d @ fold_Integer i)"
definition unfoldKey_neworder :: "u8 list \<Rightarrow> (neworder_key \<times> u8 list) option" where
  "unfoldKey_neworder p = do { (w, p) \<leftarrow> unfold_Integer p; (d, p) \<leftarrow> unfold_Integer p; (i, p) \<leftarrow> unfold_Integer p; Some ((w, d, i), p) }"
definition maxFoldLength_neworder :: nat where "maxFoldLength_neworder = 0 + 4 + 4 + 4"

definition foldKey_order :: "order_key \<Rightarrow> u8 list" where
  "foldKey_order = (\<lambda>(w, d, i). fold_Integer w @ fold_Integer d @ fold_Integer i)"
definition unfoldKey_order :: "u8 list \<Rightarrow> (order_key \<times> u8 list) option" where
  "unfoldKey_order p = do { (w, p) \<leftarrow> unfold_Integer p; (d, p) \<leftarrow> unfold_Integer p; (i, p) \<leftarrow> unfold_Integer p; Some ((w, d, i), p) }"
definition maxFoldLength_order :: nat where "maxFoldLength_order = 0 + 4 + 4 + 4"

definition foldKey_order_wdc :: "order_wdc_key \<Rightarrow> u8 list" where
  "foldKey_order_wdc = (\<lambda>(w, d, c, i). fold_Integer w @ fold_Integer d @ fold_Integer c @ fold_Integer i)"
definition unfoldKey_order_wdc :: "u8 list \<Rightarrow> (order_wdc_key \<times> u8 list) option" where
  "unfoldKey_order_wdc p = do { (w, p) \<leftarrow> unfold_Integer p; (d, p) \<leftarrow> unfold_Integer p; (c, p) \<leftarrow> unfold_Integer p;
     (i, p) \<leftarrow> unfold_Integer p; Some ((w, d, c, i), p) }"
definition maxFoldLength_order_wdc :: nat where "maxFoldLength_order_wdc = 0 + 4 + 4 + 4 + 4"

definition foldKey_orderline :: "orderline_key \<Rightarrow> u8 list" where
  "foldKey_orderline = (\<lambda>(w, d, i, n). fold_Integer w @ fold_Integer d @ fold_Integer i @ fold_Integer n)"
definition unfoldKey_orderline :: "u8 list \<Rightarrow> (orderline_key \<times> u8 list) option" where
  "unfoldKey_orderline p = do { (w, p) \<leftarrow> unfold_Integer p; (d, p) \<leftarrow> unfold_Integer p; (i, p) \<leftarrow> unfold_Integer p;
     (n, p) \<leftarrow> unfold_Integer p; Some ((w, d, i, n), p) }"
definition maxFoldLength_orderline :: nat where "maxFoldLength_orderline = 0 + 4 + 4 + 4 + 4"

definition foldKey_item :: "item_key \<Rightarrow> u8 list" where
  "foldKey_item k = fold_Integer k"
definition unfoldKey_item :: "u8 list \<Rightarrow> (item_key \<times> u8 list) option" where
  "unfoldKey_item p = unfold_Integer p"
definition maxFoldLength_item :: nat where "maxFoldLength_item = 0 + 4"

definition foldKey_stock :: "stock_key \<Rightarrow> u8 list" where
  "foldKey_stock = (\<lambda>(w, i). fold_Integer w @ fold_Integer i)"
definition unfoldKey_stock :: "u8 list \<Rightarrow> (stock_key \<times> u8 list) option" where
  "unfoldKey_stock p = do { (w, p) \<leftarrow> unfold_Integer p; (i, p) \<leftarrow> unfold_Integer p; Some ((w, i), p) }"
definition maxFoldLength_stock :: nat where "maxFoldLength_stock = 0 + 4 + 4"

section \<open>Bytes of numbers\<close>

lemma byte_masks:
  "(x :: 'a::len word) AND 0xff = take_bit 8 x"
  "x AND 0xff00 = push_bit 8 (take_bit 8 (drop_bit 8 x))"
  "x AND 0xff0000 = push_bit 16 (take_bit 8 (drop_bit 16 x))"
  "x AND 0xff000000 = push_bit 24 (take_bit 8 (drop_bit 24 x))"
proof -
  have m: "(0xff :: 'a word) = mask 8" "(0xff00 :: 'a word) = push_bit 8 (mask 8)" "(0xff0000 :: 'a word) = push_bit 16 (mask 8)"
    "(0xff000000 :: 'a word) = push_bit 24 (mask 8)" by (simp_all add: mask_eq_exp_minus_1 push_bit_eq_mult)
  show "x AND 0xff = take_bit 8 x" by (simp only: m take_bit_eq_mask)
  show "x AND 0xff00 = push_bit 8 (take_bit 8 (drop_bit 8 x))" "x AND 0xff0000 = push_bit 16 (take_bit 8 (drop_bit 16 x))"
    "x AND 0xff000000 = push_bit 24 (take_bit 8 (drop_bit 24 x))"
    unfolding m by (rule bit_word_eqI, auto simp: bit_simps)+
qed

lemma bit_bswap32: "n < 32 \<Longrightarrow> bit (bswap32 w) n \<longleftrightarrow> bit w (8 * (3 - n div 8) + n mod 8)"
  unfolding bswap32_def byte_masks
  by (drule bit_positions_32, elim insertE emptyE) (simp_all add: bit_simps, (simp_all add: numeral_eq_Suc)?)

lemma not_bit_u64: "64 \<le> n \<Longrightarrow> \<not> bit (w::u64) n"
  using bit_imp_le_length [of w n] by auto

lemma bit_bswap64: "n < 64 \<Longrightarrow> bit (bswap64 w) n \<longleftrightarrow> bit w (8 * (7 - n div 8) + n mod 8)"
  unfolding bswap64_def byte_masks
  by (drule bit_positions_64, elim insertE emptyE) (simp_all add: bit_simps not_bit_u64, (simp_all add: numeral_eq_Suc)?)

lemma bswap32_bswap32: "bswap32 (bswap32 w) = w"
  by (rule u32_eqI, elim insertE emptyE) (simp_all add: bit_bswap32, (simp_all add: numeral_eq_Suc)?)

lemma bswap64_bswap64: "bswap64 (bswap64 w) = w"
  by (rule u64_eqI, elim insertE emptyE) (simp_all add: bit_bswap64, (simp_all add: numeral_eq_Suc)?)

lemma load_store32: "load32 (store32 w @ s) = Some w"
  unfolding load32_def store32_def
  by (simp, rule u32_eqI, elim insertE emptyE) (simp_all add: bit_simps)

lemma load_store64: "load64 (store64 w @ s) = Some w"
  unfolding load64_def store64_def
  by (simp, rule u64_eqI, elim insertE emptyE) (simp_all add: bit_simps)

lemma length_store: "length (store32 w) = 4" "length (store64 v) = 8"
  by (simp_all add: store32_def store64_def)

lemma store_bswap32:
  "store32 (bswap32 w) = [ucast (drop_bit 24 w), ucast (drop_bit 16 w), ucast (drop_bit 8 w), ucast w]"
proof -
  have b: "(ucast (drop_bit (8 * k) (bswap32 w)) :: u8) = ucast (drop_bit (24 - 8 * k) w)" if "k \<in> {0, 1, 2, 3}" for k
  proof (rule bit_word_eqI)
    fix n assume n: "n < LENGTH(8)"
    have "8 * k + n < 32" "(8 * k + n) div 8 = k" "(8 * k + n) mod 8 = n" using n that by auto
    then show "bit (ucast (drop_bit (8 * k) (bswap32 w)) :: u8) n = bit (ucast (drop_bit (24 - 8 * k) w) :: u8) n"
      using that n by (auto simp: bit_simps bit_bswap32)
  qed
  show ?thesis using b [of 0] b [of 1] b [of 2] b [of 3] by (simp add: store32_def)
qed

text \<open>The bytes from the most significant one on read as a number, and their order.\<close>

lemma be_pad_bytes:
  "be_pad 4 [ucast (drop_bit 24 (w :: u32)), ucast (drop_bit 16 w), ucast (drop_bit 8 w), ucast w] = unat w"
proof -
  have four: "(4 :: nat) = Suc (Suc (Suc (Suc 0)))" by simp
  define q1 q2 q3 where "q1 = unat w div 256" "q2 = q1 div 256" "q3 = q2 div 256"
  note q = this
  have u: "unat (ucast (drop_bit k w) :: u8) = unat w div 2 ^ k mod 256" for k
  proof -
    have "unat (drop_bit k w) = unat w div 2 ^ k" by (simp only: unat_drop_bit_eq) (simp add: drop_bit_eq_div)
    moreover have "unat (ucast v :: u8) = unat v mod 256" for v :: u32 by (simp add: unsigned_ucast_eq take_bit_eq_mod)
    ultimately show ?thesis by (simp only:)
  qed
  have "unat w < 256 * 256 * 256 * 256" using unsigned_less [of w] by simp
  then have "q3 < 256" unfolding q div_mult2_eq [symmetric] by (simp add: div_less_iff_less_mult)
  moreover have "unat w div 2 ^ 24 = q3" "unat w div 2 ^ 16 = q2" "unat w div 2 ^ 8 = q1"
    by (simp_all add: q div_mult2_eq [symmetric])
  moreover have "unat w = 256 * q1 + unat w mod 256" "q1 = 256 * q2 + q1 mod 256" "q2 = 256 * q3 + q2 mod 256"
    by (simp_all add: q)
  ultimately show ?thesis using u [of 24] u [of 16] u [of 8] u [of 0] unfolding four by simp
qed

lemma bytes_less_append: "length a = length b \<Longrightarrow> bytes_less (a @ s) (b @ t) \<longleftrightarrow> bytes_less a b \<or> a = b \<and> bytes_less s t"
  by (induction a b rule: list_induct2) auto

lemma unat_flip_sign: "int (unat (word_of_int x XOR push_bit 31 1 :: u32)) = x + 2 ^ 31" if "int_ok x"
proof -
  let ?w = "word_of_int x :: u32"
  define m where "m = push_bit 31 (1 :: u32)"
  have m: "bit m n \<longleftrightarrow> n = 31" for n unfolding m_def bit_push_bit_iff bit_1_iff by auto
  have two: "m + m = 0" by (simp add: m_def push_bit_eq_mult)
  have "?w XOR m = ?w + m"
  proof (cases "bit ?w 31")
    case False
    then have "?w AND m = 0" by (intro bit_word_eqI) (auto simp: bit_and_iff m)
    then show ?thesis by (simp add: disjunctive_xor_eq_or disjunctive_add_eq_or)
  next
    case True
    define y where "y = ?w XOR m"
    have "y AND m = 0" "y OR m = ?w" using True by (auto intro!: bit_word_eqI simp: y_def bit_and_iff bit_or_iff bit_xor_iff m)
    then have "?w = y + m" by (simp add: disjunctive_add_eq_or)
    then have "?w + m = y" using two by (simp add: add.assoc)
    then show ?thesis by (simp add: y_def)
  qed
  also have "\<dots> = word_of_int (x + 2 ^ 31)" by (simp add: m_def push_bit_eq_mult)
  finally have "uint (?w XOR m) = take_bit LENGTH(32) (x + 2 ^ 31)" by (simp only: uint_word_of_int_eq)
  then show ?thesis using that unfolding m_def by (simp add: int_ok_def take_bit_int_eq_self)
qed

section \<open>Codes that keep the order\<close>

text \<open>A code for the fields of a key: the order of the bytes is that of the fields, then that of what follows,
  and reading gives the field and what follows.\<close>

locale field_code =
  fixes ok :: "'a \<Rightarrow> bool"
    and lt :: "'a \<Rightarrow> 'a \<Rightarrow> bool"
    and enc :: "'a \<Rightarrow> u8 list"
    and dec :: "u8 list \<Rightarrow> ('a \<times> u8 list) option"
  assumes order: "ok x \<Longrightarrow> ok y \<Longrightarrow> bytes_less (enc x @ s) (enc y @ t) \<longleftrightarrow> lt x y \<or> x = y \<and> bytes_less s t"
    and decode: "ok x \<Longrightarrow> dec (enc x @ s) = Some (x, s)"
begin

lemma order_key: "ok x \<Longrightarrow> ok y \<Longrightarrow> bytes_less (enc x) (enc y) \<longleftrightarrow> lt x y"
  using order [of x y "[]" "[]"] by simp

end

text \<open>Fields one after the other.\<close>

locale field_pair = fst: field_code ok1 lt1 enc1 dec1 + snd: field_code ok2 lt2 enc2 dec2
  for ok1 :: "'a \<Rightarrow> bool" and lt1 enc1 dec1 and ok2 :: "'b \<Rightarrow> bool" and lt2 enc2 dec2

definition pair_ok :: "('a \<Rightarrow> bool) \<Rightarrow> ('b \<Rightarrow> bool) \<Rightarrow> 'a \<times> 'b \<Rightarrow> bool" where
  "pair_ok ok1 ok2 = (\<lambda>(x, y). ok1 x \<and> ok2 y)"
definition pair_lt :: "('a \<Rightarrow> 'a \<Rightarrow> bool) \<Rightarrow> ('b \<Rightarrow> 'b \<Rightarrow> bool) \<Rightarrow> 'a \<times> 'b \<Rightarrow> 'a \<times> 'b \<Rightarrow> bool" where
  "pair_lt lt1 lt2 = (\<lambda>(x, y) (x', y'). lt1 x x' \<or> x = x' \<and> lt2 y y')"
definition pair_enc :: "('a \<Rightarrow> u8 list) \<Rightarrow> ('b \<Rightarrow> u8 list) \<Rightarrow> 'a \<times> 'b \<Rightarrow> u8 list" where
  "pair_enc enc1 enc2 = (\<lambda>(x, y). enc1 x @ enc2 y)"
definition pair_dec :: "(u8 list \<Rightarrow> ('a \<times> u8 list) option) \<Rightarrow> (u8 list \<Rightarrow> ('b \<times> u8 list) option) \<Rightarrow>
    u8 list \<Rightarrow> (('a \<times> 'b) \<times> u8 list) option" where
  "pair_dec dec1 dec2 p = do { (x, p) \<leftarrow> dec1 p; (y, p) \<leftarrow> dec2 p; Some ((x, y), p) }"

sublocale field_pair \<subseteq> pair: field_code "pair_ok ok1 ok2" "pair_lt lt1 lt2" "pair_enc enc1 enc2" "pair_dec dec1 dec2"
proof
  fix x y s t assume "pair_ok ok1 ok2 x" "pair_ok ok1 ok2 y"
  then show "bytes_less (pair_enc enc1 enc2 x @ s) (pair_enc enc1 enc2 y @ t) \<longleftrightarrow> pair_lt lt1 lt2 x y \<or> x = y \<and> bytes_less s t"
    by (cases x; cases y) (auto simp: pair_ok_def pair_enc_def pair_lt_def fst.order snd.order)
next
  fix x s assume "pair_ok ok1 ok2 x"
  then show "pair_dec dec1 dec2 (pair_enc enc1 enc2 x @ s) = Some (x, s)"
    by (cases x) (auto simp: pair_ok_def pair_enc_def pair_dec_def fst.decode snd.decode)
qed

section \<open>The codes of the fields\<close>

lemma length_fold_Integer [simp]: "length (fold_Integer x) = 4"
  by (simp add: fold_Integer_def length_store)

lemma bytes_less_fold_Integer:
  assumes "int_ok x" "int_ok y"
  shows "bytes_less (fold_Integer x) (fold_Integer y) \<longleftrightarrow> x < y"
proof -
  have val: "int (be_pad 4 (fold_Integer z)) = z + 2 ^ 31" if "int_ok z" for z
    using unat_flip_sign [OF that] unfolding fold_Integer_def store_bswap32 be_pad_bytes .
  have le: "a \<le> b" if "int_ok a" "int_ok b" "bytes_less (fold_Integer a) (fold_Integer b)" for a b
  proof -
    have "int (be_pad 4 (fold_Integer a)) \<le> int (be_pad 4 (fold_Integer b))" using be_pad_mono [OF that(3)] by (simp only: of_nat_le_iff)
    then show ?thesis unfolding val [OF that(1)] val [OF that(2)] by simp
  qed
  have eq: "x = y" if "fold_Integer x = fold_Integer y"
    using arg_cong [OF that, of "\<lambda>p. int (be_pad 4 p)"] unfolding val [OF assms(1)] val [OF assms(2)] by simp
  show ?thesis
  proof
    assume l: "bytes_less (fold_Integer x) (fold_Integer y)"
    then have "x \<noteq> y" by auto
    then show "x < y" using le [OF assms l] by simp
  next
    assume "x < y"
    then show "bytes_less (fold_Integer x) (fold_Integer y)"
      using bytes_less_total [of "fold_Integer x" "fold_Integer y"] le [OF assms(2,1)] eq by fastforce
  qed
qed

lemma unfold_fold_Integer: "int_ok x \<Longrightarrow> unfold_Integer (fold_Integer x @ s) = Some (x, s)"
  by (simp add: unfold_Integer_def fold_Integer_def load_store32 bswap32_bswap32 length_store xor.assoc int_ok_def signed_of_int
      signed_take_bit_int_eq_self)

interpretation int_code: field_code int_ok "(<)" fold_Integer unfold_Integer
proof
  fix x y s t assume a: "int_ok x" "int_ok y"
  then have "fold_Integer x = fold_Integer y \<longleftrightarrow> x = y"
    using unfold_fold_Integer [of x "[]"] unfold_fold_Integer [of y "[]"] by (metis option.inject prod.inject)
  then show "bytes_less (fold_Integer x @ s) (fold_Integer y @ t) \<longleftrightarrow> x < y \<or> x = y \<and> bytes_less s t"
    using bytes_less_append [of "fold_Integer x" "fold_Integer y" s t] bytes_less_fold_Integer [OF a] by simp
qed (rule unfold_fold_Integer)

text \<open>Strings without a zero byte. The order of the bytes is that of \<open>operator<\<close>.\<close>

definition vc_ok :: "nat \<Rightarrow> varchar \<Rightarrow> bool" where
  "vc_ok n v \<longleftrightarrow> length v \<le> n \<and> list_all (\<lambda>c. c \<noteq> 0) v"

lemma vc_less_bytes: "vc_less a b \<longleftrightarrow> bytes_less a b"
proof -
  have "(let cmp = memcmp a b (min (length a) (length b)) in if cmp \<noteq> 0 then cmp < 0 else length a < length b) = bytes_less a b"
  proof (induction a arbitrary: b)
    case Nil
    then show ?case by (cases b) auto
  next
    case (Cons x a)
    show ?case
    proof (cases b)
      case (Cons y b')
      then show ?thesis using Cons.IH [of b'] by (auto simp: Let_def word_less_def word_uint_eq_iff split: if_splits)
    qed simp
  qed
  moreover have "(if length a < length b then length a else length b) = min (length a) (length b)" by simp
  ultimately show ?thesis by (simp only: vc_less_def)
qed

lemma bytes_less_fold_Varchar:
  "list_all (\<lambda>c. c \<noteq> 0) x \<Longrightarrow> list_all (\<lambda>c. c \<noteq> 0) y \<Longrightarrow>
   bytes_less (x @ 0 # s) (y @ 0 # t) \<longleftrightarrow> bytes_less x y \<or> x = y \<and> bytes_less s t"
proof (induction x arbitrary: y)
  case Nil
  then show ?case by (cases y) (auto simp: word_neq_0_conv)
next
  case (Cons a x)
  then show ?case by (cases y) (auto simp: word_neq_0_conv)
qed

lemma unfold_fold_Varchar: "vc_ok n v \<Longrightarrow> unfold_Varchar n (fold_Varchar v @ s) = Some (v, s)"
proof -
  assume v: "vc_ok n v"
  then have "takeWhile (\<lambda>c. c \<noteq> 0) (v @ [0] @ s) = v" by (simp add: takeWhile_append2 vc_ok_def list_all_iff)
  then show ?thesis using v by (simp add: unfold_Varchar_def fold_Varchar_def vc_ok_def)
qed

interpretation vc_code: field_code "vc_ok n" vc_less fold_Varchar "unfold_Varchar n" for n
proof
  fix x y s t assume "vc_ok n x" "vc_ok n y"
  then show "bytes_less (fold_Varchar x @ s) (fold_Varchar y @ t) \<longleftrightarrow> vc_less x y \<or> x = y \<and> bytes_less s t"
    using bytes_less_fold_Varchar [of x y s t] by (simp add: vc_ok_def fold_Varchar_def vc_less_bytes)
qed (rule unfold_fold_Varchar)

section \<open>The codes of the keys\<close>

interpretation two: field_pair int_ok "(<)" fold_Integer unfold_Integer int_ok "(<)" fold_Integer unfold_Integer ..

interpretation three: field_pair int_ok "(<)" fold_Integer unfold_Integer
  "pair_ok int_ok int_ok" "pair_lt (<) (<)" "pair_enc fold_Integer fold_Integer" "pair_dec unfold_Integer unfold_Integer" ..

interpretation four: field_pair int_ok "(<)" fold_Integer unfold_Integer
  "pair_ok int_ok (pair_ok int_ok int_ok)" "pair_lt (<) (pair_lt (<) (<))"
  "pair_enc fold_Integer (pair_enc fold_Integer fold_Integer)" "pair_dec unfold_Integer (pair_dec unfold_Integer unfold_Integer)" ..

interpretation names: field_pair "vc_ok 16" vc_less fold_Varchar "unfold_Varchar 16" "vc_ok 16" vc_less fold_Varchar "unfold_Varchar 16" ..

interpretation id_names: field_pair int_ok "(<)" fold_Integer unfold_Integer
  "pair_ok (vc_ok 16) (vc_ok 16)" "pair_lt vc_less vc_less" "pair_enc fold_Varchar fold_Varchar"
  "pair_dec (unfold_Varchar 16) (unfold_Varchar 16)" ..

interpretation wdl: field_pair int_ok "(<)" fold_Integer unfold_Integer
  "pair_ok int_ok (pair_ok (vc_ok 16) (vc_ok 16))" "pair_lt (<) (pair_lt vc_less vc_less)"
  "pair_enc fold_Integer (pair_enc fold_Varchar fold_Varchar)"
  "pair_dec unfold_Integer (pair_dec (unfold_Varchar 16) (unfold_Varchar 16))" ..

lemma pair_lt_prod: "pair_lt (<) (<) = ((<) :: 'a::linorder \<times> 'b::linorder \<Rightarrow> _)"
  by (intro ext) (auto simp: pair_lt_def less_prod_def)

lemmas foldKey_defs = foldKey_warehouse_def foldKey_district_def foldKey_customer_def foldKey_customer_wdl_def foldKey_history_def
  foldKey_neworder_def foldKey_order_def foldKey_order_wdc_def foldKey_orderline_def foldKey_item_def foldKey_stock_def
lemmas unfoldKey_defs = unfoldKey_warehouse_def unfoldKey_district_def unfoldKey_customer_def unfoldKey_customer_wdl_def unfoldKey_history_def
  unfoldKey_neworder_def unfoldKey_order_def unfoldKey_order_wdc_def unfoldKey_orderline_def unfoldKey_item_def unfoldKey_stock_def
lemmas maxFoldLength_defs = maxFoldLength_warehouse_def maxFoldLength_district_def maxFoldLength_customer_def
  maxFoldLength_customer_wdl_def maxFoldLength_history_def maxFoldLength_neworder_def maxFoldLength_order_def
  maxFoldLength_order_wdc_def maxFoldLength_orderline_def maxFoldLength_item_def maxFoldLength_stock_def

text \<open>The keys of the tables are these codes.\<close>

lemma foldKey_codes:
  "foldKey_warehouse = fold_Integer" "foldKey_item = fold_Integer"
  "foldKey_district = pair_enc fold_Integer fold_Integer" "foldKey_history = pair_enc fold_Integer fold_Integer"
  "foldKey_stock = pair_enc fold_Integer fold_Integer"
  "foldKey_customer = pair_enc fold_Integer (pair_enc fold_Integer fold_Integer)"
  "foldKey_neworder = pair_enc fold_Integer (pair_enc fold_Integer fold_Integer)"
  "foldKey_order = pair_enc fold_Integer (pair_enc fold_Integer fold_Integer)"
  "foldKey_order_wdc = pair_enc fold_Integer (pair_enc fold_Integer (pair_enc fold_Integer fold_Integer))"
  "foldKey_orderline = pair_enc fold_Integer (pair_enc fold_Integer (pair_enc fold_Integer fold_Integer))"
  "foldKey_customer_wdl = pair_enc fold_Integer (pair_enc fold_Integer (pair_enc fold_Varchar fold_Varchar))"
  by (auto simp: foldKey_defs pair_enc_def fun_eq_iff)

lemma unfoldKey_codes:
  "unfoldKey_warehouse = unfold_Integer" "unfoldKey_item = unfold_Integer"
  "unfoldKey_district = pair_dec unfold_Integer unfold_Integer" "unfoldKey_history = pair_dec unfold_Integer unfold_Integer"
  "unfoldKey_stock = pair_dec unfold_Integer unfold_Integer"
  "unfoldKey_customer = pair_dec unfold_Integer (pair_dec unfold_Integer unfold_Integer)"
  "unfoldKey_neworder = pair_dec unfold_Integer (pair_dec unfold_Integer unfold_Integer)"
  "unfoldKey_order = pair_dec unfold_Integer (pair_dec unfold_Integer unfold_Integer)"
  "unfoldKey_order_wdc = pair_dec unfold_Integer (pair_dec unfold_Integer (pair_dec unfold_Integer unfold_Integer))"
  "unfoldKey_orderline = pair_dec unfold_Integer (pair_dec unfold_Integer (pair_dec unfold_Integer unfold_Integer))"
  "unfoldKey_customer_wdl = pair_dec unfold_Integer (pair_dec unfold_Integer (pair_dec (unfold_Varchar 16) (unfold_Varchar 16)))"
  by (auto simp: unfoldKey_defs pair_dec_def fun_eq_iff split_def)

section \<open>Properties\<close>

text \<open>C10. For every table the bytes of the keys, compared as the B-tree compares them, are ordered as the keys
  are, field by field: the numbers as signed numbers, the names by \<open>operator<\<close> of \<open>Varchar\<close>.\<close>

theorem foldKey_order:
  assumes "list_all int_ok [a, b, c, d, a', b', c', d']" "list_all (vc_ok 16) [l, f, l', f']"
  shows "(bytes_less (foldKey_warehouse a) (foldKey_warehouse a') \<longleftrightarrow> a < a')
    \<and> (bytes_less (foldKey_item a) (foldKey_item a') \<longleftrightarrow> a < a')
    \<and> (bytes_less (foldKey_district (a, b)) (foldKey_district (a', b')) \<longleftrightarrow> (a, b) < (a', b'))
    \<and> (bytes_less (foldKey_history (a, b)) (foldKey_history (a', b')) \<longleftrightarrow> (a, b) < (a', b'))
    \<and> (bytes_less (foldKey_stock (a, b)) (foldKey_stock (a', b')) \<longleftrightarrow> (a, b) < (a', b'))
    \<and> (bytes_less (foldKey_customer (a, b, c)) (foldKey_customer (a', b', c')) \<longleftrightarrow> (a, b, c) < (a', b', c'))
    \<and> (bytes_less (foldKey_neworder (a, b, c)) (foldKey_neworder (a', b', c')) \<longleftrightarrow> (a, b, c) < (a', b', c'))
    \<and> (bytes_less (foldKey_order (a, b, c)) (foldKey_order (a', b', c')) \<longleftrightarrow> (a, b, c) < (a', b', c'))
    \<and> (bytes_less (foldKey_order_wdc (a, b, c, d)) (foldKey_order_wdc (a', b', c', d')) \<longleftrightarrow> (a, b, c, d) < (a', b', c', d'))
    \<and> (bytes_less (foldKey_orderline (a, b, c, d)) (foldKey_orderline (a', b', c', d')) \<longleftrightarrow> (a, b, c, d) < (a', b', c', d'))
    \<and> (bytes_less (foldKey_customer_wdl (a, b, l, f)) (foldKey_customer_wdl (a', b', l', f'))
        \<longleftrightarrow> (a, b) < (a', b') \<or> (a, b) = (a', b') \<and> (vc_less l l' \<or> l = l' \<and> vc_less f f'))"
proof -
  have i: "int_ok a" "int_ok b" "int_ok c" "int_ok d" "int_ok a'" "int_ok b'" "int_ok c'" "int_ok d'"
    and v: "vc_ok 16 l" "vc_ok 16 f" "vc_ok 16 l'" "vc_ok 16 f'" using assms by simp_all
  have p: "pair_ok int_ok int_ok (x, y)" if "int_ok x" "int_ok y" for x y using that by (simp add: pair_ok_def)
  have "bytes_less (foldKey_customer_wdl (a, b, l, f)) (foldKey_customer_wdl (a', b', l', f'))
        \<longleftrightarrow> (a, b) < (a', b') \<or> (a, b) = (a', b') \<and> (vc_less l l' \<or> l = l' \<and> vc_less f f')"
    unfolding foldKey_codes using i v by (subst wdl.pair.order_key) (auto simp: pair_ok_def pair_lt_def less_prod_def)
  then show ?thesis
    unfolding foldKey_codes using i
    by (simp add: int_code.order_key two.pair.order_key three.pair.order_key four.pair.order_key pair_ok_def pair_lt_prod)
qed

theorem foldKey_order_witness:
  "bytes_less (foldKey_orderline (-1, 2, 3, 4)) (foldKey_orderline (1, 2, 3, 4))
   \<and> \<not> bytes_less (foldKey_customer_wdl (1, 1, [66, 65], [1])) (foldKey_customer_wdl (1, 1, [66], [2]))"
  using foldKey_order [of "-1" 2 3 4 1 2 3 4 "[1]" "[1]" "[1]" "[1]"] foldKey_order [of 1 1 1 1 1 1 1 1 "[66, 65]" "[1]" "[66]" "[2]"]
  by (simp add: int_ok_def vc_ok_def vc_less_def)

text \<open>C26. The key of every table is read back from its bytes, whatever follows, and fits in the buffer of
  \<open>maxFoldLength()\<close> bytes that the adapter reserves for it, at most 44, so that the B-tree can compare it.\<close>

theorem foldKey_roundtrip:
  assumes "list_all int_ok [a, b, c, d]" "list_all (vc_ok 16) [l, f]"
  shows "unfoldKey_warehouse (foldKey_warehouse a @ s) = Some (a, s) \<and> length (foldKey_warehouse a) \<le> maxFoldLength_warehouse
    \<and> unfoldKey_item (foldKey_item a @ s) = Some (a, s) \<and> length (foldKey_item a) \<le> maxFoldLength_item
    \<and> unfoldKey_district (foldKey_district (a, b) @ s) = Some ((a, b), s) \<and> length (foldKey_district (a, b)) \<le> maxFoldLength_district
    \<and> unfoldKey_history (foldKey_history (a, b) @ s) = Some ((a, b), s) \<and> length (foldKey_history (a, b)) \<le> maxFoldLength_history
    \<and> unfoldKey_stock (foldKey_stock (a, b) @ s) = Some ((a, b), s) \<and> length (foldKey_stock (a, b)) \<le> maxFoldLength_stock
    \<and> unfoldKey_customer (foldKey_customer (a, b, c) @ s) = Some ((a, b, c), s) \<and> length (foldKey_customer (a, b, c)) \<le> maxFoldLength_customer
    \<and> unfoldKey_neworder (foldKey_neworder (a, b, c) @ s) = Some ((a, b, c), s) \<and> length (foldKey_neworder (a, b, c)) \<le> maxFoldLength_neworder
    \<and> unfoldKey_order (foldKey_order (a, b, c) @ s) = Some ((a, b, c), s) \<and> length (foldKey_order (a, b, c)) \<le> maxFoldLength_order
    \<and> unfoldKey_order_wdc (foldKey_order_wdc (a, b, c, d) @ s) = Some ((a, b, c, d), s) \<and> length (foldKey_order_wdc (a, b, c, d)) \<le> maxFoldLength_order_wdc
    \<and> unfoldKey_orderline (foldKey_orderline (a, b, c, d) @ s) = Some ((a, b, c, d), s) \<and> length (foldKey_orderline (a, b, c, d)) \<le> maxFoldLength_orderline
    \<and> unfoldKey_customer_wdl (foldKey_customer_wdl (a, b, l, f) @ s) = Some ((a, b, l, f), s)
    \<and> length (foldKey_customer_wdl (a, b, l, f)) \<le> maxFoldLength_customer_wdl \<and> maxFoldLength_customer_wdl \<le> 44"
proof -
  have i: "int_ok a" "int_ok b" "int_ok c" "int_ok d" and v: "vc_ok 16 l" "vc_ok 16 f" using assms by simp_all
  have "length (fold_Varchar l) \<le> 17" "length (fold_Varchar f) \<le> 17" using v by (simp_all add: fold_Varchar_def vc_ok_def)
  then have "length (foldKey_customer_wdl (a, b, l, f)) \<le> maxFoldLength_customer_wdl" by (simp add: foldKey_customer_wdl_def maxFoldLength_defs)
  moreover have "unfoldKey_customer_wdl (foldKey_customer_wdl (a, b, l, f) @ s) = Some ((a, b, l, f), s)"
    unfolding unfoldKey_codes foldKey_codes using i v by (intro wdl.pair.decode) (simp add: pair_ok_def)
  moreover have "length (foldKey_warehouse a) \<le> maxFoldLength_warehouse \<and> length (foldKey_item a) \<le> maxFoldLength_item
    \<and> length (foldKey_district (a, b)) \<le> maxFoldLength_district \<and> length (foldKey_history (a, b)) \<le> maxFoldLength_history
    \<and> length (foldKey_stock (a, b)) \<le> maxFoldLength_stock \<and> length (foldKey_customer (a, b, c)) \<le> maxFoldLength_customer
    \<and> length (foldKey_neworder (a, b, c)) \<le> maxFoldLength_neworder \<and> length (foldKey_order (a, b, c)) \<le> maxFoldLength_order
    \<and> length (foldKey_order_wdc (a, b, c, d)) \<le> maxFoldLength_order_wdc \<and> length (foldKey_orderline (a, b, c, d)) \<le> maxFoldLength_orderline
    \<and> maxFoldLength_customer_wdl \<le> 44"
    by (simp add: foldKey_defs maxFoldLength_defs)
  ultimately show ?thesis
    unfolding foldKey_codes unfoldKey_codes using i
    by (simp add: int_code.decode two.pair.decode three.pair.decode four.pair.decode pair_ok_def)
qed

theorem foldKey_roundtrip_witness:
  "unfoldKey_order (foldKey_order (1, 10, 3001) @ [7]) = Some ((1, 10, 3001), [7])
   \<and> unfoldKey_customer_wdl (foldKey_customer_wdl (1, 10, [66, 97], [])) = Some ((1, 10, [66, 97], []), [])"
  using foldKey_roundtrip [of 1 10 3001 0 "[66, 97]" "[]" "[7]"] foldKey_roundtrip [of 1 10 3001 0 "[66, 97]" "[]" "[]"]
  by (simp add: int_ok_def vc_ok_def)

end
