(* ===== verification/Generator.thy ===== *)
theory Generator
  imports Prelude
begin

text \<open>
  The random numbers of the TPC-C benchmark: the Mersenne Twister and the ranges of
  \<open>tpcc/RandomGenerator.hpp\<close>, and the distributions that \<open>TPCCWorkload.hpp\<close> draws its parameters from. The
  generator of a thread is passed along as its state. The counter that makes the seeds of the threads
  differ is part of the seed.

  \<open>Integer\<close> is an integer in the range of its type; \<open>None\<close> is a remainder by 0 or an overflow of \<open>Integer\<close>.
\<close>

section \<open>The Mersenne Twister\<close>

definition NN :: nat where "NN = 312"
definition MM :: nat where "MM = 156"
definition MATRIX_A :: u64 where "MATRIX_A = 0xB5026F5AA96619E9"
definition UM :: u64 where "UM = 0xFFFFFFFF80000000"
definition LM :: u64 where "LM = 0x7FFFFFFF"

record twister =
  mt :: "u64 list"
  mti :: nat

definition mt_init :: "u64 \<Rightarrow> twister" where
  "mt_init seed =
     \<lparr>mt = foldl (\<lambda>m i. m @ [6364136223846793005 * (m ! (i - 1) XOR drop_bit 62 (m ! (i - 1))) + of_nat i]) [seed] [1..<NN],
      mti = NN\<rparr>"

definition mag01 :: "u64 \<Rightarrow> u64" where
  "mag01 b = (if b = 0 then 0 else MATRIX_A)"

text \<open>One assignment: \<open>mt[i] = mt[far] ^ (x >> 1) ^ mag01[x & 1]\<close> with \<open>x\<close> from \<open>mt[i]\<close> and \<open>mt[next]\<close>.\<close>

definition mix :: "u64 \<Rightarrow> u64 \<Rightarrow> u64" where
  "mix u v = (let x = (u AND UM) OR (v AND LM) in drop_bit 1 x XOR mag01 (x AND 1))"

definition mt_assign :: "u64 list \<Rightarrow> nat \<Rightarrow> nat \<Rightarrow> nat \<Rightarrow> u64 list" where
  "mt_assign m i next far = m[i := m ! far XOR mix (m ! i) (m ! next)]"

definition refill :: "u64 list \<Rightarrow> u64 list" where
  "refill m =
     (let m = foldl (\<lambda>m i. mt_assign m i (i + 1) (i + MM)) m [0..<NN - MM];
          m = foldl (\<lambda>m i. mt_assign m i (i + 1) (i - (NN - MM))) m [NN - MM..<NN - 1]
      in mt_assign m (NN - 1) 0 (MM - 1))"

definition temper :: "u64 \<Rightarrow> u64" where
  "temper x =
     (let x = x XOR (drop_bit 29 x AND 0x5555555555555555);
          x = x XOR (push_bit 17 x AND 0x71D67FFFEDA60000);
          x = x XOR (push_bit 37 x AND 0xFFF7EEE000000000)
      in x XOR drop_bit 43 x)"

definition rnd64 :: "twister \<Rightarrow> u64 \<times> twister" where
  "rnd64 g =
     (let g = (if mti g \<ge> NN then \<lparr>mt = refill (mt g), mti = 0\<rparr> else g)
      in (temper (mt g ! mti g), g\<lparr>mti := mti g + 1\<rparr>))"

section \<open>Ranges\<close>

definition getRandU64 :: "u64 \<Rightarrow> u64 \<Rightarrow> twister \<Rightarrow> (u64 \<times> twister) option" where
  "getRandU64 lo hi g =
     (if hi = lo then None else let (r, g) = rnd64 g in Some (lo + r mod (hi - lo), g))"

text \<open>\<open>getRand<Integer>\<close> converts its arguments to \<open>u64\<close> and the result back.\<close>

definition getRand :: "int \<Rightarrow> int \<Rightarrow> twister \<Rightarrow> (int \<times> twister) option" where
  "getRand lo hi g = do {
     (r, g) \<leftarrow> getRandU64 (word_of_int lo) (word_of_int hi) g;
     Some (sint (ucast r :: i32), g) }"

primrec getRandString :: "nat \<Rightarrow> twister \<Rightarrow> (u8 list \<times> twister) option" where
  "getRandString 0 g = Some ([], g)"
| "getRandString (Suc n) g = do {
     (c, g) \<leftarrow> getRand 48 123 g;
     (s, g) \<leftarrow> getRandString n g;
     Some (word_of_int c # s, g) }"

section \<open>Distributions of the workload\<close>

text \<open>The result of an \<open>Integer\<close> operation.\<close>

definition icheck :: "int \<Rightarrow> int option" where
  "icheck x = (if - (2 ^ 31) \<le> x \<and> x < 2 ^ 31 then Some x else None)"

definition rnd :: "int \<Rightarrow> twister \<Rightarrow> (int \<times> twister) option" where
  "rnd n g = getRand 0 n g"

definition randomId :: "int \<Rightarrow> int \<Rightarrow> twister \<Rightarrow> (int \<times> twister) option" where
  "randomId fromId toId g = do { t \<leftarrow> icheck (toId + 1); getRand fromId t g }"

definition urand :: "int \<Rightarrow> int \<Rightarrow> twister \<Rightarrow> (int \<times> twister) option" where
  "urand low high g = do {
     d \<leftarrow> icheck (high - low); d \<leftarrow> icheck (d + 1);
     (r, g) \<leftarrow> rnd d g;
     r \<leftarrow> icheck (r + low);
     Some (r, g) }"

definition urandexcept :: "int \<Rightarrow> int \<Rightarrow> int \<Rightarrow> twister \<Rightarrow> (int \<times> twister) option" where
  "urandexcept low high v g =
     (if high \<le> low then Some (low, g)
      else do {
        d \<leftarrow> icheck (high - low);
        (r, g) \<leftarrow> rnd d g;
        r \<leftarrow> icheck (r + low);
        (if r \<ge> v then do { r \<leftarrow> icheck (r + 1); Some (r, g) } else Some (r, g)) })"

text \<open>The remainder of C truncates towards 0.\<close>

definition nurand :: "int \<Rightarrow> int \<Rightarrow> int \<Rightarrow> int \<Rightarrow> twister \<Rightarrow> (int \<times> twister) option" where
  "nurand a x y C g = do {
     (p, g) \<leftarrow> urand 0 a g;
     (q, g) \<leftarrow> urand x y g;
     s \<leftarrow> icheck ((p OR q) + C);
     m \<leftarrow> icheck (y - x); m \<leftarrow> icheck (m + 1);
     (if m = 0 then None
      else do { r \<leftarrow> icheck (sgn s * (\<bar>s\<bar> mod \<bar>m\<bar>) + x); Some (r, g) }) }"

definition OL_I_ID_C :: int where "OL_I_ID_C = 7911"
definition C_ID_C :: int where "C_ID_C = 259"
definition C_LAST_LOAD_C :: int where "C_LAST_LOAD_C = 157"
definition C_LAST_RUN_C :: int where "C_LAST_RUN_C = 223"
definition ITEMS_NO :: int where "ITEMS_NO = 100000"

definition getItemID :: "twister \<Rightarrow> (int \<times> twister) option" where
  "getItemID g = nurand 8191 1 ITEMS_NO OL_I_ID_C g"

definition getCustomerID :: "twister \<Rightarrow> (int \<times> twister) option" where
  "getCustomerID g = nurand 1023 1 3000 C_ID_C g"

definition getNonUniformRandomLastNameForRun :: "twister \<Rightarrow> (int \<times> twister) option" where
  "getNonUniformRandomLastNameForRun g = nurand 255 0 999 C_LAST_RUN_C g"

definition getNonUniformRandomLastNameForLoad :: "twister \<Rightarrow> (int \<times> twister) option" where
  "getNonUniformRandomLastNameForLoad g = nurand 255 0 999 C_LAST_LOAD_C g"

section \<open>The recurrence of the generator\<close>

text \<open>The sequence that the state is a window of.\<close>

function mt_seq :: "u64 list \<Rightarrow> nat \<Rightarrow> u64" where
  "mt_seq s k = (if k < 312 then s ! k else mt_seq s (k - 156) XOR mix (mt_seq s (k - 312)) (mt_seq s (k - 311)))"
  by pat_completeness auto
termination by (relation "measure snd") auto

declare mt_seq.simps [simp del]

lemma mt_seq_step: "mt_seq s (k + 312) = mt_seq s (k + 156) XOR mix (mt_seq s k) (mt_seq s (k + 1))"
  by (subst mt_seq.simps) (simp add: add.commute)

definition window :: "u64 list \<Rightarrow> nat \<Rightarrow> nat \<Rightarrow> u64 list \<Rightarrow> bool" where
  "window s b k m \<longleftrightarrow> length m = 312 \<and> (\<forall>j < 312. m ! j = mt_seq s (if j < k then b + j + 312 else b + j))"

lemma window_assign:
  assumes "window s b k m" "k < 312" "next < 312" "far < 312"
    and "(if next < k then b + next + 312 else b + next) = b + k + 1" "(if far < k then b + far + 312 else b + far) = b + k + 156"
  shows "window s b (k + 1) (mt_assign m k next far)"
proof -
  have nth: "m ! j = mt_seq s (if j < k then b + j + 312 else b + j)" if "j < 312" for j
    using assms(1) that by (simp only: window_def)
  have "m ! far = mt_seq s (b + k + 156)" "m ! k = mt_seq s (b + k)" "m ! next = mt_seq s (b + k + 1)"
    using nth [OF assms(4)] nth [OF assms(2)] nth [OF assms(3)] by (simp_all only: assms(5,6) less_irrefl if_False)
  then have v: "m ! far XOR mix (m ! k) (m ! next) = mt_seq s (b + k + 312)" by (simp only: mt_seq_step)
  have len: "length m = 312" using assms(1) by (simp add: window_def)
  have "(mt_assign m k next far) ! j = mt_seq s (if j < k + 1 then b + j + 312 else b + j)" if "j < 312" for j
  proof (cases "j = k")
    case True
    then show ?thesis using v len that by (simp add: mt_assign_def)
  next
    case False
    then show ?thesis using nth [OF that] by (simp add: mt_assign_def less_Suc_eq)
  qed
  then show ?thesis using len by (simp add: window_def mt_assign_def)
qed

lemma window_foldl:
  assumes "\<And>k m. lo \<le> k \<Longrightarrow> k < hi \<Longrightarrow> window s b k m \<Longrightarrow> window s b (k + 1) (f m k)" "lo \<le> hi"
  shows "window s b lo m \<Longrightarrow> window s b hi (foldl f m [lo..<hi])"
  using assms(2,1)
proof (induction hi rule: dec_induct)
  case (step hi)
  then show ?case by simp
qed simp

lemma window_full: "window s b 312 m \<longleftrightarrow> window s (b + 312) 0 m"
  by (auto simp: window_def ac_simps)

lemma refill_window:
  assumes "window s b 0 m"
  shows "window s (b + 312) 0 (refill m)"
proof -
  let ?m1 = "foldl (\<lambda>m i. mt_assign m i (i + 1) (i + MM)) m [0..<156]"
  have m1: "window s b 156 ?m1"
  proof (rule window_foldl [OF _ _ assms])
    show "window s b (k + 1) (mt_assign m k (k + 1) (k + MM))" if "k < 156" "window s b k m" for k m
      using that by (intro window_assign) (simp_all add: MM_def)
  qed simp
  let ?m2 = "foldl (\<lambda>m i. mt_assign m i (i + 1) (i - 156)) ?m1 [156..<311]"
  have m2: "window s b 311 ?m2"
  proof (rule window_foldl [OF _ _ m1])
    show "window s b (k + 1) (mt_assign m k (k + 1) (k - 156))" if "156 \<le> k" "k < 311" "window s b k m" for k m
      using that by (intro window_assign) simp_all
  qed simp
  have "window s b (311 + 1) (mt_assign ?m2 311 0 155)" by (rule window_assign [OF m2]) simp_all
  then show ?thesis by (simp add: refill_def Let_def NN_def MM_def window_full)
qed

text \<open>After \<open>n\<close> numbers the state is a window that begins a block of 312 and \<open>mti\<close> is the place in it.\<close>

definition drawn :: "u64 list \<Rightarrow> nat \<Rightarrow> twister \<Rightarrow> bool" where
  "drawn s n g \<longleftrightarrow> (\<exists>b. window s b 0 (mt g) \<and> mti g \<le> 312 \<and> n + 312 = b + mti g)"

lemma rnd64_drawn:
  assumes "drawn s n g" "rnd64 g = (x, g')"
  shows "x = temper (mt_seq s (n + 312)) \<and> drawn s (n + 1) g'"
proof -
  obtain b where b: "window s b 0 (mt g)" "mti g \<le> 312" "n + 312 = b + mti g" using assms(1) by (auto simp: drawn_def)
  show ?thesis
  proof (cases "mti g = 312")
    case True
    then have w: "window s (b + 312) 0 (refill (mt g))" using refill_window [OF b(1)] by simp
    then have "refill (mt g) ! 0 = mt_seq s (b + 312)" by (simp add: window_def)
    moreover have "x = temper (refill (mt g) ! 0)" "g' = \<lparr>mt = refill (mt g), mti = 1\<rparr>"
      using assms(2) True by (simp_all add: rnd64_def NN_def Let_def)
    moreover have "drawn s (n + 1) g'"
      using w True b(3) calculation(3) unfolding drawn_def by (intro exI [of _ "b + 312"]) simp
    ultimately show ?thesis using True b(3) by simp
  next
    case False
    then have "mt g ! mti g = mt_seq s (b + mti g)" using b(1,2) by (simp add: window_def)
    moreover have "x = temper (mt g ! mti g)" "g' = g\<lparr>mti := mti g + 1\<rparr>"
      using assms(2) False b(2) by (simp_all add: rnd64_def NN_def Let_def)
    ultimately show ?thesis using b False by (auto simp: drawn_def)
  qed
qed

primrec draws :: "nat \<Rightarrow> twister \<Rightarrow> u64 list" where
  "draws 0 g = []"
| "draws (Suc n) g = (let (x, g) = rnd64 g in x # draws n g)"

lemma draws_drawn: "drawn s k g \<Longrightarrow> draws n g = map (\<lambda>i. temper (mt_seq s (i + 312))) [k..<k + n]"
proof (induction n arbitrary: k g)
  case (Suc n)
  obtain x g' where r: "rnd64 g = (x, g')" by fastforce
  from rnd64_drawn [OF Suc.prems r] have "x = temper (mt_seq s (k + 312))" "draws n g' = map (\<lambda>i. temper (mt_seq s (i + 312))) [k + 1..<k + 1 + n]"
    using Suc.IH by blast+
  then show ?case using r by (simp del: upt_Suc add: upt_conv_Cons)
qed simp

text \<open>The seed gives the first 312 members.\<close>

primrec seed_seq :: "u64 \<Rightarrow> nat \<Rightarrow> u64" where
  "seed_seq seed 0 = seed"
| "seed_seq seed (Suc i) = 6364136223846793005 * (seed_seq seed i XOR drop_bit 62 (seed_seq seed i)) + of_nat (Suc i)"

lemma mt_init_seq: "mt (mt_init seed) = map (seed_seq seed) [0..<312]"
proof -
  have "foldl (\<lambda>m i. m @ [6364136223846793005 * (m ! (i - 1) XOR drop_bit 62 (m ! (i - 1))) + of_nat i]) [seed] [1..<Suc k]
      = map (seed_seq seed) [0..<Suc k]" for k
  proof (induction k)
    case (Suc k)
    then show ?case by (simp del: upt_Suc add: upt_Suc_append nth_append)
  qed simp
  from this [of 311] show ?thesis by (simp add: mt_init_def NN_def del: upt_Suc)
qed

section \<open>Ranges of the random numbers\<close>

lemma getRandU64_range:
  assumes "lo < hi"
  obtains r g' where "getRandU64 lo hi g = Some (r, g')" "lo \<le> r" "r < hi"
proof -
  obtain x g' where x: "rnd64 g = (x, g')" by fastforce
  have pos: "unat hi - unat lo = unat (hi - lo)" "0 < unat (hi - lo)" "unat lo < unat hi"
    using assms by (simp_all add: unat_sub_if' word_less_nat_alt)
  define r where "r = lo + x mod (hi - lo)"
  have "unat (x mod (hi - lo)) < unat (hi - lo)" using pos(2) by (simp add: unat_mod)
  moreover have "unat hi < 2 ^ LENGTH(64)" by (rule unsigned_less)
  ultimately have "unat lo + unat (x mod (hi - lo)) < 2 ^ LENGTH(64)" using pos by linarith
  then have ur: "unat r = unat lo + unat (x mod (hi - lo))" unfolding r_def by (subst unat_add_lem [THEN iffD1]) simp_all
  have "unat (x mod (hi - lo)) < unat (hi - lo)" using pos(2) by (simp add: unat_mod)
  then have "lo \<le> r" "r < hi" using ur pos unfolding word_le_nat_alt word_less_nat_alt by linarith+
  moreover have "getRandU64 lo hi g = Some (r, g')" using assms x by (auto simp: getRandU64_def r_def)
  ultimately show ?thesis by (intro that)
qed

lemma getRand_range:
  assumes "0 \<le> lo" "lo < hi" "hi < 2 ^ 31"
  obtains r g' where "getRand lo hi g = Some (r, g')" "lo \<le> r" "r < hi"
proof -
  have u: "uint (word_of_int lo :: u64) = lo" "uint (word_of_int hi :: u64) = hi" using assms by (simp_all add: uint_word_of_int)
  have "(word_of_int lo :: u64) < word_of_int hi" using assms(2) u by (simp add: word_less_def)
  then obtain r g' where r: "getRandU64 (word_of_int lo) (word_of_int hi) g = Some (r, g')" "word_of_int lo \<le> r" "r < word_of_int hi"
    by (rule getRandU64_range)
  have b: "lo \<le> uint r" "uint r < hi" using r(2,3) u by (simp_all add: word_le_def word_less_def)
  then have "uint (ucast r :: i32) = uint r" using assms by (simp add: unsigned_ucast_eq take_bit_int_eq_self)
  then have "sint (ucast r :: i32) = uint r" using b assms by (simp add: sint_uint signed_take_bit_int_eq_self)
  then show ?thesis using r(1) b by (intro that) (simp_all add: getRand_def)
qed

lemma urand_range:
  assumes "0 \<le> low" "low \<le> high" "high < 2 ^ 31 - 1"
  obtains r g' where "urand low high g = Some (r, g')" "low \<le> r" "r \<le> high"
proof -
  obtain r g' where "rnd (high - low + 1) g = Some (r, g')" "0 \<le> r" "r < high - low + 1"
    unfolding rnd_def using getRand_range [of 0 "high - low + 1" g] assms by auto
  then show ?thesis using assms by (intro that [of "r + low" g']) (simp_all add: urand_def icheck_def)
qed

lemma or_less_2p: "0 \<le> (a :: int) \<Longrightarrow> a < 2 ^ k \<Longrightarrow> 0 \<le> b \<Longrightarrow> b < 2 ^ k \<Longrightarrow> 0 \<le> a OR b \<and> a OR b < 2 ^ k"
proof -
  assume a: "0 \<le> a" "a < 2 ^ k" "0 \<le> b" "b < 2 ^ k"
  then have "take_bit k (a OR b) = a OR b" by (simp add: take_bit_or take_bit_int_eq_self)
  then have "a OR b < 2 ^ k" by (metis take_bit_int_less_exp)
  then show ?thesis using a by simp
qed

lemma nurand_range:
  assumes "0 \<le> a" "a < 2 ^ 20" "0 \<le> x" "x \<le> y" "y < 2 ^ 20" "0 \<le> C" "C < 2 ^ 20"
  obtains r g' where "nurand a x y C g = Some (r, g')" "x \<le> r" "r \<le> y"
proof -
  obtain p g1 where p: "urand 0 a g = Some (p, g1)" "0 \<le> p" "p \<le> a" using urand_range [of 0 a g] assms by auto
  obtain q g2 where q: "urand x y g1 = Some (q, g2)" "x \<le> q" "q \<le> y" using urand_range [of x y g1] assms by auto
  have o: "0 \<le> p OR q" "p OR q < 2 ^ 20" using or_less_2p [of p 20 q] p q assms by auto
  define s where "s = (p OR q) + C"
  have s: "0 \<le> s" "s < 2 ^ 21" using o assms by (simp_all add: s_def)
  have m: "0 \<le> s mod (y - x + 1)" "s mod (y - x + 1) < y - x + 1"
    using pos_mod_bound [of "y - x + 1" s] assms by simp_all
  have e: "sgn s * (s mod (y - x + 1)) = s mod (y - x + 1)" using s by (cases "s = 0") (auto simp: sgn_if)
  have "nurand a x y C g = Some (s mod (y - x + 1) + x, g2)"
    using p(1) q(1) s m(2) assms order_trans [OF _ add_mono [OF m(1) assms(3)], of "- 2147483648"]
    unfolding nurand_def by (simp add: icheck_def e flip: s_def)
  then obtain r where "nurand a x y C g = Some (r + x, g2)" "0 \<le> r" "r < y - x + 1" using m by blast
  then show ?thesis by (intro that [of "r + x" g2]) simp_all
qed

section \<open>Properties\<close>

text \<open>C25. The generator, which refills its array in place every 312 numbers, returns from any seed the tempered
  members of the linear recurrence \<open>x(k + 312) = x(k + 156) XOR mix (x(k)) (x(k + 1))\<close> over the seeded words, one
  after the other, for any number of draws.\<close>

theorem rnd64_is_recurrence:
  "draws n (mt_init seed) = map (\<lambda>i. temper (mt_seq (map (seed_seq seed) [0..<312]) (i + 312))) [0..<n]"
proof -
  have "window (map (seed_seq seed) [0..<312]) 0 0 (mt (mt_init seed))"
    unfolding mt_init_seq by (simp add: window_def mt_seq.simps)
  then have "drawn (map (seed_seq seed) [0..<312]) 0 (mt_init seed)" by (auto simp: drawn_def mt_init_def NN_def)
  from draws_drawn [OF this, of n] show ?thesis by simp
qed

text \<open>C27. From any state of the generator the parameters of a transaction are in their ranges: the non-uniform
  numbers of customers, items and last names, uniform numbers, and the other warehouse of a remote
  transaction, which is never the own one; nothing overflows.\<close>

theorem parameters_in_range:
  assumes "1 \<le> w" "w \<le> n" "2 \<le> n" "n < 2 ^ 31 - 1"
  shows "(\<exists>c g'. getCustomerID g = Some (c, g') \<and> 1 \<le> c \<and> c \<le> 3000)
    \<and> (\<exists>i g'. getItemID g = Some (i, g') \<and> 1 \<le> i \<and> i \<le> ITEMS_NO)
    \<and> (\<exists>l g'. getNonUniformRandomLastNameForRun g = Some (l, g') \<and> 0 \<le> l \<and> l \<le> 999)
    \<and> (\<exists>l g'. getNonUniformRandomLastNameForLoad g = Some (l, g') \<and> 0 \<le> l \<and> l \<le> 999)
    \<and> (\<exists>r g'. urand 1 n g = Some (r, g') \<and> 1 \<le> r \<and> r \<le> n)
    \<and> (\<exists>r g'. urandexcept 1 n w g = Some (r, g') \<and> 1 \<le> r \<and> r \<le> n \<and> r \<noteq> w)"
proof -
  obtain d g1 where d: "rnd (n - 1) g = Some (d, g1)" "0 \<le> d" "d < n - 1"
    unfolding rnd_def using getRand_range [of 0 "n - 1" g] assms by auto
  then have "urandexcept 1 n w g = Some (if d + 1 \<ge> w then d + 2 else d + 1, g1)"
    using assms by (simp add: urandexcept_def icheck_def)
  moreover have "1 \<le> (if d + 1 \<ge> w then d + 2 else d + 1)" "(if d + 1 \<ge> w then d + 2 else d + 1) \<le> n"
    "(if d + 1 \<ge> w then d + 2 else d + 1) \<noteq> w" using d assms by auto
  ultimately have "\<exists>r g'. urandexcept 1 n w g = Some (r, g') \<and> 1 \<le> r \<and> r \<le> n \<and> r \<noteq> w" by blast
  moreover have "\<exists>r g'. urand 1 n g = Some (r, g') \<and> 1 \<le> r \<and> r \<le> n" by (rule urand_range [of 1 n g]) (use assms in auto)
  moreover have "\<exists>c g'. getCustomerID g = Some (c, g') \<and> 1 \<le> c \<and> c \<le> 3000"
    unfolding getCustomerID_def C_ID_C_def by (rule nurand_range [of 1023 1 3000 259 g]) auto
  moreover have "\<exists>i g'. getItemID g = Some (i, g') \<and> 1 \<le> i \<and> i \<le> ITEMS_NO"
    unfolding getItemID_def OL_I_ID_C_def ITEMS_NO_def by (rule nurand_range [of 8191 1 100000 7911 g]) auto
  moreover have "\<exists>l g'. getNonUniformRandomLastNameForRun g = Some (l, g') \<and> 0 \<le> l \<and> l \<le> 999"
    unfolding getNonUniformRandomLastNameForRun_def C_LAST_RUN_C_def by (rule nurand_range [of 255 0 999 223 g]) auto
  moreover have "\<exists>l g'. getNonUniformRandomLastNameForLoad g = Some (l, g') \<and> 0 \<le> l \<and> l \<le> 999"
    unfolding getNonUniformRandomLastNameForLoad_def C_LAST_LOAD_C_def by (rule nurand_range [of 255 0 999 157 g]) auto
  ultimately show ?thesis by blast
qed

theorem parameters_in_range_witness:
  "\<exists>r g'. urandexcept 1 5 3 (mt_init 19650218) = Some (r, g') \<and> 1 \<le> r \<and> r \<le> 5 \<and> r \<noteq> 3"
  using parameters_in_range [of 3 5 "mt_init 19650218"] by simp

end
