(* ===== verification/Adapter.thy ===== *)
theory Adapter
  imports Schema "HOL-Library.List_Lexorder"
begin

text \<open>
  The adapter between the workload and the B-tree (\<open>vmcacheAdapter\<close> of \<open>integrated_vmcache.cpp\<close>): each
  table is a tree whose keys are the folded keys of its records.

  A tree is seen here as the list of the entries of its leaves in order, what the operations of \<open>BTree\<close>
  maintain; a record is its own payload. The same operations on lists with keys of any ordered type are
  the tables of the workload, and the adapter turns the one into the other. A scan hands its state to the
  callback, which returns whether to go on; \<open>None\<close> is a callback that has no defined result.
  Inserting a key that the tree already holds adds a second entry, which the lists have in front of the
  first one.
\<close>

type_synonym ('k, 'r) table = "('k \<times> 'r) list"

section \<open>The operations of the tree\<close>

fun t_insert :: "'k::linorder \<Rightarrow> 'r \<Rightarrow> ('k, 'r) table \<Rightarrow> ('k, 'r) table" where
  "t_insert k r [] = [(k, r)]"
| "t_insert k r ((k', r') # t) = (if k' < k then (k', r') # t_insert k r t else (k, r) # (k', r') # t)"

text \<open>The state of the callback of \<open>updateInPlace\<close> is returned with the tree.\<close>

fun t_update :: "'k \<Rightarrow> ('r \<Rightarrow> 'r option) \<Rightarrow> ('k, 'r) table \<Rightarrow> ('k, 'r) table option" where
  "t_update k f [] = Some []"
| "t_update k f ((k', r') # t) =
     (if k' = k then do { r \<leftarrow> f r'; Some ((k', r) # t) } else do { t \<leftarrow> t_update k f t; Some ((k', r') # t) })"

fun t_remove :: "'k \<Rightarrow> ('k, 'r) table \<Rightarrow> ('k, 'r) table \<times> bool" where
  "t_remove k [] = ([], False)"
| "t_remove k ((k', r') # t) = (if k' = k then (t, True) else let (t, b) = t_remove k t in ((k', r') # t, b))"

fun scan_loop :: "('k \<Rightarrow> 'r \<Rightarrow> 's \<Rightarrow> (bool \<times> 's) option) \<Rightarrow> ('k, 'r) table \<Rightarrow> 's \<Rightarrow> 's option" where
  "scan_loop f [] s = Some s"
| "scan_loop f ((k, r) # t) s = do { (go, s) \<leftarrow> f k r s; if go then scan_loop f t s else Some s }"

definition tree_scanAsc :: "'k::linorder \<Rightarrow> ('k \<Rightarrow> 'r \<Rightarrow> 's \<Rightarrow> (bool \<times> 's) option) \<Rightarrow> ('k, 'r) table \<Rightarrow> 's \<Rightarrow> 's option" where
  "tree_scanAsc key fn t s = scan_loop fn (dropWhile (\<lambda>e. fst e < key) t) s"

text \<open>The descending scan starts in the leaf of the key, at the first entry that is not smaller, or at the last
  one when there is none in this leaf (\<open>leaf_end\<close>, which depends on how the entries lie on the pages) and
  the callback is then told of an exact match.\<close>

definition tree_scanDesc ::
    "bool \<Rightarrow> 'k::linorder \<Rightarrow> ('k \<Rightarrow> 'r \<Rightarrow> bool \<Rightarrow> 's \<Rightarrow> (bool \<times> 's) option) \<Rightarrow> ('k, 'r) table \<Rightarrow> 's \<Rightarrow> 's option" where
  "tree_scanDesc leaf_end key fn t s =
     (let lo = takeWhile (\<lambda>e. fst e < key) t; hi = dropWhile (\<lambda>e. fst e < key) t
      in if leaf_end \<or> hi = [] then scan_loop (\<lambda>k r. fn k r True) (rev lo) s
         else scan_loop (\<lambda>k r. fn k r (fst (hd hi) = key)) (hd hi # rev lo) s)"

section \<open>The adapter\<close>

type_synonym 'k folder = "'k \<Rightarrow> u8 list"
type_synonym 'k unfolder = "u8 list \<Rightarrow> ('k \<times> u8 list) option"

definition ad_scan :: "'k folder \<Rightarrow> 'k unfolder \<Rightarrow> 'k \<Rightarrow> ('k \<Rightarrow> 'r \<Rightarrow> 's \<Rightarrow> (bool \<times> 's) option) \<Rightarrow>
    (u8 list, 'r) table \<Rightarrow> 's \<Rightarrow> 's option" where
  "ad_scan foldKey unfoldKey key found_record_cb tree s =
     tree_scanAsc (foldKey key) (\<lambda>kk r s. do { (typedKey, _) \<leftarrow> unfoldKey kk; found_record_cb typedKey r s }) tree s"

definition ad_scanDesc :: "bool \<Rightarrow> 'k folder \<Rightarrow> 'k unfolder \<Rightarrow> 'k \<Rightarrow> ('k \<Rightarrow> 'r \<Rightarrow> 's \<Rightarrow> (bool \<times> 's) option) \<Rightarrow>
    (u8 list, 'r) table \<Rightarrow> 's \<Rightarrow> 's option" where
  "ad_scanDesc leaf_end foldKey unfoldKey key found_record_cb tree s = do {
     (_, s) \<leftarrow> tree_scanDesc leaf_end (foldKey key)
       (\<lambda>kk r exactMatch (first, s).
          if first \<and> \<not> exactMatch then Some (True, (False, s))
          else do { (typedKey, _) \<leftarrow> unfoldKey kk; (go, s) \<leftarrow> found_record_cb typedKey r s; Some (go, (False, s)) })
       tree (True, s);
     Some s }"

definition ad_insert :: "'k folder \<Rightarrow> 'k \<Rightarrow> 'r \<Rightarrow> (u8 list, 'r) table \<Rightarrow> (u8 list, 'r) table" where
  "ad_insert foldKey key record tree = t_insert (foldKey key) record tree"

text \<open>Without the assertion a miss leaves the callback uncalled: \<open>None\<close> in the result of the lookup.\<close>

definition ad_lookup1 :: "'k folder \<Rightarrow> 'k \<Rightarrow> (u8 list, 'r) table \<Rightarrow> 'r option" where
  "ad_lookup1 foldKey key tree = map_of tree (foldKey key)"

definition ad_update1 :: "'k folder \<Rightarrow> 'k \<Rightarrow> ('r \<Rightarrow> 'r option) \<Rightarrow> (u8 list, 'r) table \<Rightarrow> (u8 list, 'r) table option" where
  "ad_update1 foldKey key fn tree = t_update (foldKey key) fn tree"

definition ad_erase :: "'k folder \<Rightarrow> 'k \<Rightarrow> (u8 list, 'r) table \<Rightarrow> (u8 list, 'r) table \<times> bool" where
  "ad_erase foldKey key tree = t_remove (foldKey key) tree"

definition ad_count :: "(u8 list, 'r) table \<Rightarrow> u64 option" where
  "ad_count tree = tree_scanAsc [] (\<lambda>_ _ cnt. Some (True, cnt + 1)) tree 0"

definition ad_countw :: "int \<Rightarrow> (u8 list, 'r) table \<Rightarrow> u64 option" where
  "ad_countw w_id tree =
     (let k = fold_Integer w_id
      in tree_scanAsc k (\<lambda>kk _ cnt. if memcmp k kk 4 \<noteq> 0 then Some (False, cnt) else Some (True, cnt + 1)) tree 0)"

section \<open>The operations of the workload's tables\<close>

definition scan :: "'k::linorder \<Rightarrow> ('k \<Rightarrow> 'r \<Rightarrow> 's \<Rightarrow> (bool \<times> 's) option) \<Rightarrow> ('k, 'r) table \<Rightarrow> 's \<Rightarrow> 's option" where
  "scan key f t s = scan_loop f (dropWhile (\<lambda>e. fst e < key) t) s"

definition scanDesc :: "'k::linorder \<Rightarrow> ('k \<Rightarrow> 'r \<Rightarrow> 's \<Rightarrow> (bool \<times> 's) option) \<Rightarrow> ('k, 'r) table \<Rightarrow> 's \<Rightarrow> 's option" where
  "scanDesc key f t s = scan_loop f (rev (takeWhile (\<lambda>e. fst e \<le> key) t)) s"

text \<open>A table: its keys in ascending order, each once.\<close>

definition ascending :: "('k::linorder, 'r) table \<Rightarrow> bool" where
  "ascending t \<longleftrightarrow> sorted_wrt (<) (map fst t)"

text \<open>The entries with folded keys.\<close>

definition encode :: "'k folder \<Rightarrow> ('k, 'r) table \<Rightarrow> (u8 list, 'r) table" where
  "encode foldKey t = map (\<lambda>(k, r). (foldKey k, r)) t"

section \<open>Tables as maps\<close>

lemma ascending_simps [simp]:
  "ascending []"
  "ascending ((k, r) # t) \<longleftrightarrow> (\<forall>e\<in>set t. k < fst e) \<and> ascending t"
  by (auto simp: ascending_def)

lemma ascending_distinct: "ascending t \<Longrightarrow> distinct (map fst t)"
  by (simp add: ascending_def strict_sorted_iff)

lemma map_of_None_above: "(\<forall>e\<in>set t. k < fst e) \<Longrightarrow> map_of t k = None" for k :: "'k::linorder"
  by (auto simp: map_of_eq_None_iff)

lemma t_insert_map: "sorted (map fst t) \<Longrightarrow> map_of (t_insert k r t) = (map_of t)(k \<mapsto> r)"
  by (induction t) auto

lemma t_insert_set [simp]: "set (t_insert k r t) = insert (k, r) (set t)"
proof (induction t)
  case (Cons e t)
  then show ?case by (cases e) auto
qed simp

lemma t_insert_ascending: "ascending t \<Longrightarrow> map_of t k = None \<Longrightarrow> ascending (t_insert k r t)"
proof (induction t)
  case (Cons e t)
  then show ?case by (cases e) (fastforce split: if_splits)
qed simp

lemma t_update_map: "t_update k f t = Some t' \<Longrightarrow>
    map_of t' x = (if x = k then (case map_of t k of None \<Rightarrow> None | Some r \<Rightarrow> f r) else map_of t x)"
proof (induction t arbitrary: t')
  case (Cons e t)
  then show ?case by (cases e) (auto split: if_splits bind_splits)
qed simp

lemma t_update_keys: "t_update k f t = Some t' \<Longrightarrow> map fst t' = map fst t"
proof (induction t arbitrary: t')
  case (Cons e t)
  then show ?case by (cases e) (auto split: if_splits bind_splits)
qed simp

lemma t_update_ascending: "t_update k f t = Some t' \<Longrightarrow> ascending t' = ascending t"
  by (simp add: ascending_def t_update_keys)

lemma t_update_miss: "map_of t k = None \<Longrightarrow> t_update k f t = Some t"
proof (induction t)
  case (Cons e t)
  then show ?case by (cases e) (auto split: if_splits)
qed simp

lemma t_update_hit: "map_of t k = Some r \<Longrightarrow> f r = Some r' \<Longrightarrow> \<exists>t'. t_update k f t = Some t'"
proof (induction t)
  case (Cons e t)
  then show ?case by (cases e) (auto split: if_splits)
qed simp

lemma t_remove_map: "ascending t \<Longrightarrow> map_of (fst (t_remove k t)) x = (if x = k then None else map_of t x)"
proof (induction t)
  case (Cons e t)
  then show ?case by (cases e) (auto simp: split_def Let_def map_of_None_above)
qed simp

lemma t_remove_subset: "set (fst (t_remove k t)) \<subseteq> set t"
proof (induction t)
  case (Cons e t)
  then show ?case by (cases e) (auto simp: split_def Let_def)
qed simp

lemma t_remove_ascending: "ascending t \<Longrightarrow> ascending (fst (t_remove k t))"
proof (induction t)
  case (Cons e t)
  then show ?case using t_remove_subset [of k t] by (cases e) (auto simp: split_def Let_def)
qed simp

lemma t_remove_found: "snd (t_remove k t) \<longleftrightarrow> map_of t k \<noteq> None"
proof (induction t)
  case (Cons e t)
  then show ?case by (cases e) (auto simp: split_def Let_def)
qed simp

lemma ascending_map_of: "ascending t \<Longrightarrow> map_of t k = Some r \<longleftrightarrow> (k, r) \<in> set t"
  by (simp add: ascending_distinct)

text \<open>What the scans see.\<close>

lemma takeWhile_ascending: "ascending t \<Longrightarrow> takeWhile (\<lambda>e. fst e < k) t = filter (\<lambda>e. fst e < k) t"
proof (induction t)
  case (Cons e t)
  then show ?case by (cases e) (auto intro!: filter_False [symmetric])
qed simp

lemma dropWhile_ascending: "ascending t \<Longrightarrow> dropWhile (\<lambda>e. fst e < k) t = filter (\<lambda>e. k \<le> fst e) t"
proof (induction t)
  case (Cons e t)
  then show ?case by (cases e) (auto simp: not_less intro!: filter_True [symmetric])
qed simp

lemma takeWhile_le_ascending: "ascending t \<Longrightarrow> takeWhile (\<lambda>e. fst e \<le> k) t = filter (\<lambda>e. fst e \<le> k) t"
proof (induction t)
  case (Cons e t)
  then show ?case by (cases e) (auto simp: not_le intro!: filter_False [symmetric])
qed simp

section \<open>The adapter implements the tables\<close>

lemma bytes_less_list: "bytes_less a b \<longleftrightarrow> a < b"
proof (induction a b rule: bytes_less.induct)
  case (1 ys)
  then show ?case by (cases ys) auto
qed auto

lemma not_less_Nil [simp]: "\<not> bytes_less a []" "\<not> a < ([] :: u8 list)"
  by (cases a, auto)+

lemma scan_loop_cong: "(\<And>k r s. (k, r) \<in> set t \<Longrightarrow> f k r s = g k r s) \<Longrightarrow> scan_loop f t s = scan_loop g t s"
proof (induction t arbitrary: s)
  case (Cons e t)
  then show ?case by (cases e) (auto simp: split_def intro!: Option.bind_cong)
qed simp

lemma encode_simps [simp]:
  "encode f [] = []" "encode f ((k, r) # t) = (f k, r) # encode f t" "encode f (rev t) = rev (encode f t)"
  by (simp_all add: encode_def rev_map)

locale table_code = field_code ok "(<)" enc dec for ok :: "'k::linorder \<Rightarrow> bool" and enc and dec
begin

lemma enc_less: "ok x \<Longrightarrow> ok y \<Longrightarrow> enc x < enc y \<longleftrightarrow> x < y"
  using order_key by (simp flip: bytes_less_list)

lemma enc_eq: "ok x \<Longrightarrow> ok y \<Longrightarrow> enc x = enc y \<longleftrightarrow> x = y"
  using enc_less [of x y] enc_less [of y x] by (metis less_irrefl linorder_less_linear)

lemma dec_enc: "ok x \<Longrightarrow> dec (enc x) = Some (x, [])"
  using decode [of x "[]"] by simp

lemma insert_encode: "list_all (\<lambda>e. ok (fst e)) t \<Longrightarrow> ok k \<Longrightarrow> ad_insert enc k r (encode enc t) = encode enc (t_insert k r t)"
  unfolding ad_insert_def encode_def by (induction t) (auto simp: enc_less)

lemma lookup_encode: "list_all (\<lambda>e. ok (fst e)) t \<Longrightarrow> ok k \<Longrightarrow> ad_lookup1 enc k (encode enc t) = map_of t k"
  unfolding ad_lookup1_def encode_def by (induction t) (auto simp: enc_eq)

lemma update_encode:
  "list_all (\<lambda>e. ok (fst e)) t \<Longrightarrow> ok k \<Longrightarrow> ad_update1 enc k f (encode enc t) = map_option (encode enc) (t_update k f t)"
  unfolding ad_update1_def encode_def
proof (induction t)
  case (Cons e t)
  then show ?case by (cases e; cases "t_update k f t"; cases "f (snd e)") (auto simp: enc_eq)
qed simp

lemma erase_encode:
  "list_all (\<lambda>e. ok (fst e)) t \<Longrightarrow> ok k \<Longrightarrow> ad_erase enc k (encode enc t) = apfst (encode enc) (t_remove k t)"
  unfolding ad_erase_def encode_def
proof (induction t)
  case (Cons e t)
  then show ?case by (cases e; cases "t_remove k t") (auto simp: enc_eq)
qed simp

lemma loop_encode:
  "list_all (\<lambda>e. ok (fst e)) t \<Longrightarrow>
   scan_loop (\<lambda>kk r s. do { (k, _) \<leftarrow> dec kk; f k r s }) (encode enc t) s = scan_loop f t s"
  unfolding encode_def
proof (induction t arbitrary: s)
  case (Cons e t)
  then show ?case by (cases e) (auto simp: dec_enc split_def intro!: Option.bind_cong)
qed simp

lemma while_encode:
  assumes "list_all (\<lambda>e. ok (fst e)) t" "ok k"
  shows "dropWhile (\<lambda>e. fst e < enc k) (encode enc t) = encode enc (dropWhile (\<lambda>e. fst e < k) t)"
    and "takeWhile (\<lambda>e. fst e < enc k) (encode enc t) = encode enc (takeWhile (\<lambda>e. fst e < k) t)"
  using assms unfolding encode_def by (induction t) (auto simp: enc_less)

lemma ok_while:
  assumes "list_all (\<lambda>e. ok (fst e)) t"
  shows "list_all (\<lambda>e. ok (fst e)) (dropWhile P t)" "list_all (\<lambda>e. ok (fst e)) (takeWhile P t)"
  using assms by (auto simp: list_all_iff dest: set_dropWhileD set_takeWhileD)

lemma scan_encode:
  "list_all (\<lambda>e. ok (fst e)) t \<Longrightarrow> ok k \<Longrightarrow> ad_scan enc dec k f (encode enc t) s = scan k f t s"
  by (simp add: ad_scan_def tree_scanAsc_def scan_def while_encode loop_encode ok_while)

lemma desc_loop_encode:
  "list_all (\<lambda>e. ok (fst e)) t \<Longrightarrow> first \<longrightarrow> exact \<Longrightarrow>
   Option.bind (scan_loop (\<lambda>kk r (first, s).
       if first \<and> \<not> exact then Some (True, (False, s))
       else do { (typedKey, _) \<leftarrow> dec kk; (go, s) \<leftarrow> f typedKey r s; Some (go, (False, s)) }) (encode enc t) (first, s))
     (\<lambda>(_, s). Some s) = scan_loop f t s"
  unfolding encode_def
proof (induction t arbitrary: s first)
  case (Cons e t)
  then show ?case by (cases e; cases "f (fst e) (snd e) s") (auto simp: dec_enc split_def)
qed simp

lemma scanDesc_encode:
  assumes t: "list_all (\<lambda>e. ok (fst e)) t" "ascending t" and k: "ok k" and l: "leaf_end \<Longrightarrow> map_of t k = None"
  shows "ad_scanDesc leaf_end enc dec k f (encode enc t) s = scanDesc k f t s"
proof -
  define lo hi where "lo = takeWhile (\<lambda>e. fst e < k) t" and "hi = dropWhile (\<lambda>e. fst e < k) t"
  have lo: "list_all (\<lambda>e. ok (fst e)) (rev lo)" and hi: "list_all (\<lambda>e. ok (fst e)) hi"
    using t k ok_while by (simp_all add: lo_def hi_def)
  have h: "hi = filter (\<lambda>e. k \<le> fst e) t" using t by (simp add: hi_def dropWhile_ascending)
  have low: "takeWhile (\<lambda>e. fst e \<le> k) t = (if hi \<noteq> [] \<and> fst (hd hi) = k then lo @ [hd hi] else lo)"
  proof -
    have "t = lo @ hi" by (simp add: lo_def hi_def)
    moreover have "\<forall>e\<in>set lo. fst e \<le> k" by (auto simp: lo_def dest: set_takeWhileD)
    ultimately have "takeWhile (\<lambda>e. fst e \<le> k) t = lo @ takeWhile (\<lambda>e. fst e \<le> k) hi" by (simp add: takeWhile_append2)
    moreover have "takeWhile (\<lambda>e. fst e \<le> k) hi = (if hi \<noteq> [] \<and> fst (hd hi) = k then [hd hi] else [])"
    proof (cases hi)
      case (Cons e u)
      then have "k \<le> fst e" using h by (metis filter_eq_ConsD)
      moreover have "ascending hi" using t(2) \<open>t = lo @ hi\<close> by (simp add: ascending_def sorted_wrt_append)
      then have "\<forall>e'\<in>set u. fst e < fst e'" using Cons by (cases e) auto
      ultimately show ?thesis using Cons by (cases u) auto
    qed simp
    ultimately show ?thesis by simp
  qed
  show ?thesis
  proof (cases "leaf_end \<or> hi = []")
    case True
    have "\<not> (hi \<noteq> [] \<and> fst (hd hi) = k)"
    proof
      assume a: "hi \<noteq> [] \<and> fst (hd hi) = k"
      then have "map_of t k = None" using True l by simp
      moreover have "hd hi \<in> set t" using a h hd_in_set [of hi] by auto
      ultimately show False using a by (force simp: map_of_eq_None_iff)
    qed
    then show ?thesis using True desc_loop_encode [OF lo, of True True f s]
      by (auto simp: ad_scanDesc_def tree_scanDesc_def Let_def while_encode [OF t(1) k] low scanDesc_def
          simp flip: lo_def hi_def)
  next
    case False
    then obtain e u where e: "hi = e # u" by (cases hi) auto
    have oke: "ok (fst e)" using hi e by simp
    show ?thesis
    proof (cases "fst e = k")
      case True
      then show ?thesis using False desc_loop_encode [of "e # rev lo" True True f s] lo oke e
        by (cases e) (auto simp: ad_scanDesc_def tree_scanDesc_def Let_def while_encode [OF t(1) k] low scanDesc_def
          simp flip: lo_def hi_def)
    next
      case ne: False
      then show ?thesis using False desc_loop_encode [of "rev lo" False False f s] lo oke k e
        by (cases e) (auto simp: ad_scanDesc_def tree_scanDesc_def Let_def while_encode [OF t(1) k] low scanDesc_def enc_eq
          simp flip: lo_def hi_def)
    qed
  qed
qed

end

interpretation int_table: table_code int_ok fold_Integer unfold_Integer ..

interpretation two_table: table_code "pair_ok int_ok int_ok" "pair_enc fold_Integer fold_Integer" "pair_dec unfold_Integer unfold_Integer"
  using two.pair.field_code_axioms unfolding pair_lt_prod by (simp add: table_code_def)

interpretation three_table: table_code "pair_ok int_ok (pair_ok int_ok int_ok)"
    "pair_enc fold_Integer (pair_enc fold_Integer fold_Integer)" "pair_dec unfold_Integer (pair_dec unfold_Integer unfold_Integer)"
  using three.pair.field_code_axioms unfolding pair_lt_prod by (simp add: table_code_def)

interpretation four_table: table_code "pair_ok int_ok (pair_ok int_ok (pair_ok int_ok int_ok))"
    "pair_enc fold_Integer (pair_enc fold_Integer (pair_enc fold_Integer fold_Integer))"
    "pair_dec unfold_Integer (pair_dec unfold_Integer (pair_dec unfold_Integer unfold_Integer))"
  using four.pair.field_code_axioms unfolding pair_lt_prod by (simp add: table_code_def)

lemma vc_less_list: "vc_less = (<)"
  by (simp add: fun_eq_iff vc_less_bytes bytes_less_list)

interpretation wdl_table: table_code "pair_ok int_ok (pair_ok int_ok (pair_ok (vc_ok 16) (vc_ok 16)))"
    "pair_enc fold_Integer (pair_enc fold_Integer (pair_enc fold_Varchar fold_Varchar))"
    "pair_dec unfold_Integer (pair_dec unfold_Integer (pair_dec (unfold_Varchar 16) (unfold_Varchar 16)))"
  using wdl.pair.field_code_axioms unfolding pair_lt_prod vc_less_list by (simp add: table_code_def)

text \<open>The operations of the adapter on the folded keys do what those of the table do.\<close>

definition implements_table ::
    "'k::linorder folder \<Rightarrow> 'k unfolder \<Rightarrow> ('k, 'r) table \<Rightarrow> 'k \<Rightarrow> 'r \<Rightarrow> ('r \<Rightarrow> 'r option) \<Rightarrow>
     ('k \<Rightarrow> 'r \<Rightarrow> 's \<Rightarrow> (bool \<times> 's) option) \<Rightarrow> 's \<Rightarrow> bool" where
  "implements_table foldKey unfoldKey t k r u f s \<longleftrightarrow>
     ad_insert foldKey k r (encode foldKey t) = encode foldKey (t_insert k r t) \<and>
     ad_lookup1 foldKey k (encode foldKey t) = map_of t k \<and>
     ad_update1 foldKey k u (encode foldKey t) = map_option (encode foldKey) (t_update k u t) \<and>
     ad_erase foldKey k (encode foldKey t) = apfst (encode foldKey) (t_remove k t) \<and>
     ad_scan foldKey unfoldKey k f (encode foldKey t) s = scan k f t s \<and>
     ad_scanDesc False foldKey unfoldKey k f (encode foldKey t) s = scanDesc k f t s \<and>
     (map_of t k = None \<longrightarrow> ad_scanDesc True foldKey unfoldKey k f (encode foldKey t) s = scanDesc k f t s)"

text \<open>Counting all records, and those of a warehouse: \<open>wid\<close> is the first field of the key.\<close>

definition counts_table :: "'k::linorder folder \<Rightarrow> ('k \<Rightarrow> int) \<Rightarrow> ('k, 'r) table \<Rightarrow> int \<Rightarrow> bool" where
  "counts_table foldKey wid t w \<longleftrightarrow>
     ad_count (encode foldKey t) = Some (of_nat (length t)) \<and>
     ad_countw w (encode foldKey t) = Some (of_nat (length (filter (\<lambda>e. wid (fst e) = w) t)))"

lemma count_loop: "scan_loop (\<lambda>_ _ cnt :: u64. Some (True, cnt + 1)) t c = Some (c + of_nat (length t))"
  by (induction t arbitrary: c) (auto simp: algebra_simps)

lemma memcmp_0: "length a = n \<Longrightarrow> n \<le> length b \<Longrightarrow> memcmp a b n = 0 \<longleftrightarrow> a = take n b"
proof (induction n arbitrary: a b)
  case (Suc n)
  then show ?case by (cases a; cases b) (auto simp: word_uint_eq_iff)
qed simp

lemma countw_loop:
  assumes "int_ok w" "\<forall>k\<in>fst ` set t. int_ok (wid k) \<and> enc k = fold_Integer (wid k) @ rest k"
    "sorted (map (wid \<circ> fst) t)"
  shows "scan_loop (\<lambda>kk _ cnt :: u64. if memcmp (fold_Integer w) kk 4 \<noteq> 0 then Some (False, cnt) else Some (True, cnt + 1))
      (dropWhile (\<lambda>e. fst e < fold_Integer w) (encode enc t)) c = Some (c + of_nat (length (filter (\<lambda>e. wid (fst e) = w) t)))"
  using assms(2,3)
proof (induction t arbitrary: c)
  case (Cons e t)
  obtain k r where e: "e = (k, r)" by fastforce
  have k: "int_ok (wid k)" "enc k = fold_Integer (wid k) @ rest k" using Cons.prems e by auto
  have lt: "fold_Integer (wid k) @ rest k < fold_Integer w \<longleftrightarrow> wid k < w"
    using int_code.order [OF k(1) assms(1), of "rest k" "[]"] by (simp flip: bytes_less_list)
  have eq: "memcmp (fold_Integer w) (fold_Integer (wid k) @ rest k) 4 = 0 \<longleftrightarrow> wid k = w"
    using int_code.decode [OF k(1), of "[]"] int_code.decode [OF assms(1), of "[]"]
    by (auto simp: memcmp_0)
  have later: "filter (\<lambda>e. wid (fst e) = w) t = []" if "w < wid k" using that Cons.prems(2) e by (auto simp: filter_empty_conv)
  have run: "scan_loop (\<lambda>kk _ cnt :: u64. if memcmp (fold_Integer w) kk 4 \<noteq> 0 then Some (False, cnt) else Some (True, cnt + 1))
      (encode enc t) (c + 1) = Some (c + 1 + of_nat (length (filter (\<lambda>e. wid (fst e) = w) t)))" if "wid k = w"
  proof -
    have "dropWhile (\<lambda>e. fst e < fold_Integer w) (encode enc t) = encode enc t"
    proof (cases t)
      case (Cons e' u)
      obtain k' r' where e': "e' = (k', r')" by fastforce
      have "int_ok (wid k')" "enc k' = fold_Integer (wid k') @ rest k'" "w \<le> wid k'" using Cons.prems Cons e e' that by auto
      then show ?thesis using int_code.order [of "wid k'" w "rest k'" "[]"] assms(1)
        by (simp add: Cons e' flip: bytes_less_list)
    qed simp
    then show ?thesis using Cons.IH [of "c + 1"] Cons.prems by simp
  qed
  consider "wid k < w" | "wid k = w" | "w < wid k" by linarith
  then show ?case
  proof cases
    case 1
    then show ?thesis using Cons.IH [of c] Cons.prems by (simp add: e k(2) lt)
  next
    case 2
    then show ?thesis using run lt eq by (simp add: e k(2) algebra_simps)
  next
    case 3
    then show ?thesis using later by (simp add: e k(2) lt eq)
  qed
qed simp

context table_code begin

lemma implements:
  "list_all (\<lambda>e. ok (fst e)) t \<Longrightarrow> ascending t \<Longrightarrow> ok k \<Longrightarrow> implements_table enc dec t k r u f s"
  by (simp add: implements_table_def insert_encode lookup_encode update_encode erase_encode scan_encode scanDesc_encode)

lemma counts:
  assumes "list_all (\<lambda>e. ok (fst e)) t" "ascending t" "int_ok w"
    and wid: "\<And>k. ok k \<Longrightarrow> int_ok (wid k) \<and> enc k = fold_Integer (wid k) @ rest k" "\<And>x y. x \<le> y \<Longrightarrow> wid x \<le> wid y"
  shows "counts_table enc wid t w"
proof -
  have "sorted (map (wid \<circ> fst) t)"
    using assms(2) unfolding ascending_def sorted_map sorted_wrt_map
    by (rule sorted_wrt_mono_rel [rotated]) (simp add: wid(2) less_imp_le)
  moreover have "\<forall>k\<in>fst ` set t. int_ok (wid k) \<and> enc k = fold_Integer (wid k) @ rest k" using assms(1) wid(1) by (auto simp: list_all_iff)
  moreover have "ad_count (encode enc t) = Some (of_nat (length t))"
    by (simp add: ad_count_def tree_scanAsc_def count_loop encode_def)
  ultimately show ?thesis using countw_loop [of w t wid enc rest 0] assms(3)
    by (simp add: counts_table_def ad_countw_def tree_scanAsc_def)
qed

end

section \<open>Properties\<close>

text \<open>C11. For every table, on entries with keys in ascending order, the operations of the adapter on the bytes of
  the keys do what the operations of the table do on the keys themselves: insertion, lookup, update and
  removal, and both scans with any callback, the descending one wherever the key lies in its leaf; the
  counts are the numbers of the records, of the table and of a warehouse.\<close>

theorem adapter_implements_tables:
  assumes "ascending t1" "list_all (\<lambda>e. int_ok (fst e)) t1" "int_ok a"
    "ascending t2" "list_all (\<lambda>((a, b), _). int_ok a \<and> int_ok b) t2" "int_ok b"
    "ascending t3" "list_all (\<lambda>((a, b, c), _). int_ok a \<and> int_ok b \<and> int_ok c) t3" "int_ok c"
    "ascending t4" "list_all (\<lambda>((a, b, c, d), _). int_ok a \<and> int_ok b \<and> int_ok c \<and> int_ok d) t4" "int_ok d"
    "ascending t5" "list_all (\<lambda>((a, b, l, f), _). int_ok a \<and> int_ok b \<and> vc_ok 16 l \<and> vc_ok 16 f) t5" "vc_ok 16 l" "vc_ok 16 n"
  shows "implements_table foldKey_warehouse unfoldKey_warehouse t1 a r1 u1 f1 s \<and> counts_table foldKey_warehouse id t1 a
    \<and> implements_table foldKey_item unfoldKey_item t1 a r1 u1 f1 s \<and> counts_table foldKey_item id t1 a
    \<and> implements_table foldKey_district unfoldKey_district t2 (a, b) r2 u2 f2 s \<and> counts_table foldKey_district fst t2 a
    \<and> implements_table foldKey_history unfoldKey_history t2 (a, b) r2 u2 f2 s \<and> counts_table foldKey_history fst t2 a
    \<and> implements_table foldKey_stock unfoldKey_stock t2 (a, b) r2 u2 f2 s \<and> counts_table foldKey_stock fst t2 a
    \<and> implements_table foldKey_customer unfoldKey_customer t3 (a, b, c) r3 u3 f3 s \<and> counts_table foldKey_customer fst t3 a
    \<and> implements_table foldKey_neworder unfoldKey_neworder t3 (a, b, c) r3 u3 f3 s \<and> counts_table foldKey_neworder fst t3 a
    \<and> implements_table foldKey_order unfoldKey_order t3 (a, b, c) r3 u3 f3 s \<and> counts_table foldKey_order fst t3 a
    \<and> implements_table foldKey_order_wdc unfoldKey_order_wdc t4 (a, b, c, d) r4 u4 f4 s \<and> counts_table foldKey_order_wdc fst t4 a
    \<and> implements_table foldKey_orderline unfoldKey_orderline t4 (a, b, c, d) r4 u4 f4 s \<and> counts_table foldKey_orderline fst t4 a
    \<and> implements_table foldKey_customer_wdl unfoldKey_customer_wdl t5 (a, b, l, n) r5 u5 f5 s \<and> counts_table foldKey_customer_wdl fst t5 a"
proof -
  have l2: "list_all (\<lambda>e. pair_ok int_ok int_ok (fst e)) t2"
    and l3: "list_all (\<lambda>e. pair_ok int_ok (pair_ok int_ok int_ok) (fst e)) t3"
    and l4: "list_all (\<lambda>e. pair_ok int_ok (pair_ok int_ok (pair_ok int_ok int_ok)) (fst e)) t4"
    and l5: "list_all (\<lambda>e. pair_ok int_ok (pair_ok int_ok (pair_ok (vc_ok 16) (vc_ok 16))) (fst e)) t5"
    using assms(5,8,11,14) by (auto simp: list_all_iff pair_ok_def split_def)
  have m: "x \<le> y \<Longrightarrow> fst x \<le> fst y" for x y :: "int \<times> 'z::linorder" by (cases x; cases y) auto
  have "implements_table fold_Integer unfold_Integer t1 a r1 u1 f1 s" by (rule int_table.implements) (use assms in auto)
  moreover have "counts_table fold_Integer id t1 a" by (rule int_table.counts [where rest = "\<lambda>_. []"]) (use assms in auto)
  moreover have "implements_table (pair_enc fold_Integer fold_Integer) (pair_dec unfold_Integer unfold_Integer) t2 (a, b) r2 u2 f2 s"
    by (rule two_table.implements) (use assms l2 in \<open>auto simp: pair_ok_def\<close>)
  moreover have "counts_table (pair_enc fold_Integer fold_Integer) fst t2 a"
    by (rule two_table.counts [where rest = "fold_Integer \<circ> snd"]) (use assms l2 m in \<open>auto simp: pair_ok_def pair_enc_def\<close>)
  moreover have "implements_table (pair_enc fold_Integer (pair_enc fold_Integer fold_Integer))
      (pair_dec unfold_Integer (pair_dec unfold_Integer unfold_Integer)) t3 (a, b, c) r3 u3 f3 s"
    by (rule three_table.implements) (use assms l3 in \<open>auto simp: pair_ok_def\<close>)
  moreover have "counts_table (pair_enc fold_Integer (pair_enc fold_Integer fold_Integer)) fst t3 a"
    by (rule three_table.counts [where rest = "pair_enc fold_Integer fold_Integer \<circ> snd"])
      (use assms l3 m in \<open>auto simp: pair_ok_def pair_enc_def\<close>)
  moreover have "implements_table (pair_enc fold_Integer (pair_enc fold_Integer (pair_enc fold_Integer fold_Integer)))
      (pair_dec unfold_Integer (pair_dec unfold_Integer (pair_dec unfold_Integer unfold_Integer))) t4 (a, b, c, d) r4 u4 f4 s"
    by (rule four_table.implements) (use assms l4 in \<open>auto simp: pair_ok_def\<close>)
  moreover have "counts_table (pair_enc fold_Integer (pair_enc fold_Integer (pair_enc fold_Integer fold_Integer))) fst t4 a"
    by (rule four_table.counts [where rest = "pair_enc fold_Integer (pair_enc fold_Integer fold_Integer) \<circ> snd"])
      (use assms l4 m in \<open>auto simp: pair_ok_def pair_enc_def\<close>)
  moreover have "implements_table (pair_enc fold_Integer (pair_enc fold_Integer (pair_enc fold_Varchar fold_Varchar)))
      (pair_dec unfold_Integer (pair_dec unfold_Integer (pair_dec (unfold_Varchar 16) (unfold_Varchar 16)))) t5 (a, b, l, n) r5 u5 f5 s"
    by (rule wdl_table.implements) (use assms l5 in \<open>auto simp: pair_ok_def\<close>)
  moreover have "counts_table (pair_enc fold_Integer (pair_enc fold_Integer (pair_enc fold_Varchar fold_Varchar))) fst t5 a"
    by (rule wdl_table.counts [where rest = "pair_enc fold_Integer (pair_enc fold_Varchar fold_Varchar) \<circ> snd"])
      (use assms l5 m in \<open>auto simp: pair_ok_def pair_enc_def\<close>)
  ultimately show ?thesis unfolding foldKey_codes unfoldKey_codes by blast
qed

theorem adapter_implements_tables_witness:
  "ad_scanDesc False foldKey_order_wdc unfoldKey_order_wdc (1, 1, 2, 3) (\<lambda>k r s. Some (True, (k, r) # s))
     (encode foldKey_order_wdc [((1, 1, 1, 5), 3), ((1, 1, 2, 1), 4 :: nat), ((1, 1, 2, 4), 5)]) []
     = Some [((1, 1, 1, 5), 3), ((1, 1, 2, 1), 4)]"
proof -
  let ?t = "[((1 :: int, 1 :: int, 1 :: int, 5 :: int), 3 :: nat), ((1, 1, 2, 1), 4), ((1, 1, 2, 4), 5)]"
  have "implements_table foldKey_order_wdc unfoldKey_order_wdc ?t (1, 1, 2, 3) 7 Some (\<lambda>k r s. Some (True, (k, r) # s)) []"
    using adapter_implements_tables [where ?t1.0 = "[]" and ?t2.0 = "[]" and ?t3.0 = "[]" and ?t5.0 = "[]" and ?t4.0 = ?t
        and a = 1 and b = 1 and c = 2 and d = 3 and l = "[]" and n = "[]" and ?r4.0 = 7 and ?u4.0 = Some
        and ?f4.0 = "\<lambda>k r s. Some (True, (k, r) # s)" and s = "[]"
        and ?r1.0 = "()" and ?u1.0 = Some and ?f1.0 = "\<lambda>_ _. Some \<circ> Pair True" and ?r2.0 = "()" and ?u2.0 = Some and ?f2.0 = "\<lambda>_ _. Some \<circ> Pair True"
        and ?r3.0 = "()" and ?u3.0 = Some and ?f3.0 = "\<lambda>_ _. Some \<circ> Pair True" and ?r5.0 = "()" and ?u5.0 = Some and ?f5.0 = "\<lambda>_ _. Some \<circ> Pair True"]
    by (simp add: int_ok_def vc_ok_def)
  then show ?thesis unfolding implements_table_def by (simp add: scanDesc_def)
qed

end
