(* ===== verification/Workload.thy ===== *)
theory Workload
  imports Adapter Generator "HOL-Library.Signed_Division"
begin

text \<open>
  The TPC-C workload (\<open>tpcc/TPCCWorkload.hpp\<close>): the strings and numbers it draws and its five transactions.

  The tables are the fields of a record (\<open>db\<close>), with the counter of history entries of the thread; a
  transaction returns the tables after it, and the ones that draw their parameters also the generator of the
  thread. The transactions run one after the other: what the code does about concurrent ones
  (\<open>manually_handle_isolation_anomalies\<close>) is modelled as the code it executes. A \<open>vector\<close> is a list.

  \<open>Numeric\<close> is a \<open>double\<close>: its operations are the fields of a record (\<open>numeric_ops\<close>), an argument of the
  transactions through the workload's record. The result is \<open>None\<close> where the code has none: a value used that
  was never set as its record is missing (the assertions of the adapter are not compiled), an \<open>Integer\<close> or a
  string that overflows, an index outside a \<open>vector\<close>, and the \<open>exit(1)\<close> of a district that does not exist.
  A transaction that only reads returns what it has read.
\<close>

section \<open>State\<close>

text \<open>The last two fields are the conversion to \<open>Integer\<close>, which only values in its range have, and the text of
  \<open>%7.2f\<close>. A decimal literal is its digits and the number of those behind the point.\<close>

record 'f numeric_ops =
  n_of_int :: "int \<Rightarrow> 'f"
  n_lit :: "int \<Rightarrow> nat \<Rightarrow> 'f"
  n_add :: "'f \<Rightarrow> 'f \<Rightarrow> 'f"
  n_sub :: "'f \<Rightarrow> 'f \<Rightarrow> 'f"
  n_mul :: "'f \<Rightarrow> 'f \<Rightarrow> 'f"
  n_div :: "'f \<Rightarrow> 'f \<Rightarrow> 'f"
  n_less :: "'f \<Rightarrow> 'f \<Rightarrow> bool"
  n_le :: "'f \<Rightarrow> 'f \<Rightarrow> bool"
  n_to_Integer :: "'f \<Rightarrow> int option"
  n_print :: "'f \<Rightarrow> u8 list"

record 'f db =
  warehouse :: "(warehouse_key, 'f warehouse_t) table"
  district :: "(district_key, 'f district_t) table"
  customer :: "(customer_key, 'f customer_t) table"
  customerwdl :: "(customer_wdl_key, customer_wdl_t) table"
  history :: "(history_key, 'f history_t) table"
  neworder :: "(neworder_key, unit) table"
  order :: "(order_key, 'f order_t) table"
  order_wdc :: "(order_wdc_key, unit) table"
  orderline :: "(orderline_key, 'f orderline_t) table"
  item :: "(item_key, 'f item_t) table"
  stock :: "(stock_key, 'f stock_t) table"
  tpcchistorycounter :: int

record 'f workload =
  num :: "'f numeric_ops"
  order_wdc_index :: bool
  warehouseCount :: int
  tpcc_remove :: bool
  manually_handle_isolation_anomalies :: bool
  cross_warehouses :: bool
  workerThreadId :: int

section \<open>Random strings and numbers\<close>

primrec astring_loop :: "nat \<Rightarrow> nat \<Rightarrow> varchar \<Rightarrow> twister \<Rightarrow> (varchar \<times> twister) option" where
  "astring_loop maxLength 0 result g = Some (result, g)"
| "astring_loop maxLength (Suc n) result g = do {
     (i, g) \<leftarrow> rnd 62 g;
     result \<leftarrow> vc_append maxLength result
       (word_of_int (if i < 10 then 48 + i else if i < 36 then 64 - 10 + i else 96 - 36 + i));
     astring_loop maxLength n result g }"

definition randomastring :: "nat \<Rightarrow> int \<Rightarrow> int \<Rightarrow> twister \<Rightarrow> (varchar \<times> twister) option" where
  "randomastring maxLength minLenStr maxLenStr g = do {
     d \<leftarrow> icheck (maxLenStr - minLenStr); d \<leftarrow> icheck (d + 1);
     (r, g) \<leftarrow> rnd d g;
     len \<leftarrow> icheck (r + minLenStr);
     astring_loop maxLength (nat len) [] g }"

primrec nstring_loop :: "nat \<Rightarrow> varchar \<Rightarrow> twister \<Rightarrow> (varchar \<times> twister) option" where
  "nstring_loop 0 result g = Some (result, g)"
| "nstring_loop (Suc n) result g = do {
     (i, g) \<leftarrow> rnd 10 g;
     result \<leftarrow> vc_append 16 result (word_of_int (48 + i));
     nstring_loop n result g }"

definition randomnstring :: "int \<Rightarrow> int \<Rightarrow> twister \<Rightarrow> (varchar \<times> twister) option" where
  "randomnstring minLenStr maxLenStr g = do {
     d \<leftarrow> icheck (maxLenStr - minLenStr); d \<leftarrow> icheck (d + 1);
     (r, g) \<leftarrow> rnd d g;
     len \<leftarrow> icheck (r + minLenStr);
     nstring_loop (nat len) [] g }"

definition name_data :: "varchar list" where
  "name_data = map asc [''Bar'', ''OUGHT'', ''ABLE'', ''PRI'', ''PRES'', ''ESE'', ''ANTI'', ''CALLY'', ''ATION'', ''EING'']"

definition namePart :: "int \<Rightarrow> varchar option" where
  "namePart i = (if 0 \<le> i then rd name_data (nat i) else None)"

definition genName :: "int \<Rightarrow> varchar option" where
  "genName i = do {
     a \<leftarrow> namePart ((i sdiv 100) smod 10);
     b \<leftarrow> namePart ((i sdiv 10) smod 10);
     c \<leftarrow> namePart (i smod 10);
     ab \<leftarrow> vc_concat 16 a b;
     vc_concat 16 ab c }"

definition RAND_MAX :: int where "RAND_MAX = 2147483647"

definition randomNumeric :: "'f numeric_ops \<Rightarrow> 'f \<Rightarrow> 'f \<Rightarrow> twister \<Rightarrow> 'f \<times> twister" where
  "randomNumeric N lo hi g =
     (let range = n_sub N hi lo;
          divisor = n_div N (n_of_int N RAND_MAX) range;
          (u, g) = rnd64 g
      in (n_add N lo (n_div N (n_of_int N (uint u)) divisor), g))"

definition randomzip :: "twister \<Rightarrow> (varchar \<times> twister) option" where
  "randomzip g = do {
     (i, g) \<leftarrow> rnd 10000 g;
     result \<leftarrow> vc_append 9 [] (word_of_int (48 + i sdiv 1000));
     result \<leftarrow> vc_append 9 result (word_of_int (48 + (i sdiv 100) smod 10));
     result \<leftarrow> vc_append 9 result (word_of_int (48 + (i sdiv 10) smod 10));
     result \<leftarrow> vc_append 9 result (word_of_int (48 + (i smod 10)));
     ones \<leftarrow> vc_of 9 (asc ''11111'');
     result \<leftarrow> vc_concat 9 result ones;
     Some (result, g) }"

definition currentTimestamp :: int where "currentTimestamp = 1"

section \<open>Running steps in a row\<close>

primrec fold_opt :: "('a \<Rightarrow> 's \<Rightarrow> 's option) \<Rightarrow> 'a list \<Rightarrow> 's \<Rightarrow> 's option" where
  "fold_opt f [] s = Some s"
| "fold_opt f (x # xs) s = do { s \<leftarrow> f x s; fold_opt f xs s }"

section \<open>New order\<close>

definition take_stock :: "'f numeric_ops \<Rightarrow> int \<Rightarrow> int \<Rightarrow> int \<Rightarrow> 'f stock_t \<Rightarrow> 'f stock_t option" where
  "take_stock N w_id supware qty rec = do {
     t \<leftarrow> icheck (qty + 10);
     let q = (if n_le N (n_of_int N t) (s_quantity rec) then n_sub N (s_quantity rec) (n_of_int N qty)
              else n_sub N (n_add N (s_quantity rec) (n_of_int N 91)) (n_of_int N qty));
     Some (rec\<lparr>s_quantity := q,
       s_remote_cnt := n_add N (s_remote_cnt rec) (n_of_int N (if supware \<noteq> w_id then 1 else 0)),
       s_order_cnt := n_add N (s_order_cnt rec) (n_of_int N 1),
       s_ytd := n_add N (s_ytd rec) (n_of_int N qty)\<rparr>) }"

definition s_dist_of :: "int \<Rightarrow> 'f stock_t \<Rightarrow> varchar option" where
  "s_dist_of d_id rec =
     (if d_id = 1 then Some (s_dist_01 rec) else if d_id = 2 then Some (s_dist_02 rec)
      else if d_id = 3 then Some (s_dist_03 rec) else if d_id = 4 then Some (s_dist_04 rec)
      else if d_id = 5 then Some (s_dist_05 rec) else if d_id = 6 then Some (s_dist_06 rec)
      else if d_id = 7 then Some (s_dist_07 rec) else if d_id = 8 then Some (s_dist_08 rec)
      else if d_id = 9 then Some (s_dist_09 rec) else if d_id = 10 then Some (s_dist_10 rec)
      else None)"

text \<open>The bodies of the two loops over the lines of an order.\<close>

definition order_stock :: "'f workload \<Rightarrow> int \<Rightarrow> int list \<Rightarrow> int list \<Rightarrow> int list \<Rightarrow> nat \<Rightarrow> 'f db \<Rightarrow> 'f db option" where
  "order_stock W w_id supwares itemids qtys i db = do {
     qty \<leftarrow> rd qtys i;
     supware \<leftarrow> rd supwares i;
     itemid \<leftarrow> rd itemids i;
     t \<leftarrow> t_update (supware, itemid) (take_stock (num W) w_id supware qty) (stock db);
     Some (db\<lparr>stock := t\<rparr>) }"

definition order_line ::
    "'f workload \<Rightarrow> int \<Rightarrow> int \<Rightarrow> int \<Rightarrow> 'f \<Rightarrow> 'f \<Rightarrow> 'f \<Rightarrow> int list \<Rightarrow> int list \<Rightarrow> int list \<Rightarrow> int list \<Rightarrow> nat \<Rightarrow> 'f db \<Rightarrow> 'f db option" where
  "order_line W w_id d_id o_id wtax dtax discount lineNumbers supwares itemids qtys i db = do {
     let N = num W;
     lineNumber \<leftarrow> rd lineNumbers i;
     supware \<leftarrow> rd supwares i;
     itemid \<leftarrow> rd itemids i;
     qty \<leftarrow> map_option (n_of_int N) (rd qtys i);
     price \<leftarrow> map_option i_price (map_of (item db) itemid);
     s_dist \<leftarrow> (case map_of (stock db) (w_id, itemid) of None \<Rightarrow> Some [] | Some rec \<Rightarrow> s_dist_of d_id rec);
     let amount = n_mul N (n_mul N (n_mul N qty price) (n_add N (n_add N (n_lit N 10 1) wtax) dtax))
                    (n_sub N (n_lit N 10 1) discount);
     Some (db\<lparr>orderline := t_insert (w_id, d_id, o_id, lineNumber)
       \<lparr>ol_i_id = itemid, ol_supply_w_id = supware, ol_delivery_d = 0, ol_quantity = qty, ol_amount = amount, ol_dist_info = s_dist\<rparr>
       (orderline db)\<rparr>) }"

definition newOrder ::
    "'f workload \<Rightarrow> int \<Rightarrow> int \<Rightarrow> int \<Rightarrow> int list \<Rightarrow> int list \<Rightarrow> int list \<Rightarrow> int list \<Rightarrow> int \<Rightarrow> 'f db \<Rightarrow> 'f db option" where
  "newOrder W w_id d_id c_id lineNumbers supwares itemids qtys timestamp db = do {
     let N = num W;
     wtax \<leftarrow> map_option w_tax (map_of (warehouse db) w_id);
     discount \<leftarrow> map_option c_discount (map_of (customer db) (w_id, d_id, c_id));
     rec \<leftarrow> map_of (district db) (w_id, d_id);
     let o_id = d_next_o_id rec;
     next \<leftarrow> icheck (o_id + 1);
     districts \<leftarrow> t_update (w_id, d_id) (\<lambda>rec. Some (rec\<lparr>d_next_o_id := next\<rparr>)) (district db);
     let db = db\<lparr>district := districts\<rparr>;
     let all_local = n_of_int N (if \<exists>sw\<in>set supwares. sw \<noteq> w_id then 0 else 1);
     let cnt = n_of_int N (int (length lineNumbers));
     let db = db\<lparr>order := t_insert (w_id, d_id, o_id)
       \<lparr>o_c_id = c_id, o_entry_d = timestamp, o_carrier_id = 0, o_ol_cnt = cnt, o_all_local = all_local\<rparr> (order db)\<rparr>;
     let db = (if order_wdc_index W then db\<lparr>order_wdc := t_insert (w_id, d_id, c_id, o_id) () (order_wdc db)\<rparr> else db);
     let db = db\<lparr>neworder := t_insert (w_id, d_id, o_id) () (neworder db)\<rparr>;
     db \<leftarrow> fold_opt (order_stock W w_id supwares itemids qtys) [0..<length lineNumbers] db;
     fold_opt (order_line W w_id d_id o_id wtax (d_tax rec) discount lineNumbers supwares itemids qtys) [0..<length lineNumbers] db }"

text \<open>One line of a random order: the warehouse that supplies it, the item and the quantity.\<close>

primrec random_lines :: "'f workload \<Rightarrow> int \<Rightarrow> nat \<Rightarrow> twister \<Rightarrow> ((int \<times> int \<times> int) list \<times> twister) option" where
  "random_lines W w_id 0 g = Some ([], g)"
| "random_lines W w_id (Suc n) g = do {
     (supware, g) \<leftarrow>
       (if cross_warehouses W
        then do { (r, g) \<leftarrow> urand 1 100 g; if r = 1 then urandexcept 1 (warehouseCount W) w_id g else Some (w_id, g) }
        else Some (w_id, g));
     (itemid, g) \<leftarrow> getItemID g;
     (qty, g) \<leftarrow> urand 1 10 g;
     (ls, g) \<leftarrow> random_lines W w_id n g;
     Some ((supware, itemid, qty) # ls, g) }"

definition newOrderRnd :: "'f workload \<Rightarrow> int \<Rightarrow> 'f db \<times> twister \<Rightarrow> ('f db \<times> twister) option" where
  "newOrderRnd W w_id = (\<lambda>(db, g). do {
     (d_id, g) \<leftarrow> urand 1 10 g;
     (c_id, g) \<leftarrow> getCustomerID g;
     (ol_cnt, g) \<leftarrow> urand 5 15 g;
     (ls, g) \<leftarrow> random_lines W w_id (nat ol_cnt) g;
     db \<leftarrow> newOrder W w_id d_id c_id [1..ol_cnt] (map fst ls) (map (fst \<circ> snd) ls) (map (snd \<circ> snd) ls) currentTimestamp db;
     Some (db, g) })"

section \<open>Delivery\<close>

text \<open>The oldest new order of a district, \<open>minInteger\<close> if there is none.\<close>

definition oldest_neworder :: "int \<Rightarrow> int \<Rightarrow> 'f db \<Rightarrow> int option" where
  "oldest_neworder w_id d_id db =
     scan (w_id, d_id, minInteger)
       (\<lambda>(no_w_id, no_d_id, no_o_id) _ o_id. Some (False, if no_w_id = w_id \<and> no_d_id = d_id then no_o_id else o_id))
       (neworder db) minInteger"

text \<open>The count of lines and the customer of the order; the inner \<open>None\<close> is \<open>continue\<close>. Without the handling of
  anomalies an order that is missing leaves the customer unset.\<close>

definition order_of :: "'f workload \<Rightarrow> int \<Rightarrow> int \<Rightarrow> int \<Rightarrow> 'f db \<Rightarrow> ((int \<times> int option) option) option" where
  "order_of W w_id d_id o_id db =
     (let N = num W
      in if manually_handle_isolation_anomalies W
         then do {
           (ol_cnt, c_id) \<leftarrow> scan (w_id, d_id, o_id)
             (\<lambda>_ rec _. do { n \<leftarrow> n_to_Integer N (o_ol_cnt rec); Some (False, (n, Some (o_c_id rec))) }) (order db) (minInteger, None);
           (if ol_cnt = minInteger then Some None
            else do {
              (is_safe, ol_cnt, c_id) \<leftarrow> scan (w_id, d_id, o_id)
                (\<lambda>(o_w_id, o_d_id, oid) rec (_, ol_cnt, c_id).
                   if o_w_id = w_id \<and> o_d_id = d_id \<and> oid = o_id
                   then do { n \<leftarrow> n_to_Integer N (o_ol_cnt rec); Some (False, (True, n, Some (o_c_id rec))) }
                   else Some (False, (False, ol_cnt, c_id)))
                (order db) (False, ol_cnt, c_id);
              Some (if is_safe then Some (ol_cnt, c_id) else None) }) }
         else (case map_of (order db) (w_id, d_id, o_id) of
             None \<Rightarrow> Some (Some (minInteger, None))
           | Some rec \<Rightarrow> do { n \<leftarrow> n_to_Integer N (o_ol_cnt rec); Some (Some (n, Some (o_c_id rec))) }))"

text \<open>Whether the last line of the order is there.\<close>

definition last_line_there :: "int \<Rightarrow> int \<Rightarrow> int \<Rightarrow> int \<Rightarrow> 'f db \<Rightarrow> bool option" where
  "last_line_there w_id d_id o_id ol_cnt db =
     scan (w_id, d_id, o_id, ol_cnt) (\<lambda>key _ _. Some (False, key = (w_id, d_id, o_id, ol_cnt))) (orderline db) False"

definition deliver_line :: "'f numeric_ops \<Rightarrow> int \<Rightarrow> int \<Rightarrow> int \<Rightarrow> int \<Rightarrow> int \<Rightarrow> 'f db \<times> 'f \<Rightarrow> ('f db \<times> 'f) option" where
  "deliver_line N w_id d_id o_id datetime ol_number = (\<lambda>(db, ol_total). do {
     let ol_total = (case map_of (orderline db) (w_id, d_id, o_id, ol_number) of
                       None \<Rightarrow> ol_total | Some rec \<Rightarrow> n_add N ol_total (ol_amount rec));
     t \<leftarrow> t_update (w_id, d_id, o_id, ol_number) (\<lambda>rec. Some (rec\<lparr>ol_delivery_d := datetime\<rparr>)) (orderline db);
     Some (db\<lparr>orderline := t\<rparr>, ol_total) })"

text \<open>The delivery of an order that was a new order, and the body of the loop over the districts.\<close>

definition deliver_order :: "'f workload \<Rightarrow> int \<Rightarrow> int \<Rightarrow> int \<Rightarrow> int \<Rightarrow> int \<Rightarrow> 'f db \<Rightarrow> 'f db option" where
  "deliver_order W w_id carrier_id datetime d_id o_id db = do {
     let N = num W;
     ord \<leftarrow> order_of W w_id d_id o_id db;
     (case ord of None \<Rightarrow> Some db
      | Some (ol_cnt, cust) \<Rightarrow> do {
          orders \<leftarrow> t_update (w_id, d_id, o_id) (\<lambda>rec. Some (rec\<lparr>o_carrier_id := carrier_id\<rparr>)) (order db);
          let db = db\<lparr>order := orders\<rparr>;
          complete \<leftarrow> (if manually_handle_isolation_anomalies W then last_line_there w_id d_id o_id ol_cnt db else Some True);
          (if \<not> complete then Some db
           else do {
             (db, ol_total) \<leftarrow> fold_opt (deliver_line N w_id d_id o_id datetime) [1..ol_cnt] (db, n_of_int N 0);
             c_id \<leftarrow> cust;
             customers \<leftarrow> t_update (w_id, d_id, c_id)
               (\<lambda>rec. Some (rec\<lparr>c_balance := n_add N (c_balance rec) ol_total,
                                c_delivery_cnt := n_add N (c_delivery_cnt rec) (n_of_int N 1)\<rparr>)) (customer db);
             Some (db\<lparr>customer := customers\<rparr>) }) }) }"

definition deliver_district :: "'f workload \<Rightarrow> int \<Rightarrow> int \<Rightarrow> int \<Rightarrow> int \<Rightarrow> 'f db \<Rightarrow> 'f db option" where
  "deliver_district W w_id carrier_id datetime d_id db = do {
     o_id \<leftarrow> oldest_neworder w_id d_id db;
     (if o_id = minInteger then Some db
      else deliver_order W w_id carrier_id datetime d_id o_id
             (if tpcc_remove W then db\<lparr>neworder := fst (t_remove (w_id, d_id, o_id) (neworder db))\<rparr> else db)) }"

definition delivery :: "'f workload \<Rightarrow> int \<Rightarrow> int \<Rightarrow> int \<Rightarrow> 'f db \<Rightarrow> 'f db option" where
  "delivery W w_id carrier_id datetime db = fold_opt (deliver_district W w_id carrier_id datetime) [1..10] db"

definition deliveryRnd :: "'f workload \<Rightarrow> int \<Rightarrow> 'f db \<times> twister \<Rightarrow> ('f db \<times> twister) option" where
  "deliveryRnd W w_id = (\<lambda>(db, g). do {
     (carrier_id, g) \<leftarrow> urand 1 10 g;
     db \<leftarrow> delivery W w_id carrier_id currentTimestamp db;
     Some (db, g) })"

section \<open>Stock level\<close>

definition stockLevel :: "'f workload \<Rightarrow> int \<Rightarrow> int \<Rightarrow> int \<Rightarrow> 'f db \<Rightarrow> nat option" where
  "stockLevel W w_id d_id threshold db = do {
     let N = num W;
     o_id \<leftarrow> map_option d_next_o_id (map_of (district db) (w_id, d_id));
     min_ol_o_id \<leftarrow> icheck (o_id - 20);
     items \<leftarrow> scan (w_id, d_id, min_ol_o_id, minInteger)
       (\<lambda>(ol_w_id, ol_d_id, ol_o_id, _) rec items.
          Some (if ol_w_id = w_id \<and> ol_d_id = d_id \<and> ol_o_id < o_id \<and> ol_o_id \<ge> min_ol_o_id
                then (True, items @ [ol_i_id rec]) else (False, items)))
       (orderline db) [];
     fold_opt (\<lambda>i_id count. do {
         quantity \<leftarrow> map_option s_quantity (map_of (stock db) (w_id, i_id));
         Some (count + (if n_less N quantity (n_of_int N threshold) then 1 else 0)) })
       (remdups_adj (sort items)) 0 }"

definition stockLevelRnd :: "'f workload \<Rightarrow> int \<Rightarrow> 'f db \<times> twister \<Rightarrow> (nat \<times> twister) option" where
  "stockLevelRnd W w_id = (\<lambda>(db, g). do {
     (d_id, g) \<leftarrow> urand 1 10 g;
     (threshold, g) \<leftarrow> urand 10 20 g;
     n \<leftarrow> stockLevel W w_id d_id threshold db;
     Some (n, g) })"

section \<open>Order status\<close>

text \<open>The last line of an order that a scan of its lines leaves in the variables.\<close>

definition lines_of :: "int \<Rightarrow> int \<Rightarrow> int \<Rightarrow> 'f db \<Rightarrow> ('f orderline_t option) option" where
  "lines_of w_id d_id o_id db =
     scan (w_id, d_id, o_id, minInteger)
       (\<lambda>(ol_w_id, ol_d_id, ol_o_id, _) rec l.
          Some (if ol_w_id = w_id \<and> ol_d_id = d_id \<and> ol_o_id = o_id then (True, Some rec) else (False, l)))
       (orderline db) None"

text \<open>The latest order and its last line; the order is -1 when none was found. The assertions on the key are not
  compiled.\<close>

definition orderStatusId :: "'f workload \<Rightarrow> int \<Rightarrow> int \<Rightarrow> int \<Rightarrow> 'f db \<Rightarrow> (int \<times> 'f orderline_t option) option" where
  "orderStatusId W w_id d_id c_id db = do {
     o_id \<leftarrow>
       (if order_wdc_index W
        then scanDesc (w_id, d_id, c_id, maxInteger) (\<lambda>(_, _, _, oid) _ _. Some (False, oid)) (order_wdc db) (-1)
        else scanDesc (w_id, d_id, maxInteger)
               (\<lambda>(o_w_id, o_d_id, oid) rec s.
                  Some (if o_w_id = w_id \<and> o_d_id = d_id \<and> o_c_id rec = c_id then (False, oid) else (True, s)))
               (order db) (-1));
     (if o_id = -1 then Some (-1, None)
      else do { l \<leftarrow> lines_of w_id d_id o_id db; Some (o_id, l) }) }"

text \<open>The customer in the middle of those of the name, \<open>None\<close> when there is none.\<close>

definition middle_customer :: "int \<Rightarrow> int \<Rightarrow> varchar \<Rightarrow> 'f db \<Rightarrow> (int option) option" where
  "middle_customer w_id d_id name db = do {
     ids \<leftarrow> scan (w_id, d_id, name, [])
       (\<lambda>(c_w_id, c_d_id, last, _) rec ids.
          Some (if c_w_id = w_id \<and> c_d_id = d_id \<and> vc_eq last name then (True, ids @ [cw_c_id rec]) else (False, ids)))
       (customerwdl db) [];
     let c_count = length ids;
     (if c_count = 0 then Some None
      else do {
        let index = (if c_count mod 2 = 0 then c_count div 2 - 1 else c_count div 2);
        c_id \<leftarrow> rd ids index;
        Some (Some c_id) }) }"

definition orderStatusName :: "'f workload \<Rightarrow> int \<Rightarrow> int \<Rightarrow> varchar \<Rightarrow> 'f db \<Rightarrow> (int \<times> 'f orderline_t option) option" where
  "orderStatusName W w_id d_id name db = do {
     cust \<leftarrow> middle_customer w_id d_id name db;
     (case cust of None \<Rightarrow> Some (-1, None)
      | Some c_id \<Rightarrow> do {
          o_id \<leftarrow>
            (if order_wdc_index W
             then scanDesc (w_id, d_id, c_id, maxInteger)
                    (\<lambda>(o_w_id, o_d_id, o_cid, oid) _ s.
                       Some (False, if o_w_id = w_id \<and> o_d_id = d_id \<and> o_cid = c_id then oid else s)) (order_wdc db) (-1)
             else scanDesc (w_id, d_id, maxInteger)
                    (\<lambda>(o_w_id, o_d_id, oid) rec s.
                       Some (False, if o_w_id = w_id \<and> o_d_id = d_id \<and> o_c_id rec = c_id then oid else s)) (order db) (-1));
          (if o_id = -1 then Some (-1, None)
           else do { l \<leftarrow> lines_of w_id d_id o_id db; Some (o_id, l) }) }) }"

definition orderStatusRnd :: "'f workload \<Rightarrow> int \<Rightarrow> 'f db \<times> twister \<Rightarrow> ((int \<times> 'f orderline_t option) \<times> twister) option" where
  "orderStatusRnd W w_id = (\<lambda>(db, g). do {
     (d_id, g) \<leftarrow> urand 1 10 g;
     (p, g) \<leftarrow> urand 1 100 g;
     (if p \<le> 40
      then do { (c_id, g) \<leftarrow> getCustomerID g; r \<leftarrow> orderStatusId W w_id d_id c_id db; Some (r, g) }
      else do {
        (i, g) \<leftarrow> getNonUniformRandomLastNameForRun g;
        name \<leftarrow> genName i;
        r \<leftarrow> orderStatusName W w_id d_id name db; Some (r, g) }) })"

section \<open>Payment\<close>

text \<open>\<open>%nd\<close>: at least \<open>n\<close> characters, filled up with blanks in front.\<close>

definition fmt_wd :: "nat \<Rightarrow> int \<Rightarrow> u8 list" where
  "fmt_wd width v = (let s = fmt_d v in replicate (width - length s) 0x20 @ s)"

text \<open>\<open>toString().c_str()\<close> printed by \<open>%s\<close>.\<close>

definition c_str :: "varchar \<Rightarrow> u8 list" where
  "c_str v = takeWhile (\<lambda>c. c \<noteq> 0) v"

text \<open>The data of a customer of bad credit: what \<open>snprintf\<close> writes into 500 bytes, a terminator included, with
  the length it returns.\<close>

definition bc_data :: "'f numeric_ops \<Rightarrow> int \<Rightarrow> int \<Rightarrow> int \<Rightarrow> int \<Rightarrow> int \<Rightarrow> 'f \<Rightarrow> int \<Rightarrow> varchar \<Rightarrow> varchar \<Rightarrow> varchar \<Rightarrow> varchar" where
  "bc_data N c_id c_d_id c_w_id d_id w_id amount date wname dname data =
     (let s = asc ''| '' @ fmt_wd 4 c_id @ asc '' '' @ fmt_wd 2 c_d_id @ asc '' '' @ fmt_wd 4 c_w_id @ asc '' '' @ fmt_wd 2 d_id
            @ asc '' '' @ fmt_wd 4 w_id @ asc '' $'' @ n_print N amount @ asc '' '' @ dec_nat (unat (word_of_int date :: u64))
            @ asc '' '' @ c_str wname @ c_str dname @ asc '' '' @ c_str data;
          numChars = length s;
          len = (if numChars > 500 then 500 else numChars)
      in take len (take 499 s @ [0]))"

text \<open>The payment of a customer that is known, after the warehouse and the district have got it.\<close>

definition pay_customer ::
    "'f workload \<Rightarrow> int \<Rightarrow> int \<Rightarrow> int \<Rightarrow> int \<Rightarrow> int \<Rightarrow> int \<Rightarrow> 'f \<Rightarrow> int \<Rightarrow> varchar \<Rightarrow> varchar \<Rightarrow> 'f db \<Rightarrow> 'f db option" where
  "pay_customer W w_id d_id c_w_id c_d_id c_id date amount datetime wname dname db = do {
     let N = num W;
     rec \<leftarrow> map_of (customer db) (c_w_id, c_d_id, c_id);
     let new_balance = n_sub N (c_balance rec) amount;
     let new_ytd_payment = n_add N (c_ytd_payment rec) amount;
     let new_payment_cnt = n_add N (c_payment_cnt rec) (n_of_int N 1);
     customers \<leftarrow>
       (if vc_eq (c_credit rec) (asc ''BC'')
        then t_update (c_w_id, c_d_id, c_id)
          (\<lambda>r. Some (r\<lparr>c_data := bc_data N c_id c_d_id c_w_id d_id w_id amount date wname dname (c_data rec),
             c_balance := new_balance, c_ytd_payment := new_ytd_payment, c_payment_cnt := new_payment_cnt\<rparr>)) (customer db)
        else t_update (c_w_id, c_d_id, c_id)
          (\<lambda>r. Some (r\<lparr>c_balance := new_balance, c_ytd_payment := new_ytd_payment, c_payment_cnt := new_payment_cnt\<rparr>)) (customer db));
     wn \<leftarrow> vc_of 24 wname;
     wn \<leftarrow> vc_concat 24 wn (asc ''    '');
     new_data \<leftarrow> vc_concat 24 wn dname;
     let h_id = tpcchistorycounter db;
     cnt \<leftarrow> icheck (h_id + 1);
     Some (db\<lparr>customer := customers, tpcchistorycounter := cnt,
       history := t_insert (workerThreadId W, h_id)
         \<lparr>h_c_id = c_id, h_c_d_id = c_d_id, h_c_w_id = c_w_id, h_d_id = d_id, h_w_id = w_id, h_date = datetime,
          h_amount = amount, h_data = new_data\<rparr> (history db)\<rparr>) }"

text \<open>The warehouse and the district: their names, empty if they are missing, and their sums.\<close>

definition pay_warehouse :: "'f workload \<Rightarrow> int \<Rightarrow> 'f \<Rightarrow> 'f db \<Rightarrow> (varchar \<times> 'f db) option" where
  "pay_warehouse W w_id amount db = do {
     let wname = (case map_of (warehouse db) w_id of None \<Rightarrow> [] | Some rec \<Rightarrow> w_name rec);
     t \<leftarrow> t_update w_id (\<lambda>rec. Some (rec\<lparr>w_ytd := n_add (num W) (w_ytd rec) amount\<rparr>)) (warehouse db);
     Some (wname, db\<lparr>warehouse := t\<rparr>) }"

definition pay_district :: "'f workload \<Rightarrow> int \<Rightarrow> int \<Rightarrow> 'f \<Rightarrow> 'f db \<Rightarrow> (varchar \<times> 'f db) option" where
  "pay_district W w_id d_id amount db = do {
     let dname = (case map_of (district db) (w_id, d_id) of None \<Rightarrow> [] | Some rec \<Rightarrow> d_name rec);
     t \<leftarrow> t_update (w_id, d_id) (\<lambda>rec. Some (rec\<lparr>d_ytd := n_add (num W) (d_ytd rec) amount\<rparr>)) (district db);
     Some (dname, db\<lparr>district := t\<rparr>) }"

definition paymentById :: "'f workload \<Rightarrow> int \<Rightarrow> int \<Rightarrow> int \<Rightarrow> int \<Rightarrow> int \<Rightarrow> int \<Rightarrow> 'f \<Rightarrow> int \<Rightarrow> 'f db \<Rightarrow> 'f db option" where
  "paymentById W w_id d_id c_w_id c_d_id c_id date amount datetime db = do {
     (wname, db) \<leftarrow> pay_warehouse W w_id amount db;
     (dname, db) \<leftarrow> pay_district W w_id d_id amount db;
     pay_customer W w_id d_id c_w_id c_d_id c_id date amount datetime wname dname db }"

definition paymentByName :: "'f workload \<Rightarrow> int \<Rightarrow> int \<Rightarrow> int \<Rightarrow> int \<Rightarrow> varchar \<Rightarrow> int \<Rightarrow> 'f \<Rightarrow> int \<Rightarrow> 'f db \<Rightarrow> 'f db option" where
  "paymentByName W w_id d_id c_w_id c_d_id name date amount datetime db = do {
     (wname, db) \<leftarrow> pay_warehouse W w_id amount db;
     (dname, db) \<leftarrow> pay_district W w_id d_id amount db;
     cust \<leftarrow> middle_customer c_w_id c_d_id name db;
     (case cust of None \<Rightarrow> Some db
      | Some c_id \<Rightarrow> pay_customer W w_id d_id c_w_id c_d_id c_id date amount datetime wname dname db) }"

definition paymentRnd :: "'f workload \<Rightarrow> int \<Rightarrow> 'f db \<times> twister \<Rightarrow> ('f db \<times> twister) option" where
  "paymentRnd W w_id = (\<lambda>(db, g). do {
     let N = num W;
     (d_id, g) \<leftarrow> urand 1 10 g;
     (remote, g) \<leftarrow> (if cross_warehouses W then do { (p, g) \<leftarrow> urand 1 100 g; Some (p > 85, g) } else Some (False, g));
     ((c_w_id, c_d_id), g) \<leftarrow>
       (if remote
        then do { (w, g) \<leftarrow> urandexcept 1 (warehouseCount W) w_id g; (d, g) \<leftarrow> urand 1 10 g; Some ((w, d), g) }
        else Some ((w_id, d_id), g));
     let (amount, g) = randomNumeric N (n_lit N 100 2) (n_lit N 500000 2) g;
     (p, g) \<leftarrow> urand 1 100 g;
     (if p \<le> 60
      then do {
        (i, g) \<leftarrow> getNonUniformRandomLastNameForRun g;
        name \<leftarrow> genName i;
        db \<leftarrow> paymentByName W w_id d_id c_w_id c_d_id name currentTimestamp amount currentTimestamp db;
        Some (db, g) }
      else do {
        (c_id, g) \<leftarrow> getCustomerID g;
        db \<leftarrow> paymentById W w_id d_id c_w_id c_d_id c_id currentTimestamp amount currentTimestamp db;
        Some (db, g) }) })"

section \<open>A transaction of the mix\<close>

definition tx :: "'f workload \<Rightarrow> int \<Rightarrow> 'f db \<times> twister \<Rightarrow> (int \<times> 'f db \<times> twister) option" where
  "tx W w_id = (\<lambda>(db, g). do {
     (r, g) \<leftarrow> getRand 0 10000 g;
     let r = (word_of_int r :: u64);
     (if r < 4300 then do { s \<leftarrow> paymentRnd W w_id (db, g); Some (0, s) }
      else do {
        let r = r - 4300;
        (if r < 400 then do { (_, g) \<leftarrow> orderStatusRnd W w_id (db, g); Some (1, db, g) }
         else do {
           let r = r - 400;
           (if r < 400 then do { s \<leftarrow> deliveryRnd W w_id (db, g); Some (2, s) }
            else do {
              let r = r - 400;
              (if r < 400 then do { (_, g) \<leftarrow> stockLevelRnd W w_id (db, g); Some (3, db, g) }
               else do { s \<leftarrow> newOrderRnd W w_id (db, g); Some (4, s) }) }) }) }) })"

end
