(* ===== verification/Loader.thy ===== *)
theory Loader
  imports Workload "HOL-Library.Multiset"
begin

text \<open>
  Filling the tables (the \<open>load\<close> functions of \<open>tpcc/TPCCWorkload.hpp\<close>) and how \<open>main\<close> and \<open>parallel_for\<close> divide
  the warehouses among the threads (\<open>integrated_vmcache.cpp\<close>).

  The random values of a record are drawn in the order of its fields, as the language says for braced
  lists. \<open>loadOrders\<close> swaps the elements of a \<open>vector\<close> and begins with the one behind its last: what it
  finds there in the storage that the vector has reserved is an argument (\<open>behind\<close>).
\<close>

section \<open>Items and stock\<close>

primrec astrings :: "nat \<Rightarrow> nat \<Rightarrow> int \<Rightarrow> int \<Rightarrow> twister \<Rightarrow> (varchar list \<times> twister) option" where
  "astrings 0 maxLength lo hi g = Some ([], g)"
| "astrings (Suc n) maxLength lo hi g = do {
     (s, g) \<leftarrow> randomastring maxLength lo hi g;
     (ss, g) \<leftarrow> astrings n maxLength lo hi g;
     Some (s # ss, g) }"

text \<open>The data of an item and of its stock: one in ten is cut and says that it is original.\<close>

definition original_data :: "twister \<Rightarrow> (varchar \<times> twister) option" where
  "original_data g = do {
     (data, g) \<leftarrow> randomastring 50 25 50 g;
     (r, g) \<leftarrow> rnd 10 g;
     (if r = 0
      then do {
        (len, g) \<leftarrow> rnd (int (length data) - 8) g;
        word \<leftarrow> vc_of 10 (asc ''ORIGINAL'');
        data \<leftarrow> vc_concat 50 (take (nat len) data) word;
        Some (data, g) }
      else Some (data, g)) }"

definition load_stock_item :: "'f workload \<Rightarrow> int \<Rightarrow> int \<Rightarrow> 'f db \<times> twister \<Rightarrow> ('f db \<times> twister) option" where
  "load_stock_item W w_id i = (\<lambda>(db, g). do {
     let N = num W;
     (data, g) \<leftarrow> original_data g;
     let (quantity, g) = randomNumeric N (n_of_int N 10) (n_of_int N 100) g;
     (d, g) \<leftarrow> astrings 10 24 24 24 g;
     Some (db\<lparr>stock := t_insert (w_id, i + 1)
       \<lparr>s_quantity = quantity, s_dist_01 = d ! 0, s_dist_02 = d ! 1, s_dist_03 = d ! 2, s_dist_04 = d ! 3, s_dist_05 = d ! 4,
        s_dist_06 = d ! 5, s_dist_07 = d ! 6, s_dist_08 = d ! 7, s_dist_09 = d ! 8, s_dist_10 = d ! 9,
        s_ytd = n_of_int N 0, s_order_cnt = n_of_int N 0, s_remote_cnt = n_of_int N 0, s_data = data\<rparr> (stock db)\<rparr>, g) })"

definition loadStock :: "'f workload \<Rightarrow> int \<Rightarrow> 'f db \<times> twister \<Rightarrow> ('f db \<times> twister) option" where
  "loadStock W w_id = fold_opt (load_stock_item W w_id) [0..ITEMS_NO - 1]"

definition load_item :: "'f workload \<Rightarrow> int \<Rightarrow> 'f db \<times> twister \<Rightarrow> ('f db \<times> twister) option" where
  "load_item W i = (\<lambda>(db, g). do {
     let N = num W;
     (data, g) \<leftarrow> original_data g;
     (im_id, g) \<leftarrow> randomId 1 10000 g;
     (name, g) \<leftarrow> randomastring 24 14 24 g;
     let (price, g) = randomNumeric N (n_lit N 100 2) (n_lit N 10000 2) g;
     Some (db\<lparr>item := t_insert i \<lparr>i_im_id = im_id, i_name = name, i_price = price, i_data = data\<rparr> (item db)\<rparr>, g) })"

definition loadItem :: "'f workload \<Rightarrow> 'f db \<times> twister \<Rightarrow> ('f db \<times> twister) option" where
  "loadItem W = fold_opt (load_item W) [1..ITEMS_NO]"

section \<open>Warehouses and districts\<close>

text \<open>The name and the address that warehouses and districts begin with.\<close>

definition random_address :: "twister \<Rightarrow> ((varchar \<times> varchar \<times> varchar \<times> varchar \<times> varchar \<times> varchar) \<times> twister) option" where
  "random_address g = do {
     (name, g) \<leftarrow> randomastring 10 6 10 g;
     (street_1, g) \<leftarrow> randomastring 20 10 20 g;
     (street_2, g) \<leftarrow> randomastring 20 10 20 g;
     (city, g) \<leftarrow> randomastring 20 10 20 g;
     (state, g) \<leftarrow> randomastring 2 2 2 g;
     (zip, g) \<leftarrow> randomzip g;
     Some ((name, street_1, street_2, city, state, zip), g) }"

definition load_warehouse :: "'f workload \<Rightarrow> int \<Rightarrow> 'f db \<times> twister \<Rightarrow> ('f db \<times> twister) option" where
  "load_warehouse W i = (\<lambda>(db, g). do {
     let N = num W;
     ((name, street_1, street_2, city, state, zip), g) \<leftarrow> random_address g;
     let (tax, g) = randomNumeric N (n_lit N 1000 4) (n_lit N 2000 4) g;
     Some (db\<lparr>warehouse := t_insert (i + 1)
       \<lparr>w_name = name, w_street_1 = street_1, w_street_2 = street_2, w_city = city, w_state = state, w_zip = zip,
        w_tax = tax, w_ytd = n_of_int N 3000000\<rparr> (warehouse db)\<rparr>, g) })"

definition loadWarehouse :: "'f workload \<Rightarrow> 'f db \<times> twister \<Rightarrow> ('f db \<times> twister) option" where
  "loadWarehouse W = fold_opt (load_warehouse W) [0..warehouseCount W - 1]"

definition load_district :: "'f workload \<Rightarrow> int \<Rightarrow> int \<Rightarrow> 'f db \<times> twister \<Rightarrow> ('f db \<times> twister) option" where
  "load_district W w_id i = (\<lambda>(db, g). do {
     let N = num W;
     ((name, street_1, street_2, city, state, zip), g) \<leftarrow> random_address g;
     let (tax, g) = randomNumeric N (n_lit N 0 4) (n_lit N 2000 4) g;
     Some (db\<lparr>district := t_insert (w_id, i)
       \<lparr>d_name = name, d_street_1 = street_1, d_street_2 = street_2, d_city = city, d_state = state, d_zip = zip,
        d_tax = tax, d_ytd = n_of_int N 3000000, d_next_o_id = 3001\<rparr> (district db)\<rparr>, g) })"

definition loadDistrinct :: "'f workload \<Rightarrow> int \<Rightarrow> 'f db \<times> twister \<Rightarrow> ('f db \<times> twister) option" where
  "loadDistrinct W w_id = fold_opt (load_district W w_id) [1..10]"

section \<open>Customers\<close>

definition load_customer :: "'f workload \<Rightarrow> int \<Rightarrow> int \<Rightarrow> int \<Rightarrow> 'f db \<times> twister \<Rightarrow> ('f db \<times> twister) option" where
  "load_customer W w_id d_id i = (\<lambda>(db, g). do {
     let N = num W;
     let now = currentTimestamp;
     (last, g) \<leftarrow> (if i < 1000 then do { l \<leftarrow> genName i; Some (l, g) }
                  else do { (n, g) \<leftarrow> getNonUniformRandomLastNameForLoad g; l \<leftarrow> genName n; Some (l, g) });
     (first, g) \<leftarrow> randomastring 16 8 16 g;
     (r, g) \<leftarrow> rnd 10 g;
     credit \<leftarrow> vc_of 2 (asc (if r \<noteq> 0 then ''GC'' else ''BC''));
     middle \<leftarrow> vc_of 2 (asc ''OE'');
     (street_1, g) \<leftarrow> randomastring 20 10 20 g;
     (street_2, g) \<leftarrow> randomastring 20 10 20 g;
     (city, g) \<leftarrow> randomastring 20 10 20 g;
     (state, g) \<leftarrow> randomastring 2 2 2 g;
     (zip, g) \<leftarrow> randomzip g;
     (phone, g) \<leftarrow> randomnstring 16 16 g;
     let (discount, g) = randomNumeric N (n_lit N 0 4) (n_lit N 5000 4) g;
     (data, g) \<leftarrow> randomastring 500 300 500 g;
     let db = db\<lparr>customer := t_insert (w_id, d_id, i + 1)
       \<lparr>c_first = first, c_middle = middle, c_last = last, c_street_1 = street_1, c_street_2 = street_2, c_city = city,
        c_state = state, c_zip = zip, c_phone = phone, c_since = now, c_credit = credit, c_credit_lim = n_lit N 5000000 2,
        c_discount = discount, c_balance = n_lit N (- 1000) 2, c_ytd_payment = n_of_int N 1, c_payment_cnt = n_of_int N 0,
        c_delivery_cnt = n_of_int N 0, c_data = data\<rparr> (customer db)\<rparr>;
     let db = db\<lparr>customerwdl := t_insert (w_id, d_id, last, first) \<lparr>cw_c_id = i + 1\<rparr> (customerwdl db)\<rparr>;
     let h_id = tpcchistorycounter db;
     cnt \<leftarrow> icheck (h_id + 1);
     (hdata, g) \<leftarrow> randomastring 24 12 24 g;
     Some (db\<lparr>tpcchistorycounter := cnt, history := t_insert (workerThreadId W, h_id)
       \<lparr>h_c_id = i + 1, h_c_d_id = d_id, h_c_w_id = w_id, h_d_id = d_id, h_w_id = w_id, h_date = now,
        h_amount = n_lit N 1000 2, h_data = hdata\<rparr> (history db)\<rparr>, g) })"

definition loadCustomer :: "'f workload \<Rightarrow> int \<Rightarrow> int \<Rightarrow> 'f db \<times> twister \<Rightarrow> ('f db \<times> twister) option" where
  "loadCustomer W w_id d_id = fold_opt (load_customer W w_id d_id) [0..2999]"

section \<open>Orders\<close>

text \<open>The shuffle, on the elements of the vector and the one behind it.\<close>

definition swap_nth :: "'a list \<Rightarrow> nat \<Rightarrow> nat \<Rightarrow> 'a list" where
  "swap_nth xs i j = xs[i := xs ! j, j := xs ! i]"

definition shuffle_step :: "int \<Rightarrow> int list \<times> twister \<Rightarrow> (int list \<times> twister) option" where
  "shuffle_step i = (\<lambda>(c_ids, g). do { (r, g) \<leftarrow> urand 0 i g; Some (swap_nth c_ids (nat r) (nat i), g) })"

definition shuffled :: "int \<Rightarrow> twister \<Rightarrow> (int list \<times> twister) option" where
  "shuffled behind g = do {
     (storage, g) \<leftarrow> fold_opt shuffle_step (rev [1..3000]) ([1..3000] @ [behind], g);
     Some (take 3000 storage, g) }"

text \<open>One line of an order, and an order with its lines. The count of lines, which the code holds as a \<open>double\<close>,
  bounds the loop as the integer that it is.\<close>

definition load_orderline :: "'f workload \<Rightarrow> int \<Rightarrow> int \<Rightarrow> int \<Rightarrow> int \<Rightarrow> 'f db \<times> twister \<Rightarrow> ('f db \<times> twister) option" where
  "load_orderline W w_id d_id o_id ol_number = (\<lambda>(db, g). do {
     let N = num W;
     let delivered = (if o_id < 2101 then currentTimestamp else 0);
     let (amount, g) = (if o_id < 2101 then (n_of_int N 0, g) else randomNumeric N (n_lit N 1 2) (n_lit N 999999 2) g);
     (i, g) \<leftarrow> rnd ITEMS_NO g;
     (dist, g) \<leftarrow> randomastring 24 24 24 g;
     Some (db\<lparr>orderline := t_insert (w_id, d_id, o_id, ol_number)
       \<lparr>ol_i_id = i + 1, ol_supply_w_id = w_id, ol_delivery_d = delivered, ol_quantity = n_of_int N 5, ol_amount = amount,
        ol_dist_info = dist\<rparr> (orderline db)\<rparr>, g) })"

definition load_order :: "'f workload \<Rightarrow> int \<Rightarrow> int \<Rightarrow> int \<times> int \<Rightarrow> 'f db \<times> twister \<Rightarrow> ('f db \<times> twister) option" where
  "load_order W w_id d_id = (\<lambda>(o_id, o_cid) (db, g). do {
     let N = num W;
     (carrier, g) \<leftarrow> (if o_id < 2101 then do { (r, g) \<leftarrow> rnd 10 g; Some (r + 1, g) } else Some (0, g));
     (r, g) \<leftarrow> rnd 10 g;
     let cnt = r + 5;
     let db = db\<lparr>order := t_insert (w_id, d_id, o_id)
       \<lparr>o_c_id = o_cid, o_entry_d = currentTimestamp, o_carrier_id = carrier, o_ol_cnt = n_of_int N cnt, o_all_local = n_of_int N 1\<rparr>
       (order db)\<rparr>;
     let db = (if order_wdc_index W then db\<lparr>order_wdc := t_insert (w_id, d_id, o_cid, o_id) () (order_wdc db)\<rparr> else db);
     fold_opt (load_orderline W w_id d_id o_id) [1..cnt] (db, g) })"

definition loadOrders :: "'f workload \<Rightarrow> int \<Rightarrow> int \<Rightarrow> int \<Rightarrow> 'f db \<times> twister \<Rightarrow> ('f db \<times> twister) option" where
  "loadOrders W behind w_id d_id = (\<lambda>(db, g). do {
     (c_ids, g) \<leftarrow> shuffled behind g;
     (db, g) \<leftarrow> fold_opt (load_order W w_id d_id) (zip [1..3000] c_ids) (db, g);
     Some (foldl (\<lambda>db i. db\<lparr>neworder := t_insert (w_id, d_id, i) () (neworder db)\<rparr>) db [2100..3000], g) })"

section \<open>Dividing the work\<close>

text \<open>The ranges that \<open>parallel_for\<close> gives its threads, in the order in which it starts them. The index of a
  thread has 32 bits and the number of threads 64, so that for \<open>2 ^ 32\<close> threads or more the index begins again at 0 and
  threads are started for ever; this is \<open>None\<close>, as is the division by the number of threads that fails without work.\<close>

partial_function (option) start_threads ::
    "u64 \<Rightarrow> u64 \<Rightarrow> u64 \<Rightarrow> u64 \<Rightarrow> u32 \<Rightarrow> (u64 \<times> u64) list \<Rightarrow> (u64 \<times> u64) list option" where
  "start_threads lo hi nthreads perThread i threads =
     (if ucast i < nthreads
      then let b = perThread * ucast i + lo;
               e = (if ucast i = nthreads - 1 then hi else b + perThread)
           in start_threads lo hi nthreads perThread (i + 1) (threads @ [(b, e)])
      else Some threads)"

declare start_threads.simps [code]

definition parallel_ranges :: "u64 \<Rightarrow> u64 \<Rightarrow> u64 \<Rightarrow> (u64 \<times> u64) list option" where
  "parallel_ranges lo hi nthreads =
     (let n = hi - lo;
          nthreads = (if n < nthreads then n else nthreads)
      in if nthreads = 0 then None
         else let perThread = n div nthreads
              in start_threads lo hi nthreads perThread 0 [])"

text \<open>What a thread loads for one warehouse and for its range, and all of it: the items and the warehouses first, by the
  main thread, then the ranges, with a counter of the history and a generator for every thread. The threads of the
  program run at the same time, each on the entries of its own warehouses; here one runs after the other.\<close>

definition load_warehouse_of :: "'f workload \<Rightarrow> (int \<Rightarrow> int \<Rightarrow> int) \<Rightarrow> int \<Rightarrow> 'f db \<times> twister \<Rightarrow> ('f db \<times> twister) option" where
  "load_warehouse_of W behind w_id s = do {
     s \<leftarrow> loadStock W w_id s;
     s \<leftarrow> loadDistrinct W w_id s;
     fold_opt (\<lambda>d_id s. do { s \<leftarrow> loadCustomer W w_id d_id s; loadOrders W (behind w_id d_id) w_id d_id s }) [1..10] s }"

definition load_range ::
    "'f workload \<Rightarrow> (int \<Rightarrow> int \<Rightarrow> int) \<Rightarrow> (nat \<Rightarrow> twister) \<Rightarrow> nat \<times> u64 \<times> u64 \<Rightarrow> 'f db \<Rightarrow> 'f db option" where
  "load_range W behind gs = (\<lambda>(i, b, e) db. do {
     (db, g) \<leftarrow> fold_opt (load_warehouse_of (W\<lparr>workerThreadId := int i\<rparr>) behind) [uint b..uint e - 1] (db\<lparr>tpcchistorycounter := 0\<rparr>, gs i);
     Some db })"

definition main_load :: "'f workload \<Rightarrow> (int \<Rightarrow> int \<Rightarrow> int) \<Rightarrow> u64 \<Rightarrow> twister \<Rightarrow> (nat \<Rightarrow> twister) \<Rightarrow> 'f db \<Rightarrow> 'f db option" where
  "main_load W behind nthreads g gs db = do {
     s \<leftarrow> loadItem W (db, g);
     (db, g) \<leftarrow> loadWarehouse W s;
     rs \<leftarrow> parallel_ranges 1 (word_of_int (warehouseCount W + 1)) nthreads;
     fold_opt (load_range W behind gs) (enumerate 0 rs) db }"

end
