(* ===== verification/Consistency.thy ===== *)
theory Consistency
  imports Workload
begin

text \<open>
  The invariant of the TPC-C tables and that the transactions keep it, in any order and with any parameters
  that the workload draws.

  \<open>consistent\<close> relates the tables of an order: the ids of a district lie below its next one, the new orders
  and the index are those of orders, and an order has exactly the lines that it counts.
\<close>

section \<open>Views of tables\<close>

definition view :: "('r \<Rightarrow> 'v) \<Rightarrow> ('k, 'r) table \<Rightarrow> ('k, 'v) table" where
  "view v t = map (\<lambda>(k, r). (k, v r)) t"

lemma view_insert: "view v (t_insert k r t) = t_insert k (v r) (view v t)"
  unfolding view_def
proof (induction t)
  case (Cons e t)
  then show ?case by (cases e) simp
qed simp

lemma view_update:
  "(\<And>r r'. f r = Some r' \<Longrightarrow> g (v r) = Some (v r')) \<Longrightarrow> t_update k f t = Some t' \<Longrightarrow> t_update k g (view v t) = Some (view v t')"
  unfolding view_def
proof (induction t arbitrary: t')
  case (Cons e t)
  then show ?case by (cases e) (auto split: if_splits bind_splits)
qed simp

lemma view_same:
  "(\<And>r r'. f r = Some r' \<Longrightarrow> v r' = v r) \<Longrightarrow> t_update k f t = Some t' \<Longrightarrow> view v t' = view v t"
  unfolding view_def
proof (induction t arbitrary: t')
  case (Cons e t)
  then show ?case by (cases e) (auto split: if_splits bind_splits)
qed simp

lemma map_of_view: "map_of (view v t) k = map_option v (map_of t k)"
  unfolding view_def
proof (induction t)
  case (Cons e t)
  then show ?case by (cases e) simp
qed simp

lemma view_keys [simp]: "map fst (view v t) = map fst t"
  by (simp add: view_def split_def comp_def)

lemma ascending_view [simp]: "ascending (view v t) = ascending t"
  by (simp add: ascending_def)

section \<open>The invariant\<close>

definition next_ids :: "'f db \<Rightarrow> (district_key, int) table" where
  "next_ids db = view d_next_o_id (district db)"

definition order_heads :: "'f db \<Rightarrow> (order_key, int \<times> 'f) table" where
  "order_heads db = view (\<lambda>r. (o_c_id r, o_ol_cnt r)) (order db)"

definition keys :: "('k, 'r) table \<Rightarrow> 'k set" where
  "keys t = set (map fst t)"

definition ids_below_next :: "'f db \<Rightarrow> bool" where
  "ids_below_next db \<longleftrightarrow> (\<forall>(w, d, i)\<in>keys (order_heads db). \<exists>n. map_of (next_ids db) (w, d) = Some n \<and> i < n)"

definition index_exact :: "'f db \<Rightarrow> bool" where
  "index_exact db \<longleftrightarrow> keys (order_wdc db) = {(w, d, c, i). \<exists>m. map_of (order_heads db) (w, d, i) = Some (c, m)}"

definition lines_exact :: "'f workload \<Rightarrow> 'f db \<Rightarrow> bool" where
  "lines_exact W db \<longleftrightarrow>
     (\<forall>w d i c m. map_of (order_heads db) (w, d, i) = Some (c, m) \<longrightarrow>
        (\<exists>n. n_to_Integer (num W) m = Some n \<and> {l. (w, d, i, l) \<in> keys (orderline db)} = {1..n})) \<and>
     (\<forall>(w, d, i, l)\<in>keys (orderline db). (w, d, i) \<in> keys (order_heads db))"

definition consistent :: "'f workload \<Rightarrow> 'f db \<Rightarrow> bool" where
  "consistent W db \<longleftrightarrow>
     ascending (next_ids db) \<and> ascending (order_heads db) \<and> ascending (neworder db) \<and> ascending (orderline db) \<and>
     ids_below_next db \<and> keys (neworder db) \<subseteq> keys (order_heads db) \<and> lines_exact W db \<and>
     (order_wdc_index W \<longrightarrow> ascending (order_wdc db) \<and> index_exact db)"

lemmas consistent_defs = consistent_def ids_below_next_def index_exact_def lines_exact_def

text \<open>It only depends on these parts of the tables.\<close>

definition same_orders :: "'f db \<Rightarrow> 'f db \<Rightarrow> bool" where
  "same_orders db' db \<longleftrightarrow>
     next_ids db' = next_ids db \<and> order_heads db' = order_heads db \<and> neworder db' = neworder db \<and>
     order_wdc db' = order_wdc db \<and> map fst (orderline db') = map fst (orderline db)"

lemma consistent_cong: "same_orders db' db \<Longrightarrow> consistent W db' = consistent W db"
  by (simp add: consistent_defs keys_def ascending_def same_orders_def)

lemma keys_insert [simp]: "keys (t_insert k r t) = insert k (keys t)"
  by (simp add: keys_def)

lemma keys_map_of: "k \<in> keys t \<longleftrightarrow> (\<exists>r. map_of t k = Some r)"
  by (metis keys_def map_of_eq_None_iff not_None_eq set_map)

lemma ascending_sorted: "ascending t \<Longrightarrow> sorted (map fst t)"
  by (simp add: ascending_def strict_sorted_iff)

lemma map_of_insert: "ascending t \<Longrightarrow> map_of (t_insert k r t) = (map_of t)(k \<mapsto> r)"
  by (rule t_insert_map [OF ascending_sorted])

lemma fold_opt_keeps:
  "fold_opt f xs s = Some s' \<Longrightarrow> (\<And>x s s'. x \<in> set xs \<Longrightarrow> f x s = Some s' \<Longrightarrow> P s \<Longrightarrow> P s') \<Longrightarrow> P s \<Longrightarrow> P s'"
proof (induction xs arbitrary: s)
  case (Cons x xs)
  then obtain s1 where "f x s = Some s1" "fold_opt f xs s1 = Some s'" by (auto split: bind_splits)
  then show ?case by (metis Cons.IH Cons.prems(2,3) list.set_intros)
qed simp

section \<open>Payment\<close>

lemma pay_warehouse_keeps: "pay_warehouse W w amount db = Some (n, db') \<Longrightarrow> \<exists>t. db' = db\<lparr>warehouse := t\<rparr>"
  by (auto simp: pay_warehouse_def split: bind_splits)

lemma pay_district_keeps:
  "pay_district W w d amount db = Some (n, db') \<Longrightarrow> \<exists>t. db' = db\<lparr>district := t\<rparr> \<and> view d_next_o_id t = view d_next_o_id (district db)"
  by (auto simp: pay_district_def split: bind_splits elim!: view_same [rotated])

lemma pay_customer_keeps: "pay_customer W w d cw cd c date amount t wn dn db = Some db' \<Longrightarrow>
    \<exists>t n h. db' = db\<lparr>customer := t, tpcchistorycounter := n, history := h\<rparr>"
  by (auto simp: pay_customer_def Let_def split: bind_splits if_splits)

lemmas same_orders_defs = same_orders_def next_ids_def order_heads_def

lemma paymentById_same: "paymentById W w d cw cd c date amount t db = Some db' \<Longrightarrow> same_orders db' db"
  by (auto simp: paymentById_def same_orders_defs split: bind_splits
      dest!: pay_warehouse_keeps pay_district_keeps pay_customer_keeps)

lemma paymentByName_same: "paymentByName W w d cw cd name date amount t db = Some db' \<Longrightarrow> same_orders db' db"
  by (auto simp: paymentByName_def same_orders_defs split: bind_splits option.splits
      dest!: pay_warehouse_keeps pay_district_keeps pay_customer_keeps)

lemma paymentRnd_same: "paymentRnd W w (db, g) = Some (db', g') \<Longrightarrow> same_orders db' db"
  by (auto simp: paymentRnd_def Let_def split_def split: bind_splits if_splits
      dest!: paymentById_same paymentByName_same)

section \<open>Delivery\<close>

lemma consistent_remove:
  assumes "consistent W db"
  shows "consistent W (db\<lparr>neworder := fst (t_remove k (neworder db))\<rparr>)"
proof -
  have "keys (fst (t_remove k (neworder db))) \<subseteq> keys (neworder db)" using t_remove_subset by (fastforce simp: keys_def)
  then show ?thesis using assms by (auto simp: consistent_defs next_ids_def order_heads_def t_remove_ascending)
qed

lemma deliver_line_keeps:
  "deliver_line N w d i t l s = Some s' \<Longrightarrow> \<exists>u. fst s' = fst s\<lparr>orderline := u\<rparr> \<and> map fst u = map fst (orderline (fst s))"
  by (cases s) (auto simp: deliver_line_def split: bind_splits dest!: t_update_keys)

lemma deliver_lines_keep:
  assumes "fold_opt (deliver_line N w d i t) ls (db, x) = Some (db', x')"
  shows "\<exists>u. db' = db\<lparr>orderline := u\<rparr> \<and> map fst u = map fst (orderline db)"
proof -
  have "\<exists>u. fst (db', x') = db\<lparr>orderline := u\<rparr> \<and> map fst u = map fst (orderline db)"
    using assms by (rule fold_opt_keeps) (fastforce dest!: deliver_line_keeps intro: exI [of _ "orderline db"])+
  then show ?thesis by simp
qed

lemma carrier_heads:
  "t_update k (\<lambda>rec. Some (rec\<lparr>o_carrier_id := c\<rparr>)) (order db) = Some t \<Longrightarrow>
   view (\<lambda>r. (o_c_id r, o_ol_cnt r)) t = view (\<lambda>r. (o_c_id r, o_ol_cnt r)) (order db)"
  by (erule view_same [rotated]) auto

lemma deliver_order_same: "deliver_order W w carrier t d i db = Some db' \<Longrightarrow> same_orders db' db"
  by (auto simp: deliver_order_def Let_def same_orders_defs split: bind_splits if_splits option.splits
      dest!: deliver_lines_keep carrier_heads)

lemma deliver_district_consistent:
  "deliver_district W w carrier t d db = Some db' \<Longrightarrow> consistent W db \<Longrightarrow> consistent W db'"
  by (auto simp: deliver_district_def split: bind_splits if_splits
      dest!: deliver_order_same consistent_cong [where W = W] intro: consistent_remove)

lemma delivery_consistent: "delivery W w carrier t db = Some db' \<Longrightarrow> consistent W db \<Longrightarrow> consistent W db'"
  unfolding delivery_def by (erule fold_opt_keeps) (auto intro: deliver_district_consistent)

lemma deliveryRnd_consistent: "deliveryRnd W w (db, g) = Some (db', g') \<Longrightarrow> consistent W db \<Longrightarrow> consistent W db'"
  by (auto simp: deliveryRnd_def split: bind_splits intro: delivery_consistent)

section \<open>New orders\<close>

lemma order_stock_keeps: "order_stock W w sups its qs i db = Some db' \<Longrightarrow> \<exists>t. db' = db\<lparr>stock := t\<rparr>"
  by (auto simp: order_stock_def split: bind_splits)

lemma order_stocks_keep: "fold_opt (order_stock W w sups its qs) is db = Some db' \<Longrightarrow> \<exists>t. db' = db\<lparr>stock := t\<rparr>"
  by (erule fold_opt_keeps) (fastforce dest!: order_stock_keeps intro: exI [of _ "stock db"])+

lemma order_line_inserts: "order_line W w d i wtax dtax disc ls sups its qs j db = Some db' \<Longrightarrow>
    \<exists>r. j < length ls \<and> db' = db\<lparr>orderline := t_insert (w, d, i, ls ! j) r (orderline db)\<rparr>"
  by (auto simp: order_line_def Let_def rd_def split: bind_splits if_splits)

lemma order_lines_insert:
  "fold_opt (order_line W w d i wtax dtax disc ls sups its qs) js db = Some db' \<Longrightarrow>
   ascending (orderline db) \<Longrightarrow> distinct (map ((!) ls) js) \<Longrightarrow> \<forall>l. (w, d, i, l) \<in> keys (orderline db) \<longrightarrow> l \<notin> (!) ls ` set js \<Longrightarrow>
   \<exists>t. db' = db\<lparr>orderline := t\<rparr> \<and> ascending t \<and> keys t = keys (orderline db) \<union> {(w, d, i, l) | l. l \<in> (!) ls ` set js}"
proof (induction js arbitrary: db)
  case Nil
  then show ?case by (auto intro!: exI [of _ "orderline db"])
next
  case (Cons j js)
  then obtain db1 where db1: "order_line W w d i wtax dtax disc ls sups its qs j db = Some db1"
    "fold_opt (order_line W w d i wtax dtax disc ls sups its qs) js db1 = Some db'" by (auto split: bind_splits)
  from order_line_inserts [OF db1(1)] obtain r where r: "db1 = db\<lparr>orderline := t_insert (w, d, i, ls ! j) r (orderline db)\<rparr>" by blast
  have "map_of (orderline db) (w, d, i, ls ! j) = None" using Cons.prems(4) by (fastforce simp: keys_map_of)
  then have asc: "ascending (orderline db1)" using Cons.prems(2) r by (simp add: t_insert_ascending)
  have "\<exists>t. db' = db1\<lparr>orderline := t\<rparr> \<and> ascending t \<and> keys t = keys (orderline db1) \<union> {(w, d, i, l) | l. l \<in> (!) ls ` set js}"
    by (rule Cons.IH [OF db1(2) asc]) (use Cons.prems(3,4) r in auto)
  then obtain t where t: "db' = db\<lparr>orderline := t\<rparr>" "ascending t"
    "keys t = insert (w, d, i, ls ! j) (keys (orderline db) \<union> {(w, d, i, l) | l. l \<in> (!) ls ` set js})" using r by auto
  have "keys t = keys (orderline db) \<union> {(w, d, i, l) | l. l \<in> (!) ls ` set (j # js)}" unfolding t(3) by auto
  then show ?case using t(1,2) by blast
qed

text \<open>What a new order does to the tables of the orders.\<close>

lemma newOrder_effect:
  assumes "newOrder W w d c ls sups its qs t db = Some db'" "ascending (orderline db)" "distinct ls"
    "\<forall>l. (w, d, d_next_o_id (the (map_of (district db) (w, d))), l) \<notin> keys (orderline db)"
  obtains i where "map_of (next_ids db) (w, d) = Some i"
    "t_update (w, d) (\<lambda>_. Some (i + 1)) (next_ids db) = Some (next_ids db')"
    "order_heads db' = t_insert (w, d, i) (c, n_of_int (num W) (int (length ls))) (order_heads db)"
    "order_wdc db' = (if order_wdc_index W then t_insert (w, d, c, i) () (order_wdc db) else order_wdc db)"
    "neworder db' = t_insert (w, d, i) () (neworder db)"
    "ascending (orderline db')" "keys (orderline db') = keys (orderline db) \<union> {(w, d, i, l) | l. l \<in> set ls}"
proof -
  from assms(1) obtain wtax disc rec n ds db2 where
    r: "map_of (district db) (w, d) = Some rec" and n: "icheck (d_next_o_id rec + 1) = Some n"
    and ds: "t_update (w, d) (\<lambda>rec. Some (rec\<lparr>d_next_o_id := n\<rparr>)) (district db) = Some ds"
    and f1: "fold_opt (order_stock W w sups its qs) [0..<length ls]
        (let db = db\<lparr>district := ds\<rparr>;
             db = db\<lparr>order := t_insert (w, d, d_next_o_id rec) \<lparr>o_c_id = c, o_entry_d = t, o_carrier_id = 0,
               o_ol_cnt = n_of_int (num W) (int (length ls)),
               o_all_local = n_of_int (num W) (if \<exists>sw\<in>set sups. sw \<noteq> w then 0 else 1)\<rparr> (order db)\<rparr>;
             db = (if order_wdc_index W then db\<lparr>order_wdc := t_insert (w, d, c, d_next_o_id rec) () (order_wdc db)\<rparr> else db)
         in db\<lparr>neworder := t_insert (w, d, d_next_o_id rec) () (neworder db)\<rparr>) = Some db2"
    and f2: "fold_opt (order_line W w d (d_next_o_id rec) wtax (d_tax rec) disc ls sups its qs) [0..<length ls] db2 = Some db'"
    unfolding newOrder_def by (simp add: Let_def split: bind_splits)
  have nn: "n = d_next_o_id rec + 1" using n by (simp add: icheck_def split: if_splits)
  obtain st where db2: "db2 = (let db = db\<lparr>district := ds\<rparr>;
             db = db\<lparr>order := t_insert (w, d, d_next_o_id rec) \<lparr>o_c_id = c, o_entry_d = t, o_carrier_id = 0,
               o_ol_cnt = n_of_int (num W) (int (length ls)),
               o_all_local = n_of_int (num W) (if \<exists>sw\<in>set sups. sw \<noteq> w then 0 else 1)\<rparr> (order db)\<rparr>;
             db = (if order_wdc_index W then db\<lparr>order_wdc := t_insert (w, d, c, d_next_o_id rec) () (order_wdc db)\<rparr> else db)
         in db\<lparr>neworder := t_insert (w, d, d_next_o_id rec) () (neworder db)\<rparr>)\<lparr>stock := st\<rparr>"
    using order_stocks_keep [OF f1] by blast
  then have ol2: "orderline db2 = orderline db" by (simp add: Let_def)
  have im: "(!) ls ` set [0..<length ls] = set ls" by (auto simp: in_set_conv_nth image_iff Bex_def)
  have dist: "distinct (map ((!) ls) [0..<length ls])" using assms(3) by (simp add: map_nth)
  from order_lines_insert [OF f2 _ dist, unfolded ol2 im, OF assms(2)] assms(4) r
  obtain ol where ol: "db' = db2\<lparr>orderline := ol\<rparr>" "ascending ol" "keys ol = keys (orderline db) \<union> {(w, d, d_next_o_id rec, l) | l. l \<in> set ls}"
    by auto
  show ?thesis
  proof (rule that [of "d_next_o_id rec"])
    show "map_of (next_ids db) (w, d) = Some (d_next_o_id rec)" by (simp add: next_ids_def map_of_view r)
    have "t_update (w, d) (\<lambda>_. Some (d_next_o_id rec + 1)) (view d_next_o_id (district db)) = Some (view d_next_o_id ds)"
      by (rule view_update [OF _ ds]) (auto simp: nn)
    then show "t_update (w, d) (\<lambda>_. Some (d_next_o_id rec + 1)) (next_ids db) = Some (next_ids db')"
      by (simp add: next_ids_def ol(1) db2 Let_def)
    show "order_heads db' = t_insert (w, d, d_next_o_id rec) (c, n_of_int (num W) (int (length ls))) (order_heads db)"
      by (simp add: order_heads_def ol(1) db2 Let_def view_insert)
  qed (use ol db2 in \<open>simp_all add: Let_def\<close>)
qed

text \<open>The conversion between \<open>Integer\<close> and \<open>Numeric\<close>: a \<open>double\<close> holds every 32-bit integer exactly.\<close>

definition exact_Integers :: "'f numeric_ops \<Rightarrow> bool" where
  "exact_Integers N \<longleftrightarrow> (\<forall>x. int_ok x \<longrightarrow> n_to_Integer N (n_of_int N x) = Some x)"

text \<open>A new order with its lines keeps the invariant, whichever code inserts it.\<close>

lemma consistent_new_order:
  assumes "consistent W db" "(w, d, i) \<notin> keys (order_heads db)"
    and oh: "order_heads db' = t_insert (w, d, i) (c, m) (order_heads db)"
    and wdc: "order_wdc db' = (if order_wdc_index W then t_insert (w, d, c, i) () (order_wdc db) else order_wdc db)"
    and ol: "ascending (orderline db')" "keys (orderline db') = keys (orderline db) \<union> {(w, d, i, l) | l. l \<in> {1..n}}"
    and m: "n_to_Integer (num W) m = Some n"
    and no: "ascending (neworder db')" "keys (neworder db') \<subseteq> insert (w, d, i) (keys (neworder db))"
    and ni: "ascending (next_ids db')" "\<And>k j. map_of (next_ids db) k = Some j \<Longrightarrow> \<exists>j'\<ge>j. map_of (next_ids db') k = Some j'"
      "\<exists>j>i. map_of (next_ids db') (w, d) = Some j"
  shows "consistent W db'"
proof -
  note c = assms(1) [unfolded consistent_def]
  have ohm: "map_of (order_heads db') = (map_of (order_heads db))((w, d, i) \<mapsto> (c, m))" using c oh by (simp add: map_of_insert)
  have hn: "map_of (order_heads db) (w, d, i) = None" using assms(2) keys_map_of by (metis not_None_eq)
  have nol: "(w, d, i, l) \<notin> keys (orderline db)" for l using c assms(2) unfolding lines_exact_def by fastforce
  have "ascending (order_heads db')" using c oh hn by (simp add: t_insert_ascending)
  moreover have "\<exists>n. map_of (next_ids db') (w', d') = Some n \<and> j < n" if "(w', d', j) \<in> keys (order_heads db')" for w' d' j
  proof (cases "(w', d', j) = (w, d, i)")
    case False
    then have "(w', d', j) \<in> keys (order_heads db)" using that by (auto simp: oh)
    then obtain n where n: "map_of (next_ids db) (w', d') = Some n" "j < n" using c unfolding ids_below_next_def by fastforce
    from ni(2) [OF n(1)] n(2) show ?thesis by fastforce
  qed (use ni(3) in auto)
  then have "ids_below_next db'" unfolding ids_below_next_def by auto
  moreover have "keys (neworder db') \<subseteq> keys (order_heads db')" using c no(2) oh by auto
  moreover have "lines_exact W db'"
    unfolding lines_exact_def
  proof (intro conjI allI impI)
    fix w' d' j c' m' assume a: "map_of (order_heads db') (w', d', j) = Some (c', m')"
    show "\<exists>n. n_to_Integer (num W) m' = Some n \<and> {l. (w', d', j, l) \<in> keys (orderline db')} = {1..n}"
    proof (cases "(w', d', j) = (w, d, i)")
      case True
      then have "n_to_Integer (num W) m' = Some n" using a m by (auto simp: ohm)
      moreover have "{l. (w', d', j, l) \<in> keys (orderline db')} = {1..n}" using True ol(2) nol by auto
      ultimately show ?thesis by blast
    next
      case False
      then have "map_of (order_heads db) (w', d', j) = Some (c', m')" using a by (auto simp: ohm split: if_splits)
      moreover have "{l. (w', d', j, l) \<in> keys (orderline db')} = {l. (w', d', j, l) \<in> keys (orderline db)}" using False ol(2) by auto
      ultimately show ?thesis using c unfolding lines_exact_def by metis
    qed
  next
    show "\<forall>(w', d', j, l)\<in>keys (orderline db'). (w', d', j) \<in> keys (order_heads db')"
      using c ol(2) oh unfolding lines_exact_def by fastforce
  qed
  moreover have "ascending (order_wdc db') \<and> index_exact db'" if x: "order_wdc_index W"
  proof -
    have e: "keys (order_wdc db) = {(w, d, c, i). \<exists>m. map_of (order_heads db) (w, d, i) = Some (c, m)}" "ascending (order_wdc db)"
      using c x by (auto simp: index_exact_def)
    then have "(w, d, c, i) \<notin> keys (order_wdc db)" using hn by simp
    then have "ascending (order_wdc db')" using wdc x e(2) by (metis keys_map_of not_None_eq t_insert_ascending)
    moreover have "index_exact db'" unfolding index_exact_def ohm using wdc x e(1) hn by auto
    ultimately show ?thesis by blast
  qed
  ultimately show ?thesis using ol(1) no(1) ni(1) unfolding consistent_def by blast
qed

lemma newOrder_consistent:
  assumes "newOrder W w d c [1..n] sups its qs t db = Some db'" "consistent W db" "exact_Integers (num W)" "n < 2 ^ 31"
  shows "consistent W db'"
proof -
  note c = assms(2) [unfolded consistent_def]
  have asc: "ascending (orderline db)" using c by blast
  obtain rec where rec: "map_of (district db) (w, d) = Some rec" using assms(1) by (auto simp: newOrder_def Let_def split: bind_splits)
  have fresh: "(w, d, d_next_o_id rec) \<notin> keys (order_heads db)"
    using c rec unfolding ids_below_next_def by (fastforce simp: next_ids_def map_of_view)
  then have nol: "\<forall>l. (w, d, d_next_o_id (the (map_of (district db) (w, d))), l) \<notin> keys (orderline db)"
    using c rec unfolding lines_exact_def by fastforce
  obtain i where i: "map_of (next_ids db) (w, d) = Some i"
    and ni: "t_update (w, d) (\<lambda>_. Some (i + 1)) (next_ids db) = Some (next_ids db')"
    and oh: "order_heads db' = t_insert (w, d, i) (c, n_of_int (num W) (int (length [1..n]))) (order_heads db)"
    and wdc: "order_wdc db' = (if order_wdc_index W then t_insert (w, d, c, i) () (order_wdc db) else order_wdc db)"
    and no: "neworder db' = t_insert (w, d, i) () (neworder db)"
    and ol: "ascending (orderline db')" "keys (orderline db') = keys (orderline db) \<union> {(w, d, i, l) | l. l \<in> set [1..n]}"
    by (rule newOrder_effect [OF assms(1) asc _ nol]) auto
  have ir: "i = d_next_o_id rec" using i rec by (simp add: next_ids_def map_of_view)
  have nm: "map_of (next_ids db') k = (if k = (w, d) then Some (i + 1) else map_of (next_ids db) k)" for k
    using t_update_map [OF ni] i by auto
  have f: "(w, d, i) \<notin> keys (order_heads db)" using fresh ir by simp
  then have nn: "map_of (neworder db) (w, d, i) = None" using c keys_map_of by (metis not_None_eq subset_iff)
  have "int_ok (int (length [1..n]))" using assms(4) by (simp add: int_ok_def)
  then have m: "n_to_Integer (num W) (n_of_int (num W) (int (length [1..n]))) = Some (int (length [1..n]))"
    using assms(3) by (simp add: exact_Integers_def)
  show ?thesis
  proof (rule consistent_new_order [OF assms(2) f oh wdc ol(1) _ m])
    show "keys (orderline db') = keys (orderline db) \<union> {(w, d, i, l) |l. l \<in> {1..int (length [1..n])}}" using ol(2) by auto
    show "ascending (neworder db')" using c no nn by (simp add: t_insert_ascending)
    show "ascending (next_ids db')" using c t_update_ascending [OF ni] by simp
    show "\<exists>j'\<ge>j. map_of (next_ids db') k = Some j'" if "map_of (next_ids db) k = Some j" for k j
      using that i by (auto simp: nm)
  qed (auto simp: no nm)
qed

end
