(* ===== verification/Progress.thy ===== *)
theory Progress
  imports Consistency
begin

text \<open>
  The transactions of the TPC-C mix return: on tables that hold the records of all warehouses, with room in
  the counters, no transaction meets a missing record, an index out of range or an overflow, whatever
  parameters the generator draws; and it leaves such tables behind.
\<close>

section \<open>The mix keeps the tables consistent\<close>

lemma urand_bounds:
  assumes "urand low high g = Some (r, g')" "0 \<le> low" "low \<le> high" "high < 2 ^ 31 - 1"
  shows "low \<le> r \<and> r \<le> high"
proof -
  obtain q h where "urand low high g = Some (q, h)" "low \<le> q" "q \<le> high" using urand_range [OF assms(2-4)] by blast
  then show ?thesis using assms(1) by simp
qed

lemma newOrderRnd_consistent:
  assumes "newOrderRnd W w (db, g) = Some (db', g')" "consistent W db" "exact_Integers (num W)"
  shows "consistent W db'"
proof -
  from assms(1) obtain d c n ls g1 g2 where
    "urand 5 15 g1 = Some (n, g2)" "newOrder W w d c [1..n] (map fst ls) (map (fst \<circ> snd) ls) (map (snd \<circ> snd) ls) currentTimestamp db = Some db'"
    by (auto simp: newOrderRnd_def split: bind_splits)
  moreover from this(1) have "n < 2 ^ 31" by (drule_tac urand_bounds) auto
  ultimately show ?thesis using newOrder_consistent assms(2,3) by blast
qed

text \<open>The five kinds of transaction and when they are chosen.\<close>

lemma tx_kinds:
  assumes "getRand 0 10000 g = Some (r, g1)" "0 \<le> r" "r < 10000"
  shows "tx W w (db, g) =
    (if r < 4300 then map_option (Pair 0) (paymentRnd W w (db, g1))
     else if r < 4700 then map_option (\<lambda>(_, g). (1, db, g)) (orderStatusRnd W w (db, g1))
     else if r < 5100 then map_option (Pair 2) (deliveryRnd W w (db, g1))
     else if r < 5500 then map_option (\<lambda>(_, g). (3, db, g)) (stockLevelRnd W w (db, g1))
     else map_option (Pair 4) (newOrderRnd W w (db, g1)))"
proof -
  define v where "v = (word_of_int r :: u64)"
  have lt: "(word_of_int (r - c) :: u64) < word_of_int m \<longleftrightarrow> r - c < m" if "0 \<le> c" "c \<le> r" "0 \<le> m" "m < 10000" for c m
  proof -
    have "uint (word_of_int (r - c) :: u64) = r - c" "uint (word_of_int m :: u64) = m"
      using that assms(2,3) by (simp_all only: uint_word_of_int) simp_all
    then show ?thesis by (simp only: word_less_def)
  qed
  have lts: "v < 4300 \<longleftrightarrow> r < 4300" "4300 \<le> r \<Longrightarrow> v - 4300 < 400 \<longleftrightarrow> r < 4700"
    "4700 \<le> r \<Longrightarrow> v - 4300 - 400 < 400 \<longleftrightarrow> r < 5100" "5100 \<le> r \<Longrightarrow> v - 4300 - 400 - 400 < 400 \<longleftrightarrow> r < 5500"
    using lt [of 0 4300] lt [of 4300 400] lt [of 4700 400] lt [of 5100 400] assms(2) by (simp_all add: v_def)
  have t: "tx W w (db, g) =
      (if v < 4300 then map_option (Pair 0) (paymentRnd W w (db, g1))
       else if v - 4300 < 400 then map_option (\<lambda>(_, g). (1, db, g)) (orderStatusRnd W w (db, g1))
       else if v - 4300 - 400 < 400 then map_option (Pair 2) (deliveryRnd W w (db, g1))
       else if v - 4300 - 400 - 400 < 400 then map_option (\<lambda>(_, g). (3, db, g)) (stockLevelRnd W w (db, g1))
       else map_option (Pair 4) (newOrderRnd W w (db, g1)))"
    unfolding tx_def v_def Let_def by (simp add: assms(1) map_conv_bind_option split_def comp_def cong: if_cong)
  consider "r < 4300" | "4300 \<le> r" "r < 4700" | "4700 \<le> r" "r < 5100" | "5100 \<le> r" "r < 5500" | "5500 \<le> r" by linarith
  then show ?thesis unfolding t by cases (insert lts, auto)
qed

lemma getRand_mix: "\<exists>r g'. getRand 0 10000 g = Some (r, g') \<and> 0 \<le> r \<and> r < 10000"
  by (rule getRand_range [of 0 10000 g]) auto

lemma tx_keeps_consistent:
  assumes "tx W w (db, g) = Some (k, db', g')" "consistent W db" "exact_Integers (num W)"
  shows "consistent W db'"
proof -
  obtain r g1 where r: "getRand 0 10000 g = Some (r, g1)" "0 \<le> r" "r < 10000" using getRand_mix by blast
  then consider "paymentRnd W w (db, g1) = Some (db', g')" | "db' = db"
    | "deliveryRnd W w (db, g1) = Some (db', g')" | "newOrderRnd W w (db, g1) = Some (db', g')"
    using assms(1) unfolding tx_kinds [OF r] by (auto split: if_splits)
  then show ?thesis
  proof cases
    case 1
    then show ?thesis using paymentRnd_same [OF 1] consistent_cong assms(2) by blast
  next
    case 3
    then show ?thesis using deliveryRnd_consistent [OF 3 assms(2)] by simp
  next
    case 4
    then show ?thesis using newOrderRnd_consistent [OF 4 assms(2,3)] by simp
  qed (use assms(2) in simp)
qed

section \<open>Steps that always return\<close>

lemma fold_opt_returns:
  "(\<And>x s. x \<in> set xs \<Longrightarrow> P s \<Longrightarrow> \<exists>s'. f x s = Some s' \<and> P s') \<Longrightarrow> P s \<Longrightarrow> \<exists>s'. fold_opt f xs s = Some s' \<and> P s'"
proof (induction xs arbitrary: s)
  case (Cons x xs)
  then obtain s1 where "f x s = Some s1" "P s1" by (metis list.set_intros(1))
  moreover from Cons.IH [of s1] Cons.prems(1) this obtain s2 where "fold_opt f xs s1 = Some s2" "P s2" by auto
  ultimately show ?case by simp
qed simp

lemma t_update_total: "(\<And>r. f r \<noteq> None) \<Longrightarrow> \<exists>t'. t_update k f t = Some t'"
proof (induction t)
  case (Cons e t)
  obtain r where "f (snd e) = Some r" using Cons.prems [of "snd e"] by blast
  then show ?case using Cons.IH Cons.prems by (cases e) auto
qed simp

lemma t_update_pure: "\<exists>t'. t_update k (\<lambda>r. Some (g r)) t = Some t'"
  by (rule t_update_total) simp

lemma t_update_keys_eq: "t_update k f t = Some t' \<Longrightarrow> keys t' = keys t"
  by (simp add: keys_def t_update_keys)

lemma scan_loop_returns:
  "(\<And>k r s. (k, r) \<in> set t \<Longrightarrow> P s \<Longrightarrow> \<exists>go s'. f k r s = Some (go, s') \<and> P s') \<Longrightarrow> P s \<Longrightarrow> \<exists>s'. scan_loop f t s = Some s' \<and> P s'"
proof (induction t arbitrary: s)
  case (Cons e t)
  obtain go s1 where "f (fst e) (snd e) s = Some (go, s1)" "P s1" using Cons.prems(1) [of "fst e" "snd e" s] Cons.prems(2) by auto
  then show ?case using Cons.IH [of s1] Cons.prems(1) by (cases e) auto
qed simp

lemma scan_returns:
  "(\<And>k r s. (k, r) \<in> set t \<Longrightarrow> P s \<Longrightarrow> \<exists>go s'. f k r s = Some (go, s') \<and> P s') \<Longrightarrow> P s \<Longrightarrow> \<exists>s'. scan key f t s = Some s' \<and> P s'"
  unfolding scan_def by (rule scan_loop_returns) (auto dest: set_dropWhileD)

lemma scanDesc_returns:
  "(\<And>k r s. (k, r) \<in> set t \<Longrightarrow> P s \<Longrightarrow> \<exists>go s'. f k r s = Some (go, s') \<and> P s') \<Longrightarrow> P s \<Longrightarrow> \<exists>s'. scanDesc key f t s = Some s' \<and> P s'"
  unfolding scanDesc_def by (rule scan_loop_returns) (auto dest: set_takeWhileD)

text \<open>A scan that stops at the first entry.\<close>

lemma scan_first:
  assumes "ascending t"
  shows "scan key (\<lambda>k r s. do { x \<leftarrow> h k r s; Some (False, x) }) t s =
    (case filter (\<lambda>e. key \<le> fst e) t of [] \<Rightarrow> Some s | (k, r) # _ \<Rightarrow> h k r s)"
proof -
  have "scan_loop (\<lambda>k r s. do { x \<leftarrow> h k r s; Some (False, x) }) u s = (case u of [] \<Rightarrow> Some s | (k, r) # _ \<Rightarrow> h k r s)" for u
    by (cases u) (auto split: prod.split option.split bind_splits)
  then show ?thesis using assms by (simp add: scan_def dropWhile_ascending)
qed

lemma first_at: "ascending t \<Longrightarrow> map_of t k = Some r \<Longrightarrow> \<exists>u. filter (\<lambda>e. k \<le> fst e) t = (k, r) # u"
proof (induction t)
  case (Cons e t)
  show ?case
  proof (cases "fst e = k")
    case True
    then show ?thesis using Cons.prems by (cases e) auto
  next
    case False
    then have "map_of t k = Some r" using Cons.prems by (cases e) auto
    then have "(k, r) \<in> set t" by (rule map_of_SomeD)
    then have "fst e < k" using Cons.prems(1) by (cases e) auto
    then show ?thesis using Cons \<open>map_of t k = Some r\<close> by (cases e) auto
  qed
qed simp

lemma first_least:
  assumes "ascending t" "filter (\<lambda>e. k \<le> fst e) t = e # u"
  shows "e \<in> set t" "k \<le> fst e" "e' \<in> set t \<Longrightarrow> k \<le> fst e' \<Longrightarrow> fst e \<le> fst e'"
proof -
  have s: "set (filter (\<lambda>e. k \<le> fst e) t) = set (e # u)" using assms(2) by simp
  then show "e \<in> set t" "k \<le> fst e" by auto
  have "sorted (map fst (filter (\<lambda>e. k \<le> fst e) t))" using ascending_sorted [OF assms(1)] by (rule sorted_filter)
  then have "\<forall>e'\<in>set u. fst e \<le> fst e'" using assms(2) by simp
  then show "e' \<in> set t \<Longrightarrow> k \<le> fst e' \<Longrightarrow> fst e \<le> fst e'" using s by fastforce
qed

section \<open>The oldest new order\<close>

lemma oldest_neworder_spec:
  assumes "ascending (neworder db)"
  obtains "oldest_neworder w d db = Some minInteger" "\<And>j. minInteger \<le> j \<Longrightarrow> (w, d, j) \<notin> keys (neworder db)"
  | i where "oldest_neworder w d db = Some i" "(w, d, i) \<in> keys (neworder db)" "minInteger \<le> i"
      "\<And>j. minInteger \<le> j \<Longrightarrow> (w, d, j) \<in> keys (neworder db) \<Longrightarrow> i \<le> j"
proof -
  let ?k = "(w, d, minInteger)"
  let ?h = "\<lambda>(no_w_id, no_d_id, no_o_id) _ o_id. Some (if no_w_id = w \<and> no_d_id = d then no_o_id else o_id)"
  have "oldest_neworder w d db = scan ?k (\<lambda>k r s. do { x \<leftarrow> ?h k r s; Some (False, x) }) (neworder db) minInteger"
    by (simp add: oldest_neworder_def split_def)
  then have o: "oldest_neworder w d db =
      (case filter (\<lambda>e. ?k \<le> fst e) (neworder db) of [] \<Rightarrow> Some minInteger | (k, r) # _ \<Rightarrow> ?h k r minInteger)"
    using assms by (simp only: scan_first)
  show ?thesis
  proof (cases "filter (\<lambda>e. ?k \<le> fst e) (neworder db)")
    case Nil
    then have "(w, d, j) \<notin> keys (neworder db)" if "minInteger \<le> j" for j using that by (fastforce simp: keys_def filter_empty_conv)
    then show ?thesis using o Nil that(1) by simp
  next
    case (Cons e u)
    obtain w' d' i where e: "e = ((w', d', i), ())" by (cases e) auto
    note least = first_least [OF assms Cons]
    have later: "(w', d', i) \<le> (w, d, j)" if "minInteger \<le> j" "(w, d, j) \<in> keys (neworder db)" for j
      using least(3) [of "((w, d, j), ())"] that e by (auto simp: keys_def)
    show ?thesis
    proof (cases "w' = w \<and> d' = d")
      case True
      then have "minInteger \<le> i" using least(2) e by auto
      moreover have "(w, d, i) \<in> keys (neworder db)" using least(1) e True by (force simp: keys_def)
      ultimately show ?thesis using that(2) [of i] o Cons e True later by auto
    next
      case False
      have "(w, d, j) \<notin> keys (neworder db)" if "minInteger \<le> j" for j
        using later [OF that] least(2) e False by (auto simp: less_eq_prod_def)
      then show ?thesis using that(1) o Cons e False by auto
    qed
  qed
qed

text \<open>An order that is there is found by all three ways of looking for it, and so is its last line.\<close>

lemma order_of_found:
  assumes "ascending (order db)" "map_of (order db) (w, d, i) = Some r" "n_to_Integer (num W) (o_ol_cnt r) = Some n" "n \<noteq> minInteger"
  shows "order_of W w d i db = Some (Some (n, Some (o_c_id r)))"
proof -
  obtain u where u: "dropWhile (\<lambda>e. fst e < (w, d, i)) (order db) = ((w, d, i), r) # u"
    using first_at [OF assms(1,2)] dropWhile_ascending [OF assms(1)] by auto
  show ?thesis using assms(2-4) by (simp add: order_of_def Let_def scan_def u)
qed

lemma last_line_there_iff:
  assumes "ascending (orderline db)"
  shows "last_line_there w d i n db = Some ((w, d, i, n) \<in> keys (orderline db))"
proof -
  let ?f = "filter (\<lambda>e. (w, d, i, n) \<le> fst e) (orderline db)"
  have l: "last_line_there w d i n db = (case ?f of [] \<Rightarrow> Some False | (k, r) # _ \<Rightarrow> Some (k = (w, d, i, n)))"
    using scan_first [OF assms, of "(w, d, i, n)" "\<lambda>k r s. Some (k = (w, d, i, n))" False] by (simp add: last_line_there_def)
  show ?thesis
  proof (cases "(w, d, i, n) \<in> keys (orderline db)")
    case True
    then obtain r u where "?f = ((w, d, i, n), r) # u" using first_at [OF assms] keys_map_of by metis
    then show ?thesis using l True by simp
  next
    case False
    have "k \<noteq> (w, d, i, n)" if "?f = (k, r) # u" for k r u
      using first_least(1) [OF assms that] False by (force simp: keys_def)
    then show ?thesis using l False by (auto split: list.splits)
  qed
qed

section \<open>Complete tables\<close>

definition district_heads :: "'f db \<Rightarrow> (district_key, varchar \<times> int) table" where
  "district_heads db = view (\<lambda>r. (d_name r, d_next_o_id r)) (district db)"

text \<open>The records of all warehouses are there, and the counters are at most \<open>m\<close>.\<close>

definition records :: "'f workload \<Rightarrow> int \<Rightarrow> 'f db \<Rightarrow> bool" where
  "records W m db \<longleftrightarrow>
     (\<forall>w. 1 \<le> w \<and> w \<le> warehouseCount W \<longrightarrow>
        (\<exists>n. map_of (view w_name (warehouse db)) w = Some n \<and> length n \<le> 10) \<and>
        (\<forall>d. 1 \<le> d \<and> d \<le> 10 \<longrightarrow>
           (\<exists>n i. map_of (district_heads db) (w, d) = Some (n, i) \<and> length n \<le> 10 \<and> 0 \<le> i \<and> i \<le> m) \<and>
           (\<forall>c. 1 \<le> c \<and> c \<le> 3000 \<longrightarrow> (w, d, c) \<in> keys (customer db))) \<and>
        (\<forall>i. 1 \<le> i \<and> i \<le> ITEMS_NO \<longrightarrow> (w, i) \<in> keys (stock db))) \<and>
     (\<forall>i. 1 \<le> i \<and> i \<le> ITEMS_NO \<longrightarrow> i \<in> keys (item db)) \<and>
     (\<forall>(_, i)\<in>set (view ol_i_id (orderline db)). 1 \<le> i \<and> i \<le> ITEMS_NO) \<and>
     (\<forall>((w, d, _, _), r)\<in>set (customerwdl db). (w, d, cw_c_id r) \<in> keys (customer db))"

definition complete :: "'f workload \<Rightarrow> int \<Rightarrow> 'f db \<Rightarrow> bool" where
  "complete W m db \<longleftrightarrow> records W m db \<and> 0 \<le> tpcchistorycounter db \<and> tpcchistorycounter db \<le> m"

text \<open>What no transaction but a new order changes.\<close>

definition same_records :: "'f db \<Rightarrow> 'f db \<Rightarrow> bool" where
  "same_records db' db \<longleftrightarrow>
     view w_name (warehouse db') = view w_name (warehouse db) \<and> district_heads db' = district_heads db \<and>
     keys (customer db') = keys (customer db) \<and> keys (stock db') = keys (stock db) \<and> item db' = item db \<and>
     view ol_i_id (orderline db') = view ol_i_id (orderline db) \<and> customerwdl db' = customerwdl db"

lemma records_cong: "same_records db' db \<Longrightarrow> records W m db' = records W m db"
  by (simp add: records_def same_records_def)

lemma records_mono: "records W m db \<Longrightarrow> m \<le> l \<Longrightarrow> records W l db"
  unfolding records_def by (meson order_trans)

lemma complete_cong:
  assumes "complete W m db" "same_records db' db" "tpcchistorycounter db \<le> tpcchistorycounter db'"
    "tpcchistorycounter db' \<le> tpcchistorycounter db + 1"
  shows "complete W (m + 1) db'"
  using assms records_cong records_mono [of W m db "m + 1"] unfolding complete_def by auto

lemma records_D:
  assumes "records W m db"
  shows "1 \<le> w \<Longrightarrow> w \<le> warehouseCount W \<Longrightarrow> \<exists>n. map_of (view w_name (warehouse db)) w = Some n \<and> length n \<le> 10"
    and "1 \<le> w \<Longrightarrow> w \<le> warehouseCount W \<Longrightarrow> 1 \<le> d \<Longrightarrow> d \<le> 10 \<Longrightarrow>
      \<exists>n i. map_of (district_heads db) (w, d) = Some (n, i) \<and> length n \<le> 10 \<and> 0 \<le> i \<and> i \<le> m"
    and "1 \<le> w \<Longrightarrow> w \<le> warehouseCount W \<Longrightarrow> 1 \<le> d \<Longrightarrow> d \<le> 10 \<Longrightarrow> 1 \<le> c \<Longrightarrow> c \<le> 3000 \<Longrightarrow> (w, d, c) \<in> keys (customer db)"
    and "1 \<le> w \<Longrightarrow> w \<le> warehouseCount W \<Longrightarrow> 1 \<le> i \<Longrightarrow> i \<le> ITEMS_NO \<Longrightarrow> (w, i) \<in> keys (stock db)"
    and "1 \<le> i \<Longrightarrow> i \<le> ITEMS_NO \<Longrightarrow> i \<in> keys (item db)"
    and "\<forall>(_, i)\<in>set (view ol_i_id (orderline db)). 1 \<le> i \<and> i \<le> ITEMS_NO"
    and "\<forall>((w, d, _, _), r)\<in>set (customerwdl db). (w, d, cw_c_id r) \<in> keys (customer db)"
  using assms unfolding records_def by blast+

section \<open>Payment returns\<close>

lemma pay_customer_returns:
  assumes "(cw, cd, c) \<in> keys (customer db)" "length wn \<le> 10" "length dn \<le> 10"
    "0 \<le> tpcchistorycounter db" "tpcchistorycounter db + 1 < 2 ^ 31"
  shows "\<exists>db' t h. pay_customer W w d cw cd c date amount dt wn dn db = Some db' \<and> keys t = keys (customer db) \<and>
    db' = db\<lparr>customer := t, tpcchistorycounter := tpcchistorycounter db + 1, history := h\<rparr>"
proof -
  obtain r where r: "map_of (customer db) (cw, cd, c) = Some r" using assms(1) by (auto simp: keys_map_of)
  obtain t1 where t1: "t_update (cw, cd, c) (\<lambda>x. Some (x\<lparr>c_data := bc_data (num W) c cd cw d w amount date wn dn (c_data r),
      c_balance := n_sub (num W) (c_balance r) amount, c_ytd_payment := n_add (num W) (c_ytd_payment r) amount,
      c_payment_cnt := n_add (num W) (c_payment_cnt r) (n_of_int (num W) 1)\<rparr>)) (customer db) = Some t1"
    by (rule exE [OF t_update_pure])
  obtain t2 where t2: "t_update (cw, cd, c) (\<lambda>x. Some (x\<lparr>
      c_balance := n_sub (num W) (c_balance r) amount, c_ytd_payment := n_add (num W) (c_ytd_payment r) amount,
      c_payment_cnt := n_add (num W) (c_payment_cnt r) (n_of_int (num W) 1)\<rparr>)) (customer db) = Some t2"
    by (rule exE [OF t_update_pure])
  have "vc_of 24 wn = Some wn" "vc_concat 24 wn (asc ''    '') = Some (wn @ asc ''    '')"
    "vc_concat 24 (wn @ asc ''    '') dn = Some (wn @ asc ''    '' @ dn)"
    "icheck (tpcchistorycounter db + 1) = Some (tpcchistorycounter db + 1)"
    using assms by (simp_all add: vc_of_def vc_concat_def asc_def icheck_def)
  then show ?thesis using r t1 t2 t_update_keys_eq [OF t1] t_update_keys_eq [OF t2]
    by (cases "vc_eq (c_credit r) (asc ''BC'')") (auto simp: pay_customer_def Let_def)
qed

lemma pay_warehouse_returns:
  assumes "\<exists>n. map_of (view w_name (warehouse db)) w = Some n \<and> length n \<le> 10"
  shows "\<exists>n t. pay_warehouse W w amount db = Some (n, db\<lparr>warehouse := t\<rparr>) \<and> length n \<le> 10 \<and> view w_name t = view w_name (warehouse db)"
proof -
  obtain t where t: "t_update w (\<lambda>rec. Some (rec\<lparr>w_ytd := n_add (num W) (w_ytd rec) amount\<rparr>)) (warehouse db) = Some t"
    by (rule exE [OF t_update_pure])
  moreover have "view w_name t = view w_name (warehouse db)" by (rule view_same [OF _ t]) auto
  ultimately show ?thesis using assms by (auto simp: pay_warehouse_def map_of_view)
qed

lemma pay_district_returns:
  assumes "\<exists>n i. map_of (district_heads db) (w, d) = Some (n, i) \<and> length n \<le> 10"
  shows "\<exists>n t. pay_district W w d amount db = Some (n, db\<lparr>district := t\<rparr>) \<and> length n \<le> 10 \<and>
    view (\<lambda>r. (d_name r, d_next_o_id r)) t = district_heads db"
proof -
  obtain t where t: "t_update (w, d) (\<lambda>rec. Some (rec\<lparr>d_ytd := n_add (num W) (d_ytd rec) amount\<rparr>)) (district db) = Some t"
    by (rule exE [OF t_update_pure])
  moreover have "view (\<lambda>r. (d_name r, d_next_o_id r)) t = district_heads db"
    unfolding district_heads_def by (rule view_same [OF _ t]) auto
  ultimately show ?thesis using assms by (auto simp: pay_district_def map_of_view district_heads_def)
qed

text \<open>The customer in the middle of the name is one of the district.\<close>

lemma middle_customer_returns:
  assumes "\<forall>((w, d, _, _), r)\<in>set (customerwdl db). (w, d, cw_c_id r) \<in> keys (customer db)"
  shows "\<exists>c. middle_customer w d name db = Some c \<and> (\<forall>i. c = Some i \<longrightarrow> (w, d, i) \<in> keys (customer db))"
proof -
  let ?f = "\<lambda>(c_w_id, c_d_id, last, _) rec ids.
          Some (if c_w_id = w \<and> c_d_id = d \<and> vc_eq last name then (True, ids @ [cw_c_id rec]) else (False, ids))"
  have "\<exists>ids. scan (w, d, name, []) ?f (customerwdl db) [] = Some ids \<and> (\<forall>i\<in>set ids. (w, d, i) \<in> keys (customer db))"
  proof (rule scan_returns)
    fix k r ids assume a: "(k, r) \<in> set (customerwdl db)" "\<forall>i\<in>set ids. (w, d, i) \<in> keys (customer db)"
    obtain cw cd l f where k: "k = (cw, cd, l, f)" by (metis surj_pair)
    then have "(cw, cd, cw_c_id r) \<in> keys (customer db)" using assms a(1) by auto
    then show "\<exists>go ids'. ?f k r ids = Some (go, ids') \<and> (\<forall>i\<in>set ids'. (w, d, i) \<in> keys (customer db))" using a(2) k by auto
  qed simp
  then obtain ids where "scan (w, d, name, []) ?f (customerwdl db) [] = Some ids" "\<forall>i\<in>set ids. (w, d, i) \<in> keys (customer db)"
    by blast
  moreover have "length ids div 2 - Suc 0 < length ids" if "ids \<noteq> []" using that by (simp add: less_imp_diff_less)
  ultimately show ?thesis
    by (cases "ids = []") (auto simp: middle_customer_def Let_def rd_def)
qed

lemma genName_returns: "0 \<le> i \<Longrightarrow> i \<le> 999 \<Longrightarrow> \<exists>n. genName i = Some n"
proof -
  have part: "\<exists>n. namePart d = Some n \<and> length n \<le> 5" if "0 \<le> d" "d < 10" for d
  proof -
    have "d \<in> {0, 1, 2, 3, 4, 5, 6, 7, 8, 9}" using that by (simp only: insert_iff empty_iff) presburger
    then show ?thesis by (elim insertE emptyE) (simp_all add: namePart_def name_data_def asc_def rd_def)
  qed
  assume i: "0 \<le> i" "i \<le> 999"
  then have "i sdiv 100 = i div 100" "i sdiv 10 = i div 10" "i smod 10 = i mod 10"
    "(i div 100) smod 10 = i div 100 mod 10" "(i div 10) smod 10 = i div 10 mod 10"
    by (simp_all add: signed_divide_int_def signed_modulo_int_def sgn_if)
  then show ?thesis
    using part [of "i div 100 mod 10"] part [of "i div 10 mod 10"] part [of "i mod 10"] by (auto simp: genName_def vc_concat_def)
qed

lemma last_name_returns: "\<exists>i n g'. getNonUniformRandomLastNameForRun g = Some (i, g') \<and> genName i = Some n"
proof -
  obtain i g' where "getNonUniformRandomLastNameForRun g = Some (i, g')" "0 \<le> i" "i \<le> 999"
    unfolding getNonUniformRandomLastNameForRun_def C_LAST_RUN_C_def by (rule nurand_range [of 255 0 999 223 g]) auto
  then show ?thesis using genName_returns by blast
qed

lemma customer_id_returns: "\<exists>c g'. getCustomerID g = Some (c, g') \<and> 1 \<le> c \<and> c \<le> 3000"
  unfolding getCustomerID_def C_ID_C_def by (rule nurand_range [of 1023 1 3000 259 g]) auto

lemma item_id_returns: "\<exists>i g'. getItemID g = Some (i, g') \<and> 1 \<le> i \<and> i \<le> ITEMS_NO"
  unfolding getItemID_def OL_I_ID_C_def ITEMS_NO_def by (rule nurand_range [of 8191 1 100000 7911 g]) auto

lemma urand_returns: "0 \<le> low \<Longrightarrow> low \<le> high \<Longrightarrow> high < 2 ^ 31 - 1 \<Longrightarrow> \<exists>r g'. urand low high g = Some (r, g') \<and> low \<le> r \<and> r \<le> high"
  by (rule urand_range [of low high g]) auto

lemma other_warehouse_returns:
  assumes "1 \<le> w" "w \<le> n" "n < 2 ^ 31 - 1"
  shows "\<exists>r g'. urandexcept 1 n w g = Some (r, g') \<and> 1 \<le> r \<and> r \<le> n"
proof (cases "n = 1")
  case False
  obtain d g1 where d: "rnd (n - 1) g = Some (d, g1)" "0 \<le> d" "d < n - 1"
    unfolding rnd_def by (rule getRand_range [of 0 "n - 1" g]) (use assms False in auto)
  then show ?thesis using assms False by (auto simp: urandexcept_def icheck_def)
qed (use assms in \<open>simp add: urandexcept_def\<close>)

section \<open>Every transaction returns\<close>

lemma paymentRnd_returns:
  assumes "complete W m db" "1 \<le> w" "w \<le> warehouseCount W" "warehouseCount W < 2 ^ 31 - 1" "m + 1 < 2 ^ 31"
  shows "\<exists>db' g'. paymentRnd W w (db, g) = Some (db', g') \<and> complete W (m + 1) db'"
proof -
  have r: "records W m db" and cnt: "0 \<le> tpcchistorycounter db" "tpcchistorycounter db + 1 < 2 ^ 31"
    using assms by (auto simp: complete_def)
  note rd = records_D [OF r]
  have ok: "complete W (m + 1) db'" if "same_records db' db" "tpcchistorycounter db' = tpcchistorycounter db \<or> tpcchistorycounter db' = tpcchistorycounter db + 1" for db'
    using complete_cong [OF assms(1) that(1)] that(2) by auto
  have pay: "\<exists>db'. do { (wname, db) \<leftarrow> pay_warehouse W w amount db; (dname, db) \<leftarrow> pay_district W w d amount db; f wname dname db } = Some db' \<and> complete W (m + 1) db'"
    if d: "1 \<le> d" "d \<le> 10"
      and f: "\<And>wn dn t u. length wn \<le> 10 \<Longrightarrow> length dn \<le> 10 \<Longrightarrow> view w_name t = view w_name (warehouse db) \<Longrightarrow>
        view (\<lambda>r. (d_name r, d_next_o_id r)) u = district_heads db \<Longrightarrow>
        \<exists>db'. f wn dn (db\<lparr>warehouse := t, district := u\<rparr>) = Some db' \<and> complete W (m + 1) db'" for d amount f
  proof -
    obtain wn t where w: "pay_warehouse W w amount db = Some (wn, db\<lparr>warehouse := t\<rparr>)" "length wn \<le> 10"
      "view w_name t = view w_name (warehouse db)" using pay_warehouse_returns [OF rd(1) [OF assms(2,3)], where W = W and amount = amount] by blast
    have "\<exists>n i. map_of (district_heads (db\<lparr>warehouse := t\<rparr>)) (w, d) = Some (n, i) \<and> length n \<le> 10"
      using rd(2) assms(2,3) d by (fastforce simp: district_heads_def)
    from pay_district_returns [OF this, where W = W and amount = amount] obtain dn u where "pay_district W w d amount (db\<lparr>warehouse := t\<rparr>) = Some (dn, db\<lparr>warehouse := t, district := u\<rparr>)"
      "length dn \<le> 10" "view (\<lambda>r. (d_name r, d_next_o_id r)) u = district_heads db" by (auto simp: district_heads_def)
    then show ?thesis using f [of wn dn t u] w by simp
  qed
  have cust: "\<exists>db'. pay_customer W w d cw cd c date amount dt wn dn (db\<lparr>warehouse := t, district := u\<rparr>) = Some db' \<and> complete W (m + 1) db'"
    if c: "(cw, cd, c) \<in> keys (customer db)" and n: "length wn \<le> 10" "length dn \<le> 10" "view w_name t = view w_name (warehouse db)"
      "view (\<lambda>r. (d_name r, d_next_o_id r)) u = district_heads db" for d cw cd c date amount dt wn dn t u
  proof -
    let ?db = "db\<lparr>warehouse := t, district := u\<rparr>"
    obtain db' v h where v: "pay_customer W w d cw cd c date amount dt wn dn ?db = Some db'" "keys v = keys (customer db)"
      "db' = ?db\<lparr>customer := v, tpcchistorycounter := tpcchistorycounter db + 1, history := h\<rparr>"
      using pay_customer_returns [of cw cd c ?db wn dn W w d date amount dt] c n cnt by auto
    then have "complete W (m + 1) db'" using n by (intro ok) (simp_all add: same_records_def district_heads_def)
    then show ?thesis using v by blast
  qed
  have byId: "\<exists>db'. paymentById W w d cw cd c date amount dt db = Some db' \<and> complete W (m + 1) db'"
    if "1 \<le> d" "d \<le> 10" "(cw, cd, c) \<in> keys (customer db)" for d cw cd c date amount dt
    unfolding paymentById_def by (rule pay [OF that(1,2)]) (rule cust [OF that(3)])
  have byName: "\<exists>db'. paymentByName W w d cw cd name date amount dt db = Some db' \<and> complete W (m + 1) db'"
    if "1 \<le> d" "d \<le> 10" for d cw cd name date amount dt
    unfolding paymentByName_def
  proof (rule pay [OF that])
    show "\<exists>db'. do { cust \<leftarrow> middle_customer cw cd name (db\<lparr>warehouse := t, district := u\<rparr>);
        case cust of None \<Rightarrow> Some (db\<lparr>warehouse := t, district := u\<rparr>)
        | Some c_id \<Rightarrow> pay_customer W w d cw cd c_id date amount dt wn dn (db\<lparr>warehouse := t, district := u\<rparr>) } = Some db'
        \<and> complete W (m + 1) db'"
      if n: "length wn \<le> 10" "length dn \<le> 10" "view w_name t = view w_name (warehouse db)"
      "view (\<lambda>r. (d_name r, d_next_o_id r)) u = district_heads db" for wn dn t u
    proof -
      let ?db = "db\<lparr>warehouse := t, district := u\<rparr>"
      have same: "complete W (m + 1) ?db" using n by (intro ok) (simp_all add: same_records_def district_heads_def)
      obtain c where c: "middle_customer cw cd name ?db = Some c" "\<forall>i. c = Some i \<longrightarrow> (cw, cd, i) \<in> keys (customer db)"
        using middle_customer_returns [of ?db cw cd name] rd(7) by auto
      then show ?thesis using same cust [OF _ n] by (cases c) auto
    qed
  qed
  obtain d g1 where d: "urand 1 10 g = Some (d, g1)" "1 \<le> d" "d \<le> 10" using urand_returns [of 1 10 g] by auto
  obtain remote g2 where remote: "(if cross_warehouses W then do { (p, g) \<leftarrow> urand 1 100 g1; Some (p > 85, g) } else Some (False, g1))
      = Some (remote, g2)"
    using urand_returns [of 1 100 g1] by (cases "cross_warehouses W") auto
  obtain cw cd g3 where cw: "(if remote
        then do { (w, g) \<leftarrow> urandexcept 1 (warehouseCount W) w g2; (d, g) \<leftarrow> urand 1 10 g; Some ((w, d), g) }
        else Some ((w, d), g2)) = Some ((cw, cd), g3)" "1 \<le> cw" "cw \<le> warehouseCount W" "1 \<le> cd" "cd \<le> 10"
  proof (cases remote)
    case True
    obtain v g4 where v: "urandexcept 1 (warehouseCount W) w g2 = Some (v, g4)" "1 \<le> v" "v \<le> warehouseCount W"
      using other_warehouse_returns [OF assms(2-4), of g2] by auto
    obtain e g5 where "urand 1 10 g4 = Some (e, g5)" "1 \<le> e" "e \<le> 10" using urand_returns [of 1 10 g4] by auto
    then show ?thesis using v True by (intro that [of v e g5]) auto
  next
    case False
    then show ?thesis using assms(2,3) d by (intro that [of w d g2]) auto
  qed
  obtain amount g4 where amount: "randomNumeric (num W) (n_lit (num W) 100 2) (n_lit (num W) 500000 2) g3 = (amount, g4)" by fastforce
  obtain p g5 where p: "urand 1 100 g4 = Some (p, g5)" using urand_returns [of 1 100 g4] by auto
  show ?thesis
  proof (cases "p \<le> 60")
    case True
    obtain i n g6 where n: "getNonUniformRandomLastNameForRun g5 = Some (i, g6)" "genName i = Some n" using last_name_returns by blast
    obtain db' where "paymentByName W w d cw cd n currentTimestamp amount currentTimestamp db = Some db'" "complete W (m + 1) db'"
      using byName [OF d(2,3)] by blast
    then show ?thesis unfolding paymentRnd_def Let_def prod.case using d(1) remote cw(1) amount p True n by simp
  next
    case False
    obtain c g6 where c: "getCustomerID g5 = Some (c, g6)" "1 \<le> c" "c \<le> 3000" using customer_id_returns by blast
    obtain db' where "paymentById W w d cw cd c currentTimestamp amount currentTimestamp db = Some db'" "complete W (m + 1) db'"
      using byId [OF d(2,3) rd(3) [OF cw(2-5) c(2,3)]] by blast
    then show ?thesis unfolding paymentRnd_def Let_def prod.case using d(1) remote cw(1) amount p False c(1) by simp
  qed
qed

text \<open>Delivery.\<close>

lemma deliver_lines_return:
  "\<exists>u tot. fold_opt (deliver_line N w d i t) ls (db, x) = Some (db\<lparr>orderline := u\<rparr>, tot) \<and> view ol_i_id u = view ol_i_id (orderline db)"
proof -
  let ?P = "\<lambda>s. \<exists>u. fst s = db\<lparr>orderline := u\<rparr> \<and> view ol_i_id u = view ol_i_id (orderline db)"
  have step: "\<exists>s'. deliver_line N w d i t l s = Some s' \<and> ?P s'" if "?P s" for l s
  proof -
    obtain u y where s: "s = (db\<lparr>orderline := u\<rparr>, y)" "view ol_i_id u = view ol_i_id (orderline db)" using \<open>?P s\<close> by (cases s) auto
    obtain v where v: "t_update (w, d, i, l) (\<lambda>rec. Some (rec\<lparr>ol_delivery_d := t\<rparr>)) u = Some v" by (rule exE [OF t_update_pure])
    have "view ol_i_id v = view ol_i_id u" by (rule view_same [OF _ v]) auto
    then show ?thesis using s v by (auto simp: deliver_line_def)
  qed
  have "\<exists>s'. fold_opt (deliver_line N w d i t) ls (db, x) = Some s' \<and> ?P s'"
    by (rule fold_opt_returns) (use step in \<open>auto intro: exI [of _ "orderline db"]\<close>)
  then show ?thesis by auto
qed

lemma consistent_lines:
  "consistent W db \<Longrightarrow> map_of (order_heads db) (w, d, i) = Some (c, m) \<Longrightarrow>
   \<exists>n. n_to_Integer (num W) m = Some n \<and> {l. (w, d, i, l) \<in> keys (orderline db)} = {1..n}"
  unfolding consistent_def lines_exact_def by blast

lemma order_of_returns:
  assumes "consistent W db" "(w, d, i) \<in> keys (order_heads db)"
  shows "\<exists>x. order_of W w d i db = Some x \<and> (\<forall>n c. x = Some (n, c) \<longrightarrow> c \<noteq> None)"
proof -
  have asc: "ascending (order db)" using assms(1) by (simp add: consistent_def order_heads_def)
  obtain c m where m: "map_of (order_heads db) (w, d, i) = Some (c, m)" using assms(2) by (auto simp: keys_map_of)
  then obtain r where r: "map_of (order db) (w, d, i) = Some r" "o_ol_cnt r = m" by (auto simp: order_heads_def map_of_view)
  obtain n where n: "n_to_Integer (num W) (o_ol_cnt r) = Some n" using consistent_lines [OF assms(1) m] r(2) by auto
  obtain u where u: "dropWhile (\<lambda>e. fst e < (w, d, i)) (order db) = ((w, d, i), r) # u"
    using first_at [OF asc r(1)] dropWhile_ascending [OF asc] by auto
  show ?thesis using r(1) n by (simp add: order_of_def Let_def scan_def u)
qed

lemma same_records_D:
  "same_records (db\<lparr>order := orders, orderline := u, customer := t\<rparr>) db \<longleftrightarrow>
    view ol_i_id u = view ol_i_id (orderline db) \<and> keys t = keys (customer db)"
  "same_records (db\<lparr>order := orders\<rparr>) db" "same_records (db\<lparr>neworder := v\<rparr>) db"
  by (auto simp: same_records_def district_heads_def)

lemma deliver_order_returns:
  assumes "consistent W db" "(w, d, i) \<in> keys (order_heads db)"
  shows "\<exists>db'. deliver_order W w carrier t d i db = Some db' \<and> same_records db' db \<and> tpcchistorycounter db' = tpcchistorycounter db"
proof -
  obtain x where x: "order_of W w d i db = Some x" "\<And>n c. x = Some (n, c) \<Longrightarrow> c \<noteq> None" using order_of_returns [OF assms] by blast
  show ?thesis
  proof (cases x)
    case None
    then show ?thesis using x by (simp add: deliver_order_def same_records_def)
  next
    case (Some p)
    then obtain n c where p: "x = Some (n, Some c)" using x(2) by (cases p) auto
    obtain orders where o: "t_update (w, d, i) (\<lambda>rec. Some (rec\<lparr>o_carrier_id := carrier\<rparr>)) (order db) = Some orders"
      by (rule exE [OF t_update_pure])
    have "ascending (orderline (db\<lparr>order := orders\<rparr>))" using assms(1) by (simp add: consistent_def)
    from last_line_there_iff [OF this] obtain b where b: "last_line_there w d i n (db\<lparr>order := orders\<rparr>) = Some b" by blast
    obtain u tot where u: "fold_opt (deliver_line (num W) w d i t) [1..n] (db\<lparr>order := orders\<rparr>, n_of_int (num W) 0)
        = Some (db\<lparr>order := orders, orderline := u\<rparr>, tot)" "view ol_i_id u = view ol_i_id (orderline db)"
      using deliver_lines_return [of "num W" w d i t "[1..n]" "db\<lparr>order := orders\<rparr>" "n_of_int (num W) 0"] by auto
    obtain v where v: "t_update (w, d, c) (\<lambda>rec. Some (rec\<lparr>c_balance := n_add (num W) (c_balance rec) tot,
        c_delivery_cnt := n_add (num W) (c_delivery_cnt rec) (n_of_int (num W) 1)\<rparr>)) (customer db) = Some v"
      by (rule exE [OF t_update_pure])
    show ?thesis using x p o b u v t_update_keys_eq [OF v]
      by (cases "manually_handle_isolation_anomalies W"; cases b) (auto simp: deliver_order_def Let_def same_records_D)
  qed
qed

lemma deliver_district_returns:
  assumes "consistent W db" "complete W m db"
  shows "\<exists>db'. deliver_district W w carrier t d db = Some db' \<and> consistent W db' \<and> complete W m db'"
proof -
  have asc: "ascending (neworder db)" using assms(1) by (simp add: consistent_def)
  have same: "complete W m db'" if "same_records db' db" "tpcchistorycounter db' = tpcchistorycounter db" for db'
    using assms(2) that records_cong by (auto simp: complete_def)
  obtain i where i: "oldest_neworder w d db = Some i" "i = minInteger \<or> (w, d, i) \<in> keys (neworder db)"
    by (rule oldest_neworder_spec [OF asc, of w d]) auto
  show ?thesis
  proof (cases "i = minInteger")
    case True
    then show ?thesis using i assms by (simp add: deliver_district_def)
  next
    case False
    define db1 where "db1 = (if tpcc_remove W then db\<lparr>neworder := fst (t_remove (w, d, i) (neworder db))\<rparr> else db)"
    have c1: "consistent W db1" using assms(1) consistent_remove [OF assms(1)] by (simp add: db1_def)
    have k1: "(w, d, i) \<in> keys (order_heads db1)" using assms(1) i False by (auto simp: consistent_def db1_def order_heads_def)
    have s1: "same_records db1 db" "tpcchistorycounter db1 = tpcchistorycounter db" by (simp_all add: db1_def same_records_def district_heads_def)
    obtain db' where db': "deliver_order W w carrier t d i db1 = Some db'" "same_records db' db1" "tpcchistorycounter db' = tpcchistorycounter db1"
      using deliver_order_returns [OF c1 k1] by blast
    then have "complete W m db'" using s1 by (intro same) (auto simp: same_records_def)
    moreover have "consistent W db'" using c1 consistent_cong [OF deliver_order_same [OF db'(1)]] by simp
    ultimately show ?thesis using i False db'(1) by (simp add: deliver_district_def db1_def)
  qed
qed

lemma deliveryRnd_returns:
  assumes "consistent W db" "complete W m db"
  shows "\<exists>db' g'. deliveryRnd W w (db, g) = Some (db', g') \<and> complete W m db'"
proof -
  obtain c g1 where c: "urand 1 10 g = Some (c, g1)" using urand_returns [of 1 10 g] by auto
  have "\<exists>db'. delivery W w c currentTimestamp db = Some db' \<and> consistent W db' \<and> complete W m db'"
    unfolding delivery_def
    by (rule fold_opt_returns [where P = "\<lambda>db. consistent W db \<and> complete W m db"]) (use assms deliver_district_returns in blast)+
  then show ?thesis using c by (auto simp: deliveryRnd_def)
qed

text \<open>Order status and stock level only read.\<close>

lemma lines_of_returns: "\<exists>l. lines_of w d i db = Some l"
proof -
  have "\<exists>l. lines_of w d i db = Some l \<and> True" unfolding lines_of_def by (rule scan_returns) auto
  then show ?thesis by simp
qed

lemma orderStatusId_returns: "\<exists>r. orderStatusId W w d c db = Some r"
proof -
  have "\<exists>i. (if order_wdc_index W
        then scanDesc (w, d, c, maxInteger) (\<lambda>(_, _, _, oid) _ _. Some (False, oid)) (order_wdc db) (-1)
        else scanDesc (w, d, maxInteger)
               (\<lambda>(o_w_id, o_d_id, oid) rec s.
                  Some (if o_w_id = w \<and> o_d_id = d \<and> o_c_id rec = c then (False, oid) else (True, s)))
               (order db) (-1)) = Some i \<and> True"
    by (cases "order_wdc_index W"; simp only: if_True if_False; rule scanDesc_returns; auto)
  then obtain i where i: "(if order_wdc_index W
        then scanDesc (w, d, c, maxInteger) (\<lambda>(_, _, _, oid) _ _. Some (False, oid)) (order_wdc db) (-1)
        else scanDesc (w, d, maxInteger)
               (\<lambda>(o_w_id, o_d_id, oid) rec s.
                  Some (if o_w_id = w \<and> o_d_id = d \<and> o_c_id rec = c then (False, oid) else (True, s)))
               (order db) (-1)) = Some i" by blast
  obtain l where "lines_of w d i db = Some l" using lines_of_returns by blast
  then show ?thesis unfolding orderStatusId_def i by simp
qed

lemma orderStatusName_returns:
  assumes "\<forall>((w, d, _, _), r)\<in>set (customerwdl db). (w, d, cw_c_id r) \<in> keys (customer db)"
  shows "\<exists>r. orderStatusName W w d name db = Some r"
proof -
  obtain c where c: "middle_customer w d name db = Some c" using middle_customer_returns [OF assms] by blast
  show ?thesis
  proof (cases c)
    case None
    then show ?thesis using c by (simp add: orderStatusName_def)
  next
    case (Some j)
    define s where "s = (if order_wdc_index W
             then scanDesc (w, d, j, maxInteger)
                    (\<lambda>(o_w_id, o_d_id, o_cid, oid) _ s.
                       Some (False, if o_w_id = w \<and> o_d_id = d \<and> o_cid = j then oid else s)) (order_wdc db) (-1)
             else scanDesc (w, d, maxInteger)
                    (\<lambda>(o_w_id, o_d_id, oid) rec s.
                       Some (False, if o_w_id = w \<and> o_d_id = d \<and> o_c_id rec = j then oid else s)) (order db) (-1))"
    have "\<exists>i. s = Some i \<and> True" unfolding s_def
      by (cases "order_wdc_index W"; simp only: if_True if_False; rule scanDesc_returns; auto)
    then obtain i where i: "s = Some i" by blast
    obtain l where "lines_of w d i db = Some l" using lines_of_returns by blast
    then show ?thesis using i c Some by (simp add: orderStatusName_def flip: s_def)
  qed
qed

lemma orderStatusRnd_returns:
  assumes "complete W m db"
  shows "\<exists>r g'. orderStatusRnd W w (db, g) = Some (r, g')"
proof -
  obtain d g1 where d: "urand 1 10 g = Some (d, g1)" using urand_returns [of 1 10 g] by auto
  obtain p g2 where p: "urand 1 100 g1 = Some (p, g2)" using urand_returns [of 1 100 g1] by auto
  obtain c g3 where c: "getCustomerID g2 = Some (c, g3)" using customer_id_returns by blast
  obtain i n g4 where n: "getNonUniformRandomLastNameForRun g2 = Some (i, g4)" "genName i = Some n" using last_name_returns by blast
  obtain r where r: "orderStatusId W w d c db = Some r" using orderStatusId_returns by blast
  have "\<forall>((w, d, _, _), r)\<in>set (customerwdl db). (w, d, cw_c_id r) \<in> keys (customer db)"
    using assms records_D(7) unfolding complete_def by blast
  from orderStatusName_returns [OF this] obtain r' where r': "orderStatusName W w d n db = Some r'" by blast
  show ?thesis using d p c n r r' by (cases "p \<le> 40") (simp_all add: orderStatusRnd_def)
qed

lemma stockLevel_returns:
  assumes "complete W m db" "1 \<le> w" "w \<le> warehouseCount W" "1 \<le> d" "d \<le> 10" "m < 2 ^ 31"
  shows "\<exists>n. stockLevel W w d threshold db = Some n"
proof -
  have r: "records W m db" using assms by (simp add: complete_def)
  obtain n i where "map_of (district_heads db) (w, d) = Some (n, i)" "0 \<le> i" "i \<le> m" using records_D(2) [OF r assms(2-5)] by blast
  then obtain rec where rec: "map_of (district db) (w, d) = Some rec" "0 \<le> d_next_o_id rec" "d_next_o_id rec \<le> m"
    by (auto simp: district_heads_def map_of_view)
  have ic: "icheck (d_next_o_id rec - 20) = Some (d_next_o_id rec - 20)" using rec assms(6) by (simp add: icheck_def)
  let ?f = "\<lambda>(ol_w_id, ol_d_id, ol_o_id, _) r items.
          Some (if ol_w_id = w \<and> ol_d_id = d \<and> ol_o_id < d_next_o_id rec \<and> ol_o_id \<ge> d_next_o_id rec - 20
                then (True, items @ [ol_i_id r]) else (False, items))"
  have "\<exists>items. scan (w, d, d_next_o_id rec - 20, minInteger) ?f (orderline db) [] = Some items \<and> (\<forall>i\<in>set items. 1 \<le> i \<and> i \<le> ITEMS_NO)"
  proof (rule scan_returns)
    fix k r s assume a: "(k, r) \<in> set (orderline db)" "\<forall>i\<in>set s. 1 \<le> i \<and> i \<le> ITEMS_NO"
    have "(k, ol_i_id r) \<in> set (view ol_i_id (orderline db))" using a(1) by (force simp: view_def)
    then have "1 \<le> ol_i_id r \<and> ol_i_id r \<le> ITEMS_NO" using records_D(6) [OF \<open>records W m db\<close>] by auto
    then show "\<exists>go s'. ?f k r s = Some (go, s') \<and> (\<forall>i\<in>set s'. 1 \<le> i \<and> i \<le> ITEMS_NO)" using a(2) by (cases k) auto
  qed simp
  then obtain items where items: "scan (w, d, d_next_o_id rec - 20, minInteger) ?f (orderline db) [] = Some items"
    "\<forall>i\<in>set items. 1 \<le> i \<and> i \<le> ITEMS_NO" by blast
  have "\<exists>n. fold_opt (\<lambda>i_id count. do {
         quantity \<leftarrow> map_option s_quantity (map_of (stock db) (w, i_id));
         Some (count + (if n_less (num W) quantity (n_of_int (num W) threshold) then 1 else 0)) })
       (remdups_adj (sort items)) (0 :: nat) = Some n \<and> True"
  proof (rule fold_opt_returns)
    fix i count assume "i \<in> set (remdups_adj (sort items))"
    then have "(w, i) \<in> keys (stock db)" using items(2) records_D(4) [OF r assms(2,3)] by simp
    then show "\<exists>s'. do { quantity \<leftarrow> map_option s_quantity (map_of (stock db) (w, i));
         Some (count + (if n_less (num W) quantity (n_of_int (num W) threshold) then 1 else 0)) } = Some s' \<and> True"
      by (auto simp: keys_map_of)
  qed simp
  then show ?thesis using rec(1) ic items(1) by (simp add: stockLevel_def Let_def)
qed

lemma stockLevelRnd_returns:
  assumes "complete W m db" "1 \<le> w" "w \<le> warehouseCount W" "m < 2 ^ 31"
  shows "\<exists>n g'. stockLevelRnd W w (db, g) = Some (n, g')"
proof -
  obtain d g1 where d: "urand 1 10 g = Some (d, g1)" "1 \<le> d" "d \<le> 10" using urand_returns [of 1 10 g] by auto
  obtain t g2 where t: "urand 10 20 g1 = Some (t, g2)" using urand_returns [of 10 20 g1] by auto
  show ?thesis using d t stockLevel_returns [OF assms(1-3) d(2,3) assms(4), of t] by (auto simp: stockLevelRnd_def)
qed

text \<open>New orders: the two loops over the lines, then the whole transaction.\<close>

lemma order_stocks_return:
  assumes "length sups = n" "length its = n" "length qs = n" "\<forall>q\<in>set qs. 1 \<le> q \<and> q \<le> 10"
  shows "\<exists>t. fold_opt (order_stock W w sups its qs) [0..<n] db = Some (db\<lparr>stock := t\<rparr>) \<and> keys t = keys (stock db)"
proof -
  let ?P = "\<lambda>s. \<exists>t. s = db\<lparr>stock := t\<rparr> \<and> keys t = keys (stock db)"
  have step: "\<exists>s'. order_stock W w sups its qs i s = Some s' \<and> ?P s'" if "i < n" "?P s" for i s
  proof -
    obtain t where s: "s = db\<lparr>stock := t\<rparr>" "keys t = keys (stock db)" using \<open>?P s\<close> by blast
    have "1 \<le> qs ! i \<and> qs ! i \<le> 10" using assms(3,4) that(1) by simp
    then have "icheck (qs ! i + 10) = Some (qs ! i + 10)" by (simp add: icheck_def)
    then obtain u where u: "t_update (sups ! i, its ! i) (take_stock (num W) w (sups ! i) (qs ! i)) t = Some u"
      using t_update_total [of "take_stock (num W) w (sups ! i) (qs ! i)"] by (fastforce simp: take_stock_def Let_def)
    then show ?thesis using s assms that(1) t_update_keys_eq [OF u] by (auto simp: order_stock_def rd_def)
  qed
  have "\<exists>s'. fold_opt (order_stock W w sups its qs) [0..<n] db = Some s' \<and> ?P s'"
    by (rule fold_opt_returns) (use step in \<open>auto intro: exI [of _ "stock db"]\<close>)
  then show ?thesis by blast
qed

lemma order_lines_return:
  assumes "length ls = n" "length sups = n" "length its = n" "length qs = n"
    "\<forall>i\<in>set its. 1 \<le> i \<and> i \<le> ITEMS_NO \<and> i \<in> keys (item db)" "1 \<le> d" "d \<le> 10"
    "\<forall>(_, i)\<in>set (view ol_i_id (orderline db)). 1 \<le> i \<and> i \<le> ITEMS_NO"
  shows "\<exists>u. fold_opt (order_line W w d o_id wtax dtax disc ls sups its qs) [0..<n] db = Some (db\<lparr>orderline := u\<rparr>) \<and>
    (\<forall>(_, i)\<in>set (view ol_i_id u). 1 \<le> i \<and> i \<le> ITEMS_NO)"
proof -
  let ?P = "\<lambda>s. \<exists>u. s = db\<lparr>orderline := u\<rparr> \<and> (\<forall>(_, i)\<in>set (view ol_i_id u). 1 \<le> i \<and> i \<le> ITEMS_NO)"
  have step: "\<exists>s'. order_line W w d o_id wtax dtax disc ls sups its qs j s = Some s' \<and> ?P s'" if "j < n" "?P s" for j s
  proof -
    obtain u where s: "s = db\<lparr>orderline := u\<rparr>" "\<forall>(_, i)\<in>set (view ol_i_id u). 1 \<le> i \<and> i \<le> ITEMS_NO" using \<open>?P s\<close> by blast
    have it: "1 \<le> its ! j" "its ! j \<le> ITEMS_NO" "its ! j \<in> keys (item db)" using assms(3,5) that(1) by simp_all
    then obtain r where r: "map_of (item db) (its ! j) = Some r" by (auto simp: keys_map_of)
    have "\<exists>x. s_dist_of d rec = Some x" for rec :: "'a stock_t" using assms(6,7) by (simp add: s_dist_of_def) presburger
    then obtain x where x: "(case map_of (stock db) (w, its ! j) of None \<Rightarrow> Some [] | Some rec \<Rightarrow> s_dist_of d rec) = Some x"
      by (cases "map_of (stock db) (w, its ! j)") auto
    let ?k = "(w, d, o_id, ls ! j)"
    obtain l where l: "order_line W w d o_id wtax dtax disc ls sups its qs j s = Some (s\<lparr>orderline := t_insert ?k l (orderline s)\<rparr>)"
      "ol_i_id l = its ! j"
      using assms(1-4) \<open>j < n\<close> r x s(1) by (simp add: order_line_def Let_def rd_def)
    have "\<forall>(_, i)\<in>set (view ol_i_id (t_insert ?k l u)). 1 \<le> i \<and> i \<le> ITEMS_NO" using s(2) l(2) it by (simp add: view_insert)
    then show ?thesis using l(1) s(1) by auto
  qed
  have "\<exists>s'. fold_opt (order_line W w d o_id wtax dtax disc ls sups its qs) [0..<n] db = Some s' \<and> ?P s'"
    by (rule fold_opt_returns) (use step assms(8) in \<open>auto intro: exI [of _ "orderline db"]\<close>)
  then show ?thesis by blast
qed

lemma newOrder_returns:
  assumes "complete W m db" "1 \<le> w" "w \<le> warehouseCount W" "1 \<le> d" "d \<le> 10" "1 \<le> c" "c \<le> 3000" "m + 1 < 2 ^ 31"
    "length ls = n" "length sups = n" "length its = n" "length qs = n"
    "\<forall>i\<in>set its. 1 \<le> i \<and> i \<le> ITEMS_NO" "\<forall>q\<in>set qs. 1 \<le> q \<and> q \<le> 10"
  shows "\<exists>db'. newOrder W w d c ls sups its qs t db = Some db' \<and> complete W (m + 1) db'"
proof -
  have r: "records W m db" using assms(1) by (simp add: complete_def)
  obtain wr where wr: "map_of (warehouse db) w = Some wr" using records_D(1) [OF r assms(2,3)] by (auto simp: map_of_view)
  obtain cr where cr: "map_of (customer db) (w, d, c) = Some cr" using records_D(3) [OF r assms(2-7)] by (auto simp: keys_map_of)
  obtain dr where dr: "map_of (district db) (w, d) = Some dr" "length (d_name dr) \<le> 10" "0 \<le> d_next_o_id dr" "d_next_o_id dr \<le> m"
    using records_D(2) [OF r assms(2-5)] by (auto simp: district_heads_def map_of_view)
  define o_id where "o_id = d_next_o_id dr"
  have ic: "icheck (o_id + 1) = Some (o_id + 1)" using dr assms(8) by (simp add: icheck_def o_id_def)
  obtain ds where ds: "t_update (w, d) (\<lambda>rec. Some (rec\<lparr>d_next_o_id := o_id + 1\<rparr>)) (district db) = Some ds"
    by (rule exE [OF t_update_pure])
  define db1 where "db1 = (let db = db\<lparr>district := ds\<rparr>;
       db = db\<lparr>order := t_insert (w, d, o_id)
         \<lparr>o_c_id = c, o_entry_d = t, o_carrier_id = 0, o_ol_cnt = n_of_int (num W) (int (length ls)),
          o_all_local = n_of_int (num W) (if \<exists>sw\<in>set sups. sw \<noteq> w then 0 else 1)\<rparr> (order db)\<rparr>;
       db = (if order_wdc_index W then db\<lparr>order_wdc := t_insert (w, d, c, o_id) () (order_wdc db)\<rparr> else db)
     in db\<lparr>neworder := t_insert (w, d, o_id) () (neworder db)\<rparr>)"
  have f: "item db1 = item db" "stock db1 = stock db" "orderline db1 = orderline db" "warehouse db1 = warehouse db"
    "customer db1 = customer db" "customerwdl db1 = customerwdl db" "district db1 = ds" "tpcchistorycounter db1 = tpcchistorycounter db"
    by (simp_all add: db1_def Let_def)
  obtain st where st: "fold_opt (order_stock W w sups its qs) [0..<n] db1 = Some (db1\<lparr>stock := st\<rparr>)" "keys st = keys (stock db)"
    using order_stocks_return [OF assms(10-12,14), of W w db1] f by auto
  have its: "\<forall>i\<in>set its. 1 \<le> i \<and> i \<le> ITEMS_NO \<and> i \<in> keys (item (db1\<lparr>stock := st\<rparr>))" using assms(13) records_D(5) [OF r] f by simp
  have ol: "\<forall>(_, i)\<in>set (view ol_i_id (orderline (db1\<lparr>stock := st\<rparr>))). 1 \<le> i \<and> i \<le> ITEMS_NO" using records_D(6) [OF r] f by simp
  from order_lines_return [OF assms(9-12) its assms(4,5) ol, of W w o_id "w_tax wr" "d_tax dr" "c_discount cr"]
  obtain u where u: "fold_opt (order_line W w d o_id (w_tax wr) (d_tax dr) (c_discount cr) ls sups its qs) [0..<n] (db1\<lparr>stock := st\<rparr>)
      = Some (db1\<lparr>stock := st, orderline := u\<rparr>)" "\<forall>(_, i)\<in>set (view ol_i_id u). 1 \<le> i \<and> i \<le> ITEMS_NO" by auto
  have "newOrder W w d c ls sups its qs t db = Some (db1\<lparr>stock := st, orderline := u\<rparr>)"
    using wr cr dr(1) ic ds st(1) u(1) assms(9) unfolding newOrder_def db1_def Let_def o_id_def by simp
  moreover have "records W (m + 1) (db1\<lparr>stock := st, orderline := u\<rparr>)"
  proof -
    have h: "district_heads (db1\<lparr>stock := st, orderline := u\<rparr>) = view (\<lambda>r. (d_name r, d_next_o_id r)) ds"
      by (simp add: district_heads_def f)
    have hm: "map_of (view (\<lambda>r. (d_name r, d_next_o_id r)) ds) k =
        (if k = (w, d) then Some (d_name dr, o_id + 1) else map_of (district_heads db) k)" for k
      using t_update_map [OF ds, of k] dr(1) by (auto simp: map_of_view district_heads_def)
    have dist: "\<exists>n i. map_of (district_heads (db1\<lparr>stock := st, orderline := u\<rparr>)) (w', d') = Some (n, i) \<and> length n \<le> 10 \<and> 0 \<le> i \<and> i \<le> m + 1"
      if "1 \<le> w'" "w' \<le> warehouseCount W" "1 \<le> d'" "d' \<le> 10" for w' d'
      using records_D(2) [OF records_mono [OF r, of "m + 1"] that] dr(2-4) unfolding h hm o_id_def by auto
    show ?thesis unfolding records_def
      using dist records_D [OF r] u(2) st(2) by (simp add: f del: view_insert)
  qed
  ultimately show ?thesis using assms(1) f by (auto simp: complete_def)
qed

lemma random_lines_return:
  assumes "1 \<le> w" "w \<le> warehouseCount W" "warehouseCount W < 2 ^ 31 - 1"
  shows "\<exists>ls g'. random_lines W w n g = Some (ls, g') \<and> length ls = n \<and> (\<forall>(s, i, q)\<in>set ls. 1 \<le> i \<and> i \<le> ITEMS_NO \<and> 1 \<le> q \<and> q \<le> 10)"
proof (induction n arbitrary: g)
  case (Suc n)
  obtain sw g1 where sw: "(if cross_warehouses W
        then do { (r, g) \<leftarrow> urand 1 100 g; if r = 1 then urandexcept 1 (warehouseCount W) w g else Some (w, g) }
        else Some (w, g)) = Some (sw, g1)"
  proof -
    obtain p g2 where p: "urand 1 100 g = Some (p, g2)" using urand_returns [of 1 100 g] by auto
    obtain v g3 where "urandexcept 1 (warehouseCount W) w g2 = Some (v, g3)" using other_warehouse_returns [OF assms, of g2] by auto
    then show ?thesis using p that by (cases "cross_warehouses W"; cases "p = 1") auto
  qed
  obtain i g2 where i: "getItemID g1 = Some (i, g2)" "1 \<le> i" "i \<le> ITEMS_NO" using item_id_returns by blast
  obtain q g3 where q: "urand 1 10 g2 = Some (q, g3)" "1 \<le> q" "q \<le> 10" using urand_returns [of 1 10 g2] by auto
  obtain ls g4 where "random_lines W w n g3 = Some (ls, g4)" "length ls = n"
    "\<forall>(s, i, q)\<in>set ls. 1 \<le> i \<and> i \<le> ITEMS_NO \<and> 1 \<le> q \<and> q \<le> 10" using Suc.IH [of g3] by blast
  then show ?case using sw i q by auto
qed simp

lemma newOrderRnd_returns:
  assumes "complete W m db" "1 \<le> w" "w \<le> warehouseCount W" "warehouseCount W < 2 ^ 31 - 1" "m + 1 < 2 ^ 31"
  shows "\<exists>db' g'. newOrderRnd W w (db, g) = Some (db', g') \<and> complete W (m + 1) db'"
proof -
  obtain d g1 where d: "urand 1 10 g = Some (d, g1)" "1 \<le> d" "d \<le> 10" using urand_returns [of 1 10 g] by auto
  obtain c g2 where c: "getCustomerID g1 = Some (c, g2)" "1 \<le> c" "c \<le> 3000" using customer_id_returns by blast
  obtain n g3 where n: "urand 5 15 g2 = Some (n, g3)" "5 \<le> n" using urand_returns [of 5 15 g2] by auto
  obtain ls g4 where ls: "random_lines W w (nat n) g3 = Some (ls, g4)" "length ls = nat n"
    "\<forall>(s, i, q)\<in>set ls. 1 \<le> i \<and> i \<le> ITEMS_NO \<and> 1 \<le> q \<and> q \<le> 10" using random_lines_return [OF assms(2-4)] by blast
  have "\<exists>db'. newOrder W w d c [1..n] (map fst ls) (map (fst \<circ> snd) ls) (map (snd \<circ> snd) ls) currentTimestamp db = Some db' \<and> complete W (m + 1) db'"
    by (rule newOrder_returns [OF assms(1-3) d(2,3) c(2,3) assms(5), of _ "nat n"]) (use n ls in auto)
  then show ?thesis using d(1) c(1) n(1) ls(1) by (auto simp: newOrderRnd_def)
qed

lemma complete_mono: "complete W m db \<Longrightarrow> complete W (m + 1) db"
  using records_mono [of W m db "m + 1"] by (auto simp: complete_def)

lemma tx_returns_complete:
  assumes "complete W m db" "consistent W db" "1 \<le> w" "w \<le> warehouseCount W" "warehouseCount W < 2 ^ 31 - 1" "m + 1 < 2 ^ 31"
  shows "\<exists>k db' g'. tx W w (db, g) = Some (k, db', g') \<and> complete W (m + 1) db'"
proof -
  obtain r g1 where r: "getRand 0 10000 g = Some (r, g1)" "0 \<le> r" "r < 10000" using getRand_mix by blast
  note tx = tx_kinds [OF r, of W w db]
  obtain db1 g2 where 1: "paymentRnd W w (db, g1) = Some (db1, g2)" "complete W (m + 1) db1"
    using paymentRnd_returns [OF assms(1,3-6)] by blast
  obtain db2 g3 where 2: "deliveryRnd W w (db, g1) = Some (db2, g3)" "complete W m db2"
    using deliveryRnd_returns [OF assms(2,1)] by blast
  obtain db3 g4 where 3: "newOrderRnd W w (db, g1) = Some (db3, g4)" "complete W (m + 1) db3"
    using newOrderRnd_returns [OF assms(1,3-6)] by blast
  obtain s g5 where 4: "orderStatusRnd W w (db, g1) = Some (s, g5)" using orderStatusRnd_returns [OF assms(1)] by blast
  obtain n g6 where 5: "stockLevelRnd W w (db, g1) = Some (n, g6)" using stockLevelRnd_returns [OF assms(1,3,4)] assms(6) by fastforce
  show ?thesis unfolding tx
    using 1 2 3 4 5 complete_mono [OF 2(2)] complete_mono [OF assms(1)] by auto
qed

section \<open>The loop of a thread\<close>

text \<open>\<open>n\<close> transactions of a thread, each on a warehouse drawn at random, with the kinds of the transactions.\<close>

primrec worker :: "'f workload \<Rightarrow> nat \<Rightarrow> 'f db \<times> twister \<Rightarrow> (int list \<times> 'f db \<times> twister) option" where
  "worker W 0 s = Some ([], s)"
| "worker W (Suc n) s = do {
     (w_id, g) \<leftarrow> urand 1 (warehouseCount W) (snd s);
     (kind, s) \<leftarrow> tx W w_id (fst s, g);
     (kinds, s) \<leftarrow> worker W n s;
     Some (kind # kinds, s) }"

text \<open>A small workload: one warehouse with all its records and no orders, numbers that are integers.\<close>

definition sample_numbers :: "int numeric_ops" where
  "sample_numbers = \<lparr>n_of_int = (\<lambda>x. x), n_lit = (\<lambda>x _. x), n_add = (+), n_sub = (-), n_mul = (*), n_div = (div),
     n_less = (<), n_le = (\<le>), n_to_Integer = Some, n_print = (\<lambda>_. [])\<rparr>"

definition sample_workload :: "int workload" where
  "sample_workload = \<lparr>num = sample_numbers, order_wdc_index = True, warehouseCount = 1, tpcc_remove = True,
     manually_handle_isolation_anomalies = True, cross_warehouses = True, workerThreadId = 0\<rparr>"

definition sample_db :: "int db" where
  "sample_db =
     \<lparr>warehouse = [(1, \<lparr>w_name = [], w_street_1 = [], w_street_2 = [], w_city = [], w_state = [], w_zip = [], w_tax = 1, w_ytd = 0\<rparr>)],
      district = map (\<lambda>d. ((1, d), \<lparr>d_name = [], d_street_1 = [], d_street_2 = [], d_city = [], d_state = [], d_zip = [],
        d_tax = 1, d_ytd = 0, d_next_o_id = 1\<rparr>)) [1..10],
      customer = map (\<lambda>(d, c). ((1, d, c), \<lparr>c_first = [], c_middle = [], c_last = [], c_street_1 = [], c_street_2 = [], c_city = [],
        c_state = [], c_zip = [], c_phone = [], c_since = 1, c_credit = asc ''GC'', c_credit_lim = 0, c_discount = 0, c_balance = 0,
        c_ytd_payment = 0, c_payment_cnt = 0, c_delivery_cnt = 0, c_data = []\<rparr>)) (List.product [1..10] [1..3000]),
      customerwdl = [], history = [], neworder = [], order = [], order_wdc = [], orderline = [],
      item = map (\<lambda>i. (i, \<lparr>i_im_id = 1, i_name = [], i_price = 100, i_data = []\<rparr>)) [1..ITEMS_NO],
      stock = map (\<lambda>i. ((1, i), \<lparr>s_quantity = 50, s_dist_01 = [], s_dist_02 = [], s_dist_03 = [], s_dist_04 = [], s_dist_05 = [],
        s_dist_06 = [], s_dist_07 = [], s_dist_08 = [], s_dist_09 = [], s_dist_10 = [], s_ytd = 0, s_order_cnt = 0, s_remote_cnt = 0,
        s_data = []\<rparr>)) [1..ITEMS_NO],
      tpcchistorycounter = 0\<rparr>"

lemma map_of_map_keys: "map_of (map (\<lambda>x. (h x, f x)) xs) (h x) = (if x \<in> set xs then Some (f x) else None)" if "inj h"
  using that by (induction xs) (auto simp: inj_eq)

lemma sample_numbers_exact: "exact_Integers (num sample_workload)"
  by (simp add: exact_Integers_def sample_workload_def sample_numbers_def)

lemma sample_db_consistent: "consistent sample_workload sample_db"
proof -
  have "sorted_wrt (<) (map (Pair (1 :: int)) [1..10 :: int])"
    unfolding sorted_wrt_map by (rule sorted_wrt_mono_rel [OF _ sorted_wrt_upto]) auto
  then show ?thesis
    by (simp add: consistent_defs next_ids_def order_heads_def ascending_def sample_db_def view_def keys_def comp_def)
qed

lemma sample_db_complete: "complete sample_workload 1 sample_db"
proof -
  have "map_of (district_heads sample_db) (1, d) = Some ([], 1)" if "1 \<le> d" "d \<le> 10" for d
    using that map_of_map_keys [of "Pair (1 :: int)" "\<lambda>_. ([], 1 :: int)" "[1..10]" d]
    by (simp add: district_heads_def sample_db_def view_def comp_def inj_def del: upto_rec_numeral)
  moreover have "(1, d, c) \<in> keys (customer sample_db)" if "1 \<le> d" "d \<le> 10" "1 \<le> c" "c \<le> 3000" for d c
    using that by (force simp: keys_def sample_db_def simp del: upto_rec_numeral)
  moreover have "(1, i) \<in> keys (stock sample_db)" "i \<in> keys (item sample_db)" if "1 \<le> i" "i \<le> ITEMS_NO" for i
    using that by (force simp: keys_def sample_db_def simp del: upto_rec_numeral)+
  moreover have "map_of (view w_name (warehouse sample_db)) 1 = Some []" by (simp add: sample_db_def view_def)
  moreover have "orderline sample_db = []" "customerwdl sample_db = []" "tpcchistorycounter sample_db = 0" by (simp_all add: sample_db_def)
  moreover have "1 \<le> w \<and> w \<le> warehouseCount sample_workload \<longleftrightarrow> w = 1" for w by (auto simp: sample_workload_def)
  ultimately show ?thesis unfolding complete_def records_def by (simp add: view_def [of _ "[]"])
qed

lemma worker_step:
  assumes "complete W m db" "consistent W db" "exact_Integers (num W)" "1 \<le> warehouseCount W" "warehouseCount W < 2 ^ 31 - 1"
    "m + int n < 2 ^ 31"
  shows "\<exists>kinds db' g'. worker W n (db, g) = Some (kinds, db', g') \<and> length kinds = n \<and> set kinds \<subseteq> {0..4}
    \<and> consistent W db' \<and> complete W (m + int n) db'"
  using assms(1,2,6)
proof (induction n arbitrary: m db g)
  case (Suc n)
  obtain w g1 where w: "urand 1 (warehouseCount W) g = Some (w, g1)" "1 \<le> w" "w \<le> warehouseCount W"
    using urand_returns [of 1 "warehouseCount W" g] assms(4,5) by auto
  obtain k db1 g2 where t: "tx W w (db, g1) = Some (k, db1, g2)" "complete W (m + 1) db1"
    using tx_returns_complete [OF Suc.prems(1,2) w(2,3) assms(5)] Suc.prems(3) by fastforce
  have c: "consistent W db1" by (rule tx_keeps_consistent [OF t(1) Suc.prems(2) assms(3)])
  have k: "k \<in> {0..4}"
  proof -
    obtain r g3 where r: "getRand 0 10000 g1 = Some (r, g3)" "0 \<le> r" "r < 10000" using getRand_mix by blast
    show ?thesis using t(1) unfolding tx_kinds [OF r] by (auto split: if_splits)
  qed
  have "m + 1 + int n < 2 ^ 31" using Suc.prems(3) by simp
  from Suc.IH [OF t(2) c this, of g2] show ?case using w(1) t(1) k by (fastforce simp: algebra_simps)
qed auto

section \<open>Properties\<close>

text \<open>C4. A thread never stops early: from consistent tables that hold the records of all warehouses it runs any
  number of transactions for which the counters have room, each returning, from any state of the generator;
  the tables stay consistent and complete.\<close>

theorem worker_runs:
  assumes "complete W m db" "consistent W db" "exact_Integers (num W)" "1 \<le> warehouseCount W" "warehouseCount W < 2 ^ 31 - 1"
    "m + int n < 2 ^ 31"
  shows "\<exists>kinds db' g'. worker W n (db, g) = Some (kinds, db', g') \<and> length kinds = n \<and> set kinds \<subseteq> {0..4}
    \<and> consistent W db' \<and> complete W (m + int n) db'"
  by (rule worker_step [OF assms])

theorem worker_runs_witness:
  "\<exists>kinds db' g'. worker sample_workload 1000000 (sample_db, mt_init 19650218) = Some (kinds, db', g') \<and> length kinds = 1000000
    \<and> consistent sample_workload db'"
  using worker_runs [OF sample_db_complete sample_db_consistent sample_numbers_exact, of 1000000 "mt_init 19650218"]
  by (auto simp: sample_workload_def)

end
