(* ===== verification/Reports.thy ===== *)
theory Reports
  imports Progress
begin

text \<open>
  What the transactions compute: the stock level, the customer of a name, the latest order of a customer,
  and what a delivery changes.
\<close>

section \<open>Scans that collect\<close>

lemma scan_loop_collect:
  "scan_loop (\<lambda>k r s. Some (if P k then (True, s @ [h k r]) else (False, s))) t s =
   Some (s @ map (\<lambda>(k, r). h k r) (takeWhile (\<lambda>e. P (fst e)) t))"
proof (induction t arbitrary: s)
  case (Cons e t)
  then show ?case by (cases e) auto
qed simp

lemma scan_collect:
  assumes "ascending t" and down: "\<And>x y. key \<le> x \<Longrightarrow> x < y \<Longrightarrow> P y \<Longrightarrow> P x"
  shows "scan key (\<lambda>k r s. Some (if P k then (True, s @ [h k r]) else (False, s))) t s =
    Some (s @ map (\<lambda>(k, r). h k r) (filter (\<lambda>e. key \<le> fst e \<and> P (fst e)) t))"
proof -
  have "takeWhile (\<lambda>e. P (fst e)) u = filter (\<lambda>e. P (fst e)) u" if "ascending u" "\<forall>e\<in>set u. key \<le> fst e" for u :: "('a, 'b) table"
    using that
  proof (induction u)
    case (Cons e u)
    then show ?case using down [of "fst e"] by (cases e) (auto intro!: filter_False [symmetric])
  qed simp
  moreover have "ascending (filter (\<lambda>e. key \<le> fst e) t)" using assms(1)
    by (auto simp: ascending_def sorted_wrt_map intro: sorted_wrt_filter)
  ultimately show ?thesis using assms(1)
    by (simp add: scan_def dropWhile_ascending scan_loop_collect conj_commute)
qed

section \<open>Stock level\<close>

definition recent_items :: "int \<Rightarrow> int \<Rightarrow> int \<Rightarrow> 'f db \<Rightarrow> int set" where
  "recent_items w d next db =
     {ol_i_id r | r. \<exists>i l. ((w, d, i, l), r) \<in> set (orderline db) \<and> next - 20 \<le> i \<and> i < next}"

lemma distinct_sorted_adj: "sorted xs \<Longrightarrow> distinct (remdups_adj xs)"
  by (induction xs rule: remdups_adj.induct) auto

lemma count_low:
  "fold_opt (\<lambda>i count. do { q \<leftarrow> f i; Some (count + (if low q then 1 else 0)) }) xs c = Some (n :: nat) \<Longrightarrow>
   n = c + length (filter (\<lambda>i. \<exists>q. f i = Some q \<and> low q) xs)"
proof (induction xs arbitrary: c)
  case (Cons x xs)
  then show ?case by (cases "f x") (force split: if_splits)+
qed simp

lemma stockLevel_spec:
  assumes "stockLevel W w d threshold db = Some n" "ascending (orderline db)" "map_of (district db) (w, d) = Some r"
    "list_all (\<lambda>((_, _, _, l), _). int_ok l) (orderline db)"
  shows "n = card {i \<in> recent_items w d (d_next_o_id r) db.
    \<exists>s. map_of (stock db) (w, i) = Some s \<and> n_less (num W) (s_quantity s) (n_of_int (num W) threshold)}"
proof -
  define nx where "nx = d_next_o_id r"
  let ?key = "(w, d, nx - 20, minInteger)"
  define P where "P = (\<lambda>(ol_w_id, ol_d_id, ol_o_id, _ :: int). ol_w_id = w \<and> ol_d_id = d \<and> ol_o_id < nx \<and> ol_o_id \<ge> nx - 20)"
  have m: "icheck (nx - 20) = Some (nx - 20)" using assms(1,3) by (auto simp: stockLevel_def icheck_def nx_def split: bind_splits if_splits)
  have cb: "(\<lambda>(ol_w_id, ol_d_id, ol_o_id, _) rec items.
          Some (if ol_w_id = w \<and> ol_d_id = d \<and> ol_o_id < nx \<and> ol_o_id \<ge> nx - 20
                then (True, items @ [ol_i_id rec]) else (False, items))) =
      (\<lambda>k rec items. Some (if P k then (True, items @ [ol_i_id rec]) else (False, items)))"
    by (auto simp: fun_eq_iff P_def)
  have down: "P x" if "?key \<le> x" "x < y" "P y" for x y
    using that by (cases x; cases y) (auto simp: P_def less_eq_prod_def less_prod_def)
  define items where "items = map (\<lambda>(k, r). ol_i_id r) (filter (\<lambda>e. ?key \<le> fst e \<and> P (fst e)) (orderline db))"
  have it: "scan ?key (\<lambda>k rec items. Some (if P k then (True, items @ [ol_i_id rec]) else (False, items))) (orderline db) [] = Some items"
    using scan_collect [OF assms(2), of ?key P "\<lambda>_. ol_i_id" "[]"] down by (simp add: items_def)
  have "set items = recent_items w d nx db"
  proof (intro set_eqI iffI)
    fix x assume "x \<in> set items"
    then obtain a b i l rec where "((a, b, i, l), rec) \<in> set (orderline db)" "P (a, b, i, l)" "x = ol_i_id rec"
      by (auto simp: items_def)
    then show "x \<in> recent_items w d nx db" unfolding recent_items_def P_def by auto
  next
    fix x assume "x \<in> recent_items w d nx db"
    then obtain i l rec where e: "((w, d, i, l), rec) \<in> set (orderline db)" "nx - 20 \<le> i" "i < nx" "x = ol_i_id rec"
      unfolding recent_items_def by blast
    have "int_ok l" using e(1) assms(4) by (auto simp: list_all_iff)
    then have "?key \<le> (w, d, i, l) \<and> P (w, d, i, l)" using e(2,3) by (simp add: P_def int_ok_def minInteger_def less_eq_prod_def)
    then have "((w, d, i, l), rec) \<in> set (filter (\<lambda>e. ?key \<le> fst e \<and> P (fst e)) (orderline db))" using e(1) by simp
    then show "x \<in> set items" unfolding items_def e(4) set_map by (rule rev_image_eqI) simp
  qed
  note items_set = this
  have "fold_opt (\<lambda>i_id count. do {
         quantity \<leftarrow> map_option s_quantity (map_of (stock db) (w, i_id));
         Some (count + (if n_less (num W) quantity (n_of_int (num W) threshold) then 1 else 0)) })
       (remdups_adj (sort items)) 0 = Some n"
    using assms(1,3) m it by (simp add: stockLevel_def Let_def cb [symmetric] nx_def)
  from count_low [OF this] have "n = length (filter (\<lambda>i. \<exists>q. map_option s_quantity (map_of (stock db) (w, i)) = Some q \<and>
      n_less (num W) q (n_of_int (num W) threshold)) (remdups_adj (sort items)))" by simp
  moreover have "(\<lambda>i. \<exists>q. map_option s_quantity (map_of (stock db) (w, i)) = Some q \<and> n_less (num W) q (n_of_int (num W) threshold)) =
      (\<lambda>i. \<exists>s. map_of (stock db) (w, i) = Some s \<and> n_less (num W) (s_quantity s) (n_of_int (num W) threshold))" by auto
  ultimately have "n = length (filter (\<lambda>i. \<exists>s. map_of (stock db) (w, i) = Some s \<and>
      n_less (num W) (s_quantity s) (n_of_int (num W) threshold)) (remdups_adj (sort items)))" by (simp only:)
  moreover have "distinct (remdups_adj (sort items))" by (simp add: distinct_sorted_adj)
  ultimately show ?thesis using items_set by (simp add: nx_def distinct_length_filter Int_def conj_commute)
qed

section \<open>The customer of a name\<close>

lemma vc_eq_iff: "vc_eq a b \<longleftrightarrow> a = b"
proof -
  have "memcmp a b (length a) = 0 \<longleftrightarrow> a = b" if "length a = length b"
    using memcmp_0 [of a "length a" b] that by simp
  then show ?thesis by (auto simp: vc_eq_def memcmp_0)
qed

text \<open>The customers of a name, in the order of their first names.\<close>

definition namesakes :: "int \<Rightarrow> int \<Rightarrow> varchar \<Rightarrow> 'f db \<Rightarrow> int list" where
  "namesakes w d name db = map (\<lambda>(k, r). cw_c_id r) (filter (\<lambda>((w', d', l, _), _). (w', d', l) = (w, d, name)) (customerwdl db))"

lemma middle_customer_spec:
  assumes "ascending (customerwdl db)"
  shows "middle_customer w d name db =
    (let ids = namesakes w d name db in Some (if ids = [] then None else Some (ids ! ((length ids - 1) div 2))))"
proof -
  let ?key = "(w, d, name, [])"
  define P where "P = (\<lambda>(w', d', l, _ :: varchar). w' = w \<and> d' = d \<and> l = name)"
  have cb: "(\<lambda>(c_w_id, c_d_id, last, _) rec ids.
          Some (if c_w_id = w \<and> c_d_id = d \<and> vc_eq last name then (True, ids @ [cw_c_id rec]) else (False, ids))) =
      (\<lambda>k rec ids. Some (if P k then (True, ids @ [cw_c_id rec]) else (False, ids)))"
    by (auto simp: fun_eq_iff P_def vc_eq_iff)
  have down: "P x" if "?key \<le> x" "x < y" "P y" for x y
    using that by (cases x; cases y) (auto simp: P_def less_eq_prod_def less_prod_def)
  have above: "?key \<le> k" if "P k" for k using that by (cases k) (auto simp: P_def less_eq_prod_def)
  have "filter (\<lambda>e. ?key \<le> fst e \<and> P (fst e)) (customerwdl db) = filter (\<lambda>((w', d', l, _), _). (w', d', l) = (w, d, name)) (customerwdl db)"
    by (rule filter_cong [OF refl]) (use above in \<open>auto simp: P_def\<close>)
  then have "scan ?key (\<lambda>k rec ids. Some (if P k then (True, ids @ [cw_c_id rec]) else (False, ids))) (customerwdl db) [] =
      Some (namesakes w d name db)"
    using scan_collect [OF assms, of ?key P "\<lambda>_. cw_c_id" "[]"] down by (simp add: namesakes_def)
  then have "middle_customer w d name db = (let ids = namesakes w d name db in
      if length ids = 0 then Some None
      else do { c \<leftarrow> rd ids (if length ids mod 2 = 0 then length ids div 2 - 1 else length ids div 2); Some (Some c) })"
    by (simp add: middle_customer_def cb Let_def)
  moreover have "(if n mod 2 = 0 then n div 2 - 1 else n div 2) = (n - 1) div 2" "(n - 1) div 2 < n" if "n \<noteq> 0" for n :: nat
    using that by presburger+
  ultimately show ?thesis by (simp add: Let_def rd_def)
qed

section \<open>The latest order\<close>

text \<open>The last entry of the index up to a key.\<close>

lemma scanDesc_first:
  assumes "ascending t"
  shows "scanDesc key (\<lambda>k r s. Some (False, h k r s)) t s =
    (case rev (filter (\<lambda>e. fst e \<le> key) t) of [] \<Rightarrow> Some s | (k, r) # _ \<Rightarrow> Some (h k r s))"
  using assms by (simp add: scanDesc_def takeWhile_le_ascending split: list.split prod.split)

lemma last_greatest:
  assumes "ascending t" "rev (filter (\<lambda>e. fst e \<le> key) t) = e # u"
  shows "e \<in> set t" "fst e \<le> key" "e' \<in> set t \<Longrightarrow> fst e' \<le> key \<Longrightarrow> fst e' \<le> fst e"
proof -
  have f: "filter (\<lambda>e. fst e \<le> key) t = rev u @ [e]" using assms(2) by (metis rev.simps(2) rev_rev_ident)
  then have s: "set (filter (\<lambda>e. fst e \<le> key) t) = insert e (set u)" by simp
  then show "e \<in> set t" "fst e \<le> key" by auto
  have "sorted (map fst (filter (\<lambda>e. fst e \<le> key) t))" using ascending_sorted [OF assms(1)] by (rule sorted_filter)
  then have "\<forall>e'\<in>set u. fst e' \<le> fst e" unfolding f by (simp add: sorted_append)
  then show "e' \<in> set t \<Longrightarrow> fst e' \<le> key \<Longrightarrow> fst e' \<le> fst e" using s by fastforce
qed

definition orders_of :: "int \<Rightarrow> int \<Rightarrow> int \<Rightarrow> 'f db \<Rightarrow> int set" where
  "orders_of w d c db = {i. \<exists>m. map_of (order_heads db) (w, d, i) = Some (c, m)}"

lemma latest_order:
  assumes "consistent W db" "order_wdc_index W" "\<forall>(w, d, c, i)\<in>keys (order_wdc db). int_ok i"
  obtains u where "rev (filter (\<lambda>e. fst e \<le> (w, d, c, maxInteger)) (order_wdc db)) = []" "orders_of w d c db = {}"
  | w' d' c' i u where "rev (filter (\<lambda>e. fst e \<le> (w, d, c, maxInteger)) (order_wdc db)) = ((w', d', c', i), ()) # u"
      "i \<in> orders_of w' d' c' db" "(w', d', c') \<le> (w, d, c)"
      "(w', d', c') = (w, d, c) \<longleftrightarrow> orders_of w d c db \<noteq> {}" "\<And>j. (w', d', c') = (w, d, c) \<Longrightarrow> j \<in> orders_of w d c db \<Longrightarrow> j \<le> i"
proof -
  have asc: "ascending (order_wdc db)" and ix: "(w, d, c, i) \<in> keys (order_wdc db) \<longleftrightarrow> i \<in> orders_of w d c db" for w d c i
    using assms(1,2) by (auto simp: consistent_def index_exact_def orders_of_def)
  have below: "(w, d, c, j) \<le> (w, d, c, maxInteger)" "((w, d, c, j), ()) \<in> set (order_wdc db)" if "j \<in> orders_of w d c db" for j
  proof -
    have k: "(w, d, c, j) \<in> keys (order_wdc db)" using that ix by simp
    then have "int_ok j" using assms(3) by auto
    then show "(w, d, c, j) \<le> (w, d, c, maxInteger)" by (simp add: int_ok_def maxInteger_def less_eq_prod_def)
    show "((w, d, c, j), ()) \<in> set (order_wdc db)" using k by (auto simp: keys_def)
  qed
  show ?thesis
  proof (cases "rev (filter (\<lambda>e. fst e \<le> (w, d, c, maxInteger)) (order_wdc db))")
    case Nil
    then have "orders_of w d c db = {}" using below by (fastforce simp: filter_empty_conv)
    then show ?thesis using that(1) Nil by blast
  next
    case (Cons e u)
    obtain w' d' c' i where e: "e = ((w', d', c', i), ())" by (metis old.unit.exhaust surj_pair)
    note g = last_greatest [OF asc Cons]
    have later: "(w, d, c, j) \<le> (w', d', c', i)" if "j \<in> orders_of w d c db" for j
      using g(3) [of "((w, d, c, j), ())"] below [OF that] e by simp
    have i: "i \<in> orders_of w' d' c' db" using g(1) e ix [of w' d' c' i] by (force simp: keys_def)
    have le: "(w', d', c') \<le> (w, d, c)" using g(2) e by (auto simp: less_eq_prod_def)
    show ?thesis
    proof (rule that(2) [OF _ i le])
      show "rev (filter (\<lambda>e. fst e \<le> (w, d, c, maxInteger)) (order_wdc db)) = ((w', d', c', i), ()) # u" using Cons e by simp
      show "(w', d', c') = (w, d, c) \<longleftrightarrow> orders_of w d c db \<noteq> {}"
        using i later le by (fastforce simp: less_eq_prod_def)
      show "j \<le> i" if "(w', d', c') = (w, d, c)" "j \<in> orders_of w d c db" for j
        using later [OF that(2)] that(1) by (auto simp: less_eq_prod_def)
    qed
  qed
qed

lemma lines_of_pair: "\<exists>l. (if i = -1 then Some (-1, None) else do { l \<leftarrow> lines_of w d i db; Some (i, l) }) = Some (i, l)"
  using lines_of_returns [of w d i db] by auto

lemma orderStatusId_order:
  assumes "order_wdc_index W" "ascending (order_wdc db)"
  shows "\<exists>l. orderStatusId W w d c db = Some (case rev (filter (\<lambda>e. fst e \<le> (w, d, c, maxInteger)) (order_wdc db)) of [] \<Rightarrow> -1 | ((_, _, _, i), _) # _ \<Rightarrow> i, l)"
proof -
  let ?i = "case rev (filter (\<lambda>e. fst e \<le> (w, d, c, maxInteger)) (order_wdc db)) of [] \<Rightarrow> -1 | ((_, _, _, i), _) # _ \<Rightarrow> i"
  have "scanDesc (w, d, c, maxInteger) (\<lambda>(_, _, _, oid) _ _. Some (False, oid)) (order_wdc db) (-1) = Some ?i"
    using scanDesc_first [OF assms(2), of "(w, d, c, maxInteger)" "\<lambda>(_, _, _, oid) _ _. oid" "-1"]
    by (simp add: split_def split: list.splits)
  then have "orderStatusId W w d c db = (if ?i = -1 then Some (-1, None) else do { l \<leftarrow> lines_of w d ?i db; Some (?i, l) })"
    unfolding orderStatusId_def by (simp only: assms(1) if_True Option.bind.simps)
  then show ?thesis using lines_of_pair by (simp only:)
qed

lemma orderStatusName_order:
  assumes "middle_customer w d name db = Some (Some c)" "order_wdc_index W" "ascending (order_wdc db)"
  shows "\<exists>l. orderStatusName W w d name db = Some (case rev (filter (\<lambda>e. fst e \<le> (w, d, c, maxInteger)) (order_wdc db)) of
      [] \<Rightarrow> -1 | ((w', d', c', i), _) # _ \<Rightarrow> if (w', d', c') = (w, d, c) then i else -1, l)"
proof -
  let ?i = "case rev (filter (\<lambda>e. fst e \<le> (w, d, c, maxInteger)) (order_wdc db)) of
      [] \<Rightarrow> -1 | ((w', d', c', i), _) # _ \<Rightarrow> if (w', d', c') = (w, d, c) then i else -1"
  have "scanDesc (w, d, c, maxInteger) (\<lambda>(o_w_id, o_d_id, o_cid, oid) _ s.
       Some (False, if o_w_id = w \<and> o_d_id = d \<and> o_cid = c then oid else s)) (order_wdc db) (-1) = Some ?i"
    using scanDesc_first [OF assms(3), of "(w, d, c, maxInteger)" "\<lambda>(w', d', c', oid) _ s. if w' = w \<and> d' = d \<and> c' = c then oid else s" "-1"]
    by (simp add: split_def split: list.splits)
  then have "orderStatusName W w d name db = (if ?i = -1 then Some (-1, None) else do { l \<leftarrow> lines_of w d ?i db; Some (?i, l) })"
    unfolding orderStatusName_def by (simp only: assms(1,2) if_True Option.bind.simps option.case)
  then show ?thesis using lines_of_pair by (simp only:)
qed

section \<open>What a delivery changes\<close>

lemma deliver_lines_effect:
  assumes "fold_opt (deliver_line N w d i t) ls (db, x) = Some (db', tot)" "distinct ls"
  shows "(\<forall>k. map_of (orderline db') k = (if k \<in> (\<lambda>l. (w, d, i, l)) ` set ls
      then map_option (\<lambda>r. r\<lparr>ol_delivery_d := t\<rparr>) (map_of (orderline db) k) else map_of (orderline db) k))
    \<and> tot = foldl (\<lambda>x l. case map_of (orderline db) (w, d, i, l) of None \<Rightarrow> x | Some r \<Rightarrow> n_add N x (ol_amount r)) x ls"
  using assms
proof (induction ls arbitrary: db x)
  case (Cons l ls)
  let ?key = "(w, d, i, l)"
  obtain u where u: "t_update ?key (\<lambda>rec. Some (rec\<lparr>ol_delivery_d := t\<rparr>)) (orderline db) = Some u" by (rule exE [OF t_update_pure])
  let ?x = "case map_of (orderline db) ?key of None \<Rightarrow> x | Some r \<Rightarrow> n_add N x (ol_amount r)"
  have rest: "fold_opt (deliver_line N w d i t) ls (db\<lparr>orderline := u\<rparr>, ?x) = Some (db', tot)"
  proof -
    have "deliver_line N w d i t l (db, x) = Some (db\<lparr>orderline := u\<rparr>, ?x)" by (simp add: deliver_line_def u)
    then show ?thesis using Cons.prems(1) by simp
  qed
  have um: "map_of u k = (if k = ?key then map_option (\<lambda>r. r\<lparr>ol_delivery_d := t\<rparr>) (map_of (orderline db) ?key) else map_of (orderline db) k)" for k
    using t_update_map [OF u, of k] by (auto split: option.split)
  have "foldl (\<lambda>x l. case map_of u (w, d, i, l) of None \<Rightarrow> x | Some r \<Rightarrow> n_add N x (ol_amount r)) ?x ls =
      foldl (\<lambda>x l. case map_of (orderline db) (w, d, i, l) of None \<Rightarrow> x | Some r \<Rightarrow> n_add N x (ol_amount r)) ?x ls"
    using Cons.prems(2) by (intro foldl_cong refl) (auto simp: um)
  then show ?case using Cons.IH [OF rest] Cons.prems(2) um by auto
qed simp

text \<open>The delivery of order \<open>i\<close> with \<open>n\<close> lines: the carrier, the lines and the customer, and nothing else.\<close>

definition delivered :: "'f numeric_ops \<Rightarrow> int \<Rightarrow> int \<Rightarrow> int \<Rightarrow> int \<Rightarrow> int \<Rightarrow> 'f order_t \<Rightarrow> int \<Rightarrow> 'f db \<Rightarrow> 'f db \<Rightarrow> bool" where
  "delivered N w d carrier t i r n db db' \<longleftrightarrow>
     (let lines = (\<lambda>l. (w, d, i, l)) ` {1..n};
          tot = foldl (\<lambda>x l. case map_of (orderline db) (w, d, i, l) of None \<Rightarrow> x | Some r \<Rightarrow> n_add N x (ol_amount r)) (n_of_int N 0) [1..n]
      in map_of (order db') = (map_of (order db))((w, d, i) \<mapsto> r\<lparr>o_carrier_id := carrier\<rparr>) \<and>
         map_of (orderline db') = (\<lambda>k. if k \<in> lines then map_option (\<lambda>r. r\<lparr>ol_delivery_d := t\<rparr>) (map_of (orderline db) k)
           else map_of (orderline db) k) \<and>
         map_of (customer db') = (map_of (customer db))((w, d, o_c_id r) :=
           map_option (\<lambda>c. c\<lparr>c_balance := n_add N (c_balance c) tot, c_delivery_cnt := n_add N (c_delivery_cnt c) (n_of_int N 1)\<rparr>)
             (map_of (customer db) (w, d, o_c_id r))) \<and>
         warehouse db' = warehouse db \<and> district db' = district db \<and> customerwdl db' = customerwdl db \<and>
         history db' = history db \<and> order_wdc db' = order_wdc db \<and> item db' = item db \<and> stock db' = stock db)"

lemma deliver_order_effect:
  assumes "deliver_order W w carrier t d i db = Some db'" "consistent W db" "map_of (order db) (w, d, i) = Some r"
    "n_to_Integer (num W) (o_ol_cnt r) = Some n" "1 \<le> n"
  shows "delivered (num W) w d carrier t i r n db db' \<and> neworder db' = neworder db"
proof -
  have asc: "ascending (order db)" "ascending (orderline db)" using assms(2) by (simp_all add: consistent_def order_heads_def)
  have "map_of (order_heads db) (w, d, i) = Some (o_c_id r, o_ol_cnt r)" using assms(3) by (simp add: order_heads_def map_of_view)
  from consistent_lines [OF assms(2) this] have ln: "{l. (w, d, i, l) \<in> keys (orderline db)} = {1..n}" using assms(4) by auto
  have "n \<noteq> minInteger" using assms(5) by (simp add: minInteger_def)
  from order_of_found [OF asc(1) assms(3,4) this] have o: "order_of W w d i db = Some (Some (n, Some (o_c_id r)))" .
  obtain orders where ord: "t_update (w, d, i) (\<lambda>rec. Some (rec\<lparr>o_carrier_id := carrier\<rparr>)) (order db) = Some orders"
    by (rule exE [OF t_update_pure])
  have "(w, d, i, n) \<in> keys (orderline db)" using ln assms(5) by auto
  then have last: "last_line_there w d i n (db\<lparr>order := orders\<rparr>) = Some True"
    using last_line_there_iff [of "db\<lparr>order := orders\<rparr>" w d i n] asc(2) by simp
  obtain u tot where u: "fold_opt (deliver_line (num W) w d i t) [1..n] (db\<lparr>order := orders\<rparr>, n_of_int (num W) 0)
      = Some (db\<lparr>order := orders, orderline := u\<rparr>, tot)"
    using deliver_lines_return [of "num W" w d i t "[1..n]" "db\<lparr>order := orders\<rparr>" "n_of_int (num W) 0"] by auto
  note eff = deliver_lines_effect [OF u, simplified]
  let ?f = "\<lambda>rec. rec\<lparr>c_balance := n_add (num W) (c_balance rec) tot, c_delivery_cnt := n_add (num W) (c_delivery_cnt rec) (n_of_int (num W) 1)\<rparr>"
  obtain cs where cs: "t_update (w, d, o_c_id r) (\<lambda>rec. Some (?f rec)) (customer db) = Some cs" by (rule exE [OF t_update_pure])
  have "db' = db\<lparr>order := orders, orderline := u, customer := cs\<rparr>"
    using assms(1) o ord last u cs
    by (cases "manually_handle_isolation_anomalies W") (simp_all add: deliver_order_def Let_def)
  moreover have "map_of orders = (map_of (order db))((w, d, i) \<mapsto> r\<lparr>o_carrier_id := carrier\<rparr>)"
    using t_update_map [OF ord] assms(3) by (auto simp: fun_eq_iff)
  moreover have "map_of cs = (map_of (customer db))((w, d, o_c_id r) := map_option ?f (map_of (customer db) (w, d, o_c_id r)))"
    using t_update_map [OF cs] by (auto simp: fun_eq_iff split: option.split)
  ultimately show ?thesis using eff by (simp add: delivered_def Let_def fun_eq_iff)
qed

lemma keys_remove: "ascending t \<Longrightarrow> keys (fst (t_remove k t)) = keys t - {k}"
  by (rule set_eqI) (simp add: keys_map_of t_remove_map)

lemma deliver_district_effect:
  assumes "deliver_district W w carrier t d db = Some db'" "consistent W db" "tpcc_remove W"
    "\<forall>(_, _, j)\<in>keys (neworder db). minInteger < j"
  shows "(if \<exists>j. (w, d, j) \<in> keys (neworder db)
    then \<exists>i r n. (w, d, i) \<in> keys (neworder db) \<and> (\<forall>j. (w, d, j) \<in> keys (neworder db) \<longrightarrow> i \<le> j) \<and>
      keys (neworder db') = keys (neworder db) - {(w, d, i)} \<and>
      map_of (order db) (w, d, i) = Some r \<and> n_to_Integer (num W) (o_ol_cnt r) = Some n \<and>
      (n < 1 \<or> delivered (num W) w d carrier t i r n db db')
    else db' = db)"
proof -
  have asc: "ascending (neworder db)" using assms(2) by (simp add: consistent_def)
  show ?thesis
  proof (rule oldest_neworder_spec [OF asc, of w d])
    assume o: "oldest_neworder w d db = Some minInteger" and none: "\<And>j. minInteger \<le> j \<Longrightarrow> (w, d, j) \<notin> keys (neworder db)"
    have "(w, d, j) \<notin> keys (neworder db)" for j using none [of j] assms(4) by fastforce
    then show ?thesis using assms(1) o by (simp add: deliver_district_def)
  next
    fix i assume o: "oldest_neworder w d db = Some i" and i: "(w, d, i) \<in> keys (neworder db)"
      and least: "\<And>j. minInteger \<le> j \<Longrightarrow> (w, d, j) \<in> keys (neworder db) \<Longrightarrow> i \<le> j"
    define db1 where "db1 = db\<lparr>neworder := fst (t_remove (w, d, i) (neworder db))\<rparr>"
    have c1: "consistent W db1" using consistent_remove [OF assms(2)] by (simp add: db1_def)
    have "minInteger < i" using assms(4) i by auto
    then have d1: "deliver_order W w carrier t d i db1 = Some db'" using assms(1,3) o by (simp add: deliver_district_def db1_def)
    have k1: "keys (neworder db1) = keys (neworder db) - {(w, d, i)}"
      using keys_remove [OF asc] by (simp add: db1_def)
    have "(w, d, i) \<in> keys (order_heads db)" using i assms(2) by (auto simp: consistent_def)
    then obtain c m where m: "map_of (order_heads db) (w, d, i) = Some (c, m)" by (auto simp: keys_map_of)
    then obtain r where r: "map_of (order db) (w, d, i) = Some r" "o_ol_cnt r = m" by (auto simp: order_heads_def map_of_view)
    obtain n where n: "n_to_Integer (num W) (o_ol_cnt r) = Some n" using consistent_lines [OF assms(2) m] r(2) by auto
    have no: "neworder db' = neworder db1" using deliver_order_same [OF d1] by (simp add: same_orders_def)
    have "n < 1 \<or> delivered (num W) w d carrier t i r n db db'"
    proof (cases "n < 1")
      case False
      then have "delivered (num W) w d carrier t i r n db1 db'"
        using deliver_order_effect [OF d1 c1] r(1) n by (simp add: db1_def)
      then show ?thesis by (simp add: delivered_def db1_def Let_def cong: if_cong)
    qed simp
    moreover have "i \<le> j" if "(w, d, j) \<in> keys (neworder db)" for j using least [of j] that assms(4) by fastforce
    ultimately show ?thesis using i k1 no r(1) n by auto
  qed
qed

text \<open>Two new orders of one district, of customers 7 and 8, with a line each, in an otherwise empty database.\<close>

definition sample_orders :: "int db" where
  "sample_orders = sample_db\<lparr>
     district := [((1, 1), \<lparr>d_name = [], d_street_1 = [], d_street_2 = [], d_city = [], d_state = [], d_zip = [],
        d_tax = 1, d_ytd = 0, d_next_o_id = 7\<rparr>)],
     customer := [], neworder := [((1, 1, 5), ()), ((1, 1, 6), ())],
     order := [((1, 1, 5), \<lparr>o_c_id = 7, o_entry_d = 1, o_carrier_id = 0, o_ol_cnt = 1, o_all_local = 1\<rparr>),
               ((1, 1, 6), \<lparr>o_c_id = 8, o_entry_d = 1, o_carrier_id = 0, o_ol_cnt = 1, o_all_local = 1\<rparr>)],
     order_wdc := [((1, 1, 7, 5), ()), ((1, 1, 8, 6), ())],
     orderline := [((1, 1, 5, 1), \<lparr>ol_i_id = 3, ol_supply_w_id = 1, ol_delivery_d = 0, ol_quantity = 5, ol_amount = 100, ol_dist_info = []\<rparr>),
                   ((1, 1, 6, 1), \<lparr>ol_i_id = 4, ol_supply_w_id = 1, ol_delivery_d = 0, ol_quantity = 5, ol_amount = 200, ol_dist_info = []\<rparr>)],
     stock := [((1, 3), \<lparr>s_quantity = 9, s_dist_01 = [], s_dist_02 = [], s_dist_03 = [], s_dist_04 = [], s_dist_05 = [],
        s_dist_06 = [], s_dist_07 = [], s_dist_08 = [], s_dist_09 = [], s_dist_10 = [], s_ytd = 0, s_order_cnt = 0, s_remote_cnt = 0,
        s_data = []\<rparr>), ((1, 4), \<lparr>s_quantity = 50, s_dist_01 = [], s_dist_02 = [], s_dist_03 = [], s_dist_04 = [], s_dist_05 = [],
        s_dist_06 = [], s_dist_07 = [], s_dist_08 = [], s_dist_09 = [], s_dist_10 = [], s_ytd = 0, s_order_cnt = 0, s_remote_cnt = 0,
        s_data = []\<rparr>)]\<rparr>"

lemma sample_orders_consistent: "consistent sample_workload sample_orders"
proof -
  have "{l. l = (1 :: int)} = {1..1}" by auto
  then show ?thesis
    by (auto simp: consistent_defs next_ids_def order_heads_def sample_orders_def sample_workload_def sample_numbers_def view_def keys_def)
qed

section \<open>Properties\<close>

text \<open>C13. A delivery in a district without new orders changes nothing; otherwise it takes the new order with the
  smallest id and removes it from the new orders, sets the carrier of the order and the date of all its
  lines, adds the sum of their amounts to the balance of the order's customer and one to the deliveries,
  and changes nothing else.\<close>

theorem delivery_takes_oldest:
  assumes "deliver_district W w carrier t d db = Some db'" "consistent W db" "tpcc_remove W"
    "\<forall>(_, _, j)\<in>keys (neworder db). minInteger < j"
  shows "(if \<exists>j. (w, d, j) \<in> keys (neworder db)
    then \<exists>i r n. (w, d, i) \<in> keys (neworder db) \<and> (\<forall>j. (w, d, j) \<in> keys (neworder db) \<longrightarrow> i \<le> j) \<and>
      keys (neworder db') = keys (neworder db) - {(w, d, i)} \<and>
      map_of (order db) (w, d, i) = Some r \<and> n_to_Integer (num W) (o_ol_cnt r) = Some n \<and>
      (n < 1 \<or> delivered (num W) w d carrier t i r n db db')
    else db' = db)"
  by (rule deliver_district_effect [OF assms])

theorem delivery_takes_oldest_witness:
  "\<exists>db'. deliver_district sample_workload 1 2 1 1 sample_orders = Some db' \<and> keys (neworder db') = {(1, 1, 6)}"
proof -
  obtain db' where db': "deliver_district sample_workload 1 2 1 1 sample_orders = Some db'"
  proof -
    have "(1, 1, 5) \<in> keys (order_heads sample_orders)" by (simp add: order_heads_def sample_orders_def view_def keys_def)
    then have "\<exists>db'. deliver_order sample_workload 1 2 1 1 5 (sample_orders\<lparr>neworder := fst (t_remove (1, 1, 5) (neworder sample_orders))\<rparr>) = Some db'"
      using deliver_order_returns [OF consistent_remove [OF sample_orders_consistent], of 1 1 5] by (simp add: order_heads_def) blast
    moreover have "oldest_neworder 1 1 sample_orders = Some 5"
      by (simp add: oldest_neworder_def scan_def sample_orders_def minInteger_def)
    ultimately show ?thesis using that by (auto simp: deliver_district_def minInteger_def sample_workload_def)
  qed
  have k: "keys (neworder sample_orders) = {(1, 1, 5), (1, 1, 6)}" by (auto simp: sample_orders_def keys_def)
  have "\<forall>(_, _, j)\<in>keys (neworder sample_orders). minInteger < j" by (simp add: k minInteger_def)
  from delivery_takes_oldest [OF db' sample_orders_consistent _ this]
  have d: "if \<exists>j. (1, 1, j) \<in> keys (neworder sample_orders)
    then \<exists>i r n. (1, 1, i) \<in> keys (neworder sample_orders) \<and> (\<forall>j. (1, 1, j) \<in> keys (neworder sample_orders) \<longrightarrow> i \<le> j) \<and>
      keys (neworder db') = keys (neworder sample_orders) - {(1, 1, i)} \<and>
      map_of (order sample_orders) (1, 1, i) = Some r \<and> n_to_Integer (num sample_workload) (o_ol_cnt r) = Some n \<and>
      (n < 1 \<or> delivered (num sample_workload) 1 1 2 1 i r n sample_orders db')
    else db' = sample_orders" by (simp add: sample_workload_def)
  have "\<exists>j. (1, 1, j) \<in> keys (neworder sample_orders)" using k by blast
  with d obtain i where "(1, 1, i) \<in> {(1 :: int, 1 :: int, 5 :: int), (1, 1, 6)}" "i \<le> 5"
    "keys (neworder db') = {(1, 1, 5), (1, 1, 6)} - {(1, 1, i)}" unfolding k by (simp only: if_True) blast
  then show ?thesis using db' by auto
qed

text \<open>C15. The stock level is the number of different items in the last 20 orders of the district whose stock in the
  warehouse is below the threshold.\<close>

theorem stockLevel_counts:
  assumes "stockLevel W w d threshold db = Some n" "ascending (orderline db)" "map_of (district db) (w, d) = Some r"
    "list_all (\<lambda>((_, _, _, l), _). int_ok l) (orderline db)"
  shows "n = card {i \<in> recent_items w d (d_next_o_id r) db.
    \<exists>s. map_of (stock db) (w, i) = Some s \<and> n_less (num W) (s_quantity s) (n_of_int (num W) threshold)}"
  by (rule stockLevel_spec [OF assms])

theorem stockLevel_counts_witness:
  "stockLevel sample_workload 1 1 15 sample_orders = Some 1 \<and>
   1 = card {i \<in> recent_items 1 1 7 sample_orders.
     \<exists>s. map_of (stock sample_orders) (1, i) = Some s \<and> n_less sample_numbers (s_quantity s) (n_of_int sample_numbers 15)}"
proof -
  have s: "stockLevel sample_workload 1 1 15 sample_orders = Some 1"
    by (simp add: stockLevel_def Let_def sample_orders_def sample_workload_def sample_numbers_def icheck_def scan_def minInteger_def)
  have d: "map_of (district sample_orders) (1, 1) = Some (snd (hd (district sample_orders)))" "d_next_o_id (snd (hd (district sample_orders))) = 7"
    by (simp_all add: sample_orders_def)
  have "ascending (orderline sample_orders)" "list_all (\<lambda>((_, _, _, l), _). int_ok l) (orderline sample_orders)"
    by (simp_all add: sample_orders_def int_ok_def)
  from stockLevel_counts [OF s this(1) d(1) this(2)] s show ?thesis by (simp add: d(2) sample_workload_def)
qed

text \<open>C28. The customer that a name stands for is the one in the middle of those of the district with this last
  name, in the order of their first names: position \<open>n/2\<close> rounded up of \<open>n\<close>; there is none for a name
  that nobody has.\<close>

theorem middle_customer_in_order:
  assumes "ascending (customerwdl db)"
  shows "middle_customer w d name db =
    (let ids = namesakes w d name db in Some (if ids = [] then None else Some (ids ! ((length ids - 1) div 2))))"
  by (rule middle_customer_spec [OF assms])

theorem middle_customer_in_order_witness:
  "middle_customer 1 1 [66] (sample_db\<lparr>customerwdl := [((1, 1, [65], [66]), \<lparr>cw_c_id = 4\<rparr>), ((1, 1, [66], [65]), \<lparr>cw_c_id = 9\<rparr>),
     ((1, 1, [66], [66]), \<lparr>cw_c_id = 3\<rparr>), ((1, 1, [66, 66], []), \<lparr>cw_c_id = 5\<rparr>)]\<rparr>) = Some (Some 9)"
proof -
  let ?t = "[((1 :: int, 1 :: int, [65], [66]), \<lparr>cw_c_id = 4\<rparr>), ((1, 1, [66], [65]), \<lparr>cw_c_id = 9\<rparr>),
     ((1, 1, [66], [66]), \<lparr>cw_c_id = 3\<rparr>), ((1, 1, [66, 66], []), \<lparr>cw_c_id = 5\<rparr>)] :: (customer_wdl_key, customer_wdl_t) table"
  have "ascending (customerwdl (sample_db\<lparr>customerwdl := ?t\<rparr>))" by simp
  from middle_customer_in_order [OF this, of 1 1 "[66]"] show ?thesis by (simp add: namesakes_def Let_def)
qed

text \<open>C14. Asking by id for the latest order of any customer always returns: for a customer with orders it is the
  greatest of them. For a customer without orders the answer is the order of the greatest entry of the index before the
  place of the customer, hence that of another customer, if there is such an entry, and none otherwise, since only an
  assertion, which is not compiled, compares the key. Asking by a name that stands for the customer always returns too
  and gives the same order for a customer with orders, but none for one without.\<close>

theorem orderStatus_latest:
  assumes "consistent W db" "order_wdc_index W" "\<forall>(w, d, c, i)\<in>keys (order_wdc db). int_ok i"
  shows "\<exists>j l. orderStatusId W w d c db = Some (j, l)
    \<and> (if orders_of w d c db \<noteq> {} then j \<in> orders_of w d c db \<and> (\<forall>i\<in>orders_of w d c db. i \<le> j)
        else if \<exists>k\<in>keys (order_wdc db). k < (w, d, c, maxInteger)
        then \<exists>w' d' c'. (w', d', c') < (w, d, c) \<and> j \<in> orders_of w' d' c' db \<and> (w', d', c', j) \<in> keys (order_wdc db)
          \<and> (\<forall>k\<in>keys (order_wdc db). k < (w, d, c, maxInteger) \<longrightarrow> k \<le> (w', d', c', j))
        else j = -1)
    \<and> (\<forall>name. middle_customer w d name db = Some (Some c) \<longrightarrow>
        (\<exists>l'. orderStatusName W w d name db = Some (if orders_of w d c db \<noteq> {} then j else -1, l')))"
proof -
  have asc: "ascending (order_wdc db)" using assms(1,2) by (simp add: consistent_def)
  obtain l where j: "orderStatusId W w d c db = Some (case rev (filter (\<lambda>e. fst e \<le> (w, d, c, maxInteger)) (order_wdc db)) of [] \<Rightarrow> -1 | ((_, _, _, i), _) # _ \<Rightarrow> i, l)"
    using orderStatusId_order [OF assms(2) asc] by blast
  note j' = orderStatusName_order [OF _ assms(2) asc, of w d _ c]
  show ?thesis
  proof (rule latest_order [OF assms(1-3), of w d c])
    assume n: "rev (filter (\<lambda>e. fst e \<le> (w, d, c, maxInteger)) (order_wdc db)) = []" and o: "orders_of w d c db = {}"
    have no: "\<not> (\<exists>k\<in>keys (order_wdc db). k < (w, d, c, maxInteger))" using n by (fastforce simp: keys_def filter_empty_conv)
    have "orderStatusId W w d c db = Some (-1, l)" using j unfolding n by simp
    moreover have "\<exists>l'. orderStatusName W w d name db = Some (-1, l')" if "middle_customer w d name db = Some (Some c)" for name
      using j' [OF that] unfolding n by simp
    ultimately show ?thesis using o no by simp
  next
    fix w' d' c' i u
    assume n: "rev (filter (\<lambda>e. fst e \<le> (w, d, c, maxInteger)) (order_wdc db)) = ((w', d', c', i), ()) # u"
      and i: "i \<in> orders_of w' d' c' db" and le: "(w', d', c') \<le> (w, d, c)"
      and same: "(w', d', c') = (w, d, c) \<longleftrightarrow> orders_of w d c db \<noteq> {}"
      and latest: "\<And>j. (w', d', c') = (w, d, c) \<Longrightarrow> j \<in> orders_of w d c db \<Longrightarrow> j \<le> i"
    have id: "orderStatusId W w d c db = Some (i, l)" using j unfolding n by simp
    have nm: "\<exists>l'. orderStatusName W w d name db = Some (if orders_of w d c db \<noteq> {} then i else -1, l')"
      if "middle_customer w d name db = Some (Some c)" for name
      using j' [OF that] unfolding n same [symmetric] by simp
    show ?thesis
    proof (cases "(w', d', c') = (w, d, c)")
      case True
      then show ?thesis using id nm i same latest by auto
    next
      case False
      have k: "(w', d', c', i) \<in> keys (order_wdc db)" using i assms(1,2) by (auto simp: consistent_def index_exact_def orders_of_def)
      have lt: "(w', d', c') < (w, d, c)" using le False by (rule le_neq_trans)
      then have lt': "(w', d', c', i) < (w, d, c, maxInteger)" by (auto simp: less_prod_def)
      have g: "k \<le> (w', d', c', i)" if "k \<in> keys (order_wdc db)" "k < (w, d, c, maxInteger)" for k
        using last_greatest(3) [OF asc n, of "(k, ())"] that by (auto simp: keys_def)
      have ex: "(\<exists>k\<in>keys (order_wdc db). k < (w, d, c, maxInteger)) = True" using k lt' by blast
      have o: "(orders_of w d c db \<noteq> {}) = False" using same False by simp
      show ?thesis
      proof (rule exI [of _ i], rule exI [of _ l], intro conjI, goal_cases)
        case 2
        show ?case unfolding o ex if_False if_True using i k lt g by blast
      qed (use id nm in blast)+
    qed
  qed
qed

theorem orderStatus_latest_witness:
  "orderStatusId sample_workload 1 1 9 (sample_orders\<lparr>customerwdl := [((1, 1, [65], []), \<lparr>cw_c_id = 9\<rparr>)]\<rparr>)
     = Some (6, Some (snd (orderline sample_orders ! 1)))
   \<and> orders_of 1 1 9 (sample_orders\<lparr>customerwdl := [((1, 1, [65], []), \<lparr>cw_c_id = 9\<rparr>)]\<rparr>) = {}
   \<and> 6 \<in> orders_of 1 1 8 (sample_orders\<lparr>customerwdl := [((1, 1, [65], []), \<lparr>cw_c_id = 9\<rparr>)]\<rparr>)
   \<and> orderStatusName sample_workload 1 1 [65] (sample_orders\<lparr>customerwdl := [((1, 1, [65], []), \<lparr>cw_c_id = 9\<rparr>)]\<rparr>) = Some (-1, None)"
proof -
  let ?db = "sample_orders\<lparr>customerwdl := [((1, 1, [65], []), \<lparr>cw_c_id = 9\<rparr>)]\<rparr>"
  have c: "consistent sample_workload ?db"
    using sample_orders_consistent by (simp add: consistent_defs next_ids_def order_heads_def)
  have i: "orderStatusId sample_workload 1 1 9 ?db = Some (6, Some (snd (orderline sample_orders ! 1)))"
    by (simp add: orderStatusId_def sample_workload_def sample_orders_def scanDesc_def lines_of_def scan_def maxInteger_def minInteger_def)
  have m: "middle_customer 1 1 [65] ?db = Some (Some 9)"
    by (simp add: middle_customer_def scan_def vc_eq_def Let_def rd_def)
  have n: "orderStatusName sample_workload 1 1 [65] ?db = Some (-1, None)"
    by (simp add: orderStatusName_def m) (simp add: sample_workload_def sample_orders_def scanDesc_def maxInteger_def)
  have k: "\<forall>(w, d, c, i)\<in>keys (order_wdc ?db). int_ok i" by (simp add: sample_orders_def keys_def int_ok_def)
  have o: "orders_of 1 1 9 ?db = {}" "6 \<in> orders_of 1 1 8 ?db"
    by (auto simp: orders_of_def order_heads_def sample_orders_def view_def)
  show ?thesis using orderStatus_latest [OF c _ k, of 1 1 9] i m n o by (auto simp: sample_workload_def)
qed

end
