(* ===== verification/Loading.thy ===== *)
theory Loading
  imports Loader Reports
begin

text \<open>
  What the loading functions establish: random strings and names fit, the shuffle of the customers and what
  its first step does to it, consistent tables after loading the orders, and the division of the warehouses
  among the threads.
\<close>

section \<open>Random strings\<close>

definition astring_char :: "u8 \<Rightarrow> bool" where
  "astring_char c \<longleftrightarrow> 48 \<le> c \<and> c \<le> 57 \<or> 64 \<le> c \<and> c \<le> 89 \<or> 96 \<le> c \<and> c \<le> 121"

lemma rnd_returns: "0 < n \<Longrightarrow> n < 2 ^ 31 \<Longrightarrow> \<exists>r g'. rnd n g = Some (r, g') \<and> 0 \<le> r \<and> r < n"
  unfolding rnd_def by (rule getRand_range [of 0 n g]) auto

lemma astring_loop_returns:
  "length v + n \<le> maxLength \<Longrightarrow>
   \<exists>s g'. astring_loop maxLength n v g = Some (v @ s, g') \<and> length s = n \<and> list_all astring_char s"
proof (induction n arbitrary: v g)
  case (Suc n)
  obtain i g1 where i: "rnd 62 g = Some (i, g1)" "0 \<le> i" "i < 62" using rnd_returns [of 62 g] by auto
  define c where "c = (word_of_int (if i < 10 then 48 + i else if i < 36 then 64 - 10 + i else 96 - 36 + i) :: u8)"
  have "uint c = (if i < 10 then 48 + i else if i < 36 then 54 + i else 60 + i)" using i by (simp add: c_def uint_word_of_int)
  then have c: "astring_char c" using i by (auto simp: astring_char_def word_le_def split: if_splits)
  have "length (v @ [c]) + n \<le> maxLength" using Suc.prems by simp
  from Suc.IH [OF this, of g1] obtain s g' where
    s: "astring_loop maxLength n (v @ [c]) g1 = Some ((v @ [c]) @ s, g')" "length s = n" "list_all astring_char s" by blast
  have "astring_loop maxLength (Suc n) v g = Some (v @ c # s, g')"
    using i(1) s(1) Suc.prems by (simp add: vc_append_def flip: c_def)
  then show ?case using s(2,3) c by (intro exI [of _ "c # s"]) auto
qed simp

lemma randomastring_returns:
  assumes "0 \<le> lo" "lo \<le> hi" "hi \<le> int maxLength" "maxLength < 2 ^ 15"
  shows "\<exists>s g'. randomastring maxLength lo hi g = Some (s, g') \<and> lo \<le> int (length s) \<and> int (length s) \<le> hi \<and> list_all astring_char s"
proof -
  have "int maxLength < int (2 ^ 15)" using assms(4) by (simp only: of_nat_less_iff)
  then have h: "hi < 2 ^ 15" using assms(3) by simp
  obtain r g1 where r: "rnd (hi - lo + 1) g = Some (r, g1)" "0 \<le> r" "r \<le> hi - lo" using rnd_returns [of "hi - lo + 1" g] assms h by auto
  have ic: "icheck (hi - lo) = Some (hi - lo)" "icheck (hi - lo + 1) = Some (hi - lo + 1)" "icheck (r + lo) = Some (r + lo)"
    using assms h r by (simp_all add: icheck_def)
  have "length ([] :: varchar) + nat (r + lo) \<le> maxLength" using r assms by simp
  from astring_loop_returns [OF this, of g1] obtain s g' where
    "astring_loop maxLength (nat (r + lo)) [] g1 = Some (s, g')" "length s = nat (r + lo)" "list_all astring_char s" by auto
  then show ?thesis using r ic assms by (simp add: randomastring_def)
qed

lemma nstring_loop_returns:
  "length v + n \<le> 16 \<Longrightarrow> \<exists>s g'. nstring_loop n v g = Some (v @ s, g') \<and> length s = n \<and> list_all (\<lambda>c. 48 \<le> c \<and> c \<le> 57) s"
proof (induction n arbitrary: v g)
  case (Suc n)
  obtain i g1 where i: "rnd 10 g = Some (i, g1)" "0 \<le> i" "i < 10" using rnd_returns [of 10 g] by auto
  define c where "c = (word_of_int (48 + i) :: u8)"
  have "uint c = (48 + i) mod 2 ^ LENGTH(8)" unfolding c_def by (rule uint_word_of_int)
  then have "uint c = 48 + i" using i by simp
  then have c: "48 \<le> c \<and> c \<le> 57" using i by (auto simp: word_le_def)
  have "length (v @ [c]) + n \<le> 16" using Suc.prems by simp
  from Suc.IH [OF this, of g1] obtain s g' where
    s: "nstring_loop n (v @ [c]) g1 = Some ((v @ [c]) @ s, g')" "length s = n" "list_all (\<lambda>c. 48 \<le> c \<and> c \<le> 57) s" by blast
  have "vc_append 16 v (word_of_int (48 + i)) = Some (v @ [c])" using Suc.prems by (simp add: vc_append_def c_def)
  then have "nstring_loop (Suc n) v g = Some (v @ c # s, g')" using i(1) s(1) by (simp del: of_int_add)
  then show ?case using s(2,3) c by (intro exI [of _ "c # s"]) auto
qed simp

lemma randomnstring_returns:
  "\<exists>s g'. randomnstring 16 16 g = Some (s, g') \<and> length s = 16 \<and> list_all (\<lambda>c. 48 \<le> c \<and> c \<le> 57) s"
proof -
  obtain r g1 where r: "rnd 1 g = Some (r, g1)" "r = 0" using rnd_returns [of 1 g] by auto
  then show ?thesis using nstring_loop_returns [of "[]" 16 g1] by (simp add: randomnstring_def icheck_def)
qed

lemma randomzip_returns: "\<exists>s g'. randomzip g = Some (s, g') \<and> length s = 9"
proof -
  obtain r g1 where "rnd 10000 g = Some (r, g1)" using rnd_returns [of 10000 g] by auto
  then show ?thesis by (simp add: randomzip_def vc_append_def vc_of_def vc_concat_def asc_def)
qed

section \<open>The shuffle\<close>

lemma swap_nth_mset: "i < length xs \<Longrightarrow> j < length xs \<Longrightarrow> mset (swap_nth xs i j) = mset xs"
  by (simp add: swap_nth_def mset_swap)

lemma shuffle_keeps:
  assumes "set is \<subseteq> {1..int n}" "length xs = n + 1" "n < 2 ^ 30"
  shows "\<exists>ys g'. fold_opt shuffle_step is (xs, g) = Some (ys, g') \<and> mset ys = mset xs"
  using assms(1,2)
proof (induction "is" arbitrary: xs g)
  case (Cons i "is")
  have i: "1 \<le> i" "i \<le> int n" using Cons.prems(1) by auto
  obtain r g1 where r: "urand 0 i g = Some (r, g1)" "0 \<le> r" "r \<le> i" using urand_returns [of 0 i g] i assms(3) by auto
  let ?ys = "swap_nth xs (nat r) (nat i)"
  have m: "mset ?ys = mset xs" using i r Cons.prems(2) by (intro swap_nth_mset) auto
  then have "length ?ys = n + 1" using Cons.prems(2) by (simp add: swap_nth_def)
  from Cons.IH [OF _ this, of g1] obtain ys g' where ys: "fold_opt shuffle_step is (?ys, g1) = Some (ys, g')" "mset ys = mset ?ys"
    using Cons.prems(1) by auto
  have "shuffle_step i (xs, g) = Some (?ys, g1)" using r(1) by (simp add: shuffle_step_def)
  then show ?case using ys m by simp
qed simp

lemma shuffled_spec:
  "\<exists>c_ids c g'. shuffled behind g = Some (c_ids, g') \<and> length c_ids = 3000 \<and> add_mset c (mset c_ids) = add_mset behind (mset [1..3000])"
proof -
  have l: "length ([1..3000] @ [behind]) = 3000 + 1" by simp
  have s: "set (rev [1..3000]) \<subseteq> {1..int 3000}" by simp
  obtain ys g' where ys: "fold_opt shuffle_step (rev [1..3000]) ([1..3000] @ [behind], g) = Some (ys, g')"
    "mset ys = mset ([1..3000] @ [behind])" using shuffle_keeps [OF s l, of g] by auto
  have "size (mset ys) = size (mset ([1..3000] @ [behind]))" by (simp only: ys(2))
  then have len: "length ys = 3001" by (simp only: size_mset) simp
  then have "length (drop 3000 ys) = Suc 0" by simp
  then obtain c where c: "drop 3000 ys = [c]" unfolding length_Suc_conv by auto
  then have "ys = take 3000 ys @ [c]" by (metis append_take_drop_id)
  then have "mset ys = mset (take 3000 ys @ [c])" by simp
  then have "add_mset c (mset (take 3000 ys)) = add_mset behind (mset [1..3000])" using ys(2) by simp
  moreover have "shuffled behind g = Some (take 3000 ys, g')" using ys(1) by (simp add: shuffled_def)
  moreover have "length (take 3000 ys) = 3000" using len by simp
  ultimately show ?thesis by blast
qed

section \<open>The orders of a district\<close>

lemma load_orderline_inserts:
  "\<exists>r g'. load_orderline W w d i l (db, g) = Some (db\<lparr>orderline := t_insert (w, d, i, l) r (orderline db)\<rparr>, g')"
proof -
  obtain a g1 where a: "(if i < 2101 then (n_of_int (num W) 0, g) else randomNumeric (num W) (n_lit (num W) 1 2) (n_lit (num W) 999999 2) g) = (a, g1)"
    by (meson prod.exhaust)
  obtain r g2 where r: "rnd ITEMS_NO g1 = Some (r, g2)" using rnd_returns [of ITEMS_NO g1] by (auto simp: ITEMS_NO_def)
  obtain s g3 where s: "randomastring 24 24 24 g2 = Some (s, g3)" using randomastring_returns [of 24 24 24 g2] by auto
  show ?thesis by (simp add: load_orderline_def Let_def a r s del: if_split) blast
qed

lemma load_orderlines_insert:
  "ascending (orderline db) \<Longrightarrow> distinct ls \<Longrightarrow> \<forall>l\<in>set ls. (w, d, i, l) \<notin> keys (orderline db) \<Longrightarrow>
   \<exists>t g'. fold_opt (load_orderline W w d i) ls (db, g) = Some (db\<lparr>orderline := t\<rparr>, g') \<and> ascending t
     \<and> keys t = keys (orderline db) \<union> {(w, d, i, l) | l. l \<in> set ls}"
proof (induction ls arbitrary: db g)
  case Nil
  then show ?case by (intro exI [of _ "orderline db"]) simp
next
  case (Cons l ls)
  obtain r g1 where r: "load_orderline W w d i l (db, g) = Some (db\<lparr>orderline := t_insert (w, d, i, l) r (orderline db)\<rparr>, g1)"
    using load_orderline_inserts by blast
  let ?t = "t_insert (w, d, i, l) r (orderline db)"
  have "map_of (orderline db) (w, d, i, l) = None" using Cons.prems(3) by (fastforce simp: keys_map_of)
  then have asc: "ascending ?t" using Cons.prems(1) by (simp add: t_insert_ascending)
  have "\<exists>t g'. fold_opt (load_orderline W w d i) ls (db\<lparr>orderline := ?t\<rparr>, g1) = Some (db\<lparr>orderline := ?t\<rparr>\<lparr>orderline := t\<rparr>, g') \<and> ascending t
     \<and> keys t = keys (orderline (db\<lparr>orderline := ?t\<rparr>)) \<union> {(w, d, i, l) | l. l \<in> set ls}"
    by (rule Cons.IH) (use asc Cons.prems(2,3) in auto)
  then obtain t g' where t: "fold_opt (load_orderline W w d i) ls (db\<lparr>orderline := ?t\<rparr>, g1) = Some (db\<lparr>orderline := t\<rparr>, g')" "ascending t"
     "keys t = insert (w, d, i, l) (keys (orderline db)) \<union> {(w, d, i, l) | l. l \<in> set ls}" by auto
  have "keys t = keys (orderline db) \<union> {(w, d, i, l') | l'. l' \<in> set (l # ls)}" unfolding t(3) by auto
  then show ?case using r t(1,2) by auto
qed

lemma load_order_loads:
  assumes "consistent W db" "map_of (next_ids db) (w, d) = Some n" "i < n" "(w, d, i) \<notin> keys (order_heads db)" "exact_Integers (num W)"
  shows "\<exists>db' g' m k. load_order W w d (i, c) (db, g) = Some (db', g') \<and> consistent W db' \<and> next_ids db' = next_ids db
    \<and> neworder db' = neworder db \<and> order_heads db' = t_insert (w, d, i) (c, m) (order_heads db)
    \<and> n_to_Integer (num W) m = Some k \<and> 5 \<le> k \<and> k \<le> 14"
proof -
  note c = assms(1) [unfolded consistent_def]
  obtain r0 g0 where r0: "rnd 10 g = Some (r0, g0)" using rnd_returns [of 10 g] by auto
  define cg where "cg = (if i < 2101 then (r0 + 1, g0) else (0, g))"
  obtain ca g1 where cg: "cg = (ca, g1)" by (cases cg)
  have ca: "(if i < 2101 then do { (r, g) \<leftarrow> rnd 10 g; Some (r + 1, g) } else Some (0, g)) = Some (ca, g1)"
    using cg by (auto simp: cg_def r0)
  obtain r g2 where r: "rnd 10 g1 = Some (r, g2)" "0 \<le> r" "r < 10" using rnd_returns [of 10 g1] by auto
  define db1 where "db1 = db\<lparr>order := t_insert (w, d, i)
     \<lparr>o_c_id = c, o_entry_d = currentTimestamp, o_carrier_id = ca, o_ol_cnt = n_of_int (num W) (r + 5), o_all_local = n_of_int (num W) 1\<rparr>
     (order db)\<rparr>"
  define db2 where "db2 = (if order_wdc_index W then db1\<lparr>order_wdc := t_insert (w, d, c, i) () (order_wdc db1)\<rparr> else db1)"
  have ol: "orderline db2 = orderline db" by (simp add: db2_def db1_def)
  have fresh: "(w, d, i, l) \<notin> keys (orderline db)" for l using c assms(4) unfolding lines_exact_def by fastforce
  obtain t g' where t: "fold_opt (load_orderline W w d i) [1..r + 5] (db2, g2) = Some (db2\<lparr>orderline := t\<rparr>, g')" "ascending t"
    "keys t = keys (orderline db) \<union> {(w, d, i, l) | l. l \<in> set [1..r + 5]}"
    using load_orderlines_insert [of db2 "[1..r + 5]" w d i W g2] fresh c by (auto simp: ol)
  have run: "load_order W w d (i, c) (db, g) = Some (db2\<lparr>orderline := t\<rparr>, g')"
  proof -
    have "load_order W w d (i, c) (db, g) = fold_opt (load_orderline W w d i) [1..r + 5] (db2, g2)"
      by (simp add: load_order_def Let_def ca r(1) db2_def db1_def)
    then show ?thesis using t(1) by simp
  qed
  have m: "n_to_Integer (num W) (n_of_int (num W) (r + 5)) = Some (r + 5)" using assms(5) r by (simp add: exact_Integers_def int_ok_def)
  have "consistent W (db2\<lparr>orderline := t\<rparr>)"
    by (rule consistent_new_order [OF assms(1,4) _ _ _ _ m])
      (use c t assms(2,3) in \<open>auto simp: db2_def db1_def order_heads_def next_ids_def view_insert\<close>)
  then show ?thesis using run m r
    by (intro exI [of _ "db2\<lparr>orderline := t\<rparr>"] exI [of _ g'] exI [of _ "n_of_int (num W) (r + 5)"] exI [of _ "r + 5"])
      (simp add: db2_def db1_def order_heads_def next_ids_def view_insert)
qed

lemma load_orders_loop:
  "consistent W db \<Longrightarrow> map_of (next_ids db) (w, d) = Some n \<Longrightarrow> exact_Integers (num W) \<Longrightarrow> distinct (map fst ps) \<Longrightarrow>
   \<forall>i\<in>fst ` set ps. i < n \<and> (w, d, i) \<notin> keys (order_heads db) \<Longrightarrow>
   \<exists>db' g'. fold_opt (load_order W w d) ps (db, g) = Some (db', g') \<and> consistent W db' \<and> next_ids db' = next_ids db
     \<and> neworder db' = neworder db \<and> keys (order_heads db') = keys (order_heads db) \<union> {(w, d, i) | i. i \<in> fst ` set ps}
     \<and> (\<forall>k. k \<notin> {(w, d, i) | i. i \<in> fst ` set ps} \<longrightarrow> map_of (order_heads db') k = map_of (order_heads db) k)
     \<and> (\<forall>(i, c)\<in>set ps. \<exists>m k. map_of (order_heads db') (w, d, i) = Some (c, m) \<and> n_to_Integer (num W) m = Some k \<and> 5 \<le> k \<and> k \<le> 14)"
proof (induction ps arbitrary: db g)
  case Nil
  then show ?case by simp
next
  case (Cons p ps)
  obtain i c where p: "p = (i, c)" by (cases p)
  have i: "i < n" "(w, d, i) \<notin> keys (order_heads db)" "i \<notin> fst ` set ps" using Cons.prems(4,5) p by auto
  obtain db1 g1 m k where s: "load_order W w d p (db, g) = Some (db1, g1)" and c1: "consistent W db1" and n1: "next_ids db1 = next_ids db"
    and no1: "neworder db1 = neworder db" and oh: "order_heads db1 = t_insert (w, d, i) (c, m) (order_heads db)"
    and k: "n_to_Integer (num W) m = Some k" "5 \<le> k" "k \<le> 14"
    unfolding p using load_order_loads [OF Cons.prems(1,2) i(1,2) Cons.prems(3)] by blast
  have ohm: "map_of (order_heads db1) = (map_of (order_heads db))((w, d, i) \<mapsto> (c, m))"
    using Cons.prems(1) oh by (simp add: map_of_insert consistent_def)
  have nx: "map_of (next_ids db1) (w, d) = Some n" using Cons.prems(2) n1 by simp
  have ds: "distinct (map fst ps)" using Cons.prems(4) by simp
  have fr: "\<forall>i\<in>fst ` set ps. i < n \<and> (w, d, i) \<notin> keys (order_heads db1)" using Cons.prems(5) i(3) by (auto simp: oh)
  obtain db2 g2 where f: "fold_opt (load_order W w d) ps (db1, g1) = Some (db2, g2)" and c2: "consistent W db2"
    and n2: "next_ids db2 = next_ids db1" "neworder db2 = neworder db1"
    and ks: "keys (order_heads db2) = keys (order_heads db1) \<union> {(w, d, i) | i. i \<in> fst ` set ps}"
    and same: "\<forall>k. k \<notin> {(w, d, i) | i. i \<in> fst ` set ps} \<longrightarrow> map_of (order_heads db2) k = map_of (order_heads db1) k"
    and new: "\<forall>(i, c)\<in>set ps. \<exists>m k. map_of (order_heads db2) (w, d, i) = Some (c, m) \<and> n_to_Integer (num W) m = Some k \<and> 5 \<le> k \<and> k \<le> 14"
    using Cons.IH [OF c1 nx Cons.prems(3) ds fr, of g1] by blast
  have "map_of (order_heads db2) (w, d, i) = Some (c, m)" using same i(3) ohm by simp
  then have "\<forall>(i, c)\<in>set (p # ps). \<exists>m k. map_of (order_heads db2) (w, d, i) = Some (c, m) \<and> n_to_Integer (num W) m = Some k \<and> 5 \<le> k \<and> k \<le> 14"
    using new k p by auto
  moreover have "\<forall>k. k \<notin> {(w, d, i) | i. i \<in> fst ` set (p # ps)} \<longrightarrow> map_of (order_heads db2) k = map_of (order_heads db) k"
    using same ohm p by auto
  moreover have "keys (order_heads db2) = keys (order_heads db) \<union> {(w, d, i) | i. i \<in> fst ` set (p # ps)}"
    unfolding ks oh p by auto
  moreover have "fold_opt (load_order W w d) (p # ps) (db, g) = Some (db2, g2)" using s f by simp
  ultimately show ?case using c2 n1 n2 no1 by (intro exI [of _ db2] exI [of _ g2]) simp
qed

lemma load_neworders:
  "consistent W db \<Longrightarrow> distinct is \<Longrightarrow> \<forall>i\<in>set is. (w, d, i) \<in> keys (order_heads db) \<and> (w, d, i) \<notin> keys (neworder db) \<Longrightarrow>
   \<exists>t. foldl (\<lambda>db i. db\<lparr>neworder := t_insert (w, d, i) () (neworder db)\<rparr>) db is = db\<lparr>neworder := t\<rparr>
     \<and> consistent W (db\<lparr>neworder := t\<rparr>) \<and> keys t = keys (neworder db) \<union> {(w, d, i) | i. i \<in> set is}"
proof (induction "is" arbitrary: db)
  case Nil
  then show ?case by (intro exI [of _ "neworder db"]) simp
next
  case (Cons i "is")
  let ?t = "t_insert (w, d, i) () (neworder db)"
  have "map_of (neworder db) (w, d, i) = None" using Cons.prems(3) by (metis keys_map_of list.set_intros(1) not_None_eq)
  then have "ascending ?t" using Cons.prems(1) by (simp add: t_insert_ascending consistent_def)
  then have "consistent W (db\<lparr>neworder := ?t\<rparr>)" using Cons.prems(1,3) by (simp add: consistent_defs next_ids_def order_heads_def)
  from Cons.IH [OF this] Cons.prems(2,3) obtain t where
    t: "foldl (\<lambda>db i. db\<lparr>neworder := t_insert (w, d, i) () (neworder db)\<rparr>) (db\<lparr>neworder := ?t\<rparr>) is = db\<lparr>neworder := t\<rparr>"
    "consistent W (db\<lparr>neworder := t\<rparr>)" "keys t = insert (w, d, i) (keys (neworder db)) \<union> {(w, d, i) | i. i \<in> set is}"
    by (auto simp: order_heads_def)
  have "keys t = keys (neworder db) \<union> {(w, d, i') | i'. i' \<in> set (i # is)}" unfolding t(3) by auto
  then show ?case using t(1,2) by auto
qed

lemma loadOrders_returns:
  assumes "consistent W db" "map_of (next_ids db) (w, d) = Some 3001" "\<forall>i. (w, d, i) \<notin> keys (order_heads db)" "exact_Integers (num W)"
  shows "\<exists>c_ids x db' g'. length c_ids = 3000 \<and> add_mset x (mset c_ids) = add_mset behind (mset [1..3000])
    \<and> loadOrders W behind w d (db, g) = Some (db', g') \<and> consistent W db' \<and> next_ids db' = next_ids db
    \<and> {i. (w, d, i) \<in> keys (order_heads db')} = {1..3000} \<and> {i. (w, d, i) \<in> keys (neworder db')} = {2100..3000}
    \<and> (\<forall>i\<in>{1..3000}. \<exists>m k. map_of (order_heads db') (w, d, i) = Some (c_ids ! nat (i - 1), m) \<and> n_to_Integer (num W) m = Some k
         \<and> 5 \<le> k \<and> k \<le> 14)"
proof -
  obtain c_ids x g1 where sh: "shuffled behind g = Some (c_ids, g1)" "length c_ids = 3000"
    "add_mset x (mset c_ids) = add_mset behind (mset [1..3000])" using shuffled_spec by blast
  define ps where "ps = zip [1..3000] c_ids"
  have f: "map fst ps = [1..3000]" using sh(2) by (simp add: ps_def)
  then have fs: "fst ` set ps = {1..3000}" by (metis set_map set_upto)
  obtain db1 g2 where l: "fold_opt (load_order W w d) ps (db, g1) = Some (db1, g2)" and c1: "consistent W db1"
    and n1: "next_ids db1 = next_ids db" "neworder db1 = neworder db"
    and ks: "keys (order_heads db1) = keys (order_heads db) \<union> {(w, d, i) | i. i \<in> fst ` set ps}"
    and new: "\<forall>(i, c)\<in>set ps. \<exists>m k. map_of (order_heads db1) (w, d, i) = Some (c, m) \<and> n_to_Integer (num W) m = Some k \<and> 5 \<le> k \<and> k \<le> 14"
    using load_orders_loop [OF assms(1,2,4), of ps g1] assms(3) fs by (auto simp: f simp del: upto_rec_numeral)
  have nn: "(w, d, i) \<notin> keys (neworder db)" for i using assms(1,3) by (auto simp: consistent_def)
  have "\<forall>i\<in>set [2100..3000]. (w, d, i) \<in> keys (order_heads db1) \<and> (w, d, i) \<notin> keys (neworder db1)"
    using nn by (auto simp: n1 ks fs simp del: upto_rec_numeral)
  from load_neworders [OF c1 distinct_upto this] obtain t where
    t: "foldl (\<lambda>db i. db\<lparr>neworder := t_insert (w, d, i) () (neworder db)\<rparr>) db1 [2100..3000] = db1\<lparr>neworder := t\<rparr>"
    "consistent W (db1\<lparr>neworder := t\<rparr>)" "keys t = keys (neworder db) \<union> {(w, d, i) | i. i \<in> {2100..3000}}"
    unfolding n1 set_upto by blast
  have run: "loadOrders W behind w d (db, g) = Some (db1\<lparr>neworder := t\<rparr>, g2)"
    using l t(1) by (simp add: loadOrders_def sh(1) flip: ps_def del: upto_rec_numeral)
  have "\<exists>m k. map_of (order_heads db1) (w, d, i) = Some (c_ids ! nat (i - 1), m) \<and> n_to_Integer (num W) m = Some k \<and> 5 \<le> k \<and> k \<le> 14"
    if "i \<in> {1..3000}" for i
  proof -
    have "(i, c_ids ! nat (i - 1)) \<in> set ps"
      unfolding ps_def in_set_zip using that sh(2) nat_less_iff [of "i - 1" 3000]
      by (intro exI [of _ "nat (i - 1)"]) (simp del: upto_rec_numeral)
    then show ?thesis using new by blast
  qed
  moreover have "{i. (w, d, i) \<in> keys (order_heads db1)} = {1..3000}" using assms(3) by (auto simp: ks fs)
  moreover have "{i. (w, d, i) \<in> keys t} = {2100..3000}" using nn by (auto simp: t(3))
  ultimately show ?thesis using sh(2,3) run t(2) n1(1)
    by (intro exI [of _ c_ids] exI [of _ x] exI [of _ "db1\<lparr>neworder := t\<rparr>"] exI [of _ g2])
      (simp add: order_heads_def next_ids_def del: upto_rec_numeral)
qed

section \<open>The division of the work\<close>

definition covers :: "u64 \<Rightarrow> u64 \<Rightarrow> (u64 \<times> u64) list \<Rightarrow> bool" where
  "covers lo hi rs \<longleftrightarrow> concat (map (\<lambda>(b, e). [uint b..uint e - 1]) rs) = [uint lo..uint hi - 1]"

lemma concat_ranges:
  "(\<And>i. i < m \<Longrightarrow> f i \<le> f (Suc i)) \<Longrightarrow> f 0 \<le> f m \<and> concat (map (\<lambda>i. [f i..f (Suc i) - 1]) [0..<m]) = [f 0..f m - (1::int)]"
proof (induction m)
  case (Suc m)
  then have "f 0 \<le> f m" "concat (map (\<lambda>i. [f i..f (Suc i) - 1]) [0..<m]) = [f 0..f m - 1]" "f m \<le> f (Suc m)" by auto
  then show ?case using upto_split1 [of "f 0" "f m" "f (Suc m) - 1"] upto_split1 [of "f 0" "f m" "f m - 1"]
    by (cases "f m = f (Suc m)") auto
qed simp

lemma unat_bound: "unat (x :: u64) < 2 ^ 64"
proof -
  have "unat x < 2 ^ LENGTH(64)" by (rule unsigned_less)
  then show ?thesis by simp
qed

text \<open>With less than \<open>2 ^ 32\<close> threads the loop of \<open>parallel_for\<close> starts each of them once; with more it never ends.\<close>

lemma ucast_u32: "ucast (of_nat i :: u32) = (of_nat i :: u64)" if "i < 2 ^ 32"
proof -
  have "unat (ucast (of_nat i :: u32) :: u64) = unat (of_nat i :: u64)"
    using that by (simp add: unsigned_ucast_eq unsigned_of_nat take_bit_nat_eq_self)
  then show ?thesis by (rule unsigned_word_eqI)
qed

lemma start_threads_ends:
  assumes "unat k < 2 ^ 32"
  shows "i \<le> unat k \<Longrightarrow> start_threads lo hi k p (of_nat i) rs =
    Some (rs @ map (\<lambda>i. let b = p * of_nat i + lo in (b, if of_nat i = k - 1 then hi else b + p)) [i..<unat k])"
proof (induction "unat k - i" arbitrary: i rs)
  case 0
  then have i: "i = unat k" by simp
  have "ucast (of_nat i :: u32) = (of_nat i :: u64)" by (rule ucast_u32) (use i assms in simp)
  moreover have "(of_nat i :: u64) = k" using i by simp
  ultimately have "\<not> ucast (of_nat i :: u32) < k" by simp
  moreover have "[i..<unat k] = []" using i by simp
  ultimately show ?case by (subst start_threads.simps) simp
next
  case (Suc d)
  then have i: "i < unat k" by simp
  have u: "ucast (of_nat i :: u32) = (of_nat i :: u64)" using i assms by (intro ucast_u32) simp
  have "of_nat i < k" using i unat_bound [of k] by (simp add: word_less_nat_alt unsigned_of_nat take_bit_nat_eq_self)
  moreover have "(of_nat i :: u32) + 1 = of_nat (Suc i)" by simp
  moreover have "[i..<unat k] = i # [Suc i..<unat k]" using i by (simp add: upt_conv_Cons)
  ultimately show ?case using Suc.hyps(1) [of "Suc i"] Suc.hyps(2) i
    by (subst start_threads.simps) (simp add: u Let_def del: of_nat_Suc)
qed

lemma start_threads_for_ever: "start_threads lo hi k p i rs = None" if k: "2 ^ 32 \<le> unat k"
proof (cases "start_threads lo hi k p i rs")
  case (Some rs')
  have "\<not> 2 ^ 32 \<le> unat k"
  proof (rule start_threads.raw_induct [OF _ Some, where P = "\<lambda>lo hi k p i rs rs'. \<not> 2 ^ 32 \<le> unat k"])
    fix f :: "u64 \<Rightarrow> u64 \<Rightarrow> u64 \<Rightarrow> u64 \<Rightarrow> u32 \<Rightarrow> (u64 \<times> u64) list \<Rightarrow> (u64 \<times> u64) list option"
      and lo hi k p :: u64 and i :: u32 and rs rs'
    assume ih: "\<And>lo hi k p i rs rs'. f lo hi k p i rs = Some rs' \<Longrightarrow> \<not> 2 ^ 32 \<le> unat k"
      and run: "(if ucast i < k
        then let b = p * ucast i + lo; e = if ucast i = k - 1 then hi else b + p in f lo hi k p (i + 1) (rs @ [(b, e)])
        else Some rs) = Some rs'"
    have "unat i < 2 ^ LENGTH(32)" by (rule unsigned_less)
    then have "2 ^ 32 \<le> unat k \<Longrightarrow> ucast i < k" by (simp add: word_less_nat_alt unsigned_ucast_eq take_bit_nat_eq_self)
    then show "\<not> 2 ^ 32 \<le> unat k"
    proof (intro notI)
      assume a: "2 ^ 32 \<le> unat k" and less: "2 ^ 32 \<le> unat k \<Longrightarrow> ucast i < k"
      obtain be where "f lo hi k p (i + 1) (rs @ [be]) = Some rs'" using run less [OF a] unfolding Let_def by simp
      then show False using ih a by blast
    qed
  qed
  then show ?thesis using k by simp
qed

lemma parallel_ranges_covers:
  assumes "lo < hi" "0 < nthreads" "unat (min (hi - lo) nthreads) < 2 ^ 32"
  shows "\<exists>rs. parallel_ranges lo hi nthreads = Some rs \<and> length rs = unat (min (hi - lo) nthreads) \<and> covers lo hi rs"
proof -
  define n where "n = hi - lo"
  define k where "k = (if n < nthreads then n else nthreads)"
  define p where "p = n div k"
  have n: "uint n = uint hi - uint lo" using assms(1) by (simp add: n_def uint_sub_if' word_less_def)
  have k0: "0 < k" using assms by (auto simp: k_def n_def word_gt_0)
  have "k = min (hi - lo) nthreads" by (auto simp: k_def n_def min_def)
  then have k32: "unat k < 2 ^ 32" using assms(3) by (simp only:)
  have pk: "uint p * uint k \<le> uint n" unfolding p_def uint_div using k0 pos_mod_sign [of "uint k" "uint n"]
    by (simp add: word_less_def flip: minus_mod_eq_div_mult)
  define f where "f i = (if i = unat k then uint hi else uint lo + uint p * int i)" for i
  have pi: "uint p * int i \<le> uint n" if "i \<le> unat k" for i
  proof -
    have "int i \<le> uint k" using that by (metis of_nat_le_iff uint_nat)
    then have "uint p * int i \<le> uint p * uint k" by (intro mult_left_mono) simp_all
    then show ?thesis using pk by linarith
  qed
  have b: "uint (p * of_nat i + lo) = f i" if "i < unat k" for i
  proof -
    have "uint (p * of_nat i + lo) = (uint p * int i + uint lo) mod 2 ^ 64"
      using that unat_bound [of k] by (simp add: uint_word_ariths mod_simps unsigned_of_nat take_bit_nat_eq_self)
    moreover have "0 \<le> uint p * int i + uint lo" "uint p * int i + uint lo < 2 ^ 64" using pi [of i] that n uint_lt2p [of hi] by auto
    ultimately show ?thesis using that by (simp add: f_def)
  qed
  define rs where "rs = map (\<lambda>i. let b = p * of_nat i + lo in (b, if of_nat i = k - 1 then hi else b + p)) [0..<unat k]"
  have e: "uint (if of_nat i = k - 1 then hi else (p * of_nat i + lo) + p) = f (Suc i)" if i: "i < unat k" for i
  proof -
    have eq: "of_nat i = k - 1 \<longleftrightarrow> Suc i = unat k"
    proof -
      have u: "unat (k - 1) = unat k - 1" using k0 by (simp add: unat_minus_one word_gt_0)
      have "unat (of_nat i :: u64) = i" using i unat_bound [of k] by (simp add: unsigned_of_nat take_bit_nat_eq_self)
      then have "of_nat i = k - 1 \<longleftrightarrow> i = unat k - 1" using u by (metis unsigned_word_eqI)
      then show ?thesis using i by auto
    qed
    show ?thesis
    proof (cases "Suc i = unat k")
      case False
      then have "uint (p * of_nat (Suc i) + lo) = f (Suc i)" using i by (intro b) simp
      moreover have "p * of_nat i + lo + p = p * of_nat (Suc i) + lo" by (simp add: algebra_simps)
      ultimately have "uint ((p * of_nat i + lo) + p) = f (Suc i)" by (simp only:)
      then show ?thesis using eq False by (simp only: if_False)
    qed (use eq in \<open>simp add: f_def\<close>)
  qed
  have mono: "f i \<le> f (Suc i)" if "i < unat k" for i
  proof (cases "Suc i = unat k")
    case True
    then show ?thesis using pi [of i] that n by (simp add: f_def)
  next
    case False
    have "0 \<le> uint p" by simp
    then show ?thesis using False that by (simp add: f_def distrib_left)
  qed
  have "concat (map (\<lambda>(b, e). [uint b..uint e - 1]) rs) = concat (map (\<lambda>i. [f i..f (Suc i) - 1]) [0..<unat k])"
    unfolding rs_def map_map by (intro arg_cong [where f = concat] map_cong) (simp_all add: Let_def b e del: of_nat_Suc)
  also have "\<dots> = [f 0..f (unat k) - 1]" using concat_ranges [of "unat k" f] mono by blast
  also have "\<dots> = [uint lo..uint hi - 1]" using k0 by (simp add: f_def word_gt_0 unat_eq_zero)
  finally have "covers lo hi rs" by (simp add: covers_def)
  moreover have "parallel_ranges lo hi nthreads = Some rs"
    using k0 start_threads_ends [OF k32, of 0 lo hi p "[]"] unfolding parallel_ranges_def
    by (simp add: Let_def rs_def word_gt_0 flip: n_def k_def p_def)
  moreover have "length rs = unat (min (hi - lo) nthreads)" by (auto simp: rs_def k_def n_def min_def)
  ultimately show ?thesis by blast
qed

section \<open>Properties\<close>

text \<open>C12. Loading the orders of a district whose next id is 3001 and that has no orders always succeeds, whatever
  lies behind the vector of customers and whatever the generator draws: afterwards the tables are consistent, the district
  has exactly the orders 1 to 3000, of which 2100 to 3000 are new, every order counts between 5 and 14 lines (and
  has them, as the tables are consistent), and the customers of the orders are the list that the shuffle left.\<close>

theorem loadOrders_loads:
  assumes "consistent W db" "map_of (next_ids db) (w, d) = Some 3001" "\<forall>i. (w, d, i) \<notin> keys (order_heads db)" "exact_Integers (num W)"
  shows "\<exists>c_ids x db' g'. length c_ids = 3000 \<and> add_mset x (mset c_ids) = add_mset behind (mset [1..3000])
    \<and> loadOrders W behind w d (db, g) = Some (db', g') \<and> consistent W db' \<and> next_ids db' = next_ids db
    \<and> {i. (w, d, i) \<in> keys (order_heads db')} = {1..3000} \<and> {i. (w, d, i) \<in> keys (neworder db')} = {2100..3000}
    \<and> (\<forall>i\<in>{1..3000}. \<exists>m k. map_of (order_heads db') (w, d, i) = Some (c_ids ! nat (i - 1), m) \<and> n_to_Integer (num W) m = Some k
         \<and> 5 \<le> k \<and> k \<le> 14)"
  by (rule loadOrders_returns [OF assms])

text \<open>A district without orders.\<close>

definition empty_district :: "int db" where
  "empty_district = sample_db\<lparr>district := view (\<lambda>r. r\<lparr>d_next_o_id := 3001\<rparr>) (district sample_db)\<rparr>"

lemma empty_district_consistent: "consistent sample_workload empty_district"
proof -
  have "order_heads sample_db = []" by (simp add: order_heads_def sample_db_def view_def)
  moreover have "neworder sample_db = []" "orderline sample_db = []" "order_wdc sample_db = []" by (simp_all add: sample_db_def)
  moreover have "ascending (district sample_db)" using sample_db_consistent by (simp add: consistent_def next_ids_def)
  ultimately show ?thesis
    by (simp add: consistent_defs next_ids_def order_heads_def keys_def ascending_def empty_district_def)
qed

theorem loadOrders_loads_witness:
  "\<exists>db' g'. loadOrders sample_workload 0 1 7 (empty_district, mt_init 19650218) = Some (db', g') \<and> consistent sample_workload db'
    \<and> {i. (1, 7, i) \<in> keys (neworder db')} = {2100..3000}"
proof -
  have "map_of (view d_next_o_id (district sample_db)) (1, 7) = Some 1"
    by (simp add: sample_db_def view_def comp_def del: upto_rec_numeral) code_simp
  then obtain r where "map_of (district sample_db) (1, 7) = Some r" by (auto simp: map_of_view)
  then have n: "map_of (next_ids empty_district) (1, 7) = Some 3001" by (simp add: next_ids_def empty_district_def map_of_view)
  have "\<forall>i. (1, 7, i) \<notin> keys (order_heads empty_district)"
    by (simp add: keys_def order_heads_def empty_district_def sample_db_def)
  from loadOrders_loads [OF empty_district_consistent n this sample_numbers_exact, of 0 "mt_init 19650218"] show ?thesis by blast
qed

lemma parallel_ranges_for_ever:
  assumes "2 ^ 32 \<le> unat (min (hi - lo) nthreads)"
  shows "parallel_ranges lo hi nthreads = None"
proof -
  have "(if hi - lo < nthreads then hi - lo else nthreads) = min (hi - lo) nthreads" by (auto simp: min_def)
  then show ?thesis using start_threads_for_ever [OF assms] unfolding parallel_ranges_def Let_def by (simp only: if_cancel)
qed

text \<open>C24. Where there is work and at least one thread is asked for, the number of threads that \<open>parallel_for\<close> starts is the
  smaller of the work and the number asked for. If it is below \<open>2 ^ 32\<close>, then the function starts exactly that many threads
  and their ranges, one after the other, are exactly the work, so that no warehouse is loaded twice or left out; from
  \<open>2 ^ 32\<close> on, the 32 bits of the index of a thread wrap around and the loop never ends.\<close>

theorem parallel_for_divides:
  assumes "lo < hi" "0 < nthreads"
  shows "if unat (min (hi - lo) nthreads) < 2 ^ 32
    then \<exists>rs. parallel_ranges lo hi nthreads = Some rs \<and> length rs = unat (min (hi - lo) nthreads) \<and> covers lo hi rs
    else parallel_ranges lo hi nthreads = None"
  using parallel_ranges_covers [OF assms] parallel_ranges_for_ever [of hi lo nthreads] by (simp add: not_less)

theorem parallel_for_divides_witness:
  "parallel_ranges 1 11 3 = Some [(1, 4), (4, 7), (7, 11)] \<and> covers 1 11 [(1, 4), (4, 7), (7, 11)]
    \<and> parallel_ranges 0 0x200000000 0x100000000 = None"
proof -
  have "parallel_ranges 1 11 3 = Some [(1, 4), (4, 7), (7, 11)]" by code_simp
  moreover have "unat (min (11 - 1) 3 :: u64) = 3" "unat (min (0x200000000 - 0) 0x100000000 :: u64) = 0x100000000" by (simp_all add: min_def)
  ultimately show ?thesis using parallel_for_divides [of 1 11 3]
      parallel_for_divides [of 0 "0x200000000" "0x100000000"] by simp
qed

text \<open>The random strings are filled as the tables need them: a length between the bounds, within the field, and
  characters from three blocks, the digits, \<open>@\<close> to \<open>Y\<close> and the back quote to \<open>y\<close>, since both blocks of letters begin one
  character before the first letter.\<close>

theorem random_strings:
  assumes "0 \<le> lo" "lo \<le> hi" "hi \<le> int maxLength" "maxLength < 2 ^ 15"
  shows "\<exists>s g'. randomastring maxLength lo hi g = Some (s, g') \<and> lo \<le> int (length s) \<and> int (length s) \<le> hi \<and> list_all astring_char s"
  by (rule randomastring_returns [OF assms])

theorem random_strings_witness:
  "\<exists>s g'. randomastring 500 300 500 (mt_init 19650218) = Some (s, g') \<and> length s \<le> 500 \<and> list_all astring_char s"
  using random_strings [of 300 500 500 "mt_init 19650218"] by auto

end
