(* ===== verification/Carriers.thy ===== *)
theory Carriers
  imports Loading
begin

text \<open>
  The new orders are exactly the orders that have no carrier yet: no transaction loses a new order or leaves a
  delivered one among them, and loading establishes it, but for order 2100, which is loaded both as delivered and as new.
\<close>

section \<open>The invariant\<close>

definition new_exact :: "'f workload \<Rightarrow> 'f db \<Rightarrow> bool" where
  "new_exact W db \<longleftrightarrow>
     (\<forall>((w, d, i), r)\<in>set (order db).
        (o_carrier_id r = 0 \<longrightarrow> (w, d, i) \<in> keys (neworder db)) \<and>
        (tpcc_remove W \<longrightarrow> (w, d, i) \<in> keys (neworder db) \<longrightarrow> i \<noteq> 2100 \<longrightarrow> o_carrier_id r = 0) \<and>
        (\<forall>n. n_to_Integer (num W) (o_ol_cnt r) = Some n \<longrightarrow> 1 \<le> n))"

lemma new_exact_cong: "order db' = order db \<Longrightarrow> neworder db' = neworder db \<Longrightarrow> new_exact W db' = new_exact W db"
  by (simp add: new_exact_def)

section \<open>Payment\<close>

lemma paymentById_keeps: "paymentById W w d cw cd c date amount t db = Some db' \<Longrightarrow> order db' = order db \<and> neworder db' = neworder db"
  by (auto simp: paymentById_def split: bind_splits dest!: pay_warehouse_keeps pay_district_keeps pay_customer_keeps)

lemma paymentByName_keeps: "paymentByName W w d cw cd name date amount t db = Some db' \<Longrightarrow> order db' = order db \<and> neworder db' = neworder db"
  by (auto simp: paymentByName_def split: bind_splits option.splits
      dest!: pay_warehouse_keeps pay_district_keeps pay_customer_keeps)

lemma paymentRnd_keeps: "paymentRnd W w (db, g) = Some (db', g') \<Longrightarrow> order db' = order db \<and> neworder db' = neworder db"
  by (auto simp: paymentRnd_def Let_def split_def split: bind_splits if_splits
      dest!: paymentById_keeps paymentByName_keeps)

section \<open>Delivery\<close>

lemma order_of_finds:
  assumes "consistent W db" "new_exact W db" "(w, d, i) \<in> keys (order db)"
  shows "\<exists>n c. order_of W w d i db = Some (Some (n, c))"
proof -
  have asc: "ascending (order db)" using assms(1) by (simp add: consistent_def order_heads_def)
  obtain r where r: "map_of (order db) (w, d, i) = Some r" using assms(3) by (auto simp: keys_map_of)
  then have "map_of (order_heads db) (w, d, i) = Some (o_c_id r, o_ol_cnt r)" by (simp add: order_heads_def map_of_view)
  then obtain n where n: "n_to_Integer (num W) (o_ol_cnt r) = Some n" using consistent_lines [OF assms(1)] by blast
  have "((w, d, i), r) \<in> set (order db)" using r by (rule map_of_SomeD)
  then have "1 \<le> n" using assms(2) n unfolding new_exact_def by fastforce
  then have "n \<noteq> minInteger" by (simp add: minInteger_def)
  moreover obtain u where "dropWhile (\<lambda>e. fst e < (w, d, i)) (order db) = ((w, d, i), r) # u"
    using first_at [OF asc r] dropWhile_ascending [OF asc] by auto
  ultimately show ?thesis using r n by (simp add: order_of_def Let_def scan_def)
qed

lemma deliver_order_carrier:
  assumes "deliver_order W w carrier t d i db = Some db'" "consistent W db" "new_exact W db" "(w, d, i) \<in> keys (order db)"
  shows "t_update (w, d, i) (\<lambda>rec. Some (rec\<lparr>o_carrier_id := carrier\<rparr>)) (order db) = Some (order db') \<and> neworder db' = neworder db"
proof -
  obtain n c where "order_of W w d i db = Some (Some (n, c))" using order_of_finds [OF assms(2-4)] by blast
  then show ?thesis using assms(1)
    by (auto simp: deliver_order_def Let_def split: bind_splits if_splits dest!: deliver_lines_keep)
qed

lemma deliver_district_exact:
  assumes "deliver_district W w carrier t d db = Some db'" "consistent W db" "new_exact W db" "carrier \<noteq> 0"
  shows "new_exact W db'"
proof -
  have asc: "ascending (neworder db)" "ascending (order db)" using assms(2) by (simp_all add: consistent_def order_heads_def)
  obtain i where i: "oldest_neworder w d db = Some i" "i = minInteger \<or> (w, d, i) \<in> keys (neworder db)"
    by (rule oldest_neworder_spec [OF asc(1), of w d]) auto
  show ?thesis
  proof (cases "i = minInteger")
    case True
    then show ?thesis using i assms by (simp add: deliver_district_def)
  next
    case False
    let ?k = "(w, d, i)"
    define db1 where "db1 = (if tpcc_remove W then db\<lparr>neworder := fst (t_remove ?k (neworder db))\<rparr> else db)"
    have run: "deliver_order W w carrier t d i db1 = Some db'" using assms(1) i False by (simp add: deliver_district_def db1_def)
    have o1: "order db1 = order db" by (simp add: db1_def)
    have k: "?k \<in> keys (order db)" using assms(2) i False by (auto simp: consistent_def order_heads_def keys_def)
    have c1: "consistent W db1" using assms(2) consistent_remove [OF assms(2)] by (simp add: db1_def)
    have ks: "x \<in> keys (neworder db1) \<longleftrightarrow> x \<in> keys (neworder db) \<and> (tpcc_remove W \<longrightarrow> x \<noteq> ?k)" for x
      using t_remove_map [OF asc(1), of ?k x] by (auto simp: keys_map_of db1_def)
    obtain n c where "order_of W w d i db = Some (Some (n, c))" using order_of_finds [OF assms(2,3) k] by blast
    moreover have "order_of W w d i db1 = order_of W w d i db" unfolding order_of_def o1 ..
    ultimately have "order_of W w d i db1 = Some (Some (n, c))" by simp
    then have u: "t_update ?k (\<lambda>rec. Some (rec\<lparr>o_carrier_id := carrier\<rparr>)) (order db) = Some (order db')" "neworder db' = neworder db1"
      using run o1 by (auto simp: deliver_order_def Let_def split: bind_splits if_splits dest!: deliver_lines_keep)
    have asc': "ascending (order db')" using t_update_ascending [OF u(1)] asc(2) by simp
    show ?thesis unfolding new_exact_def
    proof (clarify, goal_cases)
      case (1 w' d' j r)
      let ?x = "(w', d', j)"
      have m: "map_of (order db') ?x = Some r" using 1 ascending_map_of [OF asc'] by blast
      show ?case
      proof (cases "?x = ?k")
        case True
        then obtain r0 where r0: "map_of (order db) ?k = Some r0" "r = r0\<lparr>o_carrier_id := carrier\<rparr>"
          using m t_update_map [OF u(1), of ?k] by (auto split: option.splits)
        have "(?k, r0) \<in> set (order db)" using r0(1) by (rule map_of_SomeD)
        then have "\<forall>n. n_to_Integer (num W) (o_ol_cnt r0) = Some n \<longrightarrow> 1 \<le> n" using assms(3) unfolding new_exact_def by fastforce
        then show ?thesis using True r0(2) assms(4) by (simp add: ks u(2))
      next
        case False
        then have "map_of (order db) ?x = Some r" using m t_update_map [OF u(1), of ?x] by (auto split: if_splits)
        then have "(?x, r) \<in> set (order db)" by (rule map_of_SomeD)
        then show ?thesis using False assms(3) unfolding new_exact_def ks u(2) by fastforce
      qed
    qed
  qed
qed

lemma deliveryRnd_exact:
  assumes "deliveryRnd W w (db, g) = Some (db', g')" "consistent W db" "new_exact W db"
  shows "new_exact W db'"
proof -
  obtain c g1 where c: "urand 1 10 g = Some (c, g1)" "delivery W w c currentTimestamp db = Some db'"
    using assms(1) by (auto simp: deliveryRnd_def split: bind_splits)
  have "c \<noteq> 0" using urand_bounds [OF c(1)] by simp
  have "consistent W db' \<and> new_exact W db'"
    by (rule fold_opt_keeps [OF c(2) [unfolded delivery_def], where P = "\<lambda>db. consistent W db \<and> new_exact W db"])
      (use assms(2,3) \<open>c \<noteq> 0\<close> deliver_district_exact deliver_district_consistent in blast)+
  then show ?thesis ..
qed

section \<open>New orders\<close>

lemma order_lines_keep:
  "fold_opt (order_line W w d i wtax dtax disc ls sups its qs) js db = Some db' \<Longrightarrow> order db' = order db \<and> neworder db' = neworder db"
  by (erule fold_opt_keeps) (auto dest!: order_line_inserts)

lemma newOrder_inserts:
  assumes "newOrder W w d c ls sups its qs t db = Some db'"
  obtains i r where "map_of (next_ids db) (w, d) = Some i" "order db' = t_insert (w, d, i) r (order db)" "o_carrier_id r = 0"
    "o_ol_cnt r = n_of_int (num W) (int (length ls))" "neworder db' = t_insert (w, d, i) () (neworder db)"
proof -
  from assms obtain wtax disc rec n ds db2 where
    r: "map_of (district db) (w, d) = Some rec"
    and f1: "fold_opt (order_stock W w sups its qs) [0..<length ls]
        (let db = db\<lparr>district := ds\<rparr>;
             db = db\<lparr>order := t_insert (w, d, d_next_o_id rec) \<lparr>o_c_id = c, o_entry_d = t, o_carrier_id = 0,
               o_ol_cnt = n_of_int (num W) (int (length ls)),
               o_all_local = n_of_int (num W) (if \<exists>sw\<in>set sups. sw \<noteq> w then 0 else 1)\<rparr> (order db)\<rparr>;
             db = (if order_wdc_index W then db\<lparr>order_wdc := t_insert (w, d, c, d_next_o_id rec) () (order_wdc db)\<rparr> else db)
         in db\<lparr>neworder := t_insert (w, d, d_next_o_id rec) () (neworder db)\<rparr>) = Some db2"
    and f2: "fold_opt (order_line W w d (d_next_o_id rec) wtax (d_tax rec) disc ls sups its qs) [0..<length ls] db2 = Some db'"
    unfolding newOrder_def by (simp add: Let_def split: bind_splits)
  have k: "order db' = order db2" "neworder db' = neworder db2" using order_lines_keep [OF f2] by simp_all
  obtain st where "db2 = (let db = db\<lparr>district := ds\<rparr>;
             db = db\<lparr>order := t_insert (w, d, d_next_o_id rec) \<lparr>o_c_id = c, o_entry_d = t, o_carrier_id = 0,
               o_ol_cnt = n_of_int (num W) (int (length ls)),
               o_all_local = n_of_int (num W) (if \<exists>sw\<in>set sups. sw \<noteq> w then 0 else 1)\<rparr> (order db)\<rparr>;
             db = (if order_wdc_index W then db\<lparr>order_wdc := t_insert (w, d, c, d_next_o_id rec) () (order_wdc db)\<rparr> else db)
         in db\<lparr>neworder := t_insert (w, d, d_next_o_id rec) () (neworder db)\<rparr>)\<lparr>stock := st\<rparr>"
    using order_stocks_keep [OF f1] by blast
  then show ?thesis
    by (intro that [of "d_next_o_id rec" "\<lparr>o_c_id = c, o_entry_d = t, o_carrier_id = 0,
               o_ol_cnt = n_of_int (num W) (int (length ls)),
               o_all_local = n_of_int (num W) (if \<exists>sw\<in>set sups. sw \<noteq> w then 0 else 1)\<rparr>"])
      (simp_all add: k next_ids_def map_of_view r Let_def)
qed

lemma new_exact_insert:
  assumes "new_exact W db" "k \<notin> keys (order db)" "order db' = t_insert k r (order db)" "neworder db' = t_insert k () (neworder db)"
    "o_carrier_id r = 0" "\<And>n. n_to_Integer (num W) (o_ol_cnt r) = Some n \<Longrightarrow> 1 \<le> n"
  shows "new_exact W db'"
proof -
  have "(k, r') \<notin> set (order db)" for r' using assms(2) by (force simp: keys_def)
  then show ?thesis using assms(1,5,6) unfolding new_exact_def assms(3,4) by fastforce
qed

lemma newOrderRnd_exact:
  assumes "newOrderRnd W w (db, g) = Some (db', g')" "consistent W db" "new_exact W db" "exact_Integers (num W)"
  shows "new_exact W db'"
proof -
  from assms(1) obtain d c n ls g1 g2 where n: "urand 5 15 g1 = Some (n, g2)"
    and r: "newOrder W w d c [1..n] (map fst ls) (map (fst \<circ> snd) ls) (map (snd \<circ> snd) ls) currentTimestamp db = Some db'"
    by (auto simp: newOrderRnd_def split: bind_splits)
  have n: "5 \<le> n" "n \<le> 15" using urand_bounds [OF n] by auto
  from newOrder_inserts [OF r] obtain i rec where i: "map_of (next_ids db) (w, d) = Some i" "order db' = t_insert (w, d, i) rec (order db)"
    "o_carrier_id rec = 0" "o_ol_cnt rec = n_of_int (num W) (int (length [1..n]))" "neworder db' = t_insert (w, d, i) () (neworder db)" by metis
  have f: "(w, d, i) \<notin> keys (order db)"
  proof
    assume "(w, d, i) \<in> keys (order db)"
    then have "(w, d, i) \<in> keys (order_heads db)" by (simp add: order_heads_def keys_def)
    then show False using assms(2) i(1) unfolding consistent_def ids_below_next_def by fastforce
  qed
  have "int (length [1..n]) = n" using n by simp
  then have "n_to_Integer (num W) (o_ol_cnt rec) = Some n" using assms(4) n unfolding i(4) exact_Integers_def int_ok_def by simp
  then show ?thesis using n by (intro new_exact_insert [OF assms(3) f i(2,5,3)]) simp
qed

section \<open>The mix\<close>

lemma tx_keeps_exact:
  assumes "tx W w (db, g) = Some (k, db', g')" "consistent W db" "new_exact W db" "exact_Integers (num W)"
  shows "new_exact W db'"
proof -
  obtain r g1 where r: "getRand 0 10000 g = Some (r, g1)" "0 \<le> r" "r < 10000" using getRand_mix by blast
  then consider "paymentRnd W w (db, g1) = Some (db', g')" | "db' = db"
    | "deliveryRnd W w (db, g1) = Some (db', g')" | "newOrderRnd W w (db, g1) = Some (db', g')"
    using assms(1) unfolding tx_kinds [OF r] by (auto split: if_splits)
  then show ?thesis
  proof cases
    case 1
    then show ?thesis using paymentRnd_keeps [OF 1] new_exact_cong assms(3) by blast
  next
    case 3
    then show ?thesis by (rule deliveryRnd_exact [OF _ assms(2,3)])
  next
    case 4
    then show ?thesis by (rule newOrderRnd_exact [OF _ assms(2-4)])
  qed (use assms(3) in simp)
qed

lemma worker_keeps_exact:
  "worker W n (db, g) = Some (ks, db', g') \<Longrightarrow> consistent W db \<Longrightarrow> new_exact W db \<Longrightarrow> exact_Integers (num W) \<Longrightarrow> new_exact W db'"
proof (induction n arbitrary: db g ks)
  case (Suc n)
  then obtain w g1 k db1 g2 ks1 where t: "tx W w (db, g1) = Some (k, db1, g2)" "worker W n (db1, g2) = Some (ks1, db', g')"
    by (auto split: bind_splits)
  show ?case
    by (rule Suc.IH [OF t(2)]) (use t(1) Suc.prems tx_keeps_consistent tx_keeps_exact in blast)+
qed simp

section \<open>Loading\<close>

lemma load_orderlines_keep:
  "fold_opt (load_orderline W w d i) ls (db, g) = Some (db', g') \<Longrightarrow> order db' = order db \<and> neworder db' = neworder db"
proof -
  assume a: "fold_opt (load_orderline W w d i) ls (db, g) = Some (db', g')"
  have "order (fst (db', g')) = order db \<and> neworder (fst (db', g')) = neworder db"
  proof (rule fold_opt_keeps [OF a, where P = "\<lambda>s. order (fst s) = order db \<and> neworder (fst s) = neworder db"])
    fix l s s' assume "load_orderline W w d i l s = Some s'" and p: "order (fst s) = order db \<and> neworder (fst s) = neworder db"
    moreover obtain db1 g1 where "s = (db1, g1)" by (cases s)
    ultimately show "order (fst s') = order db \<and> neworder (fst s') = neworder db"
      using load_orderline_inserts [of W w d i l db1 g1] by auto
  qed simp
  then show ?thesis by simp
qed

lemma load_order_inserts:
  assumes "load_order W w d (i, c) (db, g) = Some (db', g')" "exact_Integers (num W)"
  obtains r where "order db' = t_insert (w, d, i) r (order db)" "neworder db' = neworder db" "o_carrier_id r = 0 \<longleftrightarrow> 2101 \<le> i"
    "\<forall>n. n_to_Integer (num W) (o_ol_cnt r) = Some n \<longrightarrow> 1 \<le> n"
proof -
  obtain r0 g0 where r0: "rnd 10 g = Some (r0, g0)" "0 \<le> r0" using rnd_returns [of 10 g] by auto
  obtain ca g1 where ca: "(if i < 2101 then (r0 + 1, g0) else (0, g)) = (ca, g1)" by (meson prod.exhaust)
  obtain r g2 where r: "rnd 10 g1 = Some (r, g2)" "0 \<le> r" "r < 10" using rnd_returns [of 10 g1] by auto
  define rec where "rec = \<lparr>o_c_id = c, o_entry_d = currentTimestamp, o_carrier_id = ca, o_ol_cnt = n_of_int (num W) (r + 5),
    o_all_local = n_of_int (num W) 1\<rparr>"
  define db1 where "db1 = db\<lparr>order := t_insert (w, d, i) rec (order db)\<rparr>"
  define db2 where "db2 = (if order_wdc_index W then db1\<lparr>order_wdc := t_insert (w, d, c, i) () (order_wdc db1)\<rparr> else db1)"
  have c: "(if i < 2101 then do { (r, g) \<leftarrow> rnd 10 g; Some (r + 1, g) } else Some (0, g)) = Some (ca, g1)" using r0(1) ca by auto
  have "fold_opt (load_orderline W w d i) [1..r + 5] (db2, g2) = Some (db', g')"
    using assms(1) r(1) by (cases "order_wdc_index W") (simp_all add: load_order_def Let_def c db2_def db1_def rec_def)
  then have k: "order db' = order db2" "neworder db' = neworder db2" by (auto dest: load_orderlines_keep)
  have "n_to_Integer (num W) (n_of_int (num W) (r + 5)) = Some (r + 5)" using assms(2) r by (simp add: exact_Integers_def int_ok_def)
  moreover have "ca = 0 \<longleftrightarrow> 2101 \<le> i" using ca r0(2) by (auto split: if_splits)
  ultimately show ?thesis using r by (intro that [of rec]) (auto simp: k db2_def db1_def rec_def)
qed

lemma neworders_inserted:
  "order (foldl (\<lambda>db i. db\<lparr>neworder := t_insert (w, d, i) () (neworder db)\<rparr>) db is) = order db \<and>
   keys (neworder (foldl (\<lambda>db i. db\<lparr>neworder := t_insert (w, d, i) () (neworder db)\<rparr>) db is)) = keys (neworder db) \<union> {(w, d, i) | i. i \<in> set is}"
  by (induction "is" arbitrary: db) auto

text \<open>The orders of a district as they are loaded, among those there were before.\<close>

definition loaded_orders :: "'f workload \<Rightarrow> int \<Rightarrow> int \<Rightarrow> 'f db \<Rightarrow> 'f db \<Rightarrow> bool" where
  "loaded_orders W w d db0 db \<longleftrightarrow> neworder db = neworder db0 \<and>
     (\<forall>(k, r)\<in>set (order db). (k, r) \<in> set (order db0) \<or>
        (\<exists>i. k = (w, d, i) \<and> i \<le> 3000 \<and> (o_carrier_id r = 0 \<longleftrightarrow> 2101 \<le> i) \<and> (\<forall>n. n_to_Integer (num W) (o_ol_cnt r) = Some n \<longrightarrow> 1 \<le> n)))"

lemma loadOrders_exact:
  assumes "loadOrders W x w d (db, g) = Some (db', g')" "consistent W db" "new_exact W db" "exact_Integers (num W)"
    "\<forall>i. (w, d, i) \<notin> keys (order db)"
  shows "new_exact W db'"
proof -
  obtain cs g1 db1 where r: "fold_opt (load_order W w d) (zip [1..3000] cs) (db, g1) = Some (db1, g')"
    and db': "db' = foldl (\<lambda>db i. db\<lparr>neworder := t_insert (w, d, i) () (neworder db)\<rparr>) db1 [2100..3000]"
    using assms(1) unfolding loadOrders_def by (auto split: bind_splits simp del: upto_rec_numeral)
  have "loaded_orders W w d db (fst (db1, g'))"
  proof (rule fold_opt_keeps [OF r, where P = "\<lambda>s. loaded_orders W w d db (fst s)"])
    fix p s s' assume p: "p \<in> set (zip [1..3000] cs)" and run: "load_order W w d p s = Some s'" and l: "loaded_orders W w d db (fst s)"
    obtain i c where pe: "p = (i, c)" by (cases p)
    have i: "i \<le> 3000" using set_zip_leftD [of i c "[1..3000]" cs] p pe by (simp del: upto_rec_numeral)
    obtain dbs gs dbs' gs' where s: "s = (dbs, gs)" "s' = (dbs', gs')" by (cases s; cases s')
    obtain rec where rec: "order dbs' = t_insert (w, d, i) rec (order dbs)" "neworder dbs' = neworder dbs" "o_carrier_id rec = 0 \<longleftrightarrow> 2101 \<le> i"
      "\<forall>n. n_to_Integer (num W) (o_ol_cnt rec) = Some n \<longrightarrow> 1 \<le> n"
      using load_order_inserts [OF run [unfolded pe s] assms(4)] by metis
    have "fst s' = dbs'" "fst s = dbs" by (simp_all add: s)
    then show "loaded_orders W w d db (fst s')" using l rec i unfolding loaded_orders_def by fastforce
  qed (fastforce simp: loaded_orders_def)
  then have l: "loaded_orders W w d db db1" by simp
  have o: "order db' = order db1" unfolding db' by (rule conjunct1 [OF neworders_inserted])
  have "keys (neworder db') = keys (neworder db1) \<union> {(w, d, i) | i. i \<in> {2100..3000}}"
    unfolding db' set_upto [symmetric] by (rule conjunct2 [OF neworders_inserted])
  moreover have "neworder db1 = neworder db" using l by (simp add: loaded_orders_def)
  ultimately have ks: "k \<in> keys (neworder db') \<longleftrightarrow> k \<in> keys (neworder db) \<or> (\<exists>i. k = (w, d, i) \<and> 2100 \<le> i \<and> i \<le> 3000)" for k by auto
  have "keys (neworder db) \<subseteq> keys (order db)" using assms(2) by (simp add: consistent_def order_heads_def keys_def)
  then have old: "(w, d, i) \<notin> keys (neworder db)" for i using assms(5) by blast
  show ?thesis unfolding new_exact_def o
  proof (clarify, goal_cases)
    case (1 w' d' j rec)
    then consider "((w', d', j), rec) \<in> set (order db)"
      | "(w', d') = (w, d)" "j \<le> 3000" "o_carrier_id rec = 0 \<longleftrightarrow> 2101 \<le> j" "\<forall>n. n_to_Integer (num W) (o_ol_cnt rec) = Some n \<longrightarrow> 1 \<le> n"
      using l unfolding loaded_orders_def by fastforce
    then show ?case
    proof cases
      case 1
      then have "(w', d', j) \<in> keys (order db)" by (force simp: keys_def)
      then have "(w', d') \<noteq> (w, d)" using assms(5) by auto
      then show ?thesis using 1 assms(3) unfolding ks new_exact_def by fastforce
    next
      case 2
      then show ?thesis using old by (auto simp: ks)
    qed
  qed
qed

section \<open>Properties\<close>

text \<open>C3. Every transaction that the workload draws, of any kind and with any parameters, keeps the tables
  consistent: the orders of a district have ids below its next one, the index of the orders of a customer is that of
  the orders, every order has exactly the lines it counts; and it keeps the new orders exact: an order is among them if
  it has no carrier, and, where deliveries remove what they deliver, only then (but for the orders 2100, which are
  loaded as both). So no transaction loses the new-order record of an order or leaves that of a delivered one.\<close>

theorem tx_consistent:
  assumes "tx W w (db, g) = Some (k, db', g')" "consistent W db" "new_exact W db" "exact_Integers (num W)"
  shows "consistent W db' \<and> new_exact W db'"
  using tx_keeps_consistent [OF assms(1,2,4)] tx_keeps_exact [OF assms] by simp

lemma sample_db_exact: "new_exact W sample_db"
  by (simp add: new_exact_def sample_db_def)

theorem tx_consistent_witness:
  "\<exists>k db' g'. tx sample_workload 1 (sample_db, mt_init 19650218) = Some (k, db', g') \<and> consistent sample_workload db'
    \<and> new_exact sample_workload db'"
proof -
  obtain k db' g' where t: "tx sample_workload 1 (sample_db, mt_init 19650218) = Some (k, db', g')"
    using tx_returns_complete [OF sample_db_complete sample_db_consistent, of 1 "mt_init 19650218"] by (auto simp: sample_workload_def)
  then show ?thesis using tx_consistent [OF t sample_db_consistent sample_db_exact sample_numbers_exact] by blast
qed

end
