(* ===== verification/Filling.thy ===== *)
theory Filling
  imports Carriers
begin

text \<open>
  What loading the tables from nothing establishes: the tables that the transactions need, complete and consistent,
  for any number of threads, so that the threads of the run phase never stop.
\<close>

section \<open>Loops that always return\<close>

lemma fold_opt_progress:
  "(\<And>xs x ys s. is = xs @ x # ys \<Longrightarrow> I xs s \<Longrightarrow> \<exists>s'. f x s = Some s' \<and> I (xs @ [x]) s') \<Longrightarrow> I [] s \<Longrightarrow>
   \<exists>s'. fold_opt f is s = Some s' \<and> I is s'"
proof (induction "is" arbitrary: I s)
  case (Cons x "is")
  obtain s1 where s1: "f x s = Some s1" "I ([] @ [x]) s1" using Cons.prems(1) [of "[]" x "is" s] Cons.prems(2) by auto
  have "\<exists>s'. fold_opt f is s1 = Some s' \<and> I (x # is) s'"
  proof (rule Cons.IH [of "\<lambda>xs. I (x # xs)"])
    fix xs y ys s assume "is = xs @ y # ys" "I (x # xs) s"
    then show "\<exists>s'. f y s = Some s' \<and> I (x # xs @ [y]) s'" using Cons.prems(1) [of "x # xs" y ys s] by simp
  qed (use s1 in simp)
  then show ?case using s1(1) by auto
qed simp

section \<open>What every function keeps\<close>

definition well_filled :: "'f db \<Rightarrow> bool" where
  "well_filled db \<longleftrightarrow>
     (\<forall>(_, r)\<in>set (warehouse db). length (w_name r) \<le> 10) \<and>
     (\<forall>(_, r)\<in>set (district db). length (d_name r) \<le> 10 \<and> d_next_o_id r = 3001) \<and>
     (\<forall>(_, r)\<in>set (orderline db). 1 \<le> ol_i_id r \<and> ol_i_id r \<le> ITEMS_NO) \<and>
     (\<forall>((w, d, _, _), r)\<in>set (customerwdl db). (w, d, cw_c_id r) \<in> keys (customer db))"

definition filling :: "'f workload \<Rightarrow> 'f db \<Rightarrow> bool" where
  "filling W db \<longleftrightarrow> consistent W db \<and> new_exact W db \<and> well_filled db"

lemma filling_thread [simp]: "filling (W\<lparr>workerThreadId := i\<rparr>) db = filling W db"
  by (simp add: filling_def consistent_defs new_exact_def)

lemma filling_counter [simp]: "filling W (db\<lparr>tpcchistorycounter := n\<rparr>) = filling W db"
  by (simp add: filling_def well_filled_def consistent_defs next_ids_def order_heads_def new_exact_def)

lemmas filling_defs = filling_def new_exact_def well_filled_def consistent_defs next_ids_def order_heads_def

section \<open>Items, warehouses and stock\<close>

lemma astrings_returns: "\<exists>ss g'. astrings n 24 24 24 g = Some (ss, g') \<and> length ss = n"
proof (induction n arbitrary: g)
  case (Suc n)
  obtain s g1 where s: "randomastring 24 24 24 g = Some (s, g1)" using randomastring_returns [of 24 24 24 g] by auto
  obtain ss g2 where "astrings n 24 24 24 g1 = Some (ss, g2)" "length ss = n" using Suc by blast
  then show ?case using s by simp
qed simp

lemma original_data_returns: "\<exists>s g'. original_data g = Some (s, g') \<and> length s \<le> 50"
proof -
  obtain s g1 where s: "randomastring 50 25 50 g = Some (s, g1)" "25 \<le> int (length s)" "int (length s) \<le> 50"
    using randomastring_returns [of 25 50 50 g] by auto
  obtain r g2 where r: "rnd 10 g1 = Some (r, g2)" using rnd_returns [of 10 g1] by auto
  obtain l g3 where l: "rnd (int (length s) - 8) g2 = Some (l, g3)" "0 \<le> l" "l < int (length s) - 8"
    using rnd_returns [of "int (length s) - 8" g2] s by auto
  have w: "vc_of 10 (asc ''ORIGINAL'') = Some (asc ''ORIGINAL'')" "length (asc ''ORIGINAL'') = 8" by (simp_all add: vc_of_def asc_def)
  have "nat l \<le> 42" using s l by linarith
  then show ?thesis using s r l w by (simp add: original_data_def vc_concat_def)
qed

lemma load_item_fills:
  assumes "filling W db"
  shows "\<exists>db' g'. load_item W i (db, g) = Some (db', g') \<and> filling W db' \<and> db' = db\<lparr>item := item db'\<rparr>
    \<and> keys (item db') = insert i (keys (item db))"
proof -
  obtain s g1 where s: "original_data g = Some (s, g1)" using original_data_returns by blast
  obtain im g2 where im: "randomId 1 10000 g1 = Some (im, g2)"
    unfolding randomId_def by (rule getRand_range [of 1 10001 g1]) (auto simp: icheck_def)
  obtain n g3 where n: "randomastring 24 14 24 g2 = Some (n, g3)" using randomastring_returns [of 14 24 24 g2] by auto
  obtain p g4 where p: "randomNumeric (num W) (n_lit (num W) 100 2) (n_lit (num W) 10000 2) g3 = (p, g4)" by (meson prod.exhaust)
  show ?thesis using assms by (simp add: load_item_def Let_def s im n p) (simp add: filling_defs)
qed

lemma random_address_returns:
  "\<exists>nm s1 s2 c s z g'. random_address g = Some ((nm, s1, s2, c, s, z), g') \<and> length nm \<le> 10"
proof -
  obtain nm g1 where a: "randomastring 10 6 10 g = Some (nm, g1)" "length nm \<le> 10" using randomastring_returns [of 6 10 10 g] by auto
  obtain s1 g2 where b: "randomastring 20 10 20 g1 = Some (s1, g2)" using randomastring_returns [of 10 20 20 g1] by auto
  obtain s2 g3 where c: "randomastring 20 10 20 g2 = Some (s2, g3)" using randomastring_returns [of 10 20 20 g2] by auto
  obtain s3 g4 where d: "randomastring 20 10 20 g3 = Some (s3, g4)" using randomastring_returns [of 10 20 20 g3] by auto
  obtain s4 g5 where e: "randomastring 2 2 2 g4 = Some (s4, g5)" using randomastring_returns [of 2 2 2 g4] by auto
  obtain z g6 where f: "randomzip g5 = Some (z, g6)" using randomzip_returns [of g5] by auto
  show ?thesis by (simp add: random_address_def a b c d e f)
qed

lemma load_warehouse_fills:
  assumes "filling W db"
  shows "\<exists>db' g'. load_warehouse W i (db, g) = Some (db', g') \<and> filling W db' \<and> db' = db\<lparr>warehouse := warehouse db'\<rparr>
    \<and> keys (warehouse db') = insert (i + 1) (keys (warehouse db))"
proof -
  obtain nm s1 s2 c s z g1 where a: "random_address g = Some ((nm, s1, s2, c, s, z), g1)" "length nm \<le> 10" using random_address_returns by blast
  obtain p g2 where p: "randomNumeric (num W) (n_lit (num W) 1000 4) (n_lit (num W) 2000 4) g1 = (p, g2)" by (meson prod.exhaust)
  show ?thesis using assms by (simp add: load_warehouse_def Let_def a p) (simp add: filling_defs a(2))
qed

lemma load_stock_item_fills:
  assumes "filling W db"
  shows "\<exists>db' g'. load_stock_item W w i (db, g) = Some (db', g') \<and> filling W db' \<and> db' = db\<lparr>stock := stock db'\<rparr>
    \<and> keys (stock db') = insert (w, i + 1) (keys (stock db))"
proof -
  obtain s g1 where s: "original_data g = Some (s, g1)" using original_data_returns by blast
  obtain p g2 where p: "randomNumeric (num W) (n_of_int (num W) 10) (n_of_int (num W) 100) g1 = (p, g2)" by (meson prod.exhaust)
  obtain d g3 where d: "astrings 10 24 24 24 g2 = Some (d, g3)" using astrings_returns by blast
  show ?thesis using assms by (simp add: load_stock_item_def Let_def s p d) (simp add: filling_defs)
qed

lemma load_district_fills:
  assumes "filling W db" "(w, i) \<notin> keys (district db)"
  shows "\<exists>db' g'. load_district W w i (db, g) = Some (db', g') \<and> filling W db' \<and> db' = db\<lparr>district := district db'\<rparr>
    \<and> keys (district db') = insert (w, i) (keys (district db))"
proof -
  obtain nm s1 s2 c s z g1 where a: "random_address g = Some ((nm, s1, s2, c, s, z), g1)" "length nm \<le> 10" using random_address_returns by blast
  obtain p g2 where p: "randomNumeric (num W) (n_lit (num W) 0 4) (n_lit (num W) 2000 4) g1 = (p, g2)" by (meson prod.exhaust)
  define r where "r = \<lparr>d_name = nm, d_street_1 = s1, d_street_2 = s2, d_city = c, d_state = s, d_zip = z, d_tax = p,
    d_ytd = n_of_int (num W) 3000000, d_next_o_id = 3001\<rparr>"
  define db1 where "db1 = db\<lparr>district := t_insert (w, i) r (district db)\<rparr>"
  have run: "load_district W w i (db, g) = Some (db1, g2)" by (simp add: load_district_def Let_def a p db1_def r_def)
  have none: "map_of (district db) (w, i) = None" using assms(2) keys_map_of by (metis not_None_eq)
  have asc: "ascending (district db)" using assms(1) by (simp add: filling_defs)
  have ni: "map_of (next_ids db1) k = (if k = (w, i) then Some 3001 else map_of (next_ids db) k)" for k
    using asc by (simp add: next_ids_def map_of_view db1_def map_of_insert r_def)
  have "ids_below_next db1"
    unfolding ids_below_next_def
  proof clarify
    fix w' d' j assume "(w', d', j) \<in> keys (order_heads db1)"
    then obtain n where "map_of (next_ids db) (w', d') = Some n" "j < n"
      using assms(1) unfolding filling_def consistent_def ids_below_next_def by (fastforce simp: db1_def order_heads_def)
    moreover have "(w', d') \<noteq> (w, i)" using none calculation(1) by (auto simp: next_ids_def map_of_view)
    ultimately show "\<exists>n. map_of (next_ids db1) (w', d') = Some n \<and> j < n" by (simp only: ni if_False) blast
  qed
  moreover have "ascending (next_ids db1)" using asc none by (simp add: next_ids_def db1_def t_insert_ascending)
  ultimately have "consistent W db1" using assms(1) unfolding filling_def consistent_def
    by (simp add: db1_def order_heads_def lines_exact_def index_exact_def)
  moreover have "new_exact W db1" using assms(1) new_exact_cong [of db1 db W] by (simp add: filling_def db1_def)
  moreover have "well_filled db1" using assms(1) a(2) by (auto simp: filling_def well_filled_def db1_def r_def)
  ultimately show ?thesis using run by (simp add: filling_def db1_def)
qed

section \<open>Customers\<close>

lemma load_name_returns: "\<exists>n g'. getNonUniformRandomLastNameForLoad g = Some (n, g') \<and> 0 \<le> n \<and> n \<le> 999"
  unfolding getNonUniformRandomLastNameForLoad_def C_LAST_LOAD_C_def by (rule nurand_range [of 255 0 999 157 g]) auto

lemma load_customer_fills:
  assumes "filling W db" "0 \<le> i" "0 \<le> tpcchistorycounter db" "tpcchistorycounter db + 1 < 2 ^ 31"
  shows "\<exists>db' g'. load_customer W w d i (db, g) = Some (db', g') \<and> filling W db'
    \<and> db' = db\<lparr>customer := customer db', customerwdl := customerwdl db', history := history db',
        tpcchistorycounter := tpcchistorycounter db + 1\<rparr>
    \<and> keys (customer db') = insert (w, d, i + 1) (keys (customer db))"
proof -
  have "\<exists>l g1. (if i < 1000 then do { l \<leftarrow> genName i; Some (l, g) }
                  else do { (n, g) \<leftarrow> getNonUniformRandomLastNameForLoad g; l \<leftarrow> genName n; Some (l, g) }) = Some (l, g1)"
  proof (cases "i < 1000")
    case True
    then obtain l where "genName i = Some l" using genName_returns assms(2) by fastforce
    then show ?thesis using True by simp
  next
    case False
    obtain n g1 where n: "getNonUniformRandomLastNameForLoad g = Some (n, g1)" "0 \<le> n" "n \<le> 999" using load_name_returns by blast
    obtain l where "genName n = Some l" using genName_returns [OF n(2,3)] by blast
    then show ?thesis using False n(1) by simp
  qed
  then obtain l g1 where l: "(if i < 1000 then do { l \<leftarrow> genName i; Some (l, g) }
                  else do { (n, g) \<leftarrow> getNonUniformRandomLastNameForLoad g; l \<leftarrow> genName n; Some (l, g) }) = Some (l, g1)" by blast
  obtain f g2 where f: "randomastring 16 8 16 g1 = Some (f, g2)" using randomastring_returns [of 8 16 16 g1] by auto
  obtain r g3 where r: "rnd 10 g2 = Some (r, g3)" using rnd_returns [of 10 g2] by auto
  have cr: "vc_of 2 (asc (if r \<noteq> 0 then ''GC'' else ''BC'')) = Some (asc (if r \<noteq> 0 then ''GC'' else ''BC''))"
    "vc_of 2 (asc ''OE'') = Some (asc ''OE'')" by (simp_all add: vc_of_def asc_def)
  obtain s1 g4 where s1: "randomastring 20 10 20 g3 = Some (s1, g4)" using randomastring_returns [of 10 20 20 g3] by auto
  obtain s2 g5 where s2: "randomastring 20 10 20 g4 = Some (s2, g5)" using randomastring_returns [of 10 20 20 g4] by auto
  obtain s3 g6 where s3: "randomastring 20 10 20 g5 = Some (s3, g6)" using randomastring_returns [of 10 20 20 g5] by auto
  obtain s4 g7 where s4: "randomastring 2 2 2 g6 = Some (s4, g7)" using randomastring_returns [of 2 2 2 g6] by auto
  obtain z g8 where z: "randomzip g7 = Some (z, g8)" using randomzip_returns [of g7] by auto
  obtain ph g9 where ph: "randomnstring 16 16 g8 = Some (ph, g9)" using randomnstring_returns [of g8] by auto
  obtain di g10 where di: "randomNumeric (num W) (n_lit (num W) 0 4) (n_lit (num W) 5000 4) g9 = (di, g10)" by (meson prod.exhaust)
  obtain da g11 where da: "randomastring 500 300 500 g10 = Some (da, g11)" using randomastring_returns [of 300 500 500 g10] by auto
  obtain hd g12 where hd: "randomastring 24 12 24 g11 = Some (hd, g12)" using randomastring_returns [of 12 24 24 g11] by auto
  have ic: "icheck (tpcchistorycounter db + 1) = Some (tpcchistorycounter db + 1)" using assms(3,4) by (simp add: icheck_def)
  define c where "c = \<lparr>c_first = f, c_middle = asc ''OE'', c_last = l, c_street_1 = s1, c_street_2 = s2, c_city = s3,
        c_state = s4, c_zip = z, c_phone = ph, c_since = currentTimestamp, c_credit = asc (if r \<noteq> 0 then ''GC'' else ''BC''),
        c_credit_lim = n_lit (num W) 5000000 2,
        c_discount = di, c_balance = n_lit (num W) (- 1000) 2, c_ytd_payment = n_of_int (num W) 1, c_payment_cnt = n_of_int (num W) 0,
        c_delivery_cnt = n_of_int (num W) 0, c_data = da\<rparr>"
  define h where "h = \<lparr>h_c_id = i + 1, h_c_d_id = d, h_c_w_id = w, h_d_id = d, h_w_id = w, h_date = currentTimestamp,
        h_amount = n_lit (num W) 1000 2, h_data = hd\<rparr>"
  let ?db = "db\<lparr>customer := t_insert (w, d, i + 1) c (customer db), customerwdl := t_insert (w, d, l, f) \<lparr>cw_c_id = i + 1\<rparr> (customerwdl db),
    history := t_insert (workerThreadId W, tpcchistorycounter db) h (history db), tpcchistorycounter := tpcchistorycounter db + 1\<rparr>"
  have "load_customer W w d i (db, g) = Some (?db, g12)"
    by (simp only: load_customer_def prod.case Let_def l bind.bind_lunit Option.bind.simps f r cr s1 s2 s3 s4 z ph di da hd ic)
      (simp add: ic hd c_def h_def)
  moreover have "consistent W ?db" using assms(1) by (simp add: filling_defs)
  moreover have "new_exact W ?db" using assms(1) new_exact_cong [of ?db db W] by (simp add: filling_def)
  moreover have "well_filled ?db" using assms(1) unfolding filling_def well_filled_def by (simp, fast)
  ultimately show ?thesis by (simp add: filling_def)
qed

section \<open>The loops\<close>

text \<open>A loop that inserts an entry with a new key in every round and leaves the rest of the tables as it is.\<close>

lemma fold_fills:
  assumes "\<And>i db g. i \<in> set is \<Longrightarrow> P db \<Longrightarrow> A i \<notin> K db \<Longrightarrow>
      \<exists>db' g'. f i (db, g) = Some (db', g') \<and> P db' \<and> rest db' = rest db \<and> K db' = insert (A i) (K db)"
    "P db" "distinct is" "inj_on A (set is)" "A ` set is \<inter> K db = {}"
  shows "\<exists>db' g'. fold_opt f is (db, g) = Some (db', g') \<and> P db' \<and> rest db' = rest db \<and> K db' = K db \<union> A ` set is"
  using assms
proof (induction "is" arbitrary: db g)
  case (Cons i "is")
  obtain db1 g1 where s: "f i (db, g) = Some (db1, g1)" "P db1" "rest db1 = rest db" "K db1 = insert (A i) (K db)"
    using Cons.prems(1) [of i db g] Cons.prems(2,5) by auto
  have "A i \<notin> A ` set is" using Cons.prems(3,4) by (auto simp: inj_on_def)
  then have "A ` set is \<inter> K db1 = {}" using Cons.prems(5) s(4) by auto
  then have "\<exists>db' g'. fold_opt f is (db1, g1) = Some (db', g') \<and> P db' \<and> rest db' = rest db1 \<and> K db' = K db1 \<union> A ` set is"
    by (intro Cons.IH) (use Cons.prems(1,3,4) s(2) in auto)
  then show ?case using s by auto
qed simp

lemma rests:
  "db'\<lparr>item := []\<rparr> = db\<lparr>item := []\<rparr> \<longleftrightarrow> (\<exists>t. db' = db\<lparr>item := t\<rparr>)"
  "db'\<lparr>warehouse := []\<rparr> = db\<lparr>warehouse := []\<rparr> \<longleftrightarrow> (\<exists>t. db' = db\<lparr>warehouse := t\<rparr>)"
  "db'\<lparr>stock := []\<rparr> = db\<lparr>stock := []\<rparr> \<longleftrightarrow> (\<exists>t. db' = db\<lparr>stock := t\<rparr>)"
  "db'\<lparr>district := []\<rparr> = db\<lparr>district := []\<rparr> \<longleftrightarrow> (\<exists>t. db' = db\<lparr>district := t\<rparr>)"
  by (cases db; cases db'; simp)+

lemma shifted: "(\<lambda>i. f (i + 1)) ` {a..b - 1} = f ` {a + 1..b :: int}"
proof -
  have "(\<lambda>i. f (i + 1)) ` {a..b - 1} = f ` (\<lambda>i. i + 1) ` {a..b - 1}" by (simp only: image_image)
  also have "(\<lambda>i. i + 1) ` {a..b - 1} = {a + 1..b}" by (simp add: image_add_atLeastAtMost')
  finally show ?thesis .
qed

lemma loadItem_fills:
  assumes "filling W db" "keys (item db) = {}"
  shows "\<exists>t g'. loadItem W (db, g) = Some (db\<lparr>item := t\<rparr>, g') \<and> filling W (db\<lparr>item := t\<rparr>) \<and> keys t = {1..ITEMS_NO}"
proof -
  have "\<exists>db' g'. fold_opt (load_item W) [1..ITEMS_NO] (db, g) = Some (db', g') \<and> filling W db' \<and> db'\<lparr>item := []\<rparr> = db\<lparr>item := []\<rparr>
      \<and> keys (item db') = keys (item db) \<union> (\<lambda>i. i) ` set [1..ITEMS_NO]"
    by (rule fold_fills, (simp only: rests)[1], metis load_item_fills) (use assms in \<open>auto simp: inj_on_def\<close>)
  then show ?thesis using assms(2) unfolding loadItem_def set_upto rests by auto
qed

lemma loadWarehouse_fills:
  assumes "filling W db" "keys (warehouse db) = {}"
  shows "\<exists>t g'. loadWarehouse W (db, g) = Some (db\<lparr>warehouse := t\<rparr>, g') \<and> filling W (db\<lparr>warehouse := t\<rparr>) \<and> keys t = {1..warehouseCount W}"
proof -
  have "\<exists>db' g'. fold_opt (load_warehouse W) [0..warehouseCount W - 1] (db, g) = Some (db', g') \<and> filling W db'
      \<and> db'\<lparr>warehouse := []\<rparr> = db\<lparr>warehouse := []\<rparr> \<and> keys (warehouse db') = keys (warehouse db) \<union> (\<lambda>i. i + 1) ` set [0..warehouseCount W - 1]"
    by (rule fold_fills, (simp only: rests)[1], metis load_warehouse_fills) (use assms in \<open>auto simp: inj_on_def\<close>)
  then show ?thesis using assms(2) unfolding loadWarehouse_def set_upto rests by auto
qed

lemma loadStock_fills:
  assumes "filling W db" "\<forall>i. (w, i) \<notin> keys (stock db)"
  shows "\<exists>t g'. loadStock W w (db, g) = Some (db\<lparr>stock := t\<rparr>, g') \<and> filling W (db\<lparr>stock := t\<rparr>)
    \<and> keys t = keys (stock db) \<union> {w} \<times> {1..ITEMS_NO}"
proof -
  have "\<exists>db' g'. fold_opt (load_stock_item W w) [0..ITEMS_NO - 1] (db, g) = Some (db', g') \<and> filling W db'
      \<and> db'\<lparr>stock := []\<rparr> = db\<lparr>stock := []\<rparr> \<and> keys (stock db') = keys (stock db) \<union> (\<lambda>i. (w, i + 1)) ` set [0..ITEMS_NO - 1]"
    by (rule fold_fills, (simp only: rests)[1], metis load_stock_item_fills) (use assms in \<open>auto simp: inj_on_def\<close>)
  moreover have "(\<lambda>i. (w, i + 1)) ` {0..ITEMS_NO - 1} = {w} \<times> {1..ITEMS_NO}" using shifted [of "Pair w" 0 ITEMS_NO] by auto
  ultimately show ?thesis unfolding loadStock_def set_upto rests by auto
qed

lemma loadDistrinct_fills:
  assumes "filling W db" "\<forall>d. (w, d) \<notin> keys (district db)"
  shows "\<exists>t g'. loadDistrinct W w (db, g) = Some (db\<lparr>district := t\<rparr>, g') \<and> filling W (db\<lparr>district := t\<rparr>)
    \<and> keys t = keys (district db) \<union> {w} \<times> {1..10}"
proof -
  have "\<exists>db' g'. fold_opt (load_district W w) [1..10] (db, g) = Some (db', g') \<and> filling W db'
      \<and> db'\<lparr>district := []\<rparr> = db\<lparr>district := []\<rparr> \<and> keys (district db') = keys (district db) \<union> Pair w ` set [1..10]"
    by (rule fold_fills, (simp only: rests)[1], metis load_district_fills) (use assms in \<open>auto simp: inj_on_def\<close>)
  moreover have "Pair w ` {1..10 :: int} = {w} \<times> {1..10}" by auto
  ultimately show ?thesis unfolding loadDistrinct_def set_upto rests by auto
qed

lemma loadCustomer_fills:
  assumes "filling W db" "0 \<le> tpcchistorycounter db" "tpcchistorycounter db + 3000 < 2 ^ 31"
  shows "\<exists>t u h g'. loadCustomer W w d (db, g) = Some (db\<lparr>customer := t, customerwdl := u, history := h,
        tpcchistorycounter := tpcchistorycounter db + 3000\<rparr>, g')
    \<and> filling W (db\<lparr>customer := t, customerwdl := u, history := h, tpcchistorycounter := tpcchistorycounter db + 3000\<rparr>)
    \<and> keys t = keys (customer db) \<union> {w} \<times> {d} \<times> {1..3000}"
proof -
  let ?I = "\<lambda>is (db', g' :: twister). filling W db' \<and> length is \<le> 3000 \<and> (\<exists>t u h. db' = db\<lparr>customer := t, customerwdl := u, history := h,
        tpcchistorycounter := tpcchistorycounter db + int (length is)\<rparr> \<and> keys t = keys (customer db) \<union> (\<lambda>i. (w, d, i + 1)) ` set is)"
  have "\<exists>s. fold_opt (load_customer W w d) [0..2999] (db, g) = Some s \<and> ?I [0..2999] s"
  proof (rule fold_opt_progress)
    fix xs i ys s assume e: "[0..2999] = xs @ i # ys" and inv: "?I xs s"
    obtain db1 g1 t u h where s: "s = (db1, g1)" "filling W db1" "db1 = db\<lparr>customer := t, customerwdl := u, history := h,
        tpcchistorycounter := tpcchistorycounter db + int (length xs)\<rparr>" "keys t = keys (customer db) \<union> (\<lambda>i. (w, d, i + 1)) ` set xs"
      using inv by auto
    have "i \<in> set [0..2999]" unfolding e by simp
    then have i: "0 \<le> i" by simp
    have "length [0..2999] = length (xs @ i # ys)" by (simp only: e)
    then have l: "length xs < 3000" by simp
    have "0 \<le> tpcchistorycounter db1" "tpcchistorycounter db1 + 1 < 2 ^ 31" using assms(2,3) l by (simp_all add: s(3))
    from load_customer_fills [OF s(2) i this, of w d g1] obtain db2 g2 where r: "load_customer W w d i (db1, g1) = Some (db2, g2)" "filling W db2"
      "db2 = db1\<lparr>customer := customer db2, customerwdl := customerwdl db2, history := history db2,
        tpcchistorycounter := tpcchistorycounter db1 + 1\<rparr>" "keys (customer db2) = insert (w, d, i + 1) (keys (customer db1))" by blast
    have "db2 = db\<lparr>customer := customer db2, customerwdl := customerwdl db2, history := history db2,
        tpcchistorycounter := tpcchistorycounter db + int (length (xs @ [i]))\<rparr>" by (subst r(3)) (simp add: s(3))
    moreover have "keys (customer db2) = keys (customer db) \<union> (\<lambda>i. (w, d, i + 1)) ` set (xs @ [i])" using r(4) s(3,4) by auto
    ultimately show "\<exists>s'. load_customer W w d i s = Some s' \<and> ?I (xs @ [i]) s'" using s(1) r(1,2) l by auto
  next
    show "?I [] (db, g)" using assms(1) by (auto intro!: exI [of _ "customer db"] exI [of _ "customerwdl db"] exI [of _ "history db"])
  qed
  moreover have "(\<lambda>i. (w, d, i + 1)) ` {0..2999 :: int} = {w} \<times> {d} \<times> {1..3000}"
    using shifted [of "\<lambda>i. (w, d, i)" 0 3000] by auto
  moreover have "int (length [0..2999]) = 3000" by simp
  ultimately show ?thesis unfolding loadCustomer_def by (clarsimp simp del: upto_rec_numeral) blast
qed

section \<open>Orders\<close>

text \<open>What the orders of a district leave as it is.\<close>

definition orders_only :: "int \<Rightarrow> int \<Rightarrow> 'f db \<Rightarrow> 'f db \<Rightarrow> bool" where
  "orders_only w d db' db \<longleftrightarrow>
     warehouse db' = warehouse db \<and> district db' = district db \<and> customer db' = customer db \<and> customerwdl db' = customerwdl db \<and>
     stock db' = stock db \<and> item db' = item db \<and> tpcchistorycounter db' = tpcchistorycounter db \<and>
     (\<forall>(k, r)\<in>set (orderline db'). (k, r) \<in> set (orderline db) \<or> 1 \<le> ol_i_id r \<and> ol_i_id r \<le> ITEMS_NO) \<and>
     (\<forall>(w', d', i)\<in>keys (order db'). (w', d', i) \<in> keys (order db) \<or> (w', d') = (w, d))"

lemma orders_only_refl: "orders_only w d db db"
  by (auto simp: orders_only_def)

lemma orders_only_trans: "orders_only w d db2 db1 \<Longrightarrow> orders_only w d db1 db \<Longrightarrow> orders_only w d db2 db"
  unfolding orders_only_def by (elim conjE) (intro conjI, simp_all, fastforce, fastforce)

lemma load_orderline_only:
  assumes "load_orderline W w d i l s = Some s'"
  shows "orders_only w d (fst s') (fst s)"
proof -
  obtain db g db' g' where s: "s = (db, g)" "s' = (db', g')" by (meson prod.exhaust)
  obtain a g1 where a: "(if i < 2101 then (n_of_int (num W) 0, g) else randomNumeric (num W) (n_lit (num W) 1 2) (n_lit (num W) 999999 2) g) = (a, g1)"
    by (meson prod.exhaust)
  obtain r g2 where r: "rnd ITEMS_NO g1 = Some (r, g2)" "0 \<le> r" "r < ITEMS_NO" using rnd_returns [of ITEMS_NO g1] by (auto simp: ITEMS_NO_def)
  obtain t g3 where t: "randomastring 24 24 24 g2 = Some (t, g3)" using randomastring_returns [of 24 24 24 g2] by auto
  have "db' = db\<lparr>orderline := t_insert (w, d, i, l) \<lparr>ol_i_id = r + 1, ol_supply_w_id = w,
      ol_delivery_d = (if i < 2101 then currentTimestamp else 0), ol_quantity = n_of_int (num W) 5, ol_amount = a, ol_dist_info = t\<rparr> (orderline db)\<rparr>"
    using assms by (simp add: s load_orderline_def Let_def a r(1) t del: if_split)
  then show ?thesis using r by (auto simp: orders_only_def s)
qed

lemma load_order_only:
  assumes "load_order W w d p s = Some s'"
  shows "orders_only w d (fst s') (fst s)"
proof -
  obtain i c db g where s: "p = (i, c)" "s = (db, g)" by (meson prod.exhaust)
  define db1 where "db1 r = (let db = db\<lparr>order := t_insert (w, d, i) r (order db)\<rparr>
    in if order_wdc_index W then db\<lparr>order_wdc := t_insert (w, d, c, i) () (order_wdc db)\<rparr> else db)" for r
  define X where "X = (if i < 2101 then do { (r, g) \<leftarrow> rnd 10 g; Some (r + 1, g) } else Some (0, g))"
  have "do { (ca, g) \<leftarrow> X; (r, g) \<leftarrow> rnd 10 g; fold_opt (load_orderline W w d i) [1..r + 5]
      (db1 \<lparr>o_c_id = c, o_entry_d = currentTimestamp, o_carrier_id = ca, o_ol_cnt = n_of_int (num W) (r + 5),
         o_all_local = n_of_int (num W) 1\<rparr>, g) } = Some s'"
    using assms by (simp add: s load_order_def Let_def db1_def X_def cong: if_cong)
  then obtain r k g1 where r: "fold_opt (load_orderline W w d i) [1..k] (db1 r, g1) = Some s'" by (auto split: bind_splits)
  have db1: "orders_only w d (db1 r) db" by (auto simp: orders_only_def db1_def Let_def)
  have "orders_only w d (fst s') (db1 r)"
    by (rule fold_opt_keeps [OF r, where P = "\<lambda>s. orders_only w d (fst s) (db1 r)"])
      (auto intro: orders_only_trans load_orderline_only orders_only_refl)
  then show ?thesis using db1 unfolding s fst_conv by (blast intro: orders_only_trans)
qed

lemma loadOrders_only:
  assumes "loadOrders W x w d (db, g) = Some (db', g')"
  shows "orders_only w d db' db"
proof -
  obtain cs g1 db1 where r: "fold_opt (load_order W w d) (zip [1..3000] cs) (db, g1) = Some (db1, g')"
    and db': "db' = foldl (\<lambda>db i. db\<lparr>neworder := t_insert (w, d, i) () (neworder db)\<rparr>) db1 [2100..3000]"
    using assms unfolding loadOrders_def by (auto split: bind_splits simp del: upto_rec_numeral)
  have "orders_only w d (fst (db1, g')) db"
    by (rule fold_opt_keeps [OF r, where P = "\<lambda>s. orders_only w d (fst s) db"])
      (auto intro: orders_only_trans load_order_only orders_only_refl)
  moreover have "orders_only w d (foldl (\<lambda>db i. db\<lparr>neworder := t_insert (w, d, i) () (neworder db)\<rparr>) db1 is) db1" for "is"
  proof (induction "is" rule: rev_induct)
    case (snoc i "is")
    then show ?case by (simp add: orders_only_def)
  qed (simp add: orders_only_refl)
  ultimately show ?thesis unfolding db' fst_conv by (blast intro: orders_only_trans)
qed

section \<open>A warehouse\<close>

lemma filled_next:
  assumes "filling W db" "(w, d) \<in> keys (district db)"
  shows "map_of (next_ids db) (w, d) = Some 3001"
proof -
  obtain r where r: "map_of (district db) (w, d) = Some r" using assms(2) by (auto simp: keys_map_of)
  then have "((w, d), r) \<in> set (district db)" by (rule map_of_SomeD)
  then show ?thesis using assms(1) r by (fastforce simp: next_ids_def map_of_view filling_def well_filled_def)
qed

lemma load_district_of:
  assumes "filling W db" "(w, d) \<in> keys (district db)" "\<forall>i. (w, d, i) \<notin> keys (order db)" "exact_Integers (num W)"
    "0 \<le> tpcchistorycounter db" "tpcchistorycounter db + 3000 < 2 ^ 31"
  shows "\<exists>db' g'. do { s \<leftarrow> loadCustomer W w d (db, g); loadOrders W x w d s } = Some (db', g') \<and> filling W db'
    \<and> warehouse db' = warehouse db \<and> item db' = item db \<and> stock db' = stock db \<and> district db' = district db
    \<and> keys (customer db') = keys (customer db) \<union> {w} \<times> {d} \<times> {1..3000} \<and> tpcchistorycounter db' = tpcchistorycounter db + 3000
    \<and> (\<forall>(w', d', i)\<in>keys (order db'). (w', d', i) \<in> keys (order db) \<or> (w', d') = (w, d))"
proof -
  obtain t u h g1 where c: "loadCustomer W w d (db, g) = Some (db\<lparr>customer := t, customerwdl := u, history := h,
        tpcchistorycounter := tpcchistorycounter db + 3000\<rparr>, g1)"
    and f: "filling W (db\<lparr>customer := t, customerwdl := u, history := h, tpcchistorycounter := tpcchistorycounter db + 3000\<rparr>)"
    and k: "keys t = keys (customer db) \<union> {w} \<times> {d} \<times> {1..3000}"
    using loadCustomer_fills [OF assms(1,5,6), of w d g] by blast
  let ?db1 = "db\<lparr>customer := t, customerwdl := u, history := h, tpcchistorycounter := tpcchistorycounter db + 3000\<rparr>"
  have n: "map_of (next_ids ?db1) (w, d) = Some 3001" by (rule filled_next [OF f]) (use assms(2) in simp)
  have o: "\<forall>i. (w, d, i) \<notin> keys (order_heads ?db1)" using assms(3) by (simp add: order_heads_def keys_def)
  have con: "consistent W ?db1" using f by (simp add: filling_def)
  obtain db2 g2 where r: "loadOrders W x w d (?db1, g1) = Some (db2, g2)" "consistent W db2"
    using loadOrders_returns [OF con n o assms(4), of x g1] by blast
  have "new_exact W ?db1" using f by (simp add: filling_def)
  then have ex: "new_exact W db2" using loadOrders_exact [OF r(1) con _ assms(4)] assms(3) by simp
  have only: "orders_only w d db2 ?db1" by (rule loadOrders_only [OF r(1)])
  have "well_filled db2" using f only unfolding filling_def well_filled_def orders_only_def by (simp, fastforce)
  then show ?thesis using c k r ex only by (simp add: filling_def orders_only_def)
qed

definition loaded :: "'f db \<Rightarrow> int set \<Rightarrow> 'f db \<Rightarrow> bool" where
  "loaded db0 S db \<longleftrightarrow>
     warehouse db = warehouse db0 \<and> item db = item db0 \<and> keys (stock db) = S \<times> {1..ITEMS_NO} \<and>
     keys (district db) = S \<times> {1..10} \<and> keys (customer db) = S \<times> {1..10} \<times> {1..3000}"

lemma load_warehouse_of_fills:
  assumes "filling W db" "loaded db0 S db" "w \<notin> S" "exact_Integers (num W)"
    "0 \<le> tpcchistorycounter db" "tpcchistorycounter db + 30000 < 2 ^ 31"
  shows "\<exists>db' g'. load_warehouse_of W behind w (db, g) = Some (db', g') \<and> filling W db' \<and> loaded db0 (insert w S) db'
    \<and> tpcchistorycounter db' = tpcchistorycounter db + 30000"
proof -
  have "\<forall>i. (w, i) \<notin> keys (stock db)" using assms(2,3) by (auto simp: loaded_def)
  then obtain t g1 where st: "loadStock W w (db, g) = Some (db\<lparr>stock := t\<rparr>, g1)" "filling W (db\<lparr>stock := t\<rparr>)"
    "keys t = keys (stock db) \<union> {w} \<times> {1..ITEMS_NO}" using loadStock_fills [OF assms(1)] by blast
  have nd: "\<forall>d. (w, d) \<notin> keys (district (db\<lparr>stock := t\<rparr>))" using assms(2,3) by (auto simp: loaded_def)
  obtain u g2 where di: "loadDistrinct W w (db\<lparr>stock := t\<rparr>, g1) = Some (db\<lparr>stock := t, district := u\<rparr>, g2)"
    "filling W (db\<lparr>stock := t, district := u\<rparr>)" "keys u = keys (district db) \<union> {w} \<times> {1..10}"
    using loadDistrinct_fills [OF st(2) nd, of g1] by auto
  define db2 where "db2 = db\<lparr>stock := t, district := u\<rparr>"
  have no: "(w, d, i) \<notin> keys (order db2)" for d i
  proof
    assume "(w, d, i) \<in> keys (order db2)"
    then have "(w, d, i) \<in> keys (order_heads db)" by (simp add: db2_def order_heads_def keys_def)
    then have "(w, d) \<in> keys (next_ids db)" using assms(1) unfolding filling_def consistent_def ids_below_next_def by (fastforce simp: keys_map_of)
    then have "(w, d) \<in> keys (district db)" by (simp add: next_ids_def keys_def)
    then show False using assms(2,3) by (simp add: loaded_def)
  qed
  let ?I = "\<lambda>ds (db', g' :: twister). filling W db' \<and> warehouse db' = warehouse db2 \<and> item db' = item db2 \<and> stock db' = stock db2
    \<and> district db' = district db2 \<and> keys (customer db') = keys (customer db) \<union> {w} \<times> set ds \<times> {1..3000}
    \<and> tpcchistorycounter db' = tpcchistorycounter db + 3000 * int (length ds) \<and> (\<forall>d i. d \<notin> set ds \<longrightarrow> (w, d, i) \<notin> keys (order db'))"
  let ?f = "\<lambda>d s. do { s \<leftarrow> loadCustomer W w d s; loadOrders W (behind w d) w d s }"
  have "\<exists>s. fold_opt ?f [1..10] (db2, g2) = Some s \<and> ?I [1..10] s"
  proof (rule fold_opt_progress)
    fix xs d ys s assume e: "[1..10] = xs @ d # ys" and inv: "?I xs s"
    obtain db3 g3 where s: "s = (db3, g3)" by (cases s)
    have "length [1..10 :: int] = length (xs @ d # ys)" "distinct (xs @ d # ys)" "d \<in> set [1..10]" by (simp_all only: e [symmetric] distinct_upto) (simp add: e)
    then have x: "length xs < 10" "d \<notin> set xs" "1 \<le> d" "d \<le> 10" by auto
    have "(w, d) \<in> keys (district db3)" "\<forall>i. (w, d, i) \<notin> keys (order db3)" "0 \<le> tpcchistorycounter db3"
      "tpcchistorycounter db3 + 3000 < 2 ^ 31" using inv s x assms(5,6) by (simp_all add: db2_def di(3))
    then obtain db4 g4 where "?f d (db3, g3) = Some (db4, g4)" "filling W db4"
      "warehouse db4 = warehouse db3" "item db4 = item db3" "stock db4 = stock db3" "district db4 = district db3"
      "keys (customer db4) = keys (customer db3) \<union> {w} \<times> {d} \<times> {1..3000}" "tpcchistorycounter db4 = tpcchistorycounter db3 + 3000"
      "\<forall>(w', d', i)\<in>keys (order db4). (w', d', i) \<in> keys (order db3) \<or> (w', d') = (w, d)"
      using load_district_of [of W db3 w d g3 "behind w d"] inv s assms(4) by auto
    then show "\<exists>s'. ?f d s = Some s' \<and> ?I (xs @ [d]) s'" using inv s by (intro exI [of _ "(db4, g4)"]) auto
  qed (use di(2) no in \<open>simp add: db2_def\<close>)
  then obtain db' g' where l: "fold_opt ?f [1..10] (db2, g2) = Some (db', g')" "?I [1..10] (db', g')" by auto
  have "load_warehouse_of W behind w (db, g) = Some (db', g')" using st(1) di(1) l(1) by (simp add: load_warehouse_of_def db2_def)
  moreover have "loaded db0 (insert w S) db'" using l(2) assms(2) st(3) di(3) unfolding loaded_def by (simp add: db2_def) blast
  ultimately show ?thesis using l(2) by simp
qed

section \<open>All warehouses\<close>

definition range_of :: "u64 \<times> u64 \<Rightarrow> int list" where
  "range_of = (\<lambda>(b, e). [uint b..uint e - 1])"

lemma load_range_fills:
  assumes "filling W db" "loaded db0 S db" "set (range_of be) \<inter> S = {}" "30000 * int (length (range_of be)) < 2 ^ 31" "exact_Integers (num W)"
  shows "\<exists>db'. load_range W behind gs (i, be) db = Some db' \<and> filling W db' \<and> loaded db0 (S \<union> set (range_of be)) db'"
proof -
  let ?W = "W\<lparr>workerThreadId := int i\<rparr>"
  let ?I = "\<lambda>ws (db', g' :: twister). filling ?W db' \<and> loaded db0 (S \<union> set ws) db' \<and> tpcchistorycounter db' = 30000 * int (length ws)"
  have "\<exists>s. fold_opt (load_warehouse_of ?W behind) (range_of be) (db\<lparr>tpcchistorycounter := 0\<rparr>, gs i) = Some s \<and> ?I (range_of be) s"
  proof (rule fold_opt_progress)
    fix xs w ys s assume e: "range_of be = xs @ w # ys" and inv: "?I xs s"
    obtain db1 g1 where s: "s = (db1, g1)" by (cases s)
    have "distinct (range_of be)" by (simp add: range_of_def split: prod.splits)
    then have w: "w \<notin> S \<union> set xs" using assms(3) by (auto simp: e)
    have "0 \<le> tpcchistorycounter db1" "tpcchistorycounter db1 + 30000 < 2 ^ 31" using inv s assms(4) by (simp_all add: e)
    then show "\<exists>s'. load_warehouse_of ?W behind w s = Some s' \<and> ?I (xs @ [w]) s'"
      using load_warehouse_of_fills [of ?W db1 db0 "S \<union> set xs" w behind g1] inv s w assms(5) by fastforce
  qed (use assms(1,2) in \<open>simp add: loaded_def\<close>)
  then obtain db' g' where "fold_opt (load_warehouse_of ?W behind) (range_of be) (db\<lparr>tpcchistorycounter := 0\<rparr>, gs i) = Some (db', g')"
    "?I (range_of be) (db', g')" by auto
  then show ?thesis by (cases be) (simp add: load_range_def range_of_def)
qed

definition no_records :: "'f db \<Rightarrow> bool" where
  "no_records db \<longleftrightarrow> warehouse db = [] \<and> district db = [] \<and> customer db = [] \<and> customerwdl db = [] \<and> neworder db = [] \<and>
     order db = [] \<and> order_wdc db = [] \<and> orderline db = [] \<and> item db = [] \<and> stock db = []"

lemma main_load_fills:
  assumes "no_records db" "1 \<le> warehouseCount W" "30000 * warehouseCount W < 2 ^ 31" "0 < nthreads" "exact_Integers (num W)"
  shows "\<exists>db'. main_load W behind nthreads g gs db = Some db' \<and> filling W db' \<and> keys (item db') = {1..ITEMS_NO} \<and>
    keys (warehouse db') = {1..warehouseCount W} \<and> loaded db' {1..warehouseCount W} db'"
proof -
  have f: "filling W db" using assms(1) by (simp add: no_records_def filling_defs keys_def view_def ascending_def)
  have k: "keys (item db) = {}" "keys (warehouse db) = {}" using assms(1) by (simp_all add: no_records_def keys_def)
  obtain t g1 where t: "loadItem W (db, g) = Some (db\<lparr>item := t\<rparr>, g1)" "filling W (db\<lparr>item := t\<rparr>)" "keys t = {1..ITEMS_NO}"
    using loadItem_fills [OF f k(1), of g] by blast
  obtain u g2 where u: "loadWarehouse W (db\<lparr>item := t\<rparr>, g1) = Some (db\<lparr>item := t, warehouse := u\<rparr>, g2)"
    "filling W (db\<lparr>item := t, warehouse := u\<rparr>)" "keys u = {1..warehouseCount W}"
    using loadWarehouse_fills [OF t(2), of g1] k(2) by auto
  let ?db = "db\<lparr>item := t, warehouse := u\<rparr>" and ?n = "warehouseCount W"
  have hi: "uint (word_of_int (?n + 1) :: u64) = ?n + 1" 
  proof -
    have "uint (word_of_int (?n + 1) :: u64) = (?n + 1) mod 2 ^ LENGTH(64)" by (rule uint_word_of_int)
    then show ?thesis using assms(2,3) by simp
  qed
  then have lt: "1 < (word_of_int (?n + 1) :: u64)" using assms(2) by (simp add: word_less_def)
  have few: "unat (min (word_of_int (?n + 1) - 1) nthreads) < 2 ^ 32"
  proof -
    have "word_of_int (?n + 1) - 1 = (word_of_int ?n :: u64)" by simp
    moreover have "uint (word_of_int ?n :: u64) = ?n mod 2 ^ LENGTH(64)" by (rule uint_word_of_int)
    ultimately have "unat (word_of_int (?n + 1) - 1 :: u64) < 2 ^ 32" using assms(2,3) by (simp add: unat_eq_nat_uint)
    then show ?thesis by (metis le_less_trans min.cobounded1 word_le_nat_alt)
  qed
  obtain rs where rs: "parallel_ranges 1 (word_of_int (?n + 1)) nthreads = Some rs" "concat (map range_of rs) = [1..?n]"
    using parallel_ranges_covers [OF lt assms(4) few] unfolding covers_def range_of_def hi by auto
  let ?I = "\<lambda>xs db'. filling W db' \<and> loaded ?db (set (concat (map (\<lambda>x. range_of (snd x)) xs))) db'"
  have sn: "concat (map (\<lambda>x. range_of (snd x)) (enumerate 0 rs)) = [1..?n]"
    using rs(2) by (simp flip: map_map [of range_of snd, unfolded comp_def])
  have "\<exists>db'. fold_opt (load_range W behind gs) (enumerate 0 rs) ?db = Some db' \<and> ?I (enumerate 0 rs) db'"
  proof (rule fold_opt_progress)
    fix xs x ys s assume e: "enumerate 0 rs = xs @ x # ys" and inv: "?I xs s"
    obtain i be where x: "x = (i, be)" by (cases x)
    let ?S = "set (concat (map (\<lambda>x. range_of (snd x)) xs))"
    have c: "[1..?n] = concat (map (\<lambda>x. range_of (snd x)) xs) @ range_of be @ concat (map (\<lambda>x. range_of (snd x)) ys)"
      using sn unfolding e x by simp
    have "distinct [1..?n]" by simp
    then have d: "set (range_of be) \<inter> ?S = {}" unfolding c by auto
    have "length [1..?n] \<ge> length (range_of be)" unfolding c by simp
    then have l: "30000 * int (length (range_of be)) < 2 ^ 31" using assms(2,3) by simp
    show "\<exists>s'. load_range W behind gs x s = Some s' \<and> ?I (xs @ [x]) s'"
      using load_range_fills [of W s ?db ?S be behind gs i, OF _ _ d l assms(5)] inv by (simp add: x)
  next
    show "?I [] ?db" using u(2) assms(1) by (simp add: loaded_def no_records_def keys_def)
  qed
  then obtain db' where r: "fold_opt (load_range W behind gs) (enumerate 0 rs) ?db = Some db'" "filling W db'" "loaded ?db {1..?n} db'"
    unfolding sn set_upto by blast
  have "main_load W behind nthreads g gs db = Some db'" using t(1) u(1) rs(1) r(1) by (simp add: main_load_def)
  then show ?thesis using r(2,3) t(3) u(3) by (simp add: loaded_def)
qed

lemma filled_complete:
  assumes "filling W db" "keys (item db) = {1..ITEMS_NO}" "keys (warehouse db) = {1..warehouseCount W}" "loaded db {1..warehouseCount W} db"
  shows "complete W 3001 (db\<lparr>tpcchistorycounter := 0\<rparr>)"
proof -
  have "\<exists>n. map_of (view w_name (warehouse db)) w = Some n \<and> length n \<le> 10" if w: "1 \<le> w" "w \<le> warehouseCount W" for w
  proof -
    have "w \<in> keys (warehouse db)" using w assms(3) by simp
    then obtain r where r: "map_of (warehouse db) w = Some r" by (auto simp: keys_map_of)
    then show ?thesis using assms(1) map_of_SomeD [OF r] by (fastforce simp: map_of_view filling_def well_filled_def)
  qed
  moreover have "\<exists>n i. map_of (district_heads db) (w, d) = Some (n, i) \<and> length n \<le> 10 \<and> 0 \<le> i \<and> i \<le> 3001"
    if w: "1 \<le> w" "w \<le> warehouseCount W" "1 \<le> d" "d \<le> 10" for w d
  proof -
    have "(w, d) \<in> keys (district db)" using w assms(4) by (simp add: loaded_def)
    then obtain r where r: "map_of (district db) (w, d) = Some r" by (auto simp: keys_map_of)
    then show ?thesis using assms(1) map_of_SomeD [OF r] by (fastforce simp: district_heads_def map_of_view filling_def well_filled_def)
  qed
  moreover have "\<forall>(_, i)\<in>set (view ol_i_id (orderline db)). 1 \<le> i \<and> i \<le> ITEMS_NO"
    using assms(1) by (auto simp: view_def filling_def well_filled_def)
  moreover have "\<forall>((w, d, _, _), r)\<in>set (customerwdl db). (w, d, cw_c_id r) \<in> keys (customer db)"
    using assms(1) by (simp add: filling_def well_filled_def)
  ultimately show ?thesis using assms(2,4) by (simp add: complete_def records_def loaded_def district_heads_def)
qed

section \<open>Properties\<close>

text \<open>C2. The program as a whole, with its threads one after the other: from empty tables, the loading phase with any
  number of threads succeeds and leaves consistent tables with exact new orders, whatever the generators draw and
  whatever the shuffles read behind their vectors; from them every thread of the run phase, which starts with a counter
  of its own, runs any number of transactions for which the counters have room, and the tables are consistent and the
  new orders exact at the end.\<close>

theorem load_then_run:
  assumes "no_records db" "1 \<le> warehouseCount W" "30000 * warehouseCount W < 2 ^ 31" "0 < nthreads" "exact_Integers (num W)"
    "3001 + int n < 2 ^ 31"
  shows "\<exists>db' kinds db'' g''. main_load W behind nthreads g gs db = Some db' \<and> consistent W db' \<and> new_exact W db'
    \<and> worker W n (db'\<lparr>tpcchistorycounter := 0\<rparr>, g') = Some (kinds, db'', g'') \<and> length kinds = n \<and> consistent W db'' \<and> new_exact W db''"
proof -
  obtain db' where l: "main_load W behind nthreads g gs db = Some db'" "filling W db'" "keys (item db') = {1..ITEMS_NO}"
    "keys (warehouse db') = {1..warehouseCount W}" "loaded db' {1..warehouseCount W} db'"
    using main_load_fills [OF assms(1-5)] by blast
  have con: "consistent W (db'\<lparr>tpcchistorycounter := 0\<rparr>)" "consistent W db'" "new_exact W (db'\<lparr>tpcchistorycounter := 0\<rparr>)" "new_exact W db'"
    using l(2) filling_counter [where W = W and db = db' and n = 0] by (simp_all add: filling_def)
  have "warehouseCount W < 2 ^ 31 - 1" using assms(2,3) by simp
  from worker_step [OF filled_complete [OF l(2-5)] con(1) assms(5,2) this assms(6), of g'] obtain kinds db'' g''
    where w: "worker W n (db'\<lparr>tpcchistorycounter := 0\<rparr>, g') = Some (kinds, db'', g'')" "length kinds = n" "consistent W db''" by blast
  show ?thesis using l(1) con w worker_keeps_exact [OF w(1) con(1,3) assms(5)] by blast
qed

text \<open>A hundred warehouses, loaded by seven threads.\<close>

definition hundred :: "int workload" where
  "hundred = sample_workload\<lparr>warehouseCount := 100\<rparr>"

theorem load_then_run_witness:
  "\<exists>db' kinds db'' g''. main_load hundred (\<lambda>_ _. 0) 7 (mt_init 1) (\<lambda>i. mt_init (of_nat i))
      \<lparr>warehouse = [], district = [], customer = [], customerwdl = [], history = [], neworder = [], order = [], order_wdc = [],
       orderline = [], item = [], stock = [], tpcchistorycounter = 0\<rparr> = Some db'
    \<and> worker hundred 1000000 (db'\<lparr>tpcchistorycounter := 0\<rparr>, mt_init 2) = Some (kinds, db'', g'') \<and> consistent hundred db'' \<and> new_exact hundred db''"
proof -
  have "exact_Integers (num hundred)" using sample_numbers_exact by (simp add: hundred_def)
  then show ?thesis
    using load_then_run [of "\<lparr>warehouse = [], district = [], customer = [], customerwdl = [], history = [], neworder = [], order = [], order_wdc = [],
       orderline = [], item = [], stock = [], tpcchistorycounter = 0\<rparr>" hundred 7 1000000 "\<lambda>_ _. 0" "mt_init 1" "\<lambda>i. mt_init (of_nat i)" "mt_init 2"]
    by (fastforce simp: no_records_def hundred_def)
qed

end
