(* ===== verification/BTreeOps.thy ===== *)
theory BTreeOps
  imports LeafMap "HOL-Library.Monad_Syntax"
begin

text \<open>
  The B-tree (\<open>struct BTree\<close> in \<open>integrated_vmcache.cpp\<close>) over the pages of the buffer manager, one operation after the
  other: every validation of an optimistic latch succeeds, so that no operation is restarted.

  \<open>stack\<close> is the uninitialised node that a function has on its stack, and a page keeps what it held before it
  is allocated. The loops of the code may run forever on pages that are no tree, so that they are partial functions.
\<close>

section \<open>Pages\<close>

record btree =
  pages :: "nat \<Rightarrow> btree_node"
  root :: nat
  allocCount :: nat
  virtCount :: nat
  splitOrdered :: bool

definition metadataPageId :: nat where "metadataPageId = 0"

definition toPtr :: "btree \<Rightarrow> nat \<Rightarrow> btree_node option" where
  "toPtr t pid = (if pid < virtCount t then Some (pages t pid) else None)"

definition put_page :: "nat \<Rightarrow> btree_node \<Rightarrow> btree \<Rightarrow> btree" where
  "put_page pid n t = t\<lparr>pages := (pages t)(pid := n)\<rparr>"

text \<open>A page that is locked exclusively is marked as dirty.\<close>

definition fixX :: "btree \<Rightarrow> nat \<Rightarrow> btree_node option" where
  "fixX t pid = do { n \<leftarrow> toPtr t pid; Some (n\<lparr>dirty := True\<rparr>) }"

definition allocPage :: "btree \<Rightarrow> (nat \<times> btree) option" where
  "allocPage t = (if allocCount t < virtCount t then Some (allocCount t, t\<lparr>allocCount := allocCount t + 1\<rparr>) else None)"

definition btree_create :: "btree \<Rightarrow> btree option" where
  "btree_create t = do {
     (pid, t) \<leftarrow> allocPage (t\<lparr>splitOrdered := False\<rparr>);
     Some ((put_page pid (btree_new (pages t pid) True) t)\<lparr>root := pid\<rparr>) }"

section \<open>Searching\<close>

text \<open>From a node to the leaf of the key: the parent of the leaf, the position of the leaf in it and the leaf.\<close>

partial_function (option) descend :: "btree \<Rightarrow> u8 list \<Rightarrow> nat \<Rightarrow> nat \<Rightarrow> nat \<Rightarrow> (nat \<times> nat \<times> nat) option" where
  "descend t key parent pos pid = do {
     n \<leftarrow> toPtr t pid;
     (if isLeaf n then Some (parent, pos, pid)
      else do {
        (pos, _) \<leftarrow> lowerBound n key;
        c \<leftarrow> (if pos = count n then Some (upperInnerNode n) else getChild n pos);
        descend t key pid pos c }) }"

definition findLeaf :: "btree \<Rightarrow> u8 list \<Rightarrow> nat option" where
  "findLeaf t key = do { (_, _, pid) \<leftarrow> descend t key metadataPageId 0 (root t); Some pid }"

definition btree_lookup :: "btree \<Rightarrow> u8 list \<Rightarrow> u8 list option option" where
  "btree_lookup t key = do { pid \<leftarrow> findLeaf t key; n \<leftarrow> toPtr t pid; leaf_lookup n key }"

text \<open>The variant that copies into a buffer: the length of the payload, and the buffer.\<close>

definition lookup_copy :: "btree \<Rightarrow> u8 list \<Rightarrow> u8 list \<Rightarrow> (int \<times> u8 list) option" where
  "lookup_copy t key out = do {
     v \<leftarrow> btree_lookup t key;
     (case v of
        None \<Rightarrow> Some (- 1, out)
      | Some v \<Rightarrow> do {
          out \<leftarrow> custom_memcpy out 0 v (min (length v) (length out));
          Some (int (length v), out) }) }"

definition set_payload :: "btree_node \<Rightarrow> nat \<Rightarrow> u8 list \<Rightarrow> btree_node option" where
  "set_payload n pos v =
     (let s = slots n ! pos
      in if length v = payloadLen s
         then do { h \<leftarrow> custom_memcpy (heap n) (offset s + keyLen s) v (payloadLen s); Some (n\<lparr>heap := h\<rparr>) }
         else None)"

definition updateInPlace :: "btree \<Rightarrow> u8 list \<Rightarrow> (u8 list \<Rightarrow> u8 list option) \<Rightarrow> (bool \<times> btree) option" where
  "updateInPlace t key fn = do {
     pid \<leftarrow> findLeaf t key;
     n \<leftarrow> toPtr t pid;
     (pos, found) \<leftarrow> lowerBound n key;
     (if \<not> found then Some (False, t)
      else do {
        n \<leftarrow> fixX t pid;
        v \<leftarrow> getPayload n pos;
        v \<leftarrow> fn v;
        n \<leftarrow> set_payload n pos v;
        Some (True, put_page pid n t) }) }"

section \<open>Scanning\<close>

text \<open>The key and the payload that the callbacks of the adapter read.\<close>

definition entry_at :: "btree_node \<Rightarrow> nat \<Rightarrow> (u8 list \<times> u8 list) option" where
  "entry_at n pos = do {
     p \<leftarrow> load (prefixLen n) (getPrefix n) 0;
     k \<leftarrow> load (keyLen (slots n ! pos)) (getKey n pos) 0;
     v \<leftarrow> getPayload n pos;
     Some (p @ k, v) }"

partial_function (option) scan_right ::
    "btree \<Rightarrow> (u8 list \<Rightarrow> u8 list \<Rightarrow> 's \<Rightarrow> (bool \<times> 's) option) \<Rightarrow> nat \<Rightarrow> nat \<Rightarrow> 's \<Rightarrow> 's option" where
  "scan_right t fn pid pos s = do {
     n \<leftarrow> toPtr t pid;
     (if pos < count n
      then do {
        (k, v) \<leftarrow> entry_at n pos;
        (go, s) \<leftarrow> fn k v s;
        (if go then scan_right t fn pid (pos + 1) s else Some s) }
      else if \<not> hasRightNeighbour n then Some s
      else scan_right t fn (upperInnerNode n) 0 s) }"

definition scanAsc :: "btree \<Rightarrow> u8 list \<Rightarrow> (u8 list \<Rightarrow> u8 list \<Rightarrow> 's \<Rightarrow> (bool \<times> 's) option) \<Rightarrow> 's \<Rightarrow> 's option" where
  "scanAsc t key fn s = do {
     pid \<leftarrow> findLeaf t key;
     n \<leftarrow> toPtr t pid;
     (pos, _) \<leftarrow> lowerBound n key;
     scan_right t fn pid pos s }"

partial_function (option) scan_left ::
    "btree \<Rightarrow> (u8 list \<Rightarrow> u8 list \<Rightarrow> bool \<Rightarrow> 's \<Rightarrow> (bool \<times> 's) option) \<Rightarrow> bool \<Rightarrow> nat \<Rightarrow> int \<Rightarrow> 's \<Rightarrow> 's option" where
  "scan_left t fn exactMatch pid pos s = do {
     n \<leftarrow> toPtr t pid;
     (if 0 \<le> pos
      then do {
        (k, v) \<leftarrow> entry_at n (nat pos);
        (go, s) \<leftarrow> fn k v exactMatch s;
        (if go then scan_left t fn exactMatch pid (pos - 1) s else Some s) }
      else if \<not> hasLowerFence n then Some s
      else do {
        lf \<leftarrow> getLowerFence n;
        pid \<leftarrow> findLeaf t lf;
        n \<leftarrow> toPtr t pid;
        scan_left t fn exactMatch pid (int (count n) - 1) s }) }"

definition btree_scanDesc ::
    "btree \<Rightarrow> u8 list \<Rightarrow> (u8 list \<Rightarrow> u8 list \<Rightarrow> bool \<Rightarrow> 's \<Rightarrow> (bool \<times> 's) option) \<Rightarrow> 's \<Rightarrow> 's option" where
  "btree_scanDesc t key fn s = do {
     pid \<leftarrow> findLeaf t key;
     n \<leftarrow> toPtr t pid;
     (pos, exactMatch) \<leftarrow> lowerBound n key;
     (if pos = count n then scan_left t fn True pid (int pos - 1) s else scan_left t fn exactMatch pid (int pos) s) }"

section \<open>Splitting\<close>

text \<open>\<open>trySplit\<close> up to its last case: the pages after the split, or those before with the parent that has to be split first
  and the separator that it has no room for.\<close>

definition split_or_climb :: "btree_node \<Rightarrow> btree \<Rightarrow> nat \<Rightarrow> nat \<Rightarrow> (btree + btree \<times> nat \<times> u8 list) option" where
  "split_or_climb stack t pid parent = do {
     n \<leftarrow> fixX t pid;
     (parent, t) \<leftarrow>
       (if parent = metadataPageId
        then do {
          (p, t) \<leftarrow> allocPage t;
          Some (p, (put_page p ((btree_new (pages t p) False)\<lparr>upperInnerNode := pid\<rparr>) t)\<lparr>root := p\<rparr>) }
        else Some (parent, t));
     p \<leftarrow> fixX t parent;
     let info = findSeparator n (splitOrdered t);
     sep \<leftarrow> getSep n info;
     (if hasSpaceFor p (si_len info) 8
      then do {
        (r, t) \<leftarrow> allocPage t;
        (n, right, p) \<leftarrow> splitNode stack (pages t r) stack n p (si_slot info) sep pid r;
        Some (Inl (put_page parent p (put_page r right (put_page pid n t)))) }
      else Some (Inr (put_page parent p (put_page pid n t), parent, sep))) }"

text \<open>The way to a node, or to the leaf where it would be.\<close>

partial_function (option) descend_to :: "btree \<Rightarrow> nat \<Rightarrow> u8 list \<Rightarrow> nat \<Rightarrow> nat \<Rightarrow> (nat \<times> nat) option" where
  "descend_to t toSplit key parent pid = do {
     n \<leftarrow> toPtr t pid;
     (if \<not> isLeaf n \<and> pid \<noteq> toSplit
      then do { c \<leftarrow> lookupInner n key; descend_to t toSplit key pid c }
      else Some (parent, pid)) }"

partial_function (option) ensureSpace :: "btree_node \<Rightarrow> btree \<Rightarrow> nat \<Rightarrow> u8 list \<Rightarrow> nat \<Rightarrow> btree option" where
  "ensureSpace stack t toSplit key vlen = do {
     (parent, pid) \<leftarrow> descend_to t toSplit key metadataPageId (root t);
     n \<leftarrow> toPtr t pid;
     (if pid = toSplit \<and> \<not> hasSpaceFor n (length key) vlen
      then do {
        r \<leftarrow> split_or_climb stack t pid parent;
        (case r of Inl t \<Rightarrow> Some t | Inr (t, p, sep) \<Rightarrow> ensureSpace stack t p sep 8) }
      else Some t) }"

definition trySplit :: "btree_node \<Rightarrow> btree \<Rightarrow> nat \<Rightarrow> nat \<Rightarrow> btree option" where
  "trySplit stack t pid parent = do {
     r \<leftarrow> split_or_climb stack t pid parent;
     (case r of Inl t \<Rightarrow> Some t | Inr (t, p, sep) \<Rightarrow> ensureSpace stack t p sep 8) }"

section \<open>Insertion and removal\<close>

partial_function (option) btree_insert :: "btree_node \<Rightarrow> btree \<Rightarrow> u8 list \<Rightarrow> u8 list \<Rightarrow> btree option" where
  "btree_insert stack t key payload = do {
     (parent, _, pid) \<leftarrow> descend t key metadataPageId 0 (root t);
     n \<leftarrow> toPtr t pid;
     (if hasSpaceFor n (length key) (length payload)
      then do { n \<leftarrow> fixX t pid; n \<leftarrow> insertInPage stack n key payload; Some (put_page pid n t) }
      else do { t \<leftarrow> trySplit stack t pid parent; btree_insert stack t key payload }) }"

definition btree_remove :: "btree_node \<Rightarrow> btree \<Rightarrow> u8 list \<Rightarrow> (bool \<times> btree) option" where
  "btree_remove stack t key = do {
     (parent, pos, pid) \<leftarrow> descend t key metadataPageId 0 (root t);
     n \<leftarrow> toPtr t pid;
     (slotId, found) \<leftarrow> lowerBound n key;
     (if \<not> found then Some (False, t)
      else do {
        let sizeEntry = keyLen (slots n ! slotId) + payloadLen (slots n ! slotId);
        p \<leftarrow> toPtr t parent;
        n \<leftarrow> fixX t pid;
        (if underFullSize \<le> freeSpaceAfterCompaction n + sizeEntry \<and> parent \<noteq> metadataPageId \<and> 2 \<le> count p \<and> pos + 1 < count p
         then do {
           p \<leftarrow> fixX t parent;
           r \<leftarrow> getChild p (pos + 1);
           right \<leftarrow> fixX t r;
           n \<leftarrow> removeSlot n slotId;
           (if pageSize - underFullSize \<le> freeSpaceAfterCompaction right
            then do {
              (_, n, p) \<leftarrow> mergeNodes stack n pos p right pid;
              Some (True, put_page parent p (put_page pid n (put_page r right t))) }
            else Some (True, put_page parent p (put_page pid n (put_page r right t)))) }
         else do { n \<leftarrow> removeSlot n slotId; Some (True, put_page pid n t) }) }) }"

end
