(* ===== verification/PageTree.thy ===== *)
theory PageTree
  imports BTreeOps
begin

text \<open>
  What the pages of a B-tree represent: the invariant of the tree, the entries it holds and the place of a key in it.
\<close>

section \<open>The shape of a tree\<close>

datatype shape = Leaf nat | Inner nat "shape list"

primrec page_of :: "shape \<Rightarrow> nat" where
  "page_of (Leaf p) = p"
| "page_of (Inner p cs) = p"

fun shape_pages :: "shape \<Rightarrow> nat list" where
  "shape_pages (Leaf p) = [p]"
| "shape_pages (Inner p cs) = p # concat (map shape_pages cs)"

fun leaves :: "shape \<Rightarrow> nat list" where
  "leaves (Leaf p) = [p]"
| "leaves (Inner p cs) = concat (map leaves cs)"

definition contents :: "(nat \<Rightarrow> btree_node) \<Rightarrow> shape \<Rightarrow> (u8 list \<times> u8 list) list" where
  "contents pg sh = concat (map (\<lambda>p. node_entries (pg p)) (leaves sh))"

text \<open>The keys of a subtree lie above its lower fence and not above its upper fence, where an empty fence is no bound.\<close>

definition within :: "u8 list \<Rightarrow> u8 list \<Rightarrow> u8 list \<Rightarrow> bool" where
  "within lf uf k \<longleftrightarrow> (lf = [] \<or> bytes_less lf k) \<and> (uf = [] \<or> \<not> bytes_less uf k)"

definition node_ok :: "btree_node \<Rightarrow> u8 list \<Rightarrow> u8 list \<Rightarrow> bool" where
  "node_ok n lf uf \<longleftrightarrow> node_wf n \<and> fence_key (heap n) (lowerFence n) = lf \<and> fence_key (heap n) (upperFence n) = uf \<and>
     (\<forall>k\<in>fst ` set (node_entries n). k \<noteq> [] \<and> within lf uf k)"

definition keys_of :: "btree_node \<Rightarrow> u8 list list" where
  "keys_of n = map fst (node_entries n)"

text \<open>The separators of an inner node lie strictly below its upper fence, and their payloads are page numbers.\<close>

definition inner_ok :: "btree_node \<Rightarrow> u8 list \<Rightarrow> u8 list \<Rightarrow> bool" where
  [simp]: "inner_ok n lf uf \<longleftrightarrow> node_ok n lf uf \<and> \<not> isLeaf n \<and> (\<forall>k\<in>set (keys_of n). uf = [] \<or> bytes_less k uf) \<and>
     (\<forall>e\<in>set (node_entries n). length (snd e) = 8)"

definition child_at :: "btree_node \<Rightarrow> nat \<Rightarrow> nat option" where
  "child_at n i = (if i = count n then Some (upperInnerNode n) else getChild n i)"

function shape_ok :: "(nat \<Rightarrow> btree_node) \<Rightarrow> u8 list \<Rightarrow> u8 list \<Rightarrow> shape \<Rightarrow> bool" where
  "shape_ok pg lf uf (Leaf p) \<longleftrightarrow> node_ok (pg p) lf uf \<and> isLeaf (pg p)"
| "shape_ok pg lf uf (Inner p cs) \<longleftrightarrow> inner_ok (pg p) lf uf \<and> length cs = Suc (count (pg p)) \<and>
     (\<forall>i<length cs. child_at (pg p) i = Some (page_of (cs ! i)) \<and>
        shape_ok pg ((lf # keys_of (pg p)) ! i) ((keys_of (pg p) @ [uf]) ! i) (cs ! i))"
  by pat_completeness auto
termination
proof (relation "measure (\<lambda>(_, _, _, sh). size sh)")
  fix pg lf uf p cs i assume "i < length (cs :: shape list)"
  then have "size (cs ! i) < Suc (size_list size cs)" by (metis le_imp_less_Suc nth_mem order_refl size_list_estimation')
  then show "((pg :: nat \<Rightarrow> btree_node, (lf # keys_of (pg p)) ! i, (keys_of (pg p) @ [uf]) ! i, cs ! i), pg, lf, uf, Inner p cs)
    \<in> measure (\<lambda>(_, _, _, sh). size sh)" by simp
qed simp

definition rank :: "u8 list \<Rightarrow> btree_node \<Rightarrow> nat" where
  "rank k n = length (filter (\<lambda>e. bytes_less (fst e) k) (node_entries n))"

lemma rank_lowerBound: "node_wf n \<Longrightarrow> length k \<le> 64 \<Longrightarrow> lowerBound n k = Some (rank k n, k \<in> set (keys_of n))"
  by (simp add: lowerBound_position rank_def keys_of_def)

lemma rank_spec:
  assumes "node_wf n"
  shows "rank k n \<le> count n" "i < rank k n \<Longrightarrow> bytes_less (keys_of n ! i) k"
    "rank k n \<le> i \<Longrightarrow> i < count n \<Longrightarrow> \<not> bytes_less (keys_of n ! i) k"
    "take (rank k n) (node_entries n) = filter (\<lambda>e. bytes_less (fst e) k) (node_entries n)"
    "drop (rank k n) (node_entries n) = filter (\<lambda>e. \<not> bytes_less (fst e) k) (node_entries n)"
proof -
  have srt: "sorted_wrt bytes_less (map fst (node_entries n))" and l: "length (node_entries n) = count n"
    using entries_sorted [OF assms] by simp_all
  show c: "rank k n \<le> count n" unfolding rank_def using l by (metis length_filter_le)
  have "sorted_wrt bytes_less (map fst es) \<Longrightarrow> i < length es \<Longrightarrow> i < length (filter (\<lambda>e. bytes_less (fst e) k) es) \<longleftrightarrow> bytes_less (fst (es ! i)) k"
    for es :: "(u8 list \<times> u8 list) list" and i
  proof (induction es arbitrary: i)
    case (Cons e es)
    show ?case
    proof (cases "bytes_less (fst e) k")
      case True
      then show ?thesis using Cons by (cases i) auto
    next
      case False
      have "\<not> bytes_less (fst x) k" if "x \<in> set es" for x using False Cons.prems(1) that bytes_less_trans by fastforce
      then have "filter (\<lambda>e. bytes_less (fst e) k) es = []" by (simp add: filter_empty_conv)
      moreover have "\<not> bytes_less (fst ((e # es) ! i)) k"
        using False Cons.prems(2) \<open>\<And>x. x \<in> set es \<Longrightarrow> \<not> bytes_less (fst x) k\<close> by (cases i) auto
      ultimately show ?thesis using False by simp
    qed
  qed simp
  then have r: "\<forall>i < length (node_entries n). i < rank k n \<longleftrightarrow> bytes_less (fst (node_entries n ! i)) k"
    using srt unfolding rank_def by blast
  show "bytes_less (keys_of n ! i) k" if "i < rank k n"
  proof -
    have "i < count n" using that c by simp
    then show ?thesis using r l that by (simp add: keys_of_def)
  qed
  show "\<not> bytes_less (keys_of n ! i) k" if "rank k n \<le> i" "i < count n"
    using r l that by (auto simp: keys_of_def not_less [symmetric])
  show "take (rank k n) (node_entries n) = filter (\<lambda>e. bytes_less (fst e) k) (node_entries n)"
    "drop (rank k n) (node_entries n) = filter (\<lambda>e. \<not> bytes_less (fst e) k) (node_entries n)"
    by (rule rank_split; use c l r in simp)+
qed

section \<open>Trees and their contents\<close>

lemma contents_simps [simp]:
  "contents pg (Leaf p) = node_entries (pg p)"
  "contents pg (Inner p cs) = concat (map (contents pg) cs)"
proof -
  show "contents pg (Leaf p) = node_entries (pg p)" by (simp add: contents_def)
  have "concat (map (\<lambda>p. node_entries (pg p)) (concat (map leaves cs))) = concat (map (contents pg) cs)"
    by (induction cs) (simp_all add: contents_def)
  then show "contents pg (Inner p cs) = concat (map (contents pg) cs)" by (simp add: contents_def)
qed

lemma leaves_pages: "set (leaves sh) \<subseteq> set (shape_pages sh)"
proof (induction sh)
  case (Inner p cs)
  then show ?case by auto
qed simp

lemma page_of_pages: "page_of sh \<in> set (shape_pages sh)"
  by (cases sh) auto

lemma shape_ok_cong:
  "(\<And>p. p \<in> set (shape_pages sh) \<Longrightarrow> pg' p = pg p) \<Longrightarrow> shape_ok pg' lf uf sh = shape_ok pg lf uf sh"
proof (induction pg lf uf sh rule: shape_ok.induct)
  case (2 pg lf uf p cs)
  have p: "pg' p = pg p" using 2(2) by simp
  have "shape_ok pg' l u (cs ! i) = shape_ok pg l u (cs ! i)" if "i < length cs"
    "l = (lf # keys_of (pg p)) ! i" "u = (keys_of (pg p) @ [uf]) ! i" for i l u
    unfolding that(2,3)
  proof (rule 2(1) [OF that(1)])
    fix q assume "q \<in> set (shape_pages (cs ! i))"
    then have "q \<in> set (shape_pages (Inner p cs))" using nth_mem [OF that(1)] by auto
    then show "pg' q = pg q" by (rule 2(2))
  qed
  then show ?case by (auto simp: p)
qed simp

lemma contents_cong: "(\<And>p. p \<in> set (leaves sh) \<Longrightarrow> pg' p = pg p) \<Longrightarrow> contents pg' sh = contents pg sh"
  by (simp add: contents_def cong: map_cong)

lemma keys_sorted: "node_wf n \<Longrightarrow> sorted_wrt bytes_less (keys_of n)" "node_wf n \<Longrightarrow> length (keys_of n) = count n"
  using entries_sorted by (auto simp: keys_of_def)

lemma not_less_trans: "\<not> bytes_less b a \<Longrightarrow> \<not> bytes_less c b \<Longrightarrow> \<not> bytes_less c a"
  using bytes_less_total bytes_less_trans by metis

lemma not_less_less_trans: "\<not> bytes_less b a \<Longrightarrow> bytes_less b c \<Longrightarrow> bytes_less a c"
  using bytes_less_total bytes_less_trans by metis

lemma less_not_less_trans: "bytes_less a b \<Longrightarrow> \<not> bytes_less c b \<Longrightarrow> bytes_less a c"
  using bytes_less_total bytes_less_trans by metis

lemma bounds_within:
  assumes ok: "node_ok n lf uf" and i: "i \<le> count n" and k: "within ((lf # keys_of n) ! i) ((keys_of n @ [uf]) ! i) k"
  shows "within lf uf k" "j < i \<Longrightarrow> bytes_less (keys_of n ! j) k" "i \<le> j \<Longrightarrow> j < count n \<Longrightarrow> \<not> bytes_less (keys_of n ! j) k"
proof -
  have wf: "node_wf n" and in_ok: "\<And>j. j < count n \<Longrightarrow> keys_of n ! j \<noteq> [] \<and> within lf uf (keys_of n ! j)"
    using ok keys_sorted(2) [of n] by (auto simp: node_ok_def keys_of_def nth_mem)
  note srt = keys_sorted [OF wf]
  have le: "bytes_less (keys_of n ! a) (keys_of n ! b)" if "a < b" "b < count n" for a b
    using srt that by (simp add: sorted_wrt_iff_nth_less)
  show l: "bytes_less (keys_of n ! j) k" if "j < i" for j
  proof -
    have "bytes_less (keys_of n ! (i - 1)) k" using that k i in_ok [of "i - 1"] by (cases i) (auto simp: within_def)
    moreover have "j = i - 1 \<or> bytes_less (keys_of n ! j) (keys_of n ! (i - 1))" using that i le [of j "i - 1"] by fastforce
    ultimately show ?thesis using bytes_less_trans by metis
  qed
  show u: "\<not> bytes_less (keys_of n ! j) k" if "i \<le> j" "j < count n" for j
  proof -
    have "\<not> bytes_less (keys_of n ! i) k" using that k in_ok [of i] srt(2) by (auto simp: within_def nth_append)
    moreover have "j = i \<or> bytes_less (keys_of n ! i) (keys_of n ! j)" using that le [of i j] by fastforce
    ultimately show ?thesis using bytes_less_trans by metis
  qed
  have "lf = [] \<or> bytes_less lf k"
  proof (cases i)
    case 0
    then show ?thesis using k by (simp add: within_def)
  next
    case (Suc m)
    then show ?thesis using in_ok [of m] i l [of m] bytes_less_trans by (auto simp: within_def)
  qed
  moreover have "uf = [] \<or> \<not> bytes_less uf k"
  proof (cases "i = count n")
    case True
    then show ?thesis using k srt(2) by (simp add: within_def nth_append)
  next
    case False
    then show ?thesis using in_ok [of i] i u [of i] not_less_trans [of "keys_of n ! i" k uf] by (auto simp: within_def)
  qed
  ultimately show "within lf uf k" by (simp add: within_def)
qed

lemma contents_within: "shape_ok pg lf uf sh \<Longrightarrow> e \<in> set (contents pg sh) \<Longrightarrow> fst e \<noteq> [] \<and> within lf uf (fst e)"
proof (induction pg lf uf sh rule: shape_ok.induct)
  case (1 pg lf uf p)
  then show ?case by (auto simp: node_ok_def)
next
  case (2 pg lf uf p cs)
  obtain i where i: "i < length cs" "e \<in> set (contents pg (cs ! i))" using 2(3) by (auto simp: in_set_conv_nth) (metis nth_mem)
  have "within ((lf # keys_of (pg p)) ! i) ((keys_of (pg p) @ [uf]) ! i) (fst e)" "fst e \<noteq> []" using 2(1) [OF i(1) _ i(2)] 2(2) i(1) by auto
  then show ?case using bounds_within(1) [of "pg p" lf uf i "fst e"] 2(2) i(1) by simp
qed

section \<open>A subtree in its tree\<close>

text \<open>The way from a subtree up to the root: the pages with the children before and after.\<close>

type_synonym ctx = "(nat \<times> shape list \<times> shape list) list"

primrec plug :: "ctx \<Rightarrow> shape \<Rightarrow> shape" where
  "plug [] sh = sh"
| "plug (f # c) sh = plug c (case f of (p, as, bs) \<Rightarrow> Inner p (as @ sh # bs))"

primrec ctx_pages :: "ctx \<Rightarrow> nat list" where
  "ctx_pages [] = []"
| "ctx_pages (f # c) = (case f of (p, as, bs) \<Rightarrow> p # concat (map shape_pages (as @ bs)) @ ctx_pages c)"

text \<open>The leaves on both sides, from left to right.\<close>

primrec left_leaves :: "ctx \<Rightarrow> nat list" where
  "left_leaves [] = []"
| "left_leaves (f # c) = (case f of (p, as, bs) \<Rightarrow> left_leaves c @ concat (map leaves as))"

primrec right_leaves :: "ctx \<Rightarrow> nat list" where
  "right_leaves [] = []"
| "right_leaves (f # c) = (case f of (p, as, bs) \<Rightarrow> concat (map leaves bs) @ right_leaves c)"

text \<open>The fences of the subtree.\<close>

primrec hole :: "(nat \<Rightarrow> btree_node) \<Rightarrow> u8 list \<Rightarrow> u8 list \<Rightarrow> ctx \<Rightarrow> u8 list \<times> u8 list" where
  "hole pg lf uf [] = (lf, uf)"
| "hole pg lf uf (f # c) = (case f of (p, as, bs) \<Rightarrow>
     (case hole pg lf uf c of (l, u) \<Rightarrow> ((l # keys_of (pg p)) ! length as, (keys_of (pg p) @ [u]) ! length as)))"

primrec ctx_ok :: "(nat \<Rightarrow> btree_node) \<Rightarrow> u8 list \<Rightarrow> u8 list \<Rightarrow> nat \<Rightarrow> ctx \<Rightarrow> bool" where
  "ctx_ok pg lf uf q [] = True"
| "ctx_ok pg lf uf q (f # c) = (case f of (p, as, bs) \<Rightarrow>
     (case hole pg lf uf c of (l, u) \<Rightarrow>
        inner_ok (pg p) l u \<and> length as + length bs = count (pg p) \<and> child_at (pg p) (length as) = Some q \<and>
        (\<forall>i<length as. child_at (pg p) i = Some (page_of (as ! i)) \<and>
           shape_ok pg ((l # keys_of (pg p)) ! i) ((keys_of (pg p) @ [u]) ! i) (as ! i)) \<and>
        (\<forall>i<length bs. child_at (pg p) (Suc (length as + i)) = Some (page_of (bs ! i)) \<and>
           shape_ok pg ((l # keys_of (pg p)) ! Suc (length as + i)) ((keys_of (pg p) @ [u]) ! Suc (length as + i)) (bs ! i)) \<and>
        ctx_ok pg lf uf p c))"

lemma all_nth_middle:
  "(\<forall>i<length (as @ x # bs). P i ((as @ x # bs) ! i)) \<longleftrightarrow>
     (\<forall>i<length as. P i (as ! i)) \<and> P (length as) x \<and> (\<forall>i<length bs. P (Suc (length as + i)) (bs ! i))"
proof -
  have "(\<forall>i<length (as @ x # bs). P i ((as @ x # bs) ! i)) \<longleftrightarrow>
      (\<forall>i<length as. P i ((as @ x # bs) ! i)) \<and> P (length as) ((as @ x # bs) ! length as)
      \<and> (\<forall>i<length bs. P (Suc (length as + i)) ((as @ x # bs) ! Suc (length as + i)))" (is "?l \<longleftrightarrow> ?r")
  proof
    assume r: ?r
    show ?l
    proof (intro allI impI)
      fix i assume i: "i < length (as @ x # bs)"
      consider "i < length as" | "i = length as" | j where "i = Suc (length as + j)" "j < length bs"
        using i less_imp_Suc_add [of "length as" i] by (cases "i \<le> length as") (fastforce simp: not_le)+
      then show "P i ((as @ x # bs) ! i)" using r by cases auto
    qed
  next
    assume l: ?l
    show ?r by (intro conjI allI impI; rule l [rule_format]; simp)
  qed
  then show ?thesis by (simp add: nth_append)
qed

lemma shape_ok_frame:
  "shape_ok pg l u (Inner p (as @ sh # bs)) \<longleftrightarrow>
     inner_ok (pg p) l u \<and> length as + length bs = count (pg p) \<and> child_at (pg p) (length as) = Some (page_of sh) \<and>
        (\<forall>i<length as. child_at (pg p) i = Some (page_of (as ! i)) \<and>
           shape_ok pg ((l # keys_of (pg p)) ! i) ((keys_of (pg p) @ [u]) ! i) (as ! i)) \<and>
        (\<forall>i<length bs. child_at (pg p) (Suc (length as + i)) = Some (page_of (bs ! i)) \<and>
           shape_ok pg ((l # keys_of (pg p)) ! Suc (length as + i)) ((keys_of (pg p) @ [u]) ! Suc (length as + i)) (bs ! i)) \<and>
     shape_ok pg ((l # keys_of (pg p)) ! length as) ((keys_of (pg p) @ [u]) ! length as) sh"
  unfolding shape_ok.simps all_nth_middle [where P = "\<lambda>i c. child_at (pg p) i = Some (page_of c) \<and>
    shape_ok pg ((l # keys_of (pg p)) ! i) ((keys_of (pg p) @ [u]) ! i) c"] by auto

lemma shape_plug:
  "shape_ok pg lf uf (plug c sh) \<longleftrightarrow> ctx_ok pg lf uf (page_of sh) c \<and> shape_ok pg (fst (hole pg lf uf c)) (snd (hole pg lf uf c)) sh"
proof (induction c arbitrary: sh)
  case (Cons f c)
  obtain p as bs where f: "f = (p, as, bs)" by (cases f)
  obtain l u where h: "hole pg lf uf c = (l, u)" by (meson prod.exhaust)
  show ?case by (simp only: plug.simps f prod.case Cons.IH ctx_ok.simps hole.simps h shape_ok_frame page_of.simps fst_conv snd_conv) blast
qed simp

lemma plug_append: "plug (c1 @ c2) sh = plug c2 (plug c1 sh)"
  by (induction c1 arbitrary: sh) simp_all

lemma leaves_plug: "leaves (plug c sh) = left_leaves c @ leaves sh @ right_leaves c"
  by (induction c arbitrary: sh) (auto split: prod.splits)

lemma pages_plug: "set (shape_pages (plug c sh)) = set (ctx_pages c) \<union> set (shape_pages sh)"
  by (induction c arbitrary: sh) (auto split: prod.splits)

lemma distinct_plug:
  "distinct (shape_pages (plug c sh)) \<longleftrightarrow>
     distinct (ctx_pages c) \<and> distinct (shape_pages sh) \<and> set (ctx_pages c) \<inter> set (shape_pages sh) = {}"
proof (induction c arbitrary: sh)
  case (Cons f c)
  obtain p as bs where f: "f = (p, as, bs)" by (cases f)
  have d: "distinct (ctx_pages c) \<and> distinct (p # x @ y @ z) \<and> set (ctx_pages c) \<inter> set (p # x @ y @ z) = {} \<longleftrightarrow>
      distinct (p # (x @ z) @ ctx_pages c) \<and> distinct y \<and> set (p # (x @ z) @ ctx_pages c) \<inter> set y = {}" for x y z by auto
  show ?case unfolding f plug.simps prod.case Cons.IH ctx_pages.simps shape_pages.simps map_append concat_append list.map concat.simps
    append_assoc
    by (rule d [of "concat (map shape_pages as)" "shape_pages sh" "concat (map shape_pages bs)", unfolded append_assoc])
qed simp

lemma plug_page: "page_of (plug c sh) = (if c = [] then page_of sh else fst (last c))"
  by (induction c arbitrary: sh) (auto split: prod.splits)

lemma hole_cong: "(\<And>p. p \<in> set (ctx_pages c) \<Longrightarrow> pg' p = pg p) \<Longrightarrow> hole pg' lf uf c = hole pg lf uf c"
  by (induction c) (auto split: prod.splits)

lemma ctx_ok_cong:
  "(\<And>p. p \<in> set (ctx_pages c) \<Longrightarrow> pg' p = pg p) \<Longrightarrow> ctx_ok pg' lf uf q c = ctx_ok pg lf uf q c"
proof (induction c arbitrary: q)
  case (Cons f c)
  obtain p as bs where f: "f = (p, as, bs)" by (cases f)
  have h: "hole pg' lf uf c = hole pg lf uf c" by (rule hole_cong) (use Cons.prems f in simp)
  have p: "pg' p = pg p" using Cons.prems f by simp
  have a: "shape_ok pg' l u (as ! i) = shape_ok pg l u (as ! i)" if "i < length as" for i l u
    by (rule shape_ok_cong) (use Cons.prems f nth_mem [OF that] in auto)
  have b: "shape_ok pg' l u (bs ! i) = shape_ok pg l u (bs ! i)" if "i < length bs" for i l u
    by (rule shape_ok_cong) (use Cons.prems f nth_mem [OF that] in auto)
  have c: "ctx_ok pg' lf uf p c = ctx_ok pg lf uf p c" by (rule Cons.IH) (use Cons.prems f in simp)
  show ?case by (auto simp: f h p a b c)
qed simp

section \<open>The place of a key\<close>

definition entries_of :: "(nat \<Rightarrow> btree_node) \<Rightarrow> nat list \<Rightarrow> (u8 list \<times> u8 list) list" where
  "entries_of pg ls = concat (map (\<lambda>p. node_entries (pg p)) ls)"

lemma entries_of_simps [simp]:
  "entries_of pg [] = []" "entries_of pg (l # ls) = node_entries (pg l) @ entries_of pg ls"
  "entries_of pg (ls @ ls') = entries_of pg ls @ entries_of pg ls'"
  by (simp_all add: entries_of_def)

lemma contents_plug:
  "contents pg (plug c sh) = entries_of pg (left_leaves c) @ contents pg sh @ entries_of pg (right_leaves c)"
  by (simp add: contents_def entries_of_def leaves_plug)

lemma entries_of_leaves: "entries_of pg (concat (map leaves cs)) = concat (map (contents pg) cs)"
  by (induction cs) (simp_all add: contents_def entries_of_def)

lemma in_children:
  assumes "e \<in> set (concat (map f cs))"
  obtains i where "i < length cs" "e \<in> set (f (cs ! i))"
  using assms by (auto simp: in_set_conv_nth) (metis nth_mem in_set_conv_nth)

lemma around:
  assumes "shape_ok pg lf uf (plug c sh)" "within (fst (hole pg lf uf c)) (snd (hole pg lf uf c)) k"
  shows "within lf uf k \<and> (\<forall>e\<in>set (entries_of pg (left_leaves c)). bytes_less (fst e) k) \<and>
    (\<forall>e\<in>set (entries_of pg (right_leaves c)). bytes_less k (fst e))"
  using assms
proof (induction c arbitrary: sh)
  case (Cons f c)
  obtain p as bs where f: "f = (p, as, bs)" by (cases f)
  obtain l u where h: "hole pg lf uf c = (l, u)" by (cases "hole pg lf uf c")
  let ?n = "pg p" and ?i = "length as"
  have sh: "shape_ok pg lf uf (plug c (Inner p (as @ sh # bs)))" using Cons.prems(1) by (simp add: f)
  then have fr: "shape_ok pg l u (Inner p (as @ sh # bs))" unfolding shape_plug by (simp add: h del: shape_ok.simps)
  note fr' = fr [unfolded shape_ok_frame]
  have ok: "node_ok ?n l u" and i: "?i \<le> count ?n" and cnt: "length as + length bs = count ?n" using fr' by auto
  have k: "within ((l # keys_of ?n) ! ?i) ((keys_of ?n @ [u]) ! ?i) k" using Cons.prems(2) by (simp add: f h)
  note b = bounds_within [OF ok i k]
  have in_ok: "keys_of ?n ! j \<noteq> []" if "j < count ?n" for j
    using ok that keys_sorted(2) [of ?n] nth_mem [of j "keys_of ?n"] by (auto simp: node_ok_def keys_of_def)
  have len: "length (keys_of ?n) = count ?n" using ok keys_sorted(2) by (simp add: node_ok_def)
  have "bytes_less (fst e) k" if e: "e \<in> set (concat (map (contents pg) as))" for e
  proof -
    obtain j where j: "j < length as" "e \<in> set (contents pg (as ! j))" using in_children [OF e] by blast
    have "shape_ok pg ((l # keys_of ?n) ! j) ((keys_of ?n @ [u]) ! j) (as ! j)" using fr' j(1) by blast
    from contents_within [OF this j(2)] have "\<not> bytes_less (keys_of ?n ! j) (fst e)"
      using j(1) cnt len in_ok [of j] by (auto simp: within_def nth_append)
    then show ?thesis using b(2) [OF j(1)] not_less_less_trans by blast
  qed
  then have "\<forall>e\<in>set (entries_of pg (concat (map leaves as))). bytes_less (fst e) k" unfolding entries_of_leaves by blast
  moreover have "bytes_less k (fst e)" if e: "e \<in> set (concat (map (contents pg) bs))" for e
  proof -
    obtain j where j: "j < length bs" "e \<in> set (contents pg (bs ! j))" using in_children [OF e] by blast
    have "shape_ok pg ((l # keys_of ?n) ! Suc (?i + j)) ((keys_of ?n @ [u]) ! Suc (?i + j)) (bs ! j)" using fr' j(1) by blast
    from contents_within [OF this j(2)] have "bytes_less (keys_of ?n ! (?i + j)) (fst e)"
      using j(1) cnt in_ok [of "?i + j"] by (auto simp: within_def)
    moreover have "\<not> bytes_less (keys_of ?n ! (?i + j)) k" using b(3) [of "?i + j"] j(1) cnt by simp
    ultimately show ?thesis using not_less_less_trans by blast
  qed
  then have "\<forall>e\<in>set (entries_of pg (concat (map leaves bs))). bytes_less k (fst e)" unfolding entries_of_leaves by blast
  moreover have "within (fst (hole pg lf uf c)) (snd (hole pg lf uf c)) k" using b(1) h by simp
  note Cons.IH [OF sh this]
  ultimately show ?case by (auto simp: f)
qed simp

lemma rank_child:
  assumes "node_ok n lf uf" "within lf uf k"
  shows "within ((lf # keys_of n) ! rank k n) ((keys_of n @ [uf]) ! rank k n) k"
proof -
  have wf: "node_wf n" using assms(1) by (simp add: node_ok_def)
  note r = rank_spec [OF wf, where k = k] and len = keys_sorted(2) [OF wf]
  have "(lf # keys_of n) ! rank k n = [] \<or> bytes_less ((lf # keys_of n) ! rank k n) k"
    using assms(2) r(2) [of "rank k n - 1"] by (cases "rank k n") (auto simp: within_def)
  moreover have "(keys_of n @ [uf]) ! rank k n = [] \<or> \<not> bytes_less ((keys_of n @ [uf]) ! rank k n) k"
    using assms(2) r(1) r(3) [of "rank k n"] len by (cases "rank k n = count n") (auto simp: within_def nth_append)
  ultimately show ?thesis by (simp add: within_def)
qed

definition parent_of :: "nat \<times> nat \<Rightarrow> ctx \<Rightarrow> nat \<times> nat" where
  "parent_of z c = (case c of [] \<Rightarrow> z | (p, as, _) # _ \<Rightarrow> (p, length as))"

lemma parent_of_append: "parent_of z (c1 @ c2) = parent_of (parent_of z c2) c1"
  by (cases c1) (auto simp: parent_of_def)

lemma descend_finds:
  "shape_ok (pages t) lf uf sh \<Longrightarrow> within lf uf k \<Longrightarrow> length k \<le> 64 \<Longrightarrow> \<forall>p\<in>set (shape_pages sh). p < virtCount t \<Longrightarrow>
   \<exists>c l. sh = plug c (Leaf l) \<and> descend t k par pos (page_of sh) = Some (fst (parent_of (par, pos) c), snd (parent_of (par, pos) c), l)
     \<and> within (fst (hole (pages t) lf uf c)) (snd (hole (pages t) lf uf c)) k"
proof (induction "pages t" lf uf sh arbitrary: par pos rule: shape_ok.induct)
  case (1 lf uf p)
  then show ?case
    by (intro exI [of _ "[]"] exI [of _ p]) (simp add: descend.simps [of t k par pos p] toPtr_def parent_of_def)
next
  case (2 lf uf p cs)
  let ?n = "pages t p"
  let ?i = "rank k ?n"
  have ok: "node_ok ?n lf uf" and inner: "\<not> isLeaf ?n" and len: "length cs = Suc (count ?n)" using 2(2) by auto
  have wf: "node_wf ?n" using ok by (simp add: node_ok_def)
  have i: "?i < length cs" using rank_spec(1) [OF wf, where k = k] len by simp
  have ch: "child_at ?n ?i = Some (page_of (cs ! ?i))" and
    sub: "shape_ok (pages t) ((lf # keys_of ?n) ! ?i) ((keys_of ?n @ [uf]) ! ?i) (cs ! ?i)" using 2(2) i by auto
  have w: "within ((lf # keys_of ?n) ! ?i) ((keys_of ?n @ [uf]) ! ?i) k" by (rule rank_child [OF ok 2(3)])
  have v: "\<forall>q\<in>set (shape_pages (cs ! ?i)). q < virtCount t" using 2(5) nth_mem [OF i] by auto
  obtain c l where c: "cs ! ?i = plug c (Leaf l)" "descend t k p ?i (page_of (cs ! ?i)) = Some (fst (parent_of (p, ?i) c), snd (parent_of (p, ?i) c), l)"
    "within (fst (hole (pages t) ((lf # keys_of ?n) ! ?i) ((keys_of ?n @ [uf]) ! ?i) c)) (snd (hole (pages t) ((lf # keys_of ?n) ! ?i) ((keys_of ?n @ [uf]) ! ?i) c)) k"
    using 2(1) [OF i sub w 2(4) v] by blast
  let ?f = "(p, take ?i cs, drop (Suc ?i) cs)"
  have "Inner p cs = plug (c @ [?f]) (Leaf l)" using id_take_nth_drop [OF i] c(1) by (simp add: plug_append)
  moreover have "descend t k par pos p = Some (fst (parent_of (par, pos) (c @ [?f])), snd (parent_of (par, pos) (c @ [?f])), l)"
  proof -
    have "descend t k par pos p = descend t k p ?i (page_of (cs ! ?i))"
      using 2(5) inner rank_lowerBound [OF wf 2(4)] ch by (subst descend.simps) (simp add: toPtr_def child_at_def)
    also have "parent_of (par, pos) (c @ [?f]) = parent_of (p, ?i) c" using i by (simp add: parent_of_append) (simp add: parent_of_def)
    ultimately show ?thesis using c(2) by simp
  qed
  moreover have "hole (pages t) lf uf (c @ [?f]) = hole (pages t) ((lf # keys_of ?n) ! ?i) ((keys_of ?n @ [uf]) ! ?i) c"
    using i by (induction c) (auto split: prod.splits)
  ultimately show ?case using c(3) unfolding page_of.simps by (intro exI [of _ "c @ [?f]"] exI [of _ l] conjI) simp_all
qed

end
