(* ===== verification/TreeMap.thy ===== *)
theory TreeMap
  imports PageTree
begin

text \<open>
  The B-tree as a map: the invariant of all its pages, and what lookups, updates and insertions into a leaf with room do.
\<close>

section \<open>The invariant\<close>

definition tree_ok :: "btree \<Rightarrow> shape \<Rightarrow> bool" where
  "tree_ok t sh \<longleftrightarrow>
     shape_ok (pages t) [] [] sh \<and> root t = page_of sh \<and> distinct (shape_pages sh) \<and>
     (\<forall>p\<in>set (shape_pages sh). 0 < p \<and> p < allocCount t) \<and> allocCount t \<le> virtCount t \<and> virtCount t < 2 ^ 64 \<and>
     map (\<lambda>p. upperInnerNode (pages t p)) (leaves sh) = tl (leaves sh) @ [noNeighbour] \<and>
     (\<forall>p\<ge>allocCount t. uninit_ok (pages t p))"

definition holds :: "btree \<Rightarrow> (u8 list \<times> u8 list) list \<Rightarrow> bool" where
  "holds t es \<longleftrightarrow> (\<exists>sh. tree_ok t sh \<and> contents (pages t) sh = es)"

text \<open>The leaf of a key with what lies around it.\<close>

lemma tree_leaf:
  assumes "tree_ok t sh" "length k \<le> 64"
  obtains c l lf uf where "sh = plug c (Leaf l)" "hole (pages t) [] [] c = (lf, uf)"
    "descend t k metadataPageId 0 (root t) = Some (fst (parent_of (0, 0) c), snd (parent_of (0, 0) c), l)"
    "node_ok (pages t l) lf uf" "isLeaf (pages t l)" "within lf uf k" "0 < l" "l < virtCount t"
    "contents (pages t) sh = entries_of (pages t) (left_leaves c) @ node_entries (pages t l) @ entries_of (pages t) (right_leaves c)"
    "\<forall>e\<in>set (entries_of (pages t) (left_leaves c)). bytes_less (fst e) k"
    "\<forall>e\<in>set (entries_of (pages t) (right_leaves c)). bytes_less k (fst e)"
proof -
  have s: "shape_ok (pages t) [] [] sh" "root t = page_of sh" and v: "\<forall>p\<in>set (shape_pages sh). 0 < p \<and> p < virtCount t"
    using assms(1) by (auto simp: tree_ok_def)
  have "within [] [] k" by (simp add: within_def)
  from descend_finds [OF s(1) this assms(2), of 0 0] v obtain c l where c: "sh = plug c (Leaf l)"
    "descend t k 0 0 (page_of sh) = Some (fst (parent_of (0, 0) c), snd (parent_of (0, 0) c), l)"
    "within (fst (hole (pages t) [] [] c)) (snd (hole (pages t) [] [] c)) k" by blast
  obtain lf uf where h: "hole (pages t) [] [] c = (lf, uf)" by (cases "hole (pages t) [] [] c")
  have leaf: "node_ok (pages t l) lf uf" "isLeaf (pages t l)" using s(1) unfolding c(1) shape_plug by (simp_all add: h)
  have a: "\<forall>e\<in>set (entries_of (pages t) (left_leaves c)). bytes_less (fst e) k"
    "\<forall>e\<in>set (entries_of (pages t) (right_leaves c)). bytes_less k (fst e)"
    using around [OF s(1) [unfolded c(1)] c(3)] by blast+
  have l: "0 < l" "l < virtCount t" using v by (simp_all add: c(1) pages_plug)
  show ?thesis
    by (rule that [OF c(1) h _ leaf _ l _ a]) (use c(2,3) h s(2) in \<open>simp_all add: metadataPageId_def contents_plug c(1)\<close>)
qed

lemma map_of_around:
  assumes "\<forall>e\<in>set xs. bytes_less (fst e) k" "\<forall>e\<in>set ys. bytes_less k (fst e)"
  shows "map_of (xs @ es @ ys) k = map_of es k"
proof -
  have "map_of xs k = None" "map_of ys k = None" using assms by (auto simp: map_of_eq_None_iff)
  then show ?thesis by (simp add: map_add_def split: option.split)
qed

lemma put_around:
  assumes "\<forall>e\<in>set xs. bytes_less (fst e) k" "\<forall>e\<in>set ys. bytes_less k (fst e)"
  shows "put k v (xs @ es @ ys) = xs @ put k v es @ ys"
proof -
  have "filter (\<lambda>e. bytes_less (fst e) k) xs = xs" "filter (\<lambda>e. \<not> bytes_less (fst e) k) xs = []"
    "filter (\<lambda>e. bytes_less (fst e) k) ys = []" "filter (\<lambda>e. \<not> bytes_less (fst e) k) ys = ys"
    using assms bytes_less_asym by (auto simp: filter_id_conv filter_empty_conv)
  then show ?thesis by (simp add: put_def)
qed

lemma btree_lookup_map:
  assumes "tree_ok t sh" "length k \<le> 64"
  shows "btree_lookup t k = Some (map_of (contents (pages t) sh) k)"
proof -
  obtain c l lf uf where f: "sh = plug c (Leaf l)"
    "descend t k metadataPageId 0 (root t) = Some (fst (parent_of (0, 0) c), snd (parent_of (0, 0) c), l)"
    "node_ok (pages t l) lf uf" "l < virtCount t"
    "contents (pages t) sh = entries_of (pages t) (left_leaves c) @ node_entries (pages t l) @ entries_of (pages t) (right_leaves c)"
    "\<forall>e\<in>set (entries_of (pages t) (left_leaves c)). bytes_less (fst e) k"
    "\<forall>e\<in>set (entries_of (pages t) (right_leaves c)). bytes_less k (fst e)" using tree_leaf [OF assms] by metis
  have "leaf_lookup (pages t l) k = Some (map_of (node_entries (pages t l)) k)"
    using leaf_lookup_ok [OF _ assms(2)] f(3) by (simp add: node_ok_def)
  then show ?thesis using map_of_around [OF f(6,7)] f(2,4) by (simp add: btree_lookup_def findLeaf_def toPtr_def f(5))
qed

section \<open>Changing a leaf\<close>

text \<open>A leaf is replaced by one with the same fences and the same right neighbour.\<close>

lemma tree_leaf_change:
  assumes "tree_ok t sh" "sh = plug c (Leaf l)" "hole (pages t) [] [] c = (lf, uf)"
    "node_ok n lf uf" "isLeaf n" "upperInnerNode n = upperInnerNode (pages t l)"
  shows "tree_ok (put_page l n t) sh"
    "contents (pages (put_page l n t)) sh = entries_of (pages t) (left_leaves c) @ node_entries n @ entries_of (pages t) (right_leaves c)"
proof -
  let ?pg = "(pages t)(l := n)"
  have d: "distinct (shape_pages sh)" and pl: "set (shape_pages sh) = set (ctx_pages c) \<union> {l}"
    using assms(1) by (simp_all add: tree_ok_def assms(2) pages_plug)
  then have nl: "l \<notin> set (ctx_pages c)" by (simp add: assms(2) distinct_plug)
  then have same: "?pg p = pages t p" if "p \<in> set (ctx_pages c)" for p using that by auto
  have h: "hole ?pg [] [] c = (lf, uf)" using hole_cong [of c ?pg "pages t"] same assms(3) by metis
  have "shape_ok ?pg [] [] sh"
    using assms(1) ctx_ok_cong [of c ?pg "pages t" "[]" "[]" l] same assms(4,5)
    unfolding assms(2) tree_ok_def shape_plug by (simp add: h)
  moreover have "(\<lambda>p. upperInnerNode (?pg p)) = (\<lambda>p. upperInnerNode (pages t p))" using assms(6) by auto
  moreover have "l < allocCount t" using assms(1) pl by (auto simp: tree_ok_def)
  then have "\<forall>p\<ge>allocCount t. uninit_ok (?pg p)" using assms(1) by (auto simp: tree_ok_def)
  ultimately show "tree_ok (put_page l n t) sh" using assms(1) by (simp add: tree_ok_def put_page_def del: fun_upd_apply)
  have "l \<notin> set (left_leaves c @ right_leaves c)"
  proof -
    have "set (left_leaves c) \<subseteq> set (ctx_pages c) \<and> set (right_leaves c) \<subseteq> set (ctx_pages c)" for c
      using leaves_pages by (induction c) (fastforce split: prod.splits)+
    then show ?thesis using nl by auto
  qed
  then have "entries_of ?pg (left_leaves c) = entries_of (pages t) (left_leaves c)"
    "entries_of ?pg (right_leaves c) = entries_of (pages t) (right_leaves c)"
    by (auto simp: entries_of_def intro!: arg_cong [where f = concat])
  then show "contents (pages (put_page l n t)) sh =
      entries_of (pages t) (left_leaves c) @ node_entries n @ entries_of (pages t) (right_leaves c)"
    by (simp add: assms(2) contents_plug put_page_def)
qed

section \<open>Insertion into a leaf with room\<close>

lemma less_common:
  "bytes_less a k \<Longrightarrow> \<not> bytes_less b k \<Longrightarrow> take (common_len a b) k = take (common_len a b) a"
proof (induction a b arbitrary: k rule: common_len.induct)
  case (1 a as b bs)
  then show ?case by (cases k) auto
qed auto

lemma within_prefix:
  assumes "node_ok n lf uf" "within lf uf k"
  shows "take (prefixLen n) k = node_prefix n"
proof -
  have p: "prefixLen n = common_len lf uf" and f: "fence_key (heap n) (lowerFence n) = lf"
    using assms(1) unfolding node_ok_def node_wf_def by blast+
  have wf: "node_wf n" using assms(1) by (simp add: node_ok_def)
  have "node_prefix n = take (common_len lf uf) lf" using node_prefix_fence [OF node_wf_bounds(4) [OF wf]] by (simp only: p f)
  moreover have "take (common_len lf uf) k = take (common_len lf uf) lf"
  proof (cases "lf = [] \<or> uf = []")
    case True
    then have "common_len lf uf = 0" by (cases lf; cases uf) auto
    then show ?thesis by simp
  next
    case False
    then show ?thesis using assms(2) by (intro less_common) (auto simp: within_def)
  qed
  ultimately show ?thesis by (simp add: p)
qed

lemma dirty_simps [simp]:
  "node_wf (n\<lparr>dirty := b\<rparr>) = node_wf n" "node_entries (n\<lparr>dirty := b\<rparr>) = node_entries n"
  "node_prefix (n\<lparr>dirty := b\<rparr>) = node_prefix n" "keys_of (n\<lparr>dirty := b\<rparr>) = keys_of n" "node_ok (n\<lparr>dirty := b\<rparr>) lf uf = node_ok n lf uf"
  "hasSpaceFor (n\<lparr>dirty := b\<rparr>) k l = hasSpaceFor n k l" "child_at (n\<lparr>dirty := b\<rparr>) i = child_at n i"
  by (simp_all add: node_wf_def node_ok_def keys_of_def node_entries_def node_prefix_def getPrefix_def used_slots_def hint_ok_def
      hasSpaceFor_def spaceNeeded_def freeSpaceAfterCompaction_def child_at_def getChild_def span_def Let_def)

lemma node_fits_within:
  assumes "node_ok n lf uf" "within lf uf k" "length k \<le> 64" "length v \<le> 4096" "uninit_ok u" "hasSpaceFor n (length k) (length v)"
  shows "node_fits u n k v"
  using assms within_prefix by (simp add: node_fits_def)

lemma put_set: "set (put k v es) = insert (k, v) (set es)"
  by (auto simp: put_def)

lemma node_insert_ok:
  assumes "node_ok n lf uf" "within lf uf k" "k \<noteq> []" "node_fits u n k v" "k \<notin> set (keys_of n)"
  obtains n' where "insertInPage u n k v = Some n'" "node_ok n' lf uf" "node_entries n' = put k v (node_entries n)"
    "isLeaf n' = isLeaf n" "upperInnerNode n' = upperInnerNode n"
proof -
  have wf: "node_wf n" using assms(1) by (simp add: node_ok_def)
  obtain n' where n': "insertInPage u n k v = Some n'" "node_wf n'" "node_entries n' = put k v (node_entries n)"
    "fence_key (heap n') (lowerFence n') = fence_key (heap n) (lowerFence n)"
    "fence_key (heap n') (upperFence n') = fence_key (heap n) (upperFence n)"
    "isLeaf n' = isLeaf n" "upperInnerNode n' = upperInnerNode n"
    using node_insert [OF wf assms(4)] assms(5) by (auto simp: keys_of_def)
  have "node_ok n' lf uf" using n' assms(1-3) by (auto simp: node_ok_def put_set)
  then show ?thesis using n' that by blast
qed

lemma btree_insert_room:
  assumes "tree_ok t sh" "length k \<le> 64" "k \<noteq> []" "length v \<le> 4096" "uninit_ok stack" "k \<notin> fst ` set (contents (pages t) sh)"
    "descend t k metadataPageId 0 (root t) = Some (p, i, l)" "hasSpaceFor (pages t l) (length k) (length v)"
  shows "\<exists>t'. btree_insert stack t k v = Some t' \<and> tree_ok t' sh \<and> contents (pages t') sh = put k v (contents (pages t) sh)"
proof -
  obtain c l' lf uf where f: "sh = plug c (Leaf l')" "hole (pages t) [] [] c = (lf, uf)"
    "descend t k metadataPageId 0 (root t) = Some (fst (parent_of (0, 0) c), snd (parent_of (0, 0) c), l')"
    "node_ok (pages t l') lf uf" "isLeaf (pages t l')" "within lf uf k" "l' < virtCount t"
    "contents (pages t) sh = entries_of (pages t) (left_leaves c) @ node_entries (pages t l') @ entries_of (pages t) (right_leaves c)"
    "\<forall>e\<in>set (entries_of (pages t) (left_leaves c)). bytes_less (fst e) k"
    "\<forall>e\<in>set (entries_of (pages t) (right_leaves c)). bytes_less k (fst e)" using tree_leaf [OF assms(1,2)] by metis
  have l: "l' = l" using f(3) assms(7) by simp
  let ?n = "(pages t l)\<lparr>dirty := True\<rparr>"
  have fits: "node_fits stack ?n k v" by (rule node_fits_within [of _ lf uf]) (use f(4,6) assms l in simp_all)
  have "k \<notin> set (keys_of ?n)" using assms(6) f(8) by (auto simp: keys_of_def l)
  from node_insert_ok [OF _ f(6) assms(3) fits this] f(4) obtain n' where n': "insertInPage stack ?n k v = Some n'" "node_ok n' lf uf"
    "node_entries n' = put k v (node_entries (pages t l))" "isLeaf n'" "upperInnerNode n' = upperInnerNode (pages t l)"
    using f(5) by (auto simp: l)
  have "btree_insert stack t k v = Some (put_page l n' t)"
    using n'(1) f(7) assms(7,8) by (subst btree_insert.simps) (simp add: toPtr_def fixX_def l)
  moreover note tree_leaf_change [OF assms(1) f(1) f(2) n'(2,4)] n'(5)
  ultimately show ?thesis using put_around [OF f(9,10)] f(8) n'(3) by (auto simp: l)
qed

section \<open>Overwriting a payload\<close>

lemma overwritten_other:
  assumes "apart (x, l) (a, length v)" "a + length v \<le> length h" "x + l \<le> length h"
  shows "take l (drop x (take a h @ v @ drop (a + length v) h)) = take l (drop x h)"
proof -
  have lh: "length (take a h @ v @ drop (a + length v) h) = length h" using assms(2) by simp
  show ?thesis
  proof (rule nth_equalityI)
  show "length (take l (drop x (take a h @ v @ drop (a + length v) h))) = length (take l (drop x h))"
    unfolding length_take length_drop lh ..
next
  fix i assume "i < length (take l (drop x (take a h @ v @ drop (a + length v) h)))"
  then have i: "i < l" "x + i < length h" unfolding length_take length_drop lh by auto
  consider "x + i < a" | "a + length v \<le> x + i" | "v = []" using assms(1) i(1) by (auto simp: apart_def)
  then have e: "(take a h @ v @ drop (a + length v) h) ! (x + i) = h ! (x + i)"
  proof cases
    case 2
    then have "\<not> x + i - a < length v" "\<not> x + i < a" by linarith+
    then show ?thesis using i(2) assms(2) by (simp add: nth_append)
  qed (use i(2) assms(2) in \<open>simp_all add: nth_append\<close>)
  then show "take l (drop x (take a h @ v @ drop (a + length v) h)) ! i = take l (drop x h) ! i"
  proof -
    have td: "take l (drop x z) ! i = z ! (x + i)" if "length z = length h" for z using i that by simp
    show ?thesis unfolding td [OF lh] td [OF refl] by (rule e)
  qed
  qed
qed

definition overwrite :: "btree_node \<Rightarrow> nat \<Rightarrow> u8 list \<Rightarrow> btree_node" where
  "overwrite n i v = n\<lparr>heap := (let a = offset (slots n ! i) + keyLen (slots n ! i) in take a (heap n) @ v @ drop (a + length v) (heap n))\<rparr>"

lemma overwrite_ok:
  assumes wf: "node_wf n" and i: "i < count n" and v: "length v = payloadLen (slots n ! i)"
  shows "node_wf (overwrite n i v)" "node_entries (overwrite n i v) = (node_entries n)[i := (keys_of n ! i, v)]"
    "fence_key (heap (overwrite n i v)) (lowerFence n) = fence_key (heap n) (lowerFence n)"
    "fence_key (heap (overwrite n i v)) (upperFence n) = fence_key (heap n) (upperFence n)"
proof -
  note b = node_wf_bounds [OF wf]
  have w: "length (heap n) = 4096" "fence_ok (dataOffset n) (heap n) (lowerFence n)" "fence_ok (dataOffset n) (heap n) (upperFence n)"
    "list_all (slot_ok (dataOffset n) (heap n) (prefixLen n)) (used_slots n)"
    "sorted_wrt apart (fence_region (lowerFence n) # fence_region (upperFence n) # map region (used_slots n))"
    using wf unfolding node_wf_def by blast+
  let ?s = "slots n ! i"
  define a where "a = offset ?s + keyLen ?s"
  define h where "h = take a (heap n) @ v @ drop (a + length v) (heap n)"
  have n': "overwrite n i v = n\<lparr>heap := h\<rparr>" by (simp add: overwrite_def h_def a_def Let_def)
  have ok: "slot_ok (dataOffset n) (heap n) (prefixLen n) (used_slots n ! j)" if "j < count n" for j
    using w(4) that b(2) by (simp add: list_all_length)
  have us: "used_slots n ! i = ?s" by (rule used_nth [OF wf i])
  have av: "a + length v \<le> length (heap n)" using ok [OF i] v by (simp add: us slot_ok_def a_def)
  have lh: "length h = 4096" using av w(1) by (simp add: h_def)
  have other: "take l (drop x h) = take l (drop x (heap n))" if "apart (x, l) (a, length v)" "x + l \<le> 4096" for x l
    unfolding h_def using that av w(1) by (intro overwritten_other) simp_all
  have sub: "apart (x, l) (a, length v)" if "apart (x0, l0) (region ?s)" "x0 \<le> x" "x + l \<le> x0 + l0" for x l x0 l0
    using that v by (auto simp: apart_def region_def slot_space_def a_def)
  have two: "apart (region (used_slots n ! j)) (region (used_slots n ! k))" if "j < count n" "k < count n" "j \<noteq> k" for j k
  proof -
    have "sorted_wrt apart (map region (used_slots n))" using w(5) by simp
    then have "apart (region (used_slots n ! x)) (region (used_slots n ! y))" if "x < y" "y < count n" for x y
      using that b(2) by (simp add: sorted_wrt_iff_nth_less)
    then show ?thesis using that apart_sym by (metis nat_neq_iff)
  qed
  have fr: "apart (fence_region f) (region ?s)" if "f = lowerFence n \<or> f = upperFence n" for f
    using w(5) that i b(2) us by (auto simp: sorted_wrt_append) (metis nth_mem)+
  have fence: "fence_key h f = fence_key (heap n) f" if f: "f = lowerFence n \<or> f = upperFence n" for f
  proof -
    have "apart (f_offset f, f_len f) (region ?s)" using fr [OF f] by (simp add: fence_region_def)
    then have "apart (f_offset f, f_len f) (a, length v)" by (rule sub) simp_all
    moreover have "f_offset f + f_len f \<le> 4096" using f w(1-3) by (auto simp: fence_ok_def)
    ultimately show ?thesis using other by (simp add: fence_key_def)
  qed
  show fk: "fence_key (heap (overwrite n i v)) (lowerFence n) = fence_key (heap n) (lowerFence n)"
    "fence_key (heap (overwrite n i v)) (upperFence n) = fence_key (heap n) (upperFence n)" using fence by (simp_all add: n')
  have suf: "slot_suffix h (used_slots n ! j) = slot_suffix (heap n) (used_slots n ! j)" if j: "j < count n" for j
  proof (cases "j = i")
    case True
    have "apart (offset ?s, keyLen ?s) (a, length v)" by (simp add: apart_def a_def)
    then show ?thesis using other [of "offset ?s" "keyLen ?s"] ok [OF i] w(1) by (simp add: True us slot_suffix_def slot_ok_def)
  next
    case False
    let ?t = "used_slots n ! j"
    have "apart (region ?t) (region (used_slots n ! i))" using two [OF j i False] .
    then have "apart (offset ?t, keyLen ?t) (a, length v)" unfolding us region_def [of ?t] by (rule sub) (simp_all add: slot_space_def)
    then show ?thesis using other [of "offset ?t" "keyLen ?t"] ok [OF j] w(1) by (simp add: slot_suffix_def slot_ok_def)
  qed
  have pay: "slot_payload h (used_slots n ! j) = (if j = i then v else slot_payload (heap n) (used_slots n ! j))" if j: "j < count n" for j
  proof (cases "j = i")
    case True
    have "drop a h = v @ drop (a + length v) (heap n)" using av by (simp add: h_def)
    then show ?thesis using True v by (simp add: us slot_payload_def a_def [symmetric])
  next
    case False
    let ?t = "used_slots n ! j"
    have "apart (region ?t) (region (used_slots n ! i))" using two [OF j i False] .
    then have "apart (offset ?t + keyLen ?t, payloadLen ?t) (a, length v)" unfolding us region_def [of ?t] by (rule sub) (simp_all add: slot_space_def)
    then show ?thesis using False other [of "offset ?t + keyLen ?t" "payloadLen ?t"] ok [OF j] w(1) by (simp add: slot_payload_def slot_ok_def)
  qed
  have us': "used_slots (overwrite n i v) = used_slots n" by (simp add: used_slots_def n')
  have msuf: "map (slot_suffix h) (used_slots n) = map (slot_suffix (heap n)) (used_slots n)"
    using suf b(2) by (simp add: list_eq_iff_nth_eq)
  have srt: "sorted_wrt bytes_less (map (slot_suffix h) (used_slots n))" unfolding msuf using wf unfolding node_wf_def by blast
  have "list_all (slot_ok (dataOffset n) h (prefixLen n)) (used_slots n)"
    using ok suf b(2) lh w(1) by (simp add: list_all_length slot_ok_def)
  then show "node_wf (overwrite n i v)"
    using wf fence lh w(1) srt unfolding node_wf_def us' by (simp add: n' fence_ok_def hint_ok_def)
  have pre: "node_prefix (overwrite n i v) = node_prefix n"
    using node_prefix_fence [of "overwrite n i v"] node_prefix_fence [OF b(4)] b(4) fence by (simp add: n')
  show "node_entries (overwrite n i v) = (node_entries n)[i := (keys_of n ! i, v)]"
    unfolding node_entries_def us' pre
    by (rule nth_equalityI) (use b(2) suf pay i in \<open>auto simp: n' nth_list_update keys_of_def node_entries_def\<close>)
qed

lemma set_payload_ok:
  assumes "node_wf n" "i < count n" "length v = payloadLen (slots n ! i)"
  shows "set_payload n i v = Some (overwrite n i v)"
proof -
  have "offset (slots n ! i) + keyLen (slots n ! i) + payloadLen (slots n ! i) \<le> length (heap n)"
    using assms(1,2) node_wf_bounds(2) [OF assms(1)] used_nth [OF assms(1,2)]
    by (fastforce simp: node_wf_def list_all_length slot_ok_def)
  then show ?thesis using assms(3) by (simp add: set_payload_def Let_def custom_memcpy_eq overwrite_def)
qed

lemma overwrite_fields [simp]:
  "dirty (overwrite n i v) = dirty n" "upperInnerNode (overwrite n i v) = upperInnerNode n" "isLeaf (overwrite n i v) = isLeaf n"
  "count (overwrite n i v) = count n" "slots (overwrite n i v) = slots n" "lowerFence (overwrite n i v) = lowerFence n"
  "upperFence (overwrite n i v) = upperFence n" "prefixLen (overwrite n i v) = prefixLen n" "spaceUsed (overwrite n i v) = spaceUsed n"
  by (simp_all add: overwrite_def)

lemma overwrite_keys: "node_wf n \<Longrightarrow> i < count n \<Longrightarrow> length v = payloadLen (slots n ! i) \<Longrightarrow> keys_of (overwrite n i v) = keys_of n"
  using overwrite_ok(2) [of n i v] keys_sorted(2) [of n] list_update_id [of "map fst (node_entries n)" i]
  by (simp add: keys_of_def map_update)

lemma overwrite_node_ok:
  assumes "node_ok n lf uf" "i < count n" "length v = payloadLen (slots n ! i)"
  shows "node_ok (overwrite n i v) lf uf"
proof -
  have wf: "node_wf n" using assms(1) by (simp add: node_ok_def)
  have "fst ` set (node_entries (overwrite n i v)) = fst ` set (node_entries n)"
    using overwrite_keys [OF wf assms(2,3)] by (metis keys_of_def set_map)
  then show ?thesis using assms(1) overwrite_ok [OF wf assms(2,3)] by (simp add: node_ok_def)
qed

section \<open>Update in place\<close>

text \<open>An update of the entry of a key.\<close>

definition alter :: "u8 list \<Rightarrow> 'v \<Rightarrow> (u8 list \<times> 'v) list \<Rightarrow> (u8 list \<times> 'v) list" where
  "alter k v es = map (\<lambda>e. if fst e = k then (k, v) else e) es"

lemma alter_nth:
  assumes "distinct (map fst es)" "i < length es"
  shows "es[i := (fst (es ! i), v)] = alter (fst (es ! i)) v es"
proof (rule nth_equalityI)
  fix j assume "j < length (es[i := (fst (es ! i), v)])"
  then have j: "j < length es" by simp
  then have "fst (es ! j) = fst (es ! i) \<longleftrightarrow> j = i" using nth_eq_iff_index_eq [OF assms(1), of j i] assms(2) by simp
  then show "es[i := (fst (es ! i), v)] ! j = alter (fst (es ! i)) v es ! j" using j assms(2) by (simp add: alter_def nth_list_update)
qed (simp add: alter_def)

lemma leaf_at:
  assumes "node_wf n" "length k \<le> 64" "k \<in> set (keys_of n)"
  shows "rank k n < count n" "keys_of n ! rank k n = k"
proof -
  obtain j where j: "j < count n" "keys_of n ! j = k" using assms(3) keys_sorted(2) [OF assms(1)] by (auto simp: in_set_conv_nth)
  have "\<not> j < rank k n" using rank_spec(2) [OF assms(1), of j k] j by auto
  then have r: "rank k n \<le> j" by simp
  then show "rank k n < count n" using j(1) by simp
  then have "\<not> bytes_less (keys_of n ! rank k n) k" using rank_spec(3) [OF assms(1), of k "rank k n"] by simp
  moreover have "rank k n = j \<or> bytes_less (keys_of n ! rank k n) (keys_of n ! j)"
    using r j(1) keys_sorted [OF assms(1)] by (cases "rank k n = j") (auto simp: sorted_wrt_iff_nth_less)
  ultimately show "keys_of n ! rank k n = k" using j(2) by auto
qed

lemma getPayload_nth:
  assumes "node_wf n" "i < count n"
  shows "getPayload n i = Some (snd (node_entries n ! i))" "length (snd (node_entries n ! i)) = payloadLen (slots n ! i)"
proof -
  have o: "offset (slots n ! i) + keyLen (slots n ! i) + payloadLen (slots n ! i) \<le> length (heap n)"
    using assms node_wf_bounds(2) [OF assms(1)] used_nth [OF assms] by (fastforce simp: node_wf_def list_all_length slot_ok_def)
  then show "getPayload n i = Some (snd (node_entries n ! i))"
    using assms(2) node_wf_bounds(2) [OF assms(1)] used_nth [OF assms]
    by (simp add: getPayload_def span_def Let_def node_entries_def slot_payload_def)
  show "length (snd (node_entries n ! i)) = payloadLen (slots n ! i)"
    using o assms(2) node_wf_bounds(2) [OF assms(1)] used_nth [OF assms] by (simp add: node_entries_def slot_payload_def)
qed

lemma updateInPlace_ok:
  assumes "tree_ok t sh" "length k \<le> 64" "\<And>v. map_of (contents (pages t) sh) k = Some v \<Longrightarrow> \<exists>v'. f v = Some v' \<and> length v' = length v"
  shows "\<exists>t'. updateInPlace t k f = Some (k \<in> fst ` set (contents (pages t) sh), t') \<and> tree_ok t' sh
    \<and> contents (pages t') sh = (case map_of (contents (pages t) sh) k of None \<Rightarrow> contents (pages t) sh
        | Some v \<Rightarrow> alter k (the (f v)) (contents (pages t) sh))"
proof -
  obtain c l lf uf where z: "sh = plug c (Leaf l)" "hole (pages t) [] [] c = (lf, uf)"
    "descend t k metadataPageId 0 (root t) = Some (fst (parent_of (0, 0) c), snd (parent_of (0, 0) c), l)"
    "node_ok (pages t l) lf uf" "isLeaf (pages t l)" "within lf uf k" "l < virtCount t"
    "contents (pages t) sh = entries_of (pages t) (left_leaves c) @ node_entries (pages t l) @ entries_of (pages t) (right_leaves c)"
    "\<forall>e\<in>set (entries_of (pages t) (left_leaves c)). bytes_less (fst e) k"
    "\<forall>e\<in>set (entries_of (pages t) (right_leaves c)). bytes_less k (fst e)" using tree_leaf [OF assms(1,2)] by metis
  let ?n = "pages t l" and ?L = "entries_of (pages t) (left_leaves c)" and ?R = "entries_of (pages t) (right_leaves c)"
  have wf: "node_wf ?n" using z(4) by (simp add: node_ok_def)
  have m: "map_of (contents (pages t) sh) k = map_of (node_entries ?n) k" unfolding z(8) by (rule map_of_around [OF z(9,10)])
  have mem: "k \<in> fst ` set (contents (pages t) sh) \<longleftrightarrow> k \<in> set (keys_of ?n)"
    using z(9,10) unfolding z(8) by (auto simp: keys_of_def)
  have lb: "lowerBound ?n k = Some (rank k ?n, k \<in> set (keys_of ?n))" by (rule rank_lowerBound [OF wf assms(2)])
  show ?thesis
  proof (cases "k \<in> set (keys_of ?n)")
    case False
    then have "map_of (node_entries ?n) k = None" by (simp add: map_of_eq_None_iff keys_of_def)
    moreover have "updateInPlace t k f = Some (False, t)" using z(3,7) lb False by (simp add: updateInPlace_def findLeaf_def toPtr_def)
    ultimately show ?thesis using assms(1) False mem m by auto
  next
    case True
    let ?i = "rank k ?n" and ?d = "?n\<lparr>dirty := True\<rparr>"
    have i: "?i < count ?n" "keys_of ?n ! ?i = k" using leaf_at [OF wf assms(2) True] by simp_all
    have len: "length (node_entries ?n) = count ?n" and dis: "distinct (map fst (node_entries ?n))"
      using entries_sorted [OF wf] by (auto intro: sorted_distinct)
    define v where "v = snd (node_entries ?n ! ?i)"
    have e: "node_entries ?n ! ?i = (k, v)" using i len by (simp add: v_def keys_of_def prod_eq_iff)
    then have "map_of (node_entries ?n) k = Some v" using i len dis by (metis map_of_eq_Some_iff nth_mem)
    then have mv: "map_of (contents (pages t) sh) k = Some v" using m by simp
    obtain v' where v': "f v = Some v'" "length v' = length v" using assms(3) [OF mv] by blast
    have lv: "length v' = payloadLen (slots ?d ! ?i)" using getPayload_nth(2) [OF wf i(1)] v'(2) by (simp add: v_def)
    have gp: "getPayload ?d ?i = Some v" using getPayload_nth(1) [of ?d ?i] wf i(1) by (simp add: v_def)
    let ?n' = "overwrite ?d ?i v'"
    have ok: "node_ok ?n' lf uf" by (rule overwrite_node_ok) (use z(4) i lv in simp_all)
    have "set_payload ?d ?i v' = Some ?n'" by (rule set_payload_ok) (use wf i lv in simp_all)
    then have run: "updateInPlace t k f = Some (True, put_page l ?n' t)"
      using z(3,7) lb True gp v'(1) by (simp add: updateInPlace_def findLeaf_def toPtr_def fixX_def)
    have ent: "node_entries ?n' = alter k v' (node_entries ?n)"
      using overwrite_ok(2) [of ?d ?i v'] wf i lv alter_nth [OF dis, of ?i v'] len e by simp
    have "alter k v' ?L = ?L" "alter k v' ?R = ?R" using z(9,10) unfolding alter_def by (fastforce intro!: map_idI)+
    then have "contents (pages (put_page l ?n' t)) sh = alter k v' (contents (pages t) sh)"
      using tree_leaf_change(2) [OF assms(1) z(1,2) ok] z(5,8) ent by (simp add: alter_def)
    then show ?thesis using tree_leaf_change(1) [OF assms(1) z(1,2) ok] z(5) run True mem mv v'(1) by auto
  qed
qed

end
