(* ===== verification/TreeScan.thy ===== *)
theory TreeScan
  imports TreeMap Adapter
begin

text \<open>
  The scans of the B-tree: over the pages, they call their function for the entries that the scans of \<open>Adapter\<close> go
  through, in the same order.
\<close>

section \<open>Sorted contents\<close>

lemma bounds_mono:
  assumes "node_wf n" "i < j" "j \<le> count n" "i < count n"
  shows "keys_of n ! i = (l # keys_of n) ! j \<or> bytes_less (keys_of n ! i) ((l # keys_of n) ! j)"
proof -
  obtain m where j: "j = Suc m" using assms(2) by (cases j) auto
  have "i = m \<or> bytes_less (keys_of n ! i) (keys_of n ! m)"
    using keys_sorted [OF assms(1)] assms(2,3) j by (cases "i = m") (auto simp: sorted_wrt_iff_nth_less)
  then show ?thesis using j by auto
qed

lemma sorted_concat:
  "(\<And>i. i < length xs \<Longrightarrow> sorted_wrt R (f (xs ! i))) \<Longrightarrow>
   (\<And>i j a b. i < j \<Longrightarrow> j < length xs \<Longrightarrow> a \<in> set (f (xs ! i)) \<Longrightarrow> b \<in> set (f (xs ! j)) \<Longrightarrow> R a b) \<Longrightarrow>
   sorted_wrt R (concat (map f xs))"
proof (induction xs)
  case (Cons x xs)
  have "sorted_wrt R (concat (map f xs))"
  proof (rule Cons.IH)
    show "sorted_wrt R (f (xs ! i))" if "i < length xs" for i using Cons.prems(1) [of "Suc i"] that by simp
    show "R a b" if "i < j" "j < length xs" "a \<in> set (f (xs ! i))" "b \<in> set (f (xs ! j))" for i j a b
      using Cons.prems(2) [of "Suc i" "Suc j" a b] that by simp
  qed
  moreover have "R a b" if a: "a \<in> set (f x)" and b: "b \<in> set (concat (map f xs))" for a b
  proof -
    obtain j where "j < length xs" "b \<in> set (f (xs ! j))" using in_children [OF b] by blast
    then show ?thesis using Cons.prems(2) [of 0 "Suc j" a b] a by simp
  qed
  ultimately show ?case using Cons.prems(1) [of 0] by (auto simp: sorted_wrt_append)
qed simp

lemma contents_sorted: "shape_ok pg lf uf sh \<Longrightarrow> sorted_wrt bytes_less (map fst (contents pg sh))"
proof (induction pg lf uf sh rule: shape_ok.induct)
  case (1 pg lf uf p)
  then show ?case using entries_sorted(1) by (simp add: node_ok_def)
next
  case (2 pg lf uf p cs)
  let ?n = "pg p"
  have wf: "node_wf ?n" and ok: "node_ok ?n lf uf" and len: "length cs = Suc (count ?n)" using 2(2) by (auto simp: node_ok_def)
  have sub: "shape_ok pg ((lf # keys_of ?n) ! i) ((keys_of ?n @ [uf]) ! i) (cs ! i)" if "i < length cs" for i using 2(2) that by simp
  have ne: "keys_of ?n ! j \<noteq> []" if "j < count ?n" for j
    using ok that keys_sorted(2) [OF wf] nth_mem [of j "keys_of ?n"] by (auto simp: node_ok_def keys_of_def)
  have "sorted_wrt (\<lambda>a b. bytes_less (fst a) (fst b)) (concat (map (contents pg) cs))"
  proof (rule sorted_concat)
    show "sorted_wrt (\<lambda>a b. bytes_less (fst a) (fst b)) (contents pg (cs ! i))" if "i < length cs" for i
      using 2(1) [OF that] sub [OF that] by (simp add: sorted_wrt_map)
    show "bytes_less (fst a) (fst b)" if ij: "i < j" "j < length cs" "a \<in> set (contents pg (cs ! i))" "b \<in> set (contents pg (cs ! j))" for i j a b
    proof -
      have i: "i < count ?n" "i < length cs" using ij len by simp_all
      have fa: "\<not> bytes_less (keys_of ?n ! i) (fst a)"
        using contents_within [OF sub [OF i(2)] ij(3)] i ne [OF i(1)] keys_sorted(2) [OF wf] by (auto simp: within_def nth_append)
      obtain m where m: "j = Suc m" using ij(1) by (cases j) auto
      have fb: "bytes_less ((lf # keys_of ?n) ! j) (fst b)"
        using contents_within [OF sub [OF ij(2)] ij(4)] ne [of m] ij(2) len by (auto simp: within_def m)
      have "keys_of ?n ! i = (lf # keys_of ?n) ! j \<or> bytes_less (keys_of ?n ! i) ((lf # keys_of ?n) ! j)"
        using bounds_mono [OF wf ij(1) _ i(1)] ij(2) len by simp
      then have "bytes_less (keys_of ?n ! i) (fst b)" using fb bytes_less_trans by (elim disjE) auto
      then show ?thesis by (rule not_less_less_trans [OF fa])
    qed
  qed
  then show ?case by (simp add: sorted_wrt_map)
qed

section \<open>Ascending\<close>

lemma entry_at_nth:
  assumes "node_wf n" "i < count n"
  shows "entry_at n i = Some (node_entries n ! i)"
proof -
  note b = node_wf_bounds [OF assms(1)]
  have o: "offset (slots n ! i) + keyLen (slots n ! i) + payloadLen (slots n ! i) \<le> length (heap n)"
    using assms b(2) used_nth [OF assms] by (fastforce simp: node_wf_def list_all_length slot_ok_def)
  have "load (prefixLen n) (getPrefix n) 0 = Some (node_prefix n)" using b(5) by (simp add: load_def node_prefix_def)
  moreover have "load (keyLen (slots n ! i)) (getKey n i) 0 = Some (slot_suffix (heap n) (slots n ! i))"
    using o by (simp add: load_def getKey_def slot_suffix_def)
  ultimately show ?thesis
    using getPayload_nth(1) [OF assms] assms(2) b(2) used_nth [OF assms] by (simp add: entry_at_def node_entries_def)
qed

lemma scan_right_leaf:
  assumes "l < virtCount t" "node_wf (pages t l)"
    and "\<And>s. (if hasRightNeighbour (pages t l) then scan_right t fn (upperInnerNode (pages t l)) 0 s else Some s) = scan_loop fn rest s"
  shows "pos \<le> count (pages t l) \<Longrightarrow> scan_right t fn l pos s = scan_loop fn (drop pos (node_entries (pages t l)) @ rest) s"
proof (induction "count (pages t l) - pos" arbitrary: pos s)
  case 0
  then show ?case
    using assms(1) assms(3) [of s] entries_sorted(2) [OF assms(2)] by (subst scan_right.simps) (simp add: toPtr_def split: if_splits)
next
  case (Suc m)
  let ?n = "pages t l"
  have p: "pos < count ?n" using Suc(2) by simp
  obtain k v where e: "node_entries ?n ! pos = (k, v)" by fastforce
  have d: "drop pos (node_entries ?n) = (k, v) # drop (Suc pos) (node_entries ?n)"
    using p e entries_sorted(2) [OF assms(2)] by (metis Cons_nth_drop_Suc)
  have ih: "scan_right t fn l (Suc pos) s = scan_loop fn (drop (Suc pos) (node_entries ?n) @ rest) s" for s
    using Suc(1) [of "Suc pos" s] Suc(2) p by simp
  show ?case
    using assms(1) p entry_at_nth [OF assms(2) p] e ih by (subst scan_right.simps) (simp add: toPtr_def d cong: if_cong)
qed

lemma scan_right_leaves:
  "list_all (\<lambda>p. p < virtCount t \<and> node_wf (pages t p)) (l # ls) \<Longrightarrow>
   map (\<lambda>p. upperInnerNode (pages t p)) (l # ls) = ls @ [noNeighbour] \<Longrightarrow> virtCount t < 2 ^ 64 \<Longrightarrow> pos \<le> count (pages t l) \<Longrightarrow>
   scan_right t fn l pos s = scan_loop fn (drop pos (node_entries (pages t l)) @ entries_of (pages t) ls) s"
proof (induction ls arbitrary: l pos s)
  case Nil
  have "\<not> hasRightNeighbour (pages t l)" using Nil(2) by (simp add: hasRightNeighbour_def)
  then show ?case using Nil by (intro scan_right_leaf) simp_all
next
  case (Cons l' ls)
  have u: "upperInnerNode (pages t l) = l'" using Cons.prems(2) by simp
  have "hasRightNeighbour (pages t l)" using Cons.prems(1,3) u by (simp add: hasRightNeighbour_def noNeighbour_def)
  moreover have "scan_right t fn l' 0 s = scan_loop fn (entries_of (pages t) (l' # ls)) s" for s
    using Cons.IH [of l' 0 s] Cons.prems by simp
  ultimately show ?case using Cons.prems u by (intro scan_right_leaf) simp_all
qed

lemma leaf_nodes_ok:
  "shape_ok pg lf uf sh \<Longrightarrow> p \<in> set (leaves sh) \<Longrightarrow> node_wf (pg p)"
proof (induction pg lf uf sh rule: shape_ok.induct)
  case (2 pg lf uf q cs)
  then obtain i where "i < length cs" "p \<in> set (leaves (cs ! i))" using in_children [of p leaves cs] by (metis leaves.simps(2))
  then show ?case using 2 by auto
qed (simp add: node_ok_def)

lemma dropWhile_around:
  assumes "\<forall>e\<in>set xs. bytes_less (fst e) k" "\<forall>e\<in>set ys. bytes_less k (fst e)" "node_wf n"
  shows "dropWhile (\<lambda>e. fst e < k) (xs @ node_entries n @ ys) = drop (rank k n) (node_entries n) @ ys"
    "takeWhile (\<lambda>e. fst e < k) (xs @ node_entries n @ ys) = xs @ take (rank k n) (node_entries n)"
proof -
  note r = rank_spec(4,5) [OF assms(3), of k]
  have a: "\<forall>e\<in>set (take (rank k n) (node_entries n)). fst e < k" unfolding r by (auto simp: bytes_less_list)
  have b: "\<forall>e\<in>set (drop (rank k n) (node_entries n) @ ys). \<not> fst e < k"
    using assms(2) bytes_less_asym unfolding r by (auto simp: bytes_less_list)
  have e: "xs @ node_entries n @ ys = (xs @ take (rank k n) (node_entries n)) @ (drop (rank k n) (node_entries n) @ ys)" by simp
  have d: "dropWhile P (us @ vs) = vs \<and> takeWhile P (us @ vs) = us" if "\<forall>e\<in>set us. P e" "\<forall>e\<in>set vs. \<not> P e" for P :: "_ \<Rightarrow> bool" and us vs
    using that by (cases vs) (auto simp: dropWhile_append2 takeWhile_append2)
  have x: "\<forall>e\<in>set (xs @ take (rank k n) (node_entries n)). fst e < k" using assms(1) a by (auto simp: bytes_less_list)
  show "dropWhile (\<lambda>e. fst e < k) (xs @ node_entries n @ ys) = drop (rank k n) (node_entries n) @ ys"
    "takeWhile (\<lambda>e. fst e < k) (xs @ node_entries n @ ys) = xs @ take (rank k n) (node_entries n)"
    unfolding e using d [OF x b] by auto
qed

lemma scanAsc_ok:
  assumes "tree_ok t sh" "length k \<le> 64"
  shows "scanAsc t k fn s = tree_scanAsc k fn (contents (pages t) sh) s"
proof -
  obtain c l lf uf where z: "sh = plug c (Leaf l)" "hole (pages t) [] [] c = (lf, uf)"
    "descend t k metadataPageId 0 (root t) = Some (fst (parent_of (0, 0) c), snd (parent_of (0, 0) c), l)"
    "node_ok (pages t l) lf uf" "l < virtCount t"
    "contents (pages t) sh = entries_of (pages t) (left_leaves c) @ node_entries (pages t l) @ entries_of (pages t) (right_leaves c)"
    "\<forall>e\<in>set (entries_of (pages t) (left_leaves c)). bytes_less (fst e) k"
    "\<forall>e\<in>set (entries_of (pages t) (right_leaves c)). bytes_less k (fst e)" using tree_leaf [OF assms] by metis
  have wf: "node_wf (pages t l)" using z(4) by (simp add: node_ok_def)
  have lv: "leaves sh = left_leaves c @ l # right_leaves c" by (simp add: z(1) leaves_plug)
  have m: "map (\<lambda>p. upperInnerNode (pages t p)) (leaves sh) = tl (leaves sh) @ [noNeighbour]" using assms(1) by (simp add: tree_ok_def)
  have ch: "map (\<lambda>p. upperInnerNode (pages t p)) (l # right_leaves c) = right_leaves c @ [noNeighbour]"
    using arg_cong [OF m, of "drop (length (left_leaves c))"] unfolding lv by (cases "left_leaves c") simp_all
  have all: "list_all (\<lambda>p. p < virtCount t \<and> node_wf (pages t p)) (l # right_leaves c)"
  proof -
    have "p < virtCount t \<and> node_wf (pages t p)" if "p \<in> set (leaves sh)" for p
      using assms(1) leaf_nodes_ok [of "pages t" "[]" "[]" sh p] leaves_pages [of sh] that by (fastforce simp: tree_ok_def)
    then show ?thesis unfolding lv by (auto simp: list_all_iff)
  qed
  have v: "virtCount t < 2 ^ 64" using assms(1) by (simp add: tree_ok_def)
  note scan_right_leaves [OF all ch v rank_spec(1) [OF wf]]
  then show ?thesis
    using z(3,5) rank_lowerBound [OF wf assms(2)] dropWhile_around(1) [OF z(7,8) wf]
    by (simp add: scanAsc_def findLeaf_def toPtr_def tree_scanAsc_def z(6))
qed

section \<open>The fences of the leaves\<close>

definition lower_of :: "(nat \<Rightarrow> btree_node) \<Rightarrow> nat \<Rightarrow> u8 list" where
  "lower_of pg p = fence_key (heap (pg p)) (lowerFence (pg p))"

definition upper_of :: "(nat \<Rightarrow> btree_node) \<Rightarrow> nat \<Rightarrow> u8 list" where
  "upper_of pg p = fence_key (heap (pg p)) (upperFence (pg p))"

definition proper :: "u8 list \<Rightarrow> u8 list \<Rightarrow> bool" where
  "proper a b \<longleftrightarrow> a = [] \<or> b = [] \<or> bytes_less a b"

text \<open>The leaves cover the keys between two fences, each from the upper fence of the one before.\<close>

fun tiles :: "(nat \<Rightarrow> btree_node) \<Rightarrow> u8 list \<Rightarrow> nat list \<Rightarrow> u8 list \<Rightarrow> bool" where
  "tiles pg a [] b \<longleftrightarrow> a = b"
| "tiles pg a (p # ps) b \<longleftrightarrow> lower_of pg p = a \<and> proper a (upper_of pg p) \<and> (ps \<noteq> [] \<longrightarrow> upper_of pg p \<noteq> []) \<and> tiles pg (upper_of pg p) ps b"

lemma tiles_append: "tiles pg a xs b \<Longrightarrow> b \<noteq> [] \<Longrightarrow> tiles pg b ys c \<Longrightarrow> tiles pg a (xs @ ys) c"
  by (induction xs arbitrary: a) auto

lemma leaves_nonempty: "shape_ok pg lf uf sh \<Longrightarrow> leaves sh \<noteq> []"
proof (induction pg lf uf sh rule: shape_ok.induct)
  case (2 pg lf uf p cs)
  then have "0 < length cs" by simp
  then have "leaves (cs ! 0) \<noteq> []" using 2 by simp
  then show ?case using \<open>0 < length cs\<close> by (cases cs) auto
qed simp

lemma leaves_tile: "shape_ok pg lf uf sh \<Longrightarrow> proper lf uf \<Longrightarrow> tiles pg lf (leaves sh) uf"
proof (induction pg lf uf sh rule: shape_ok.induct)
  case (1 pg lf uf p)
  then show ?case by (auto simp: node_ok_def lower_of_def upper_of_def)
next
  case (2 pg lf uf p cs)
  let ?n = "pg p"
  have wf: "node_wf ?n" and ok: "node_ok ?n lf uf" and len: "length cs = Suc (count ?n)" and
    below: "\<forall>k\<in>set (keys_of ?n). uf = [] \<or> bytes_less k uf" using 2(2) by (auto simp: node_ok_def)
  note ks = keys_sorted [OF wf]
  have key: "keys_of ?n ! j \<noteq> [] \<and> within lf uf (keys_of ?n ! j) \<and> (uf = [] \<or> bytes_less (keys_of ?n ! j) uf)" if "j < count ?n" for j
    using ok that ks(2) nth_mem [of j "keys_of ?n"] below by (auto simp: node_ok_def keys_of_def)
  have pr: "proper ((lf # keys_of ?n) ! i) ((keys_of ?n @ [uf]) ! i)" if "i < length cs" for i
  proof (cases i)
    case 0
    then show ?thesis using 2(3) key [of 0] ks(2) by (cases "count ?n") (auto simp: proper_def within_def nth_append)
  next
    case (Suc j)
    then show ?thesis using that len key [of j] ks by (cases "i < count ?n") (auto simp: proper_def nth_append sorted_wrt_iff_nth_less)
  qed
  have sub: "tiles pg ((lf # keys_of ?n) ! i) (leaves (cs ! i)) ((keys_of ?n @ [uf]) ! i)" if "i < length cs" for i
    using 2(1) [OF that] 2(2) pr [OF that] that by simp
  have "tiles pg lf (concat (map leaves (take m cs))) ((lf # keys_of ?n) ! m)" if "m \<le> count ?n" "0 < m" for m
    using that
  proof (induction m)
    case (Suc m)
    have t: "take (Suc m) cs = take m cs @ [cs ! m]" using Suc.prems(1) len by (simp add: take_Suc_conv_app_nth)
    have h: "(keys_of ?n @ [uf]) ! m = (lf # keys_of ?n) ! Suc m" using Suc.prems(1) ks(2) by (simp add: nth_append)
    show ?case
    proof (cases m)
      case 0
      then show ?thesis using sub [of 0] len h t by simp
    next
      case (Suc j)
      have "tiles pg lf (concat (map leaves (take m cs))) ((lf # keys_of ?n) ! m)" using Suc.IH Suc Suc.prems(1) by simp
      moreover have "(lf # keys_of ?n) ! m \<noteq> []" using key [of j] Suc Suc.prems(1) by simp
      moreover have "tiles pg ((lf # keys_of ?n) ! m) (leaves (cs ! m)) ((lf # keys_of ?n) ! Suc m)"
        using sub [of m] len Suc.prems(1) h by simp
      ultimately show ?thesis unfolding t by (simp add: tiles_append)
    qed
  qed simp
  note this [of "count ?n"]
  moreover have c: "cs = take (count ?n) cs @ [cs ! count ?n]" using len by (metis lessI take_Suc_conv_app_nth take_all_iff order_refl)
  moreover have last: "tiles pg ((lf # keys_of ?n) ! count ?n) (leaves (cs ! count ?n)) uf" using sub [of "count ?n"] len ks(2) by (simp add: nth_append)
  ultimately show ?case
  proof (cases "count ?n")
    case 0
    then show ?thesis using last c len by (cases cs) auto
  next
    case (Suc j)
    have "tiles pg lf (concat (map leaves (take (count ?n) cs))) ((lf # keys_of ?n) ! count ?n)"
      using \<open>count ?n \<le> count ?n \<Longrightarrow> 0 < count ?n \<Longrightarrow> _\<close> Suc by simp
    moreover have "(lf # keys_of ?n) ! count ?n \<noteq> []" using key [of j] Suc by simp
    ultimately have "tiles pg lf (concat (map leaves (take (count ?n) cs)) @ leaves (cs ! count ?n)) uf" using last by (rule tiles_append)
    then show ?thesis using c by (metis concat.simps concat_append leaves.simps(2) list.map map_append append_Nil2)
  qed
qed

lemma tiles_suffix: "tiles pg a (xs @ ps) b \<Longrightarrow> \<exists>a'. tiles pg a' ps b"
  by (induction xs arbitrary: a) auto

lemma tiles_next: "tiles pg a (xs @ p # l # ys) b \<Longrightarrow> lower_of pg l = upper_of pg p \<and> upper_of pg p \<noteq> []"
proof (induction xs arbitrary: a)
  case (Cons x xs)
  then show ?case by (cases xs) auto
qed simp

lemma tiles_le:
  "tiles pg a (p # ys @ q # zs) b \<Longrightarrow> upper_of pg p \<noteq> [] \<and> lower_of pg q \<noteq> [] \<and> \<not> bytes_less (lower_of pg q) (upper_of pg p)"
proof (induction ys arbitrary: a p)
  case (Cons y ys)
  have "\<not> bytes_less (lower_of pg q) (upper_of pg y)" "lower_of pg q \<noteq> []" "upper_of pg y \<noteq> []"
    using Cons.IH [of "upper_of pg p" y] Cons.prems by auto
  moreover have "bytes_less (upper_of pg p) (upper_of pg y)" "upper_of pg p \<noteq> []" using Cons.prems calculation(3) by (auto simp: proper_def)
  ultimately show ?case using bytes_less_trans by blast
qed simp

lemma only_leaf:
  assumes "tiles pg a ls b" "p \<in> set ls" "q \<in> set ls" "within (lower_of pg p) (upper_of pg p) k" "within (lower_of pg q) (upper_of pg q) k"
  shows "p = q"
proof (rule ccontr)
  assume ne: "p \<noteq> q"
  have no: False if ls: "ls = xs @ u # ys @ v # zs" and w: "within (lower_of pg u) (upper_of pg u) k" "within (lower_of pg v) (upper_of pg v) k"
    for xs u ys v zs
  proof -
    obtain a' where "tiles pg a' (u # ys @ v # zs) b" using tiles_suffix assms(1) ls by blast
    from tiles_le [OF this] w show False using not_less_less_trans unfolding within_def by blast
  qed
  obtain xs ys where p: "ls = xs @ p # ys" using assms(2) by (meson split_list)
  then consider "q \<in> set xs" | "q \<in> set ys" using assms(3) ne by auto
  then show False
  proof cases
    case 1
    then obtain us vs where "xs = us @ q # vs" by (meson split_list)
    then show False using no [of us q vs p ys] p assms(4,5) by simp
  next
    case 2
    then obtain us vs where "ys = us @ q # vs" by (meson split_list)
    then show False using no [of xs p us q vs] p assms(4,5) by simp
  qed
qed

section \<open>Descending\<close>

lemma scan_left_leaf:
  assumes "l < virtCount t" "node_wf (pages t l)"
    and "\<And>s. (if \<not> hasLowerFence (pages t l) then Some s
      else do { lf \<leftarrow> getLowerFence (pages t l); pid \<leftarrow> findLeaf t lf; n \<leftarrow> toPtr t pid; scan_left t fn em pid (int (count n) - 1) s })
      = scan_loop (\<lambda>k v. fn k v em) rest s"
  shows "m \<le> count (pages t l) \<Longrightarrow>
    scan_left t fn em l (int m - 1) s = scan_loop (\<lambda>k v. fn k v em) (rev (take m (node_entries (pages t l))) @ rest) s"
proof (induction m arbitrary: s)
  case 0
  then show ?case using assms(1) assms(3) [of s] by (subst scan_left.simps) (simp add: toPtr_def)
next
  case (Suc m)
  let ?n = "pages t l"
  obtain k v where e: "node_entries ?n ! m = (k, v)" by fastforce
  have d: "rev (take (Suc m) (node_entries ?n)) = (k, v) # rev (take m (node_entries ?n))"
    using Suc.prems e entries_sorted(2) [OF assms(2)] by (simp add: take_Suc_conv_app_nth)
  have ih: "scan_left t fn em l (int m - 1) s = scan_loop (\<lambda>k v. fn k v em) (rev (take m (node_entries ?n)) @ rest) s" for s
    using Suc.IH Suc.prems by simp
  show ?case
    using assms(1) Suc.prems entry_at_nth [OF assms(2), of m] e ih by (subst scan_left.simps) (simp add: toPtr_def d cong: if_cong)
qed

lemma find_left:
  assumes t: "tree_ok t sh" and l: "leaves sh = xs @ p # l # ys"
  shows "findLeaf t (lower_of (pages t) l) = Some p"
proof -
  let ?k = "lower_of (pages t) l"
  have s: "shape_ok (pages t) [] [] sh" using t by (simp add: tree_ok_def)
  have wf: "node_wf (pages t l)" by (rule leaf_nodes_ok [OF s]) (simp add: l)
  have k: "length ?k \<le> 64" using getFence_ok(3,5) [OF wf] by (simp add: lower_of_def)
  have ti: "tiles (pages t) [] (leaves sh) []" by (rule leaves_tile [OF s]) (simp add: proper_def)
  have up: "?k = upper_of (pages t) p" using tiles_next [OF ti [unfolded l]] by simp
  obtain c q lf uf where z: "sh = plug c (Leaf q)"
    "descend t ?k metadataPageId 0 (root t) = Some (fst (parent_of (0, 0) c), snd (parent_of (0, 0) c), q)"
    "node_ok (pages t q) lf uf" "within lf uf ?k" using tree_leaf [OF t k] by metis
  have q: "q \<in> set (leaves sh)" by (simp add: z(1) leaves_plug)
  have wq: "within (lower_of (pages t) q) (upper_of (pages t) q) ?k" using z(3,4) by (simp add: lower_of_def upper_of_def node_ok_def)
  obtain a where "tiles (pages t) a (p # l # ys) []" using tiles_suffix ti unfolding l by blast
  then have "within (lower_of (pages t) p) (upper_of (pages t) p) ?k" using up by (auto simp: within_def proper_def)
  then have "q = p" using only_leaf [OF ti q _ wq] l by auto
  then show ?thesis using z(2) by (simp add: findLeaf_def)
qed

lemma scan_left_leaves:
  assumes "tree_ok t sh"
  shows "leaves sh = xs @ l # ys \<Longrightarrow> m \<le> count (pages t l) \<Longrightarrow>
    scan_left t fn em l (int m - 1) s = scan_loop (\<lambda>k v. fn k v em) (rev (take m (node_entries (pages t l))) @ rev (entries_of (pages t) xs)) s"
proof (induction xs arbitrary: l ys m s rule: rev_induct)
  case Nil
  have s: "shape_ok (pages t) [] [] sh" using assms by (simp add: tree_ok_def)
  have wf: "node_wf (pages t l)" by (rule leaf_nodes_ok [OF s]) (simp add: Nil)
  have v: "l < virtCount t" using assms leaves_pages [of sh] Nil(1) by (fastforce simp: tree_ok_def)
  have ti: "tiles (pages t) [] (leaves sh) []" by (rule leaves_tile [OF s]) (simp add: proper_def)
  have "lower_of (pages t) l = []" using ti Nil(1) by simp
  then have "\<not> hasLowerFence (pages t l)" using getFence_ok(3) [OF wf] by (simp add: lower_of_def hasLowerFence_def)
  then show ?case using Nil(2) by (intro scan_left_leaf [OF v wf]) simp_all
next
  case (snoc p xs)
  have s: "shape_ok (pages t) [] [] sh" using assms by (simp add: tree_ok_def)
  have wf: "node_wf (pages t l)" by (rule leaf_nodes_ok [OF s]) (simp add: snoc)
  have lv: "leaves sh = xs @ p # l # ys" using snoc(2) by simp
  have v: "l < virtCount t" "p < virtCount t" using assms leaves_pages [of sh] lv by (fastforce simp: tree_ok_def)+
  have wp: "node_wf (pages t p)" by (rule leaf_nodes_ok [OF s]) (simp add: snoc)
  have ti: "tiles (pages t) [] (leaves sh) []" by (rule leaves_tile [OF s]) (simp add: proper_def)
  have "lower_of (pages t) l \<noteq> []" using tiles_next [OF ti [unfolded lv]] by simp
  then have h: "hasLowerFence (pages t l)" using getFence_ok(3) [OF wf] by (simp add: lower_of_def hasLowerFence_def) (metis length_greater_0_conv)
  have g: "getLowerFence (pages t l) = Some (lower_of (pages t) l)" using getFence_ok(1) [OF wf] by (simp add: lower_of_def)
  have "scan_left t fn em p (int (count (pages t p)) - 1) s =
      scan_loop (\<lambda>k v. fn k v em) (rev (entries_of (pages t) (xs @ [p]))) s" for s
    using snoc.IH [OF lv order_refl, of s] entries_sorted(2) [OF wp] by simp
  then show ?case using snoc(3) h g find_left [OF assms lv] v(2) by (intro scan_left_leaf [OF v(1) wf]) (simp_all add: toPtr_def)
qed

lemma btree_scanDesc_ok:
  assumes "tree_ok t sh" "length k \<le> 64"
  shows "\<exists>leaf_end. btree_scanDesc t k fn s = tree_scanDesc leaf_end k fn (contents (pages t) sh) s
    \<and> (leaf_end \<longrightarrow> k \<notin> fst ` set (contents (pages t) sh))"
proof -
  obtain c l lf uf where z: "sh = plug c (Leaf l)"
    "descend t k metadataPageId 0 (root t) = Some (fst (parent_of (0, 0) c), snd (parent_of (0, 0) c), l)"
    "node_ok (pages t l) lf uf" "l < virtCount t"
    "contents (pages t) sh = entries_of (pages t) (left_leaves c) @ node_entries (pages t l) @ entries_of (pages t) (right_leaves c)"
    "\<forall>e\<in>set (entries_of (pages t) (left_leaves c)). bytes_less (fst e) k"
    "\<forall>e\<in>set (entries_of (pages t) (right_leaves c)). bytes_less k (fst e)" using tree_leaf [OF assms] by metis
  let ?n = "pages t l" and ?L = "entries_of (pages t) (left_leaves c)" and ?R = "entries_of (pages t) (right_leaves c)"
  let ?r = "rank k ?n"
  have wf: "node_wf ?n" using z(3) by (simp add: node_ok_def)
  have lv: "leaves sh = left_leaves c @ l # right_leaves c" by (simp add: z(1) leaves_plug)
  note around = dropWhile_around [OF z(6,7) wf]
  have len: "length (node_entries ?n) = count ?n" by (rule entries_sorted(2) [OF wf])
  have run: "btree_scanDesc t k fn s = (if ?r = count ?n then scan_left t fn True l (int ?r - 1) s
      else scan_left t fn (k \<in> set (keys_of ?n)) l (int (Suc ?r) - 1) s)"
    using z(2,4) rank_lowerBound [OF wf assms(2)] by (simp add: btree_scanDesc_def findLeaf_def toPtr_def)
  show ?thesis
  proof (cases "?r = count ?n")
    case True
    have "scan_left t fn True l (int ?r - 1) s = scan_loop (\<lambda>k v. fn k v True) (rev (?L @ take ?r (node_entries ?n))) s"
      using scan_left_leaves [OF assms(1) lv, of ?r] True by simp
    then have "btree_scanDesc t k fn s = tree_scanDesc True k fn (contents (pages t) sh) s"
      using run True around(2) by (simp add: tree_scanDesc_def Let_def z(5))
    moreover have "k \<notin> fst ` set (contents (pages t) sh)"
    proof -
      have "bytes_less (fst e) k" if "e \<in> set (node_entries ?n)" for e
      proof -
        have "node_entries ?n = filter (\<lambda>e. bytes_less (fst e) k) (node_entries ?n)" using rank_spec(4) [OF wf, of k] True len by simp
        then show ?thesis using that by (metis (no_types, lifting) mem_Collect_eq set_filter)
      qed
      then show ?thesis using z(6,7) unfolding z(5) by fastforce
    qed
    ultimately show ?thesis by blast
  next
    case False
    then have r: "?r < count ?n" using rank_spec(1) [OF wf, of k] by simp
    obtain k' v' where e: "node_entries ?n ! ?r = (k', v')" by fastforce
    have kk: "keys_of ?n ! ?r = k'" using e r len by (simp add: keys_of_def)
    have d: "drop ?r (node_entries ?n) = (k', v') # drop (Suc ?r) (node_entries ?n)" using r len e by (metis Cons_nth_drop_Suc)
    have eq: "k \<in> set (keys_of ?n) \<longleftrightarrow> k' = k" using leaf_at(2) [OF wf assms(2)] kk r keys_sorted(2) [OF wf] by (metis nth_mem)
    have "scan_left t fn (k' = k) l (int (Suc ?r) - 1) s =
        scan_loop (\<lambda>x v. fn x v (k' = k)) (rev (take (Suc ?r) (node_entries ?n)) @ rev ?L) s"
      by (rule scan_left_leaves [OF assms(1) lv]) (use r in simp)
    moreover have "rev (take (Suc ?r) (node_entries ?n)) = (k', v') # rev (take ?r (node_entries ?n))"
      using r e len by (simp add: take_Suc_conv_app_nth)
    ultimately have "btree_scanDesc t k fn s = tree_scanDesc False k fn (contents (pages t) sh) s"
      using run False eq around d by (simp add: tree_scanDesc_def Let_def z(5) cong: if_cong)
    then show ?thesis by blast
  qed
qed

section \<open>The tables of the adapter\<close>

lemma holds_ascending: "holds t es \<Longrightarrow> ascending es"
  using contents_sorted by (fastforce simp: holds_def tree_ok_def ascending_def bytes_less_list [abs_def])

lemma t_insert_put: "ascending es \<Longrightarrow> t_insert k v es = put k v es" for k :: "u8 list"
proof (induction es)
  case (Cons e es)
  obtain k' v' where e: "e = (k', v')" by fastforce
  show ?case
  proof (cases "k' < k")
    case True
    then show ?thesis using Cons by (simp add: e put_def bytes_less_list)
  next
    case False
    then have "\<not> fst x < k" if "x \<in> set es" for x using Cons.prems that by (auto simp: e)
    then have "filter (\<lambda>x. fst x < k) es = []" "filter (\<lambda>x. \<not> fst x < k) es = es" by (auto simp: filter_empty_conv filter_id_conv)
    then show ?thesis using False by (simp add: e put_def bytes_less_list)
  qed
qed (simp add: put_def)

lemma t_update_alter:
  assumes "ascending es" "\<And>v. map_of es k = Some v \<Longrightarrow> f v \<noteq> None"
  shows "t_update k f es = Some (case map_of es k of None \<Rightarrow> es | Some v \<Rightarrow> alter k (the (f v)) es)"
  using assms
proof (induction es)
  case (Cons e es)
  obtain k' v' where e: "e = (k', v')" by fastforce
  show ?case
  proof (cases "k' = k")
    case True
    then obtain v where v: "f v' = Some v" using Cons.prems(2) by (auto simp: e)
    have "alter k v es = es" using Cons.prems(1) True by (auto simp: alter_def e intro!: map_idI)
    then show ?thesis using True v by (simp add: e alter_def)
  next
    case False
    then show ?thesis using Cons by (auto simp: e alter_def split: option.splits)
  qed
qed simp

text \<open>A tree of one leaf.\<close>

definition small_tree :: btree where
  "small_tree = \<lparr>pages = (\<lambda>_. blank_node)(1 := leaf2), root = 1, allocCount = 2, virtCount = 100, splitOrdered = False\<rparr>"

lemma unfenced_insert_links:
  assumes "unfenced n es" "length key \<le> 64" "length payload \<le> 64" "length es \<le> 100"
    "(\<Sum>e\<leftarrow>es. length (fst e) + length (snd e)) \<le> 1000" "key \<notin> fst ` set es"
  shows "isLeaf (the (insertInPage blank_node n key payload)) = isLeaf n"
    "upperInnerNode (the (insertInPage blank_node n key payload)) = upperInnerNode n"
proof -
  have n: "node_wf n" "key \<notin> fst ` set (node_entries n)" using assms(1,6) by (simp_all add: unfenced_def)
  obtain n' where "insertInPage blank_node n key payload = Some n'" "isLeaf n' = isLeaf n" "upperInnerNode n' = upperInnerNode n"
    using node_insert [OF n(1) unfenced_insert(1) [OF assms] n(2)] by metis
  then show "isLeaf (the (insertInPage blank_node n key payload)) = isLeaf n"
    "upperInnerNode (the (insertInPage blank_node n key payload)) = upperInnerNode n" by simp_all
qed

lemma small_tree_ok: "tree_ok small_tree (Leaf 1)"
proof -
  have "node_ok leaf2 [] []" using leaf_nodes(3) by (auto simp: unfenced_def node_ok_def within_def)
  moreover have "isLeaf leaf2 \<and> upperInnerNode leaf2 = noNeighbour"
    using unfenced_insert_links [OF leaf_nodes(1), of "[5, 1]" "[11]"] unfenced_insert_links [OF leaf_nodes(2), of "[3]" "[12]"]
    by (simp add: leaf1_def [symmetric] leaf2_def [symmetric]) (simp add: leaf0_def btree_new_def)
  ultimately show ?thesis using blank_ok by (simp add: tree_ok_def small_tree_def)
qed

lemma small_tree_holds: "holds small_tree [([3], [12]), ([5, 1], [11])]"
proof -
  have "contents (pages small_tree) (Leaf 1) = [([3], [12]), ([5, 1], [11])]"
    using leaf2_facts(2) by (simp add: small_tree_def)
  then show ?thesis using small_tree_ok unfolding holds_def by blast
qed

section \<open>Properties\<close>

text \<open>C5. A B-tree, however its entries lie on its pages, is for its readers the ascending table of these entries: lookups find
  exactly the payload of the key, and both scans call their function as the scans of the table do, on all leaves.\<close>

theorem tree_reads_table:
  assumes "holds t es" "length k \<le> 64"
  shows "ascending es \<and> btree_lookup t k = Some (map_of es k) \<and> scanAsc t k up s = tree_scanAsc k up es s
    \<and> (\<exists>leaf_end. btree_scanDesc t k down s = tree_scanDesc leaf_end k down es s \<and> (leaf_end \<longrightarrow> map_of es k = None))"
proof -
  obtain sh where t: "tree_ok t sh" "contents (pages t) sh = es" using assms(1) unfolding holds_def by blast
  show ?thesis
    using holds_ascending [OF assms(1)] btree_lookup_map [OF t(1) assms(2)] scanAsc_ok [OF t(1) assms(2)]
      btree_scanDesc_ok [OF t(1) assms(2), of down s] by (simp add: t(2) map_of_eq_None_iff)
qed

theorem tree_reads_table_witness:
  "btree_lookup small_tree [3] = Some (Some [12]) \<and> btree_lookup small_tree [4] = Some None
     \<and> scanAsc small_tree [4] (\<lambda>k v s. Some (True, s @ [(k, v)])) [] = Some [([5, 1], [11])]"
  using tree_reads_table [OF small_tree_holds, of "[3]" "\<lambda>k v s. Some (True, s @ [(k, v)])" "[]" "\<lambda>k v b s. Some (True, s)"]
    tree_reads_table [OF small_tree_holds, of "[4]" "\<lambda>k v s. Some (True, s @ [(k, v)])" "[]" "\<lambda>k v b s. Some (True, s)"]
  by (simp add: tree_scanAsc_def)

text \<open>C6. An update in place of a key, which keeps the length of its payload, changes the tree as the update of the table
  changes the table, and says whether the key was there.\<close>

theorem tree_updates_table:
  assumes "holds t es" "length k \<le> 64" "\<forall>v. map_of es k = Some v \<longrightarrow> (\<exists>v'. f v = Some v' \<and> length v' = length v)"
  shows "\<exists>t' es'. updateInPlace t k f = Some (k \<in> fst ` set es, t') \<and> t_update k f es = Some es' \<and> holds t' es'"
proof -
  obtain sh where t: "tree_ok t sh" "contents (pages t) sh = es" using assms(1) unfolding holds_def by blast
  have f: "\<exists>v'. f v = Some v' \<and> length v' = length v" if "map_of (contents (pages t) sh) k = Some v" for v using assms(3) that t(2) by blast
  have "t_update k f es = Some (case map_of es k of None \<Rightarrow> es | Some v \<Rightarrow> alter k (the (f v)) es)"
    by (rule t_update_alter [OF holds_ascending [OF assms(1)]]) (use assms(3) in fastforce)
  then show ?thesis using updateInPlace_ok [OF t(1) assms(2) f] t(2) unfolding holds_def by blast
qed

theorem tree_updates_table_witness:
  "\<exists>t'. updateInPlace small_tree [3] (\<lambda>_. Some [9]) = Some (True, t') \<and> holds t' [([3], [9]), ([5, 1], [11])]"
  using tree_updates_table [OF small_tree_holds, of "[3]" "\<lambda>_. Some [9]"] by auto

end
