(* ===== verification/Spec2Isabelle.thy ===== *)
theory Spec2Isabelle
  imports Varint Utf KvRun Bitvec PageState Rte BTreeNode LeafMap Bfs
    Schema Generator Adapter Workload Loader Loading Carriers Filling Consistency Progress Reports
    BTreeOps PageTree TreeMap TreeScan
begin

text \<open>
  Benchmark programs for the OSv unikernel: a model of their own logic and the theorems that make it correct.

  The repository holds independent programs, each a directory under \<open>src/\<close>. Three have logic of their own: the
  key-value and TPC-C benchmark on a B-tree over a page cache (\<open>integrated_vmcache\<close>), the parallel breadth-first
  search (\<open>bfs\<close>) and the SQLite key-value test (\<open>kvtest\<close>, which brings the SQLite amalgamation). The C++ program
  is compiled with \<open>-DNDEBUG\<close>, so that its assertions are not there; the model leaves them out too.

  \<^bold>\<open>integrated_vmcache.\<close> The TPC-C transactions (\<open>tpcc/TPCCWorkload.hpp\<close>) work on tables, each a \<open>vmcacheAdapter\<close>
  that folds keys into bytes which compare as the keys do and keeps records in a B-tree of slotted pages; the pages are
  latched through the versioned states of the buffer manager and are copied and compared with the vector routines of
  \<open>rte_string.hh\<close>. From the bottom up:

    \<^item> \<open>Rte\<close>: \<open>rte_memcpy\<close>, \<open>rte_memcmp\<close> and the block copies of \<open>rte_string.hh\<close>, word by word over byte lists, where an
      access outside of a buffer is \<open>None\<close>.
    \<^item> \<open>PageState\<close>: the latch (\<open>struct PageState\<close>), the guards that take it (\<open>GuardO\<close>, \<open>GuardS\<close>, \<open>GuardX\<close>, \<open>fixX\<close>, \<open>fixS\<close>) and the eviction
      test as atomic steps on one 64-bit word and the flag \<open>dirty\<close> of the page, interleaved by any number of threads as an
      inductive step relation. The state remembers whether the cache has asked for the eviction of a page in one of the two
      situations that \<open>vmcache_canBeEvicted\<close> answers wrongly (\<open>misuse\<close>); exclusion holds until then, and until the version of
      56 bits wraps around.
    \<^item> \<open>BTreeNode\<close>: the node (\<open>struct BTreeNode\<close>) as a record with its slots and its heap of 4096 bytes, and every function on it.
      \<open>node_wf\<close> is its invariant. \<open>LeafMap\<close> states the contract of a sorted store as the locale \<open>sorted_store\<close> and
      interprets it on the functions of the node.
    \<^item> \<open>BTreeOps\<close>: \<open>struct BTree\<close> over a map from page numbers to nodes, with lookups, scans, splitting, insertion and
      removal. \<open>PageTree\<close> says what the pages represent (\<open>shape\<close>, \<open>shape_ok\<close>), \<open>TreeMap\<close> that they are a map (\<open>holds\<close>) and
      \<open>TreeScan\<close> that the scans go through the entries in order. So lookups, scans, updates
      in place and insertion into a leaf with room are those of an ascending table. Splitting, hence insertion in general, and
      removal with its merging are defined in \<open>BTreeOps\<close> but have no theorem on the tree as a whole, only on a node.
    \<^item> \<open>Schema\<close>: \<open>Varchar\<close>, \<open>foldKey\<close> and \<open>unfoldKey\<close> of the eleven tables (\<open>tpcc/Types.hpp\<close>, \<open>tpcc/Schema.hpp\<close>).
      \<open>Adapter\<close>: \<open>vmcacheAdapter\<close> over the ascending table of entries that a B-tree stands for.
    \<^item> \<open>Generator\<close>: the Mersenne Twister and the ranges drawn from it (\<open>tpcc/RandomGenerator.hpp\<close>).
    \<^item> \<open>Workload\<close> and \<open>Loader\<close>: the transactions and the loading functions of \<open>tpcc/TPCCWorkload.hpp\<close>, the loop of a thread and the
      loading phase of \<open>main\<close>. \<open>Consistency\<close> states the invariant \<open>consistent\<close> of the tables, \<open>Progress\<close> that no transaction
      stops, \<open>Carriers\<close> that no transaction loses a new order (\<open>new_exact\<close>), \<open>Loading\<close> and \<open>Filling\<close> that the tables are so after
      loading, \<open>Reports\<close> what the transactions compute.

  \<^bold>\<open>bfs.\<close> \<open>Bfs\<close>: the bitmap of the visited vertices, one level with its workers as an inductive relation of
  interleaved steps, the collection of the next frontier and the levels of \<open>bfs_main\<close>.

  \<^bold>\<open>kvtest.\<close> \<open>Varint\<close>, \<open>Utf\<close> (both over the contract of a self-delimiting encoding in \<open>Codec\<close>), \<open>Strings\<close> and \<open>Bitvec\<close> model
  self-contained routines of the amalgamation; \<open>KvArgs\<close>, \<open>KvFiles\<close> and \<open>KvRun\<close> model \<open>kvtest.c\<close>: its command lines, the files that
  it writes and reads, and its commands over a table of blobs.

  \<^bold>\<open>How the code appears.\<close> A C integer of fixed width is a word where its width matters and a number where a
  lemma bounds it; a buffer is a list of bytes, and reading or writing outside of it is \<open>None\<close>; a failing assertion that is
  compiled in, \<open>exit\<close> and an exception that nobody catches are \<open>None\<close> too. A mutable object is passed along
  explicitly. Memory that the code reads before it writes (a node on the stack, what lies behind a vector) is an argument.
  What is not under \<open>src/\<close> is a parameter: \<open>double\<close> with its operations in \<open>Workload\<close>, the
  calls of SQLite and of the file system in \<open>KvRun\<close> and \<open>KvFiles\<close>.

  \<^bold>\<open>What is shown.\<close> Invariants and that every operation keeps them: nodes stay well-formed, latches exclusive, tables
  consistent, bitmaps trees of their three kinds. Functions against reference definitions: the unrolled varint reader against the
  plain loop, the vector copies against list append, the generator against its recurrence, the breadth-first search
  against distances in the graph. Refinement: node to map, B-tree to ascending table, folded keys to tuples, bitmap to set.
  Round trips of all encodings. Termination and progress: every loop is total, or a lemma gives its result,
  as \<open>Filling.load_then_run\<close> does for loading and running together. Where the code does not do what it means to, a theorem says
  what it does instead (\<open>Rte.rte_memcmp_overrun\<close>, \<open>PageState.canBeEvicted_flaws\<close>, \<open>PageState.unlockX_wraps_into_state\<close>,
  \<open>Reports.orderStatus_latest\<close>).

  \<^bold>\<open>Bounds.\<close> Keys of a node have at most 64 bytes and entries fit in a page, as the folded keys of the benchmark do; copies and
  comparisons are of buffers of less than \<open>2 ^ 63\<close> bytes. The loops of the B-tree over pages are partial functions, which are \<open>None\<close>
  where the code does not return; on pages that are a tree lookups, scans and updates return. \<open>parallel_for\<close>
  is one too, since its 32-bit index wraps around for \<open>2 ^ 32\<close> threads. The loops over a command line
  in \<open>KvArgs\<close> take the number of arguments as fuel, of which every step uses up at least one.

  \<^bold>\<open>Not modelled.\<close> The set-up of the buffer manager and its calls of the uCache page cache, whose code is not in the repository.
  Restarts of an optimistic B-tree operation and transactions that run at the same time: the operations of the B-tree and the
  transactions run one after the other, and only the latches are interleaved. Drivers that create and pin threads, measure
  and print. The adapters to DuckDB and fio, both between interfaces that are not in the repository; the memory-map and
  NVMe benchmarks, which are loops around system calls. The rest of SQLite and its shell, which are third-party programs.
\<close>

end
